(* ===== verification/KG_Prelude.thy ===== *)
theory KG_Prelude
  imports Main "HOL-Library.Word"
begin

text \<open>
  Shared material of the development: the fixed-width integer types of the C sources, error
  values, the fact collections used by the component proofs, and the pieces of the C standard
  library (character classes, \<open>strtoul\<close>, \<open>strtok_r\<close>, \<open>strcasecmp\<close>) and of struct
  layout (little- and big-endian byte order) that several components rely on.
\<close>

unbundle bit_operations_syntax

section \<open>Types and fact collections\<close>

type_synonym u8 = "8 word"
type_synonym u16 = "16 word"
type_synonym u32 = "32 word"
type_synonym u64 = "64 word"
type_synonym bytes = "u8 list"

named_theorems kg_const \<open>numeric values of the named constants of the sources\<close>
named_theorems kg_inv \<open>operations that keep a component invariant\<close>
named_theorems kg_frame \<open>state components an operation does not touch\<close>

text \<open>
  The error numbers the sources return.  \<open>E_ext\<close> carries an error number handed back by code
  outside the repository (the crypto API, the page allocator, the notifier chain).
\<close>

datatype errno =
    EPERM | ENOMEM | EFAULT | EBUSY | ENODEV | EINVAL | ENOTTY | EUCLEAN | ENODATA | ERANGE | ENOSPC | E_ext nat

section \<open>Lists\<close>

lemma take_update_append:
  assumes "f + n \<le> length b" and "length xs = n"
  shows "take (f + n) (take f b @ xs @ drop (f + n) b) = take f b @ xs"
  using assms by (simp add: min_def)

lemma list_all_replicate [simp]: "list_all P (replicate n x) \<longleftrightarrow> n = 0 \<or> P x"
  by (induction n) auto

lemma nth_list_update_if:
  "i < length xs \<Longrightarrow> xs[j := v] ! i = (if i = j then v else xs ! i)"
  by simp

lemma set_update_subset: "set (xs[i := v]) \<subseteq> insert v (set xs)"
  by (rule set_update_subset_insert)

lemma mod_window_neq:
  fixes k l n :: nat
  assumes "k < l" and "l < k + n"
  shows "k mod n \<noteq> l mod n"
proof
  assume "k mod n = l mod n"
  then have "n dvd l - k" using assms(1) by (metis mod_eq_dvd_iff_nat less_imp_le)
  then have "n \<le> l - k" using assms(1) by (intro dvd_imp_le) simp_all
  with assms show False by simp
qed

lemma diff_mult_div:
  fixes m a n :: nat
  assumes "0 < n"
  shows "(m - a * n) div n = m div n - a"
proof (cases "a * n \<le> m")
  case True
  then have "m div n = (m - a * n + a * n) div n" by simp
  then show ?thesis using assms by simp
next
  case False
  then have "m div n < a" using assms by (simp add: less_mult_imp_div_less not_le)
  with False show ?thesis by simp
qed

section \<open>Words\<close>

lemma unat_bound: "unat (x :: 'a::len word) < 2 ^ LENGTH('a)"
  by (rule unsigned_less)

lemma unat_of_nat_small: "n < 2 ^ LENGTH('a) \<Longrightarrow> unat (of_nat n :: 'a::len word) = n"
  by (simp add: unsigned_of_nat take_bit_nat_eq_self)

lemma unat_ucast_up:
  fixes x :: "'a::len word"
  assumes "LENGTH('a) \<le> LENGTH('b::len)"
  shows "unat (ucast x :: 'b word) = unat x"
proof -
  have "unat x < 2 ^ LENGTH('b)"
    by (rule less_le_trans [OF unat_bound]) (simp add: power_increasing assms)
  then show ?thesis by (simp add: unsigned_ucast_eq take_bit_nat_eq_self)
qed

lemma unat_min: "unat (min a b) = min (unat a) (unat b)"
  by (simp add: min_def word_le_nat_alt)

lemma unat_plus_one:
  fixes x :: "'a::len word"
  assumes "x + 1 \<noteq> 0"
  shows "unat (x + 1) = Suc (unat x)"
  using assms by (metis unatSuc add.commute)

lemma word_or_zero_iff [simp]: "(a OR b = (0 :: 'a::len word)) \<longleftrightarrow> a = 0 \<and> b = 0"
  by (rule or_eq_0_iff)

lemma word_xor_zero_iff: "(a XOR b = (0 :: 'a::len word)) \<longleftrightarrow> a = b"
  by (metis xor_self_eq xor.right_neutral xor.assoc)

section \<open>Byte order\<close>

text \<open>Little-endian images of the integer fields of a packed struct on x86-64.\<close>

definition le16 :: "u16 \<Rightarrow> bytes" where
  "le16 w = [ucast w, ucast (drop_bit 8 w)]"

definition le32 :: "u32 \<Rightarrow> bytes" where
  "le32 w = [ucast w, ucast (drop_bit 8 w), ucast (drop_bit 16 w), ucast (drop_bit 24 w)]"

definition le64 :: "u64 \<Rightarrow> bytes" where
  "le64 w = le32 (ucast w) @ le32 (ucast (drop_bit 32 w))"

definition be32 :: "u32 \<Rightarrow> bytes" where
  "be32 w = [ucast (drop_bit 24 w), ucast (drop_bit 16 w), ucast (drop_bit 8 w), ucast w]"

lemma length_le16 [simp]: "length (le16 w) = 2" by (simp add: le16_def)
lemma length_le32 [simp]: "length (le32 w) = 4" by (simp add: le32_def)
lemma length_le64 [simp]: "length (le64 w) = 8" by (simp add: le64_def)
lemma length_be32 [simp]: "length (be32 w) = 4" by (simp add: be32_def)

lemma ucast_window_bit:
  fixes a b :: "'a::len word"
  assumes "(ucast (drop_bit k a) :: 'b::len word) = ucast (drop_bit k b)"
    and "k \<le> n" and "n < k + LENGTH('b)" and "n < LENGTH('a)"
  shows "bit a n = bit b n"
proof -
  have "n - k < LENGTH('b)" using assms(2,3) by arith
  then show ?thesis
    using arg_cong [OF assms(1), of "\<lambda>w. bit w (n - k)"] assms(2) by (simp add: bit_simps)
qed

lemma le16_inj [simp]: "le16 a = le16 b \<longleftrightarrow> a = b"
proof
  assume "le16 a = le16 b"
  then have *: "(ucast (drop_bit 0 a) :: u8) = ucast (drop_bit 0 b)"
    "(ucast (drop_bit 8 a) :: u8) = ucast (drop_bit 8 b)"
    by (simp_all add: le16_def)
  show "a = b"
  proof (rule bit_word_eqI)
    fix n assume "n < LENGTH(16)"
    then consider "n < 8" | "8 \<le> n" "n < 16" by fastforce
    then show "bit a n = bit b n"
      by cases (use ucast_window_bit [OF *(1), of n] ucast_window_bit [OF *(2), of n] in simp_all)
  qed
qed simp

lemma le32_inj [simp]: "le32 a = le32 b \<longleftrightarrow> a = b"
proof
  assume "le32 a = le32 b"
  then have *: "(ucast (drop_bit 0 a) :: u8) = ucast (drop_bit 0 b)"
    "(ucast (drop_bit 8 a) :: u8) = ucast (drop_bit 8 b)"
    "(ucast (drop_bit 16 a) :: u8) = ucast (drop_bit 16 b)"
    "(ucast (drop_bit 24 a) :: u8) = ucast (drop_bit 24 b)"
    by (simp_all add: le32_def)
  show "a = b"
  proof (rule bit_word_eqI)
    fix n assume "n < LENGTH(32)"
    then consider "n < 8" | "8 \<le> n" "n < 16" | "16 \<le> n" "n < 24" | "24 \<le> n" "n < 32"
      by fastforce
    then show "bit a n = bit b n"
      by cases (use * [THEN ucast_window_bit, of n] in simp_all)
  qed
qed simp

lemma le64_inj [simp]: "le64 a = le64 b \<longleftrightarrow> a = b"
proof
  assume "le64 a = le64 b"
  then have *: "(ucast (drop_bit 0 a) :: u32) = ucast (drop_bit 0 b)"
    "(ucast (drop_bit 32 a) :: u32) = ucast (drop_bit 32 b)"
    by (simp_all add: le64_def)
  show "a = b"
  proof (rule bit_word_eqI)
    fix n assume "n < LENGTH(64)"
    then consider "n < 32" | "32 \<le> n" "n < 64" by fastforce
    then show "bit a n = bit b n"
      by cases (use * [THEN ucast_window_bit, of n] in simp_all)
  qed
qed simp

text \<open>The value of a little-endian field read from memory.\<close>

fun le_val :: "bytes \<Rightarrow> nat" where
  "le_val [] = 0"
| "le_val (b # bs) = unat b + 256 * le_val bs"

lemma le_val_less: "le_val bs < 256 ^ length bs"
proof (induction bs)
  case (Cons b bs)
  have "unat b < 256" using unat_bound [of b] by simp
  moreover have "256 * le_val bs + 256 \<le> 256 * 256 ^ length bs"
    using Cons mult_le_mono2 [of "Suc (le_val bs)" "256 ^ length bs" 256] by simp
  ultimately show ?case by simp
qed simp

lemma le_val_inj: "length a = length b \<Longrightarrow> le_val a = le_val b \<Longrightarrow> a = b"
proof (induction a b rule: list_induct2)
  case (Cons x xs y ys)
  have b: "unat x < 256" "unat y < 256" using unat_bound [of x] unat_bound [of y] by simp_all
  have e: "unat x + 256 * le_val xs = unat y + 256 * le_val ys" using Cons.prems by simp
  have "unat x = unat y" using arg_cong [OF e, of "\<lambda>v. v mod 256"] b by simp
  moreover from this e have "le_val xs = le_val ys" by simp
  ultimately show ?case using Cons.IH by (simp add: word_unat_eq_iff)
qed simp

lemma byte_of_word: "unat (ucast (drop_bit k w) :: u8) = unat (w :: 'a::len word) div 2 ^ k mod 256"
  by (simp add: unsigned_ucast_eq take_bit_eq_mod unat_drop_bit_eq) (simp add: drop_bit_eq_div)

lemma four_bytes:
  "n < 4294967296 \<Longrightarrow> n mod 256 + 256 * (n div 256 mod 256 + 256 * (n div 65536 mod 256 + 256 * (n div 16777216 mod 256))) = (n::nat)"
proof -
  assume n: "n < 4294967296"
  have s: "m mod 256 + 256 * (m div 256) = m" for m :: nat by simp
  have 2: "n div 256 div 256 = n div 65536" "n div 65536 div 256 = n div 16777216"
    by (simp_all add: div_mult2_eq [symmetric])
  have "n div 16777216 < 256" using n by (intro less_mult_imp_div_less) simp
  then have "n div 16777216 mod 256 = n div 16777216" by simp
  then have "n div 65536 mod 256 + 256 * (n div 16777216 mod 256) = n div 65536" using s [of "n div 65536"] 2 by simp
  then show ?thesis using s [of "n div 256"] s [of n] 2 by simp
qed

lemma le_val_le32: "le_val (le32 w) = unat w"
proof -
  have "unat w < 4294967296" using unat_bound [of w] by simp
  from four_bytes [OF this] show ?thesis
    using byte_of_word [of 0 w] byte_of_word [of 8 w] byte_of_word [of 16 w] byte_of_word [of 24 w]
    by (simp add: le32_def)
qed

lemma le_val_append: "le_val (a @ b) = le_val a + 256 ^ length a * le_val b"
  by (induction a) (simp_all add: algebra_simps)

lemma le_val_le64: "le_val (le64 w) = unat w"
proof -
  have lo: "unat (ucast w :: u32) = unat w mod 4294967296"
    by (simp add: unsigned_ucast_eq take_bit_eq_mod)
  have hi: "unat (ucast (drop_bit 32 w) :: u32) = unat w div 4294967296 mod 4294967296"
    by (simp add: unsigned_ucast_eq take_bit_eq_mod unat_drop_bit_eq) (simp add: drop_bit_eq_div)
  have "unat w < 4294967296 * 4294967296" using unat_bound [of w] by simp
  then have "unat w div 4294967296 < 4294967296" by (simp add: less_mult_imp_div_less)
  then show ?thesis by (simp add: le64_def le_val_append le_val_le32 lo hi)
qed

lemma le64_le_val: "length bs = 8 \<Longrightarrow> le64 (of_nat (le_val bs)) = bs"
proof -
  assume l: "length bs = 8"
  have "le_val bs < 2 ^ 64" using le_val_less [of bs] l by simp
  then have "le_val (le64 (of_nat (le_val bs))) = le_val bs"
    by (simp add: le_val_le64 unsigned_of_nat take_bit_eq_mod)
  then show ?thesis using l by (intro le_val_inj) simp_all
qed

end
