(* ===== verification/KG_Uapi.thy ===== *)
theory KG_Uapi
  imports KG_Prelude
begin

text \<open>
  The ABI shared by the kernel module and the monitor
  (\<^verbatim>\<open>src/linux/include/kernelguard_uapi.h\<close>): alert codes and levels, the notification
  and ring layouts, the statistics block, mitigation strategies, CPU features and postures.
\<close>

unbundle bit_operations_syntax

section \<open>Constants\<close>

definition KG_NOTIFY_SLOTS :: nat where [kg_const]: "KG_NOTIFY_SLOTS = 16"
definition KG_HMAC_KEY_SIZE :: nat where [kg_const]: "KG_HMAC_KEY_SIZE = 32"
definition KG_HMAC_SIZE :: nat where [kg_const]: "KG_HMAC_SIZE = 32"
definition KG_NOTIFY_MAGIC :: u32 where [kg_const]: "KG_NOTIFY_MAGIC = 0xDEADC0DE"
definition KG_HMAC_AUTH_LEN :: nat where [kg_const]: "KG_HMAC_AUTH_LEN = 40"
definition KG_ABI_VERSION :: u32 where [kg_const]: "KG_ABI_VERSION = 1"

definition KG_LEVEL_INFO :: u32 where [kg_const]: "KG_LEVEL_INFO = 0"
definition KG_LEVEL_WATCH :: u32 where [kg_const]: "KG_LEVEL_WATCH = 1"
definition KG_LEVEL_CRITICAL :: u32 where [kg_const]: "KG_LEVEL_CRITICAL = 2"

definition KG_ALERT_PMU_L1D_ANOMALY :: u32 where [kg_const]: "KG_ALERT_PMU_L1D_ANOMALY = 0x0001"
definition KG_ALERT_PMU_L2_ANOMALY :: u32 where [kg_const]: "KG_ALERT_PMU_L2_ANOMALY = 0x0002"
definition KG_ALERT_PMU_RDTSC_RATE :: u32 where [kg_const]: "KG_ALERT_PMU_RDTSC_RATE = 0x0003"
definition KG_ALERT_UNAUTHORIZED_KBD_FILTER :: u32 where
  [kg_const]: "KG_ALERT_UNAUTHORIZED_KBD_FILTER = 0x0010"
definition KG_ALERT_UNAUTHORIZED_DMA :: u32 where [kg_const]: "KG_ALERT_UNAUTHORIZED_DMA = 0x0011"
definition KG_ALERT_PCI_DISCREPANCY :: u32 where [kg_const]: "KG_ALERT_PCI_DISCREPANCY = 0x0012"
definition KG_ALERT_KBD_FILTER_NEUTRALIZED :: u32 where
  [kg_const]: "KG_ALERT_KBD_FILTER_NEUTRALIZED = 0x0013"
definition KG_ALERT_DMA_BLOCKED_IOMMU :: u32 where [kg_const]: "KG_ALERT_DMA_BLOCKED_IOMMU = 0x0014"
definition KG_ALERT_DEVICE_BME_DISABLED :: u32 where
  [kg_const]: "KG_ALERT_DEVICE_BME_DISABLED = 0x0015"
definition KG_ALERT_IDT_HOOK :: u32 where [kg_const]: "KG_ALERT_IDT_HOOK = 0x0020"
definition KG_ALERT_DISPATCH_HOOK :: u32 where [kg_const]: "KG_ALERT_DISPATCH_HOOK = 0x0021"
definition KG_ALERT_TEXT_PATCH :: u32 where [kg_const]: "KG_ALERT_TEXT_PATCH = 0x0022"
definition KG_ALERT_CTRL_REG_TAMPER :: u32 where [kg_const]: "KG_ALERT_CTRL_REG_TAMPER = 0x0023"
definition KG_ALERT_MODULE_LOADED :: u32 where [kg_const]: "KG_ALERT_MODULE_LOADED = 0x0024"
definition KG_ALERT_VULN_DRIVER :: u32 where [kg_const]: "KG_ALERT_VULN_DRIVER = 0x0025"
definition KG_ALERT_DRIVER_BLOCKED :: u32 where [kg_const]: "KG_ALERT_DRIVER_BLOCKED = 0x0026"
definition KG_ALERT_LOAD_POLICY :: u32 where [kg_const]: "KG_ALERT_LOAD_POLICY = 0x0027"
definition KG_ALERT_SHARED_STATE_CORRUPT :: u32 where
  [kg_const]: "KG_ALERT_SHARED_STATE_CORRUPT = 0x0030"
definition KG_ALERT_FAIL_SAFE_ENTERED :: u32 where [kg_const]: "KG_ALERT_FAIL_SAFE_ENTERED = 0x0031"
definition KG_ALERT_POSTURE_CHANGED :: u32 where [kg_const]: "KG_ALERT_POSTURE_CHANGED = 0x0032"

definition KG_TEXTF_KERNEL :: u32 where [kg_const]: "KG_TEXTF_KERNEL = 1"
definition KG_TEXTF_UNKNOWN_TARGET :: u32 where [kg_const]: "KG_TEXTF_UNKNOWN_TARGET = 2"
definition KG_TEXTF_BREAKPOINT :: u32 where [kg_const]: "KG_TEXTF_BREAKPOINT = 4"

definition KG_LP_NO_SIG_ENFORCE :: u32 where [kg_const]: "KG_LP_NO_SIG_ENFORCE = 0x0001"
definition KG_LP_NO_LOCKDOWN :: u32 where [kg_const]: "KG_LP_NO_LOCKDOWN = 0x0002"
definition KG_LP_NO_SECUREBOOT :: u32 where [kg_const]: "KG_LP_NO_SECUREBOOT = 0x0004"
definition KG_LP_RAW_SIG_ENFORCE :: u32 where [kg_const]: "KG_LP_RAW_SIG_ENFORCE = 0x0001"
definition KG_LP_RAW_LOCKDOWN :: u32 where [kg_const]: "KG_LP_RAW_LOCKDOWN = 0x0002"
definition KG_LP_RAW_SECUREBOOT :: u32 where [kg_const]: "KG_LP_RAW_SECUREBOOT = 0x0004"
definition KG_LP_RAW_SIG_BUILT :: u32 where [kg_const]: "KG_LP_RAW_SIG_BUILT = 0x0008"

definition KG_MIT_VERW :: u64 where [kg_const]: "KG_MIT_VERW = 0x01"
definition KG_MIT_L1D_FLUSH :: u64 where [kg_const]: "KG_MIT_L1D_FLUSH = 0x02"
definition KG_MIT_IBPB :: u64 where [kg_const]: "KG_MIT_IBPB = 0x04"
definition KG_MIT_FAIL_SAFE :: u64 where [kg_const]: "KG_MIT_FAIL_SAFE = 0x08"

definition KG_STRAT_NONE :: u8 where [kg_const]: "KG_STRAT_NONE = 0"
definition KG_STRAT_VERW :: u8 where [kg_const]: "KG_STRAT_VERW = 1"
definition KG_STRAT_L1D :: u8 where [kg_const]: "KG_STRAT_L1D = 2"
definition KG_STRAT_VERW_L1D :: u8 where [kg_const]: "KG_STRAT_VERW_L1D = 3"
definition KG_STRAT_FULL :: u8 where [kg_const]: "KG_STRAT_FULL = 4"

definition KG_FEAT_MDS_NO :: u32 where [kg_const]: "KG_FEAT_MDS_NO = 0x0001"
definition KG_FEAT_L1TF_NO :: u32 where [kg_const]: "KG_FEAT_L1TF_NO = 0x0002"
definition KG_FEAT_RDCL_NO :: u32 where [kg_const]: "KG_FEAT_RDCL_NO = 0x0004"
definition KG_FEAT_IBRS_ALL :: u32 where [kg_const]: "KG_FEAT_IBRS_ALL = 0x0008"
definition KG_FEAT_VERW_FLUSH :: u32 where [kg_const]: "KG_FEAT_VERW_FLUSH = 0x0010"
definition KG_FEAT_L1D_FLUSH :: u32 where [kg_const]: "KG_FEAT_L1D_FLUSH = 0x0020"
definition KG_FEAT_SSB_NO :: u32 where [kg_const]: "KG_FEAT_SSB_NO = 0x0040"
definition KG_FEAT_IBPB :: u32 where [kg_const]: "KG_FEAT_IBPB = 0x0080"
definition KG_FEAT_CAT_L3 :: u32 where [kg_const]: "KG_FEAT_CAT_L3 = 0x0100"
definition KG_FEAT_SMT :: u32 where [kg_const]: "KG_FEAT_SMT = 0x0200"
definition KG_FEAT_ARCH_CAP_MSR :: u32 where [kg_const]: "KG_FEAT_ARCH_CAP_MSR = 0x0400"

definition KG_POSTURE_NORMAL :: u32 where [kg_const]: "KG_POSTURE_NORMAL = 0"
definition KG_POSTURE_ELEVATED :: u32 where [kg_const]: "KG_POSTURE_ELEVATED = 1"
definition KG_POSTURE_HIGH :: u32 where [kg_const]: "KG_POSTURE_HIGH = 2"
definition KG_POSTURE_FAILSAFE :: u32 where [kg_const]: "KG_POSTURE_FAILSAFE = 3"
definition KG_POSTURE_COUNT :: u32 where [kg_const]: "KG_POSTURE_COUNT = 4"
definition KG_POSTURE_WHY_DECAY :: u32 where [kg_const]: "KG_POSTURE_WHY_DECAY = 2"
definition KG_POSTURE_WHY_OPERATOR :: u32 where [kg_const]: "KG_POSTURE_WHY_OPERATOR = 3"

section \<open>Structures\<close>

text \<open>\<open>struct kg_notification\<close>; the HMAC is a list of 32 bytes.\<close>

record kg_notification =
  n_magic :: u32
  n_sequence :: u32
  n_alert_type :: u32
  n_alert_level :: u32
  n_timestamp :: u64
  n_param1 :: u64
  n_param2 :: u64
  n_hmac :: bytes

text \<open>\<open>struct kg_shared_region\<close>: notification \<open>N\<close> lives in slot \<open>N mod 16\<close>.\<close>

record kg_shared_region =
  write_index :: u32
  read_index :: u32
  driver_nonce :: u32
  reserved :: u32
  notifications :: "kg_notification list"

text \<open>\<open>struct kg_stats\<close>.\<close>

record kg_stats =
  pmu_alert_level :: u64
  pmu_l1d_overflows :: u64
  pmu_llc_overflows :: u64
  hw_discrepancy_count :: u64
  hw_dma_violation_count :: u64
  idt_hook_detected :: u64
  dispatch_hook_detected :: u64
  text_patch_detected :: u64
  failed_module_hash_count :: u64
  text_dynamic_patches :: u64
  sens_page_count :: u64
  active_mitigation_flags :: u64
  total_flush_count :: u64
  notifications_sent :: u64
  fallback_signals_sent :: u64
  notifications_dropped :: u64

definition zero_stats :: kg_stats where
  "zero_stats = \<lparr>pmu_alert_level = 0, pmu_l1d_overflows = 0, pmu_llc_overflows = 0,
     hw_discrepancy_count = 0, hw_dma_violation_count = 0, idt_hook_detected = 0,
     dispatch_hook_detected = 0, text_patch_detected = 0, failed_module_hash_count = 0,
     text_dynamic_patches = 0, sens_page_count = 0, active_mitigation_flags = 0,
     total_flush_count = 0, notifications_sent = 0, fallback_signals_sent = 0,
     notifications_dropped = 0\<rparr>"

text \<open>The authenticated prefix of a notification: bytes 0 to 39 of its in-memory image.\<close>

definition auth_bytes :: "kg_notification \<Rightarrow> bytes" where
  "auth_bytes n =
     le32 (n_magic n) @ le32 (n_sequence n) @ le32 (n_alert_type n) @ le32 (n_alert_level n) @
     le64 (n_timestamp n) @ le64 (n_param1 n) @ le64 (n_param2 n)"

lemma length_auth_bytes: "length (auth_bytes n) = KG_HMAC_AUTH_LEN"
  by (simp add: auth_bytes_def kg_const)

text \<open>The prefix determines every authenticated field.\<close>

lemma auth_bytes_inj:
  assumes "auth_bytes a = auth_bytes b" and "n_hmac a = n_hmac b"
  shows "a = b"
  using assms by (simp add: auth_bytes_def)

end
