(* ===== verification/KG_Hmac.thy ===== *)
theory KG_Hmac
  imports KG_Prelude
begin

text \<open>
  The monitor's own SHA-256 and HMAC-SHA256 (\<^verbatim>\<open>src/linux/monitor/kg_hmac.c\<close>).  The streaming
  context is modelled field by field; the reference is the one-shot definition of FIPS 180-4
  (pad the message, fold the compression function over its 64-byte blocks) and of RFC 2104.
  The locale \<open>stream_hash\<close> is the contract of a streaming hash; HMAC and every other client are
  verified against it, and the streaming code is its interpretation.
\<close>

unbundle bit_operations_syntax

section \<open>The compression function\<close>

definition sha_K :: "u32 list" where
  "sha_K =
     [0x428a2f98, 0x71374491, 0xb5c0fbcf, 0xe9b5dba5, 0x3956c25b, 0x59f111f1, 0x923f82a4, 0xab1c5ed5] @
     [0xd807aa98, 0x12835b01, 0x243185be, 0x550c7dc3, 0x72be5d74, 0x80deb1fe, 0x9bdc06a7, 0xc19bf174] @
     [0xe49b69c1, 0xefbe4786, 0x0fc19dc6, 0x240ca1cc, 0x2de92c6f, 0x4a7484aa, 0x5cb0a9dc, 0x76f988da] @
     [0x983e5152, 0xa831c66d, 0xb00327c8, 0xbf597fc7, 0xc6e00bf3, 0xd5a79147, 0x06ca6351, 0x14292967] @
     [0x27b70a85, 0x2e1b2138, 0x4d2c6dfc, 0x53380d13, 0x650a7354, 0x766a0abb, 0x81c2c92e, 0x92722c85] @
     [0xa2bfe8a1, 0xa81a664b, 0xc24b8b70, 0xc76c51a3, 0xd192e819, 0xd6990624, 0xf40e3585, 0x106aa070] @
     [0x19a4c116, 0x1e376c08, 0x2748774c, 0x34b0bcb5, 0x391c0cb3, 0x4ed8aa4a, 0x5b9cca4f, 0x682e6ff3] @
     [0x748f82ee, 0x78a5636f, 0x84c87814, 0x8cc70208, 0x90befffa, 0xa4506ceb, 0xbef9a3f7, 0xc67178f2]"

definition ROR :: "u32 \<Rightarrow> nat \<Rightarrow> u32" where
  "ROR x n = (drop_bit n x OR push_bit (32 - n) x)"

text \<open>\<open>w[i]\<close> for \<open>i < 16\<close>: big-endian words of the block.\<close>

definition block_word :: "bytes \<Rightarrow> nat \<Rightarrow> u32" where
  "block_word p i =
     (push_bit 24 (ucast (p ! (i * 4))) OR push_bit 16 (ucast (p ! (i * 4 + 1))) OR
      push_bit 8 (ucast (p ! (i * 4 + 2))) OR ucast (p ! (i * 4 + 3)))"

text \<open>The second loop of the schedule: \<open>k\<close> further words appended to \<open>w\<close>.\<close>

fun sched_ext :: "nat \<Rightarrow> u32 list \<Rightarrow> u32 list" where
  "sched_ext 0 w = w"
| "sched_ext (Suc k) w =
     (let i = length w;
          s0 = (ROR (w ! (i - 15)) 7 XOR ROR (w ! (i - 15)) 18 XOR drop_bit 3 (w ! (i - 15)));
          s1 = (ROR (w ! (i - 2)) 17 XOR ROR (w ! (i - 2)) 19 XOR drop_bit 10 (w ! (i - 2)))
      in sched_ext k (w @ [w ! (i - 16) + s0 + w ! (i - 7) + s1]))"

definition sha_sched :: "bytes \<Rightarrow> u32 list" where
  "sha_sched p = sched_ext 48 (map (block_word p) [0..<16])"

type_synonym sha_vars = "u32 \<times> u32 \<times> u32 \<times> u32 \<times> u32 \<times> u32 \<times> u32 \<times> u32"

definition sha_round :: "u32 \<Rightarrow> u32 \<Rightarrow> sha_vars \<Rightarrow> sha_vars" where
  "sha_round k w v =
     (case v of (a, b, c, d, e, f, g, hh) \<Rightarrow>
        let t1 = hh + (ROR e 6 XOR ROR e 11 XOR ROR e 25) + ((e AND f) XOR (NOT e AND g)) + k + w;
            t2 = (ROR a 2 XOR ROR a 13 XOR ROR a 22) + ((a AND b) XOR (a AND c) XOR (b AND c))
        in (t1 + t2, a, b, c, d + t1, e, f, g))"

definition sha256_block :: "u32 list \<Rightarrow> bytes \<Rightarrow> u32 list" where
  "sha256_block h p =
     (let w = sha_sched p;
          v0 = (h ! 0, h ! 1, h ! 2, h ! 3, h ! 4, h ! 5, h ! 6, h ! 7)
      in case fold (\<lambda>i. sha_round (sha_K ! i) (w ! i)) [0..<64] v0 of
           (a, b, c, d, e, f, g, hh) \<Rightarrow>
             [h ! 0 + a, h ! 1 + b, h ! 2 + c, h ! 3 + d, h ! 4 + e, h ! 5 + f, h ! 6 + g, h ! 7 + hh])"

section \<open>The streaming context\<close>

record kg_sha256 =
  sha_h :: "u32 list"
  sha_total :: u64
  sha_buf :: bytes
  sha_fill :: nat

definition sha_iv :: "u32 list" where
  "sha_iv = [0x6a09e667, 0xbb67ae85, 0x3c6ef372, 0xa54ff53a,
             0x510e527f, 0x9b05688c, 0x1f83d9ab, 0x5be0cd19]"

text \<open>\<open>kg_sha256_init\<close> leaves the buffer as it was; its first 0 bytes are in use.\<close>

definition kg_sha256_init :: "kg_sha256 \<Rightarrow> kg_sha256" where
  "kg_sha256_init c = c\<lparr>sha_h := sha_iv, sha_total := 0, sha_fill := 0\<rparr>"

text \<open>One turn of the copy loop of \<open>kg_sha256_update\<close>, taking \<open>n\<close> bytes.\<close>

definition sha_absorb :: "kg_sha256 \<Rightarrow> bytes \<Rightarrow> kg_sha256" where
  "sha_absorb c xs =
     (let f = sha_fill c; n = length xs;
          b = take f (sha_buf c) @ xs @ drop (f + n) (sha_buf c)
      in if f + n = 64 then c\<lparr>sha_buf := b, sha_h := sha256_block (sha_h c) b, sha_fill := 0\<rparr>
         else c\<lparr>sha_buf := b, sha_fill := f + n\<rparr>)"

text \<open>
  The loop of \<open>kg_sha256_update\<close>.  The code relies on \<open>fill < 64\<close> (with \<open>fill = 64\<close> it would
  copy nothing forever); the second test makes the function total and is never taken, because
  every operation keeps \<open>fill < 64\<close> (lemma \<open>sha_rep_fill\<close> below).
\<close>

function sha_loop :: "kg_sha256 \<Rightarrow> bytes \<Rightarrow> kg_sha256" where
  "sha_loop c p =
     (if p = [] then c
      else if 64 \<le> sha_fill c then c
      else (let n = min (64 - sha_fill c) (length p)
            in sha_loop (sha_absorb c (take n p)) (drop n p)))"
  by pat_completeness auto
termination
  by (relation "measure (\<lambda>(c, p). length p)") (auto simp: Let_def)

declare sha_loop.simps [simp del]

definition kg_sha256_update :: "kg_sha256 \<Rightarrow> bytes \<Rightarrow> kg_sha256" where
  "kg_sha256_update c p = sha_loop (c\<lparr>sha_total := sha_total c + of_nat (length p)\<rparr>) p"

section \<open>The reference: FIPS 180-4\<close>

function sha_blocks :: "u32 list \<Rightarrow> bytes \<Rightarrow> u32 list" where
  "sha_blocks h p = (if length p < 64 then h else sha_blocks (sha256_block h (take 64 p)) (drop 64 p))"
  by pat_completeness auto
termination
  by (relation "measure (\<lambda>(h, p). length p)") auto

declare sha_blocks.simps [simp del]

definition be64_len :: "nat \<Rightarrow> bytes" where
  "be64_len n = (let bits = (of_nat n :: u64) * 8
                 in map (\<lambda>i. ucast (drop_bit (56 - 8 * i) bits)) [0..<8])"

definition zero_count :: "nat \<Rightarrow> nat" where
  "zero_count n = (let r = (n + 1) mod 64 in if r \<le> 56 then 56 - r else 120 - r)"

definition sha_pad :: "bytes \<Rightarrow> bytes" where
  "sha_pad m = m @ [0x80] @ replicate (zero_count (length m)) 0 @ be64_len (length m)"

definition sha256_spec :: "bytes \<Rightarrow> bytes" where
  "sha256_spec m = concat (map be32 (sha_blocks sha_iv (sha_pad m)))"

section \<open>What the context represents\<close>

text \<open>
  \<open>sha_rep c m\<close>: the context \<open>c\<close> has absorbed exactly the message \<open>m\<close>: the chaining value has
  consumed its whole blocks and the buffer holds the rest.
\<close>

definition sha_rep :: "kg_sha256 \<Rightarrow> bytes \<Rightarrow> bool" where
  "sha_rep c m \<longleftrightarrow>
     length (sha_buf c) = 64 \<and> sha_fill c < 64 \<and> sha_total c = of_nat (length m) \<and>
     (\<exists>whole. m = whole @ take (sha_fill c) (sha_buf c) \<and> 64 dvd length whole \<and>
              sha_h c = sha_blocks sha_iv whole)"

lemma sha_rep_fill: "sha_rep c m \<Longrightarrow> sha_fill c < 64"
  by (simp add: sha_rep_def)

lemma sha_blocks_append:
  "64 dvd length a \<Longrightarrow> sha_blocks h (a @ b) = sha_blocks (sha_blocks h a) b"
proof (induction h a rule: sha_blocks.induct)
  case (1 h a)
  show ?case
  proof (cases "length a < 64")
    case True
    with 1(2) have "a = []" using dvd_imp_le by fastforce
    then show ?thesis by (simp add: sha_blocks.simps [of h "[]"])
  next
    case False
    then have "64 dvd length (drop 64 a)"
      using 1(2) by (simp add: dvd_minus_self)
    from 1(1) [OF False this] False show ?thesis
      by (simp add: sha_blocks.simps [of h "a @ b"] sha_blocks.simps [of h a])
  qed
qed

lemma sha_blocks_one: "length b = 64 \<Longrightarrow> sha_blocks h b = sha256_block h b"
  by (subst sha_blocks.simps) (simp add: sha_blocks.simps [of _ "[]"])

text \<open>Ignoring the byte count, absorbing a chunk that fits extends the represented message.\<close>

lemma sha_absorb_total [simp]: "sha_total (sha_absorb c xs) = sha_total c"
  by (simp add: sha_absorb_def Let_def)

lemma sha_loop_total [simp]: "sha_total (sha_loop c p) = sha_total c"
proof (induction c p rule: sha_loop.induct)
  case (1 c p)
  then show ?case by (subst sha_loop.simps) (simp add: Let_def)
qed

lemma sha_absorb_rep:
  assumes "sha_rep (c\<lparr>sha_total := of_nat (length m)\<rparr>) m" and "sha_fill c + length xs \<le> 64"
  shows "sha_rep ((sha_absorb c xs)\<lparr>sha_total := of_nat (length (m @ xs))\<rparr>) (m @ xs)"
proof -
  let ?f = "sha_fill c" and ?b = "take (sha_fill c) (sha_buf c) @ xs @
    drop (sha_fill c + length xs) (sha_buf c)"
  from assms(1) obtain whole where
    c: "length (sha_buf c) = 64" "?f < 64" and m: "m = whole @ take ?f (sha_buf c)"
    and d: "64 dvd length whole" and h: "sha_h c = sha_blocks sha_iv whole"
    by (auto simp: sha_rep_def)
  have len: "length ?b = 64" using c assms(2) by simp
  show ?thesis
  proof (cases "?f + length xs = 64")
    case True
    then have b: "?b = take ?f (sha_buf c) @ xs" using c by simp
    have "sha_blocks sha_iv (whole @ take ?f (sha_buf c) @ xs) = sha256_block (sha_h c) ?b"
      using d h len b by (simp add: sha_blocks_append sha_blocks_one)
    moreover have "64 dvd length (whole @ take ?f (sha_buf c) @ xs)"
      using d len b by (metis dvd_add dvd_refl length_append)
    ultimately show ?thesis
      using True c b m len
      by (auto simp: sha_rep_def sha_absorb_def Let_def intro!: exI [of _ "whole @ take ?f (sha_buf c) @ xs"])
  next
    case False
    then have "sha_fill (sha_absorb c xs) = ?f + length xs" "sha_buf (sha_absorb c xs) = ?b"
      "sha_h (sha_absorb c xs) = sha_h c"
      by (simp_all add: sha_absorb_def Let_def)
    moreover have "take (?f + length xs) ?b = take ?f (sha_buf c) @ xs"
      using c assms(2) by (intro take_update_append) simp_all
    ultimately show ?thesis
      using False assms(2) c m d h len by (auto simp: sha_rep_def)
  qed
qed

lemma sha_loop_rep:
  "sha_rep (c\<lparr>sha_total := of_nat (length m)\<rparr>) m \<Longrightarrow>
   sha_rep ((sha_loop c p)\<lparr>sha_total := of_nat (length (m @ p))\<rparr>) (m @ p)"
proof (induction c p arbitrary: m rule: sha_loop.induct)
  case (1 c p)
  show ?case
  proof (cases "p = []")
    case True
    with 1(2) show ?thesis by (simp add: sha_loop.simps [of c "[]"])
  next
    case False
    have f: "\<not> 64 \<le> sha_fill c" using 1(2) by (simp add: sha_rep_def)
    let ?n = "min (64 - sha_fill c) (length p)"
    have "sha_rep ((sha_absorb c (take ?n p))\<lparr>sha_total := of_nat (length (m @ take ?n p))\<rparr>) (m @ take ?n p)"
      using f by (intro sha_absorb_rep [OF 1(2)]) simp
    from 1(1) [OF False f refl this] show ?thesis
      using False f by (simp add: sha_loop.simps [of c p] Let_def)
  qed
qed

lemma sha_init_rep: "length (sha_buf c) = 64 \<Longrightarrow> sha_rep (kg_sha256_init c) []"
  by (simp add: sha_rep_def kg_sha256_init_def sha_blocks.simps)

lemma sha_update_rep:
  assumes "sha_rep c m"
  shows "sha_rep (kg_sha256_update c p) (m @ p)"
proof -
  let ?c = "c\<lparr>sha_total := sha_total c + of_nat (length p)\<rparr>"
  have "sha_rep (?c\<lparr>sha_total := of_nat (length m)\<rparr>) m"
    using assms by (simp add: sha_rep_def)
  then have "sha_rep ((sha_loop ?c p)\<lparr>sha_total := of_nat (length (m @ p))\<rparr>) (m @ p)"
    by (rule sha_loop_rep)
  moreover have "sha_total (sha_loop ?c p) = of_nat (length (m @ p))"
    using assms by (simp add: sha_rep_def)
  then have "(sha_loop ?c p)\<lparr>sha_total := of_nat (length (m @ p))\<rparr> = sha_loop ?c p"
    by (metis (no_types, lifting) kg_sha256.surjective kg_sha256.update_convs(2))
  ultimately show ?thesis by (simp add: kg_sha256_update_def)
qed

section \<open>Finalisation\<close>

lemma sha_update_one_fill:
  "sha_fill c < 64 \<Longrightarrow> sha_fill (kg_sha256_update c [x]) = (if sha_fill c = 63 then 0 else sha_fill c + 1)"
  by (simp add: kg_sha256_update_def sha_loop.simps sha_absorb_def Let_def)

text \<open>The loop \<open>while (c->fill != 56) kg_sha256_update(c, &zero, 1)\<close>.\<close>

function sha_pad_loop :: "kg_sha256 \<Rightarrow> kg_sha256" where
  "sha_pad_loop c =
     (if sha_fill c = 56 \<or> 64 \<le> sha_fill c then c else sha_pad_loop (kg_sha256_update c [0]))"
  by pat_completeness auto
termination
  by (relation "measure (\<lambda>c. if sha_fill c \<le> 56 then 56 - sha_fill c else 120 - sha_fill c)")
    (auto simp: sha_update_one_fill)

declare sha_pad_loop.simps [simp del]

definition kg_sha256_final :: "kg_sha256 \<Rightarrow> kg_sha256 \<times> bytes" where
  "kg_sha256_final c =
     (let bits = sha_total c * 8;
          c1 = kg_sha256_update c [0x80];
          c2 = sha_pad_loop c1;
          len = map (\<lambda>i. ucast (drop_bit (56 - 8 * i) bits)) [0..<8];
          c3 = kg_sha256_update c2 len
      in (c3, concat (map be32 (sha_h c3))))"

lemma sha_rep_fill_mod: "sha_rep c m \<Longrightarrow> sha_fill c = length m mod 64"
  by (auto simp: sha_rep_def)

lemma sha_pad_loop_rep:
  "sha_rep c m \<Longrightarrow>
   sha_rep (sha_pad_loop c)
     (m @ replicate (if sha_fill c \<le> 56 then 56 - sha_fill c else 120 - sha_fill c) 0)"
proof (induction c arbitrary: m rule: sha_pad_loop.induct)
  case (1 c)
  note fill = sha_rep_fill [OF 1(2)]
  show ?case
  proof (cases "sha_fill c = 56")
    case True
    with 1(2) show ?thesis by (simp add: sha_pad_loop.simps [of c])
  next
    case False
    let ?c = "kg_sha256_update c [0]" and ?f = "\<lambda>c. if sha_fill c \<le> 56 then 56 - sha_fill c else 120 - sha_fill c"
    have go: "\<not> (sha_fill c = 56 \<or> 64 \<le> sha_fill c)" using False fill by simp
    have "?f c = Suc (?f ?c)"
      using False fill by (auto simp: sha_update_one_fill)
    then have "m @ replicate (?f c) 0 = (m @ [0]) @ replicate (?f ?c) 0" by simp
    moreover have "sha_rep (sha_pad_loop ?c) ((m @ [0]) @ replicate (?f ?c) 0)"
      by (rule 1(1) [OF go sha_update_rep [OF 1(2)]])
    moreover have "sha_pad_loop c = sha_pad_loop ?c"
      using go by (simp add: sha_pad_loop.simps [of c])
    ultimately show ?thesis by presburger
  qed
qed

lemma length_be64_len [simp]: "length (be64_len n) = 8"
  by (simp add: be64_len_def Let_def)

lemma zero_count_mod: "\<exists>q. n + 1 + zero_count n = 64 * q + 56"
proof -
  define r q where "r = (n + 1) mod 64" and "q = (n + 1) div 64"
  have n: "n + 1 = 64 * q + r" and r: "r < 64"
    unfolding r_def q_def by (simp_all only: mult_div_mod_eq mod_less_divisor zero_less_numeral)
  have "zero_count n = (if r \<le> 56 then 56 - r else 120 - r)"
    by (simp only: zero_count_def Let_def r_def)
  with n r show ?thesis
    by (cases "r \<le> 56") (auto intro: exI [of _ q] exI [of _ "Suc q"])
qed

lemma length_sha_pad: "64 dvd length (sha_pad m)"
proof -
  obtain q where "length m + 1 + zero_count (length m) = 64 * q + 56"
    using zero_count_mod by blast
  then have "length (sha_pad m) = 64 * (q + 1)" by (simp add: sha_pad_def)
  then show ?thesis by (metis dvd_triv_left)
qed

lemma sha_final_rep:
  assumes "sha_rep c m"
  shows "sha_rep (fst (kg_sha256_final c)) (sha_pad m) \<and>
         snd (kg_sha256_final c) = sha256_spec m"
proof -
  let ?c1 = "kg_sha256_update c [0x80]"
  have r1: "sha_rep ?c1 (m @ [0x80])" by (rule sha_update_rep [OF assms])
  have "(if sha_fill ?c1 \<le> 56 then 56 - sha_fill ?c1 else 120 - sha_fill ?c1) = zero_count (length m)"
    by (auto simp: sha_rep_fill_mod [OF r1] zero_count_def Let_def)
  with sha_pad_loop_rep [OF r1]
  have r2: "sha_rep (sha_pad_loop ?c1) (m @ [0x80] @ replicate (zero_count (length m)) 0)"
    by simp
  have bits: "sha_total c * 8 = of_nat (length m) * 8" using assms by (simp add: sha_rep_def)
  have fst: "fst (kg_sha256_final c) = kg_sha256_update (sha_pad_loop ?c1) (be64_len (length m))"
    by (simp add: kg_sha256_final_def be64_len_def Let_def bits)
  with sha_update_rep [OF r2, of "be64_len (length m)"]
  have r3: "sha_rep (fst (kg_sha256_final c)) (sha_pad m)" by (simp add: sha_pad_def)
  then have "sha_fill (fst (kg_sha256_final c)) = 0"
    using length_sha_pad [of m] by (simp add: sha_rep_fill_mod [OF r3] mod_eq_0_iff_dvd)
  with r3 have "sha_h (fst (kg_sha256_final c)) = sha_blocks sha_iv (sha_pad m)"
    by (auto simp: sha_rep_def)
  with r3 show ?thesis by (simp add: sha256_spec_def kg_sha256_final_def Let_def)
qed

section \<open>The contract of a streaming hash, and HMAC as its client\<close>

locale stream_hash =
  fixes init :: "'c \<Rightarrow> 'c"
    and upd :: "'c \<Rightarrow> bytes \<Rightarrow> 'c"
    and fin :: "'c \<Rightarrow> 'c \<times> bytes"
    and ok :: "'c \<Rightarrow> bool"
    and rep :: "'c \<Rightarrow> bytes \<Rightarrow> bool"
    and spec :: "bytes \<Rightarrow> bytes"
  assumes init_rep: "ok c \<Longrightarrow> rep (init c) []"
    and upd_rep: "rep c m \<Longrightarrow> rep (upd c p) (m @ p)"
    and fin_spec: "rep c m \<Longrightarrow> snd (fin c) = spec m"
    and fin_ok: "rep c m \<Longrightarrow> ok (fst (fin c))"
begin

lemma fold_rep: "rep c m \<Longrightarrow> rep (fold (\<lambda>p c. upd c p) ps c) (m @ concat ps)"
proof (induction ps arbitrary: c m)
  case Nil
  then show ?case by simp
next
  case (Cons p ps)
  from Cons.IH [OF upd_rep [OF Cons.prems, of p]] show ?case by simp
qed

lemma digest_chunks:
  assumes "ok c"
  shows "snd (fin (fold (\<lambda>p c. upd c p) ps (init c))) = spec (concat ps)"
  using fin_spec [OF fold_rep [OF init_rep [OF assms]]] by simp

lemma digest_one:
  assumes "ok c"
  shows "snd (fin (upd (init c) p)) = spec p" and "ok (fst (fin (upd (init c) p)))"
  using digest_chunks [OF assms, of "[p]"] fin_ok [OF upd_rep [OF init_rep [OF assms]]] by simp_all

lemma digest_two:
  assumes "ok c"
  shows "snd (fin (upd (upd (init c) p) q)) = spec (p @ q)"
    and "ok (fst (fin (upd (upd (init c) p) q)))"
  using digest_chunks [OF assms, of "[p, q]"] fin_ok [OF upd_rep [OF upd_rep [OF init_rep [OF assms]]]]
  by simp_all

end

definition sha_ctx_ok :: "kg_sha256 \<Rightarrow> bool" where
  "sha_ctx_ok c \<longleftrightarrow> length (sha_buf c) = 64"

interpretation sha: stream_hash kg_sha256_init kg_sha256_update kg_sha256_final sha_ctx_ok sha_rep sha256_spec
proof unfold_locales
  show "sha_ctx_ok c \<Longrightarrow> sha_rep (kg_sha256_init c) []" for c
    by (simp add: sha_init_rep sha_ctx_ok_def)
  show "sha_rep c m \<Longrightarrow> sha_rep (kg_sha256_update c p) (m @ p)" for c m p
    by (rule sha_update_rep)
  show "sha_rep c m \<Longrightarrow> snd (kg_sha256_final c) = sha256_spec m" for c m
    by (simp add: sha_final_rep)
  show "sha_rep c m \<Longrightarrow> sha_ctx_ok (fst (kg_sha256_final c))" for c m
    using sha_final_rep [of c m] by (simp add: sha_ctx_ok_def sha_rep_def)
qed

text \<open>An uninitialised context: only its 64-byte buffer matters to \<open>kg_sha256_init\<close>.\<close>

definition sha_ctx0 :: kg_sha256 where
  "sha_ctx0 = \<lparr>sha_h = replicate 8 0, sha_total = 0, sha_buf = replicate 64 0, sha_fill = 0\<rparr>"

definition hmac_k :: "bytes \<Rightarrow> bytes" where
  "hmac_k key =
     (if 64 < length key
      then snd (kg_sha256_final (kg_sha256_update (kg_sha256_init sha_ctx0) key)) @ replicate 32 0
      else key @ replicate (64 - length key) 0)"

definition kg_hmac_sha256 :: "bytes \<Rightarrow> bytes \<Rightarrow> bytes" where
  "kg_hmac_sha256 key msg =
     (let k = hmac_k key;
          ipad = map (\<lambda>b. b XOR 0x36) k;
          opad = map (\<lambda>b. b XOR 0x5c) k;
          (c1, inner) = kg_sha256_final (kg_sha256_update (kg_sha256_update (kg_sha256_init sha_ctx0) ipad) msg);
          (c2, out) = kg_sha256_final (kg_sha256_update (kg_sha256_update (kg_sha256_init c1) opad) inner)
      in out)"

text \<open>RFC 2104: \<open>H(K XOR opad, H(K XOR ipad, text))\<close>, long keys hashed first.\<close>

definition hmac_spec :: "bytes \<Rightarrow> bytes \<Rightarrow> bytes" where
  "hmac_spec key msg =
     (let k0 = (if 64 < length key then sha256_spec key else key);
          k = k0 @ replicate (64 - length k0) 0
      in sha256_spec (map (\<lambda>b. b XOR 0x5c) k @ sha256_spec (map (\<lambda>b. b XOR 0x36) k @ msg)))"

lemma length_sha256_block [simp]: "length (sha256_block h p) = 8"
  by (simp add: sha256_block_def Let_def split: prod.splits)

lemma length_sha_blocks: "length h = 8 \<Longrightarrow> length (sha_blocks h p) = 8"
proof (induction h p rule: sha_blocks.induct)
  case (1 h p)
  then show ?case by (subst sha_blocks.simps) auto
qed

lemma length_concat_be32: "length (concat (map be32 xs)) = 4 * length xs"
  by (induction xs) auto

lemma length_sha256_spec [simp]: "length (sha256_spec m) = 32"
  by (simp add: sha256_spec_def length_concat_be32 length_sha_blocks sha_iv_def)

section \<open>Constant-time comparison\<close>

definition kg_ct_equal :: "bytes \<Rightarrow> bytes \<Rightarrow> nat \<Rightarrow> bool" where
  "kg_ct_equal a b n \<longleftrightarrow> fold (\<lambda>i diff. diff OR (a ! i XOR b ! i)) [0..<n] 0 = (0 :: u8)"

lemma ct_fold_zero:
  "fold (\<lambda>i diff. diff OR (a ! i XOR b ! i)) is d = (0 :: u8) \<longleftrightarrow>
     d = 0 \<and> (\<forall>i \<in> set is. a ! i = b ! i)"
  by (induction "is" arbitrary: d) (auto simp: word_xor_zero_iff)

lemma kg_ct_equal_nth: "kg_ct_equal a b n \<longleftrightarrow> (\<forall>i < n. a ! i = b ! i)"
  by (auto simp: kg_ct_equal_def ct_fold_zero)

lemma kg_ct_equal_refl [simp]: "kg_ct_equal a a n"
  by (simp add: kg_ct_equal_nth)

section \<open>Properties\<close>

text \<open>
  However a message is cut into pieces for \<open>kg_sha256_update\<close>, \<open>kg_sha256_final\<close> returns
  the FIPS 180-4 digest of the whole message: the padding loop ends, the length block counts the
  bits absorbed before padding, and no chunking changes the result.
\<close>

theorem kg_sha256_stream:
  "sha_ctx_ok c \<Longrightarrow>
   snd (kg_sha256_final (fold (\<lambda>p c. kg_sha256_update c p) ps (kg_sha256_init c))) =
   sha256_spec (concat ps)"
  by (rule sha.digest_chunks)

theorem kg_sha256_stream_witness:
  "sha_ctx_ok sha_ctx0 \<and>
   snd (kg_sha256_final (fold (\<lambda>p c. kg_sha256_update c p) [[97], [98, 99]] (kg_sha256_init sha_ctx0))) =
   sha256_spec [97, 98, 99]"
proof -
  have ok: "sha_ctx_ok sha_ctx0" by (simp add: sha_ctx_ok_def sha_ctx0_def)
  with kg_sha256_stream [OF ok, of "[[97], [98, 99]]"] show ?thesis by simp
qed

lemma kg_hmac_eq: "kg_hmac_sha256 key msg = hmac_spec key msg"
proof -
  have ok: "sha_ctx_ok sha_ctx0" by (simp add: sha_ctx_ok_def sha_ctx0_def)
  have k: "hmac_k key = (if 64 < length key then sha256_spec key else key) @
      replicate (64 - length (if 64 < length key then sha256_spec key else key)) 0"
    by (simp add: hmac_k_def sha.digest_one [OF ok])
  show ?thesis
    by (simp add: kg_hmac_sha256_def hmac_spec_def k Let_def case_prod_unfold
        sha.digest_two [OF ok] sha.digest_two(1) [OF sha.digest_two(2) [OF ok]])
qed


text \<open>
  The branch-free comparison \<open>kg_ct_equal\<close> accepts exactly when the first \<open>n\<close> bytes of the two
  buffers agree.
\<close>

theorem kg_ct_equal_iff:
  "n \<le> length a \<Longrightarrow> n \<le> length b \<Longrightarrow> kg_ct_equal a b n \<longleftrightarrow> take n a = take n b"
  by (auto simp: kg_ct_equal_nth list_eq_iff_nth_eq)

theorem kg_ct_equal_iff_witness:
  "(2::nat) \<le> length [1, 2, 3 :: u8] \<and> kg_ct_equal [1, 2, 3] [1, 2, 9] 2 \<and> \<not> kg_ct_equal [1, 2, 3] [1, 2, 9] 3"
  using kg_ct_equal_iff [of 2 "[1, 2, 3]" "[1, 2, 9]"] kg_ct_equal_iff [of 3 "[1, 2, 3]" "[1, 2, 9]"]
  by simp

end
