(* ===== verification/KG_Guard.thy ===== *)
theory KG_Guard
  imports KG_Uapi KG_Hmac
begin

text \<open>
  The integrity-protected policy state of the kernel module: the structures of
  \<^verbatim>\<open>src/linux/module/kg.h\<close> and the guard hash of \<^verbatim>\<open>src/linux/module/kg_state.c\<close>.
  The kernel's SHA-256 transform is code outside the repository; it is the parameter \<open>sha\<close>, which
  yields a digest or an error number.  Each critical section under \<open>kg_guard_lock\<close> is one
  operation of the model, and \<open>kg_guard_unlock_release\<close> is the re-hash that ends it.
\<close>

unbundle bit_operations_syntax

type_synonym sha_fn = "bytes \<Rightarrow> errno + bytes"

section \<open>Structures\<close>

record kg_cpu_mit =
  m_features :: u32
  m_strategy :: u8
  m_base_strategy :: u8
  m_flush_cost_ns :: u16
  m_cat_ways :: u16
  m_pad :: u16
  m_cat_sens_cbm :: u32
  m_cat_def_cbm :: u32

record kg_guard_hdr =
  h_magic :: u32
  h_abi :: u32
  h_ncpu :: u32
  h_failsafe :: u32
  h_posture :: u32

text \<open>The table pointer is \<open>None\<close> while it is NULL.\<close>

record kg_guard =
  g_hdr :: kg_guard_hdr
  g_cpu :: "kg_cpu_mit list option"
  g_digest :: bytes
  g_valid :: bool

text \<open>In-memory images of the packed structures, in field order.\<close>

definition mit_bytes :: "kg_cpu_mit \<Rightarrow> bytes" where
  "mit_bytes m =
     le32 (m_features m) @ [m_strategy m, m_base_strategy m] @ le16 (m_flush_cost_ns m) @
     le16 (m_cat_ways m) @ le16 (m_pad m) @ le32 (m_cat_sens_cbm m) @ le32 (m_cat_def_cbm m)"

definition hdr_bytes :: "kg_guard_hdr \<Rightarrow> bytes" where
  "hdr_bytes h =
     le32 (h_magic h) @ le32 (h_abi h) @ le32 (h_ncpu h) @ le32 (h_failsafe h) @ le32 (h_posture h)"

lemma length_mit_bytes [simp]: "length (mit_bytes m) = 20"
  by (simp add: mit_bytes_def)

lemma length_hdr_bytes [simp]: "length (hdr_bytes h) = 20"
  by (simp add: hdr_bytes_def)

lemma mit_bytes_inj [simp]: "mit_bytes a = mit_bytes b \<longleftrightarrow> a = b"
  by (auto simp: mit_bytes_def)

lemma hdr_bytes_inj [simp]: "hdr_bytes a = hdr_bytes b \<longleftrightarrow> a = b"
  by (auto simp: hdr_bytes_def)

lemma concat_mit_bytes_inj:
  "length xs = length ys \<Longrightarrow> concat (map mit_bytes xs) = concat (map mit_bytes ys) \<longleftrightarrow> xs = ys"
  by (induction xs ys rule: list_induct2) auto

section \<open>The guard hash\<close>

text \<open>The hashed region: the header and the first \<open>ncpu\<close> table entries.\<close>

definition guard_region :: "kg_guard_hdr \<Rightarrow> kg_cpu_mit list \<Rightarrow> bytes" where
  "guard_region h cpus = hdr_bytes h @ concat (map mit_bytes (take (unat (h_ncpu h)) cpus))"

definition kg_guard_compute :: "sha_fn \<Rightarrow> kg_guard \<Rightarrow> errno + bytes" where
  "kg_guard_compute sha g =
     (case g_cpu g of
        None \<Rightarrow> Inl ENODEV
      | Some cpus \<Rightarrow> sha (guard_region (g_hdr g) cpus))"

definition kg_guard_update_locked :: "sha_fn \<Rightarrow> kg_guard \<Rightarrow> kg_guard" where
  "kg_guard_update_locked sha g =
     (case kg_guard_compute sha g of
        Inr d \<Rightarrow> g\<lparr>g_digest := d, g_valid := True\<rparr>
      | Inl _ \<Rightarrow> g)"

definition kg_guard_update :: "sha_fn \<Rightarrow> kg_guard \<Rightarrow> kg_guard" where
  "kg_guard_update sha g = kg_guard_update_locked sha g"

definition kg_guard_unlock_release :: "sha_fn \<Rightarrow> kg_guard \<Rightarrow> kg_guard" where
  "kg_guard_unlock_release sha g = kg_guard_update_locked sha g"

definition kg_guard_verify :: "sha_fn \<Rightarrow> kg_guard \<Rightarrow> bool" where
  "kg_guard_verify sha g =
     (g_valid g \<and> (case kg_guard_compute sha g of Inl _ \<Rightarrow> False | Inr now \<Rightarrow> now = g_digest g))"

definition kg_in_failsafe :: "kg_guard \<Rightarrow> bool" where
  "kg_in_failsafe g \<longleftrightarrow> h_failsafe (g_hdr g) \<noteq> 0"

definition kg_posture :: "kg_guard \<Rightarrow> u32" where
  "kg_posture g = h_posture (g_hdr g)"

text \<open>The transform succeeds: documented for a digest computed with an allocated \<open>sha256\<close> handle.\<close>

definition sha_total_fn :: "sha_fn \<Rightarrow> bool" where
  "sha_total_fn sha \<longleftrightarrow> (\<forall>m. \<exists>d. sha m = Inr d)"

lemma seal_hdr [simp]: "g_hdr (kg_guard_unlock_release sha g) = g_hdr g"
  and seal_cpu [simp]: "g_cpu (kg_guard_unlock_release sha g) = g_cpu g"
  by (simp_all add: kg_guard_unlock_release_def kg_guard_update_locked_def split: sum.splits)

lemma seal_verify:
  assumes "sha_total_fn sha" and "g_cpu g \<noteq> None"
  shows "kg_guard_verify sha (kg_guard_unlock_release sha g)"
proof -
  from assms(2) obtain cpus where c: "g_cpu g = Some cpus" by blast
  from assms(1) obtain d where "sha (guard_region (g_hdr g) cpus) = Inr d"
    by (auto simp: sha_total_fn_def)
  with c show ?thesis
    by (simp add: kg_guard_verify_def kg_guard_unlock_release_def kg_guard_update_locked_def kg_guard_compute_def)
qed

section \<open>The contract of a sealed policy store\<close>

text \<open>
  What the mitigation engine relies on: ending a critical section re-seals the store without
  changing the policy in it, and a sealed store verifies.
\<close>

locale sealed_store =
  fixes seal :: "'h \<Rightarrow> 'g \<Rightarrow> 'g"
    and check :: "'h \<Rightarrow> 'g \<Rightarrow> bool"
    and policy :: "'g \<Rightarrow> 'p"
    and good :: "'h \<Rightarrow> bool"
    and present :: "'p \<Rightarrow> bool"
  assumes check_seal: "good h \<Longrightarrow> present (policy g) \<Longrightarrow> check h (seal h g)"
    and policy_seal: "policy (seal h g) = policy g"
begin

lemma section_checks:
  assumes "good h" and "present (policy (f g))"
  shows "check h (seal h (f g)) \<and> policy (seal h (f g)) = policy (f g)"
  using check_seal [OF assms] policy_seal by simp

lemma fold_checks:
  assumes "good h" and "fs \<noteq> []" and "\<And>f g. f \<in> set fs \<Longrightarrow> present (policy g) \<Longrightarrow> present (policy (f g))"
    and "present (policy g)"
  shows "check h (fold (\<lambda>f g. seal h (f g)) fs g)"
  using assms(2-4)
proof (induction fs arbitrary: g)
  case Nil
  then show ?case by simp
next
  case (Cons f fs)
  have p: "present (policy (seal h (f g)))"
    using Cons.prems(2) [of f g] Cons.prems(3) by (simp add: policy_seal)
  show ?case
  proof (cases "fs = []")
    case True
    with Cons.prems show ?thesis by (simp add: check_seal [OF assms(1)])
  next
    case False
    from Cons.IH [OF this _ p] Cons.prems(2) show ?thesis by simp
  qed
qed

end

abbreviation guard_policy :: "kg_guard \<Rightarrow> kg_guard_hdr \<times> kg_cpu_mit list option" where
  "guard_policy g \<equiv> (g_hdr g, g_cpu g)"

interpretation guard: sealed_store kg_guard_unlock_release kg_guard_verify guard_policy
  sha_total_fn "\<lambda>p. snd p \<noteq> None"
  by unfold_locales (use seal_verify in auto)

section \<open>Properties\<close>

lemma guard_region_inj:
  assumes "guard_region h cpus = guard_region h' cpus'"
    and "length cpus = unat (h_ncpu h)" and "length cpus' = length cpus"
  shows "h = h' \<and> cpus = cpus'"
proof -
  have "take 20 (guard_region h cpus) = hdr_bytes h" for h cpus
    by (simp add: guard_region_def)
  with assms(1) have h: "h = h'" by (metis hdr_bytes_inj)
  have "drop 20 (guard_region h cpus) = concat (map mit_bytes (take (unat (h_ncpu h)) cpus))" for h cpus
    by (simp add: guard_region_def)
  with assms h have "concat (map mit_bytes cpus) = concat (map mit_bytes cpus')"
    by (metis order_refl take_all)
  then have "cpus = cpus'" using assms(3) by (subst (asm) concat_mit_bytes_inj) simp_all
  with h show ?thesis by simp
qed

text \<open>
  C36. Tamper evidence: take a guard that verifies and overwrite any field of the header (posture,
  fail-safe flag, CPU count) or any entry of the strategy table.  Unless the two different byte
  regions happen to collide under the hash, the next \<open>kg_guard_verify\<close> fails: the hashed image
  covers and determines every field of the policy.
\<close>

theorem guard_tamper_detected:
  assumes "kg_guard_verify sha g" and "g_cpu g = Some cpus"
    and "length cpus = unat (h_ncpu (g_hdr g))" and "length cpus' = length cpus"
    and "hdr' \<noteq> g_hdr g \<or> cpus' \<noteq> cpus"
    and nocoll: "sha (guard_region (g_hdr g) cpus) = sha (guard_region hdr' cpus') \<Longrightarrow>
                 guard_region (g_hdr g) cpus = guard_region hdr' cpus'"
  shows "\<not> kg_guard_verify sha (g\<lparr>g_hdr := hdr', g_cpu := Some cpus'\<rparr>)"
proof
  assume v: "kg_guard_verify sha (g\<lparr>g_hdr := hdr', g_cpu := Some cpus'\<rparr>)"
  from assms(1,2) have "sha (guard_region (g_hdr g) cpus) = Inr (g_digest g)"
    by (simp add: kg_guard_verify_def kg_guard_compute_def split: sum.splits)
  moreover from v have "sha (guard_region hdr' cpus') = Inr (g_digest g)"
    by (simp add: kg_guard_verify_def kg_guard_compute_def split: sum.splits)
  ultimately have "guard_region (g_hdr g) cpus = guard_region hdr' cpus'"
    by (intro nocoll) simp
  from guard_region_inj [OF this assms(3,4)] assms(5) show False by auto
qed

definition example_mit :: kg_cpu_mit where
  "example_mit = \<lparr>m_features = 0x20, m_strategy = 1, m_base_strategy = 1, m_flush_cost_ns = 50,
     m_cat_ways = 0, m_pad = 0, m_cat_sens_cbm = 0, m_cat_def_cbm = 0\<rparr>"

definition example_guard :: "sha_fn \<Rightarrow> kg_guard" where
  "example_guard sha = kg_guard_unlock_release sha
     \<lparr>g_hdr = \<lparr>h_magic = 0x4B474744, h_abi = 1, h_ncpu = 2, h_failsafe = 0, h_posture = 0\<rparr>,
      g_cpu = Some [example_mit, example_mit], g_digest = [], g_valid = False\<rparr>"

lemma example_guard_verifies: "sha_total_fn sha \<Longrightarrow> kg_guard_verify sha (example_guard sha)"
  unfolding example_guard_def by (rule seal_verify) simp_all

text \<open>At the transform that returns its input, which has no collisions: clearing one CPU's strategy.\<close>

theorem guard_tamper_detected_witness:
  "kg_guard_verify Inr (example_guard Inr) \<and>
   \<not> kg_guard_verify Inr ((example_guard Inr)
       \<lparr>g_hdr := g_hdr (example_guard Inr), g_cpu := Some [example_mit, example_mit\<lparr>m_strategy := 0\<rparr>]\<rparr>)"
proof -
  have v: "kg_guard_verify Inr (example_guard Inr)"
    by (rule example_guard_verifies) (simp add: sha_total_fn_def)
  show ?thesis
    using v guard_tamper_detected [OF v, of "[example_mit, example_mit]"
        "[example_mit, example_mit\<lparr>m_strategy := 0\<rparr>]" "g_hdr (example_guard Inr)"]
    by (simp add: example_guard_def example_mit_def)
qed

end
