(* ===== verification/KG_Mitigate.thy ===== *)
theory KG_Mitigate
  imports KG_Guard
begin

text \<open>
  Module 4, the mitigation engine (\<^verbatim>\<open>src/linux/module/kg_mitigate.c\<close>, with the flush
  primitives of \<^verbatim>\<open>src/linux/module/kg.h\<close>): capability probe and strategy choice, the guarded
  strategy table and the operations that change it, and the security-boundary flush.  The
  instructions a flush issues are recorded as a list of \<open>hw_op\<close>; what CPUID and the MSRs report
  is the record \<open>cpu_facts\<close>.
\<close>

unbundle bit_operations_syntax

section \<open>Capability probe\<close>

text \<open>What the probing CPU reports: feature and bug bits, the MSR value if it can be read, CPUID leaf 10H.\<close>

record cpu_facts =
  f_arch_cap :: bool
  f_arch_cap_msr :: "u64 option"
  f_md_clear :: bool
  f_verw_clear :: bool
  f_flush_l1d :: bool
  f_ibpb :: bool
  f_siblings :: nat
  f_cat_l3 :: bool
  f_cpuid_eax :: u32
  f_cpuid_edx :: u32
  f_bug_mds :: bool
  f_bug_taa :: bool
  f_bug_mmio :: bool
  f_bug_rfds :: bool
  f_bug_l1tf :: bool

record kg_probe =
  p_features :: u32
  p_strategy :: u8
  p_cost_ns :: u16
  p_cat_ways :: u16
  p_cat_sens_cbm :: u32
  p_cat_def_cbm :: u32

text \<open>Bits of \<open>IA32_ARCH_CAPABILITIES\<close>.\<close>

definition ARCH_CAP_RDCL_NO :: u64 where [kg_const]: "ARCH_CAP_RDCL_NO = 0x01"
definition ARCH_CAP_IBRS_ALL :: u64 where [kg_const]: "ARCH_CAP_IBRS_ALL = 0x02"
definition ARCH_CAP_SSB_NO :: u64 where [kg_const]: "ARCH_CAP_SSB_NO = 0x10"
definition ARCH_CAP_MDS_NO :: u64 where [kg_const]: "ARCH_CAP_MDS_NO = 0x20"

definition kg_cpu_needs_buffer_clear :: "cpu_facts \<Rightarrow> bool" where
  "kg_cpu_needs_buffer_clear c \<longleftrightarrow> f_bug_mds c \<or> f_bug_taa c \<or> f_bug_mmio c \<or> f_bug_rfds c"

definition flag :: "bool \<Rightarrow> 'a::len word \<Rightarrow> 'a word" where
  "flag b w = (if b then w else 0)"

text \<open>The L3 partition: the top quarter of the ways (at least one) for sensitive work.\<close>

definition cat_ways :: "u32 \<Rightarrow> nat" where
  "cat_ways eax = unat (eax AND 0x1f) + 1"

definition cat_sens :: "nat \<Rightarrow> nat" where
  "cat_sens ways = (if 4 \<le> ways then ways div 4 else 1)"

definition cat_sens_mask :: "nat \<Rightarrow> u64" where
  "cat_sens_mask ways = push_bit (ways - cat_sens ways) (push_bit (cat_sens ways) 1 - 1)"

definition cat_all_mask :: "nat \<Rightarrow> u64" where
  "cat_all_mask ways = push_bit ways 1 - 1"

definition kg_probe_this_cpu :: "cpu_facts \<Rightarrow> kg_probe" where
  "kg_probe_this_cpu c =
     (let msr = (if f_arch_cap c then f_arch_cap_msr c else None);
          cap = (case msr of Some v \<Rightarrow> v | None \<Rightarrow> 0);
          cat = (f_cat_l3 c \<and> 1 \<le> (f_cpuid_edx c AND 0xffff));
          ways = cat_ways (f_cpuid_eax c);
          f = flag (msr \<noteq> None) KG_FEAT_ARCH_CAP_MSR OR
              flag (cap AND ARCH_CAP_RDCL_NO \<noteq> 0) (KG_FEAT_RDCL_NO OR KG_FEAT_L1TF_NO) OR
              flag (cap AND ARCH_CAP_MDS_NO \<noteq> 0) KG_FEAT_MDS_NO OR
              flag (cap AND ARCH_CAP_IBRS_ALL \<noteq> 0) KG_FEAT_IBRS_ALL OR
              flag (cap AND ARCH_CAP_SSB_NO \<noteq> 0) KG_FEAT_SSB_NO OR
              flag (f_md_clear c \<or> f_verw_clear c) KG_FEAT_VERW_FLUSH OR
              flag (f_flush_l1d c) KG_FEAT_L1D_FLUSH OR
              flag (f_ibpb c) KG_FEAT_IBPB OR
              flag (1 < f_siblings c) KG_FEAT_SMT OR
              flag cat KG_FEAT_CAT_L3;
          mds = kg_cpu_needs_buffer_clear c;
          l1tf = f_bug_l1tf c;
          (strat, cost) =
            (if \<not> mds \<and> \<not> l1tf then (KG_STRAT_NONE, 0)
             else if mds \<and> \<not> l1tf then (KG_STRAT_VERW, 50)
             else if \<not> mds \<and> l1tf then (KG_STRAT_L1D, 200)
             else if f AND KG_FEAT_VERW_FLUSH \<noteq> 0 then (KG_STRAT_VERW_L1D, 250)
             else (KG_STRAT_FULL, 500))
      in \<lparr>p_features = f, p_strategy = strat, p_cost_ns = cost,
          p_cat_ways = (if cat then of_nat ways else 0),
          p_cat_sens_cbm = (if cat then ucast (cat_sens_mask ways) else 0),
          p_cat_def_cbm = (if cat then ucast (cat_all_mask ways AND NOT (cat_sens_mask ways)) else 0)\<rparr>)"

section \<open>Policy mutation\<close>

text \<open>Overwrite the strategy of the first \<open>n\<close> entries, as the \<open>for\<close> loops over the CPUs do.\<close>

definition map_first :: "nat \<Rightarrow> ('a \<Rightarrow> 'a) \<Rightarrow> 'a list \<Rightarrow> 'a list" where
  "map_first n f xs = map f (take n xs) @ drop n xs"

abbreviation upd_cpus :: "(kg_cpu_mit list \<Rightarrow> kg_cpu_mit list) \<Rightarrow> kg_guard \<Rightarrow> kg_guard" where
  "upd_cpus f g \<equiv> g\<lparr>g_cpu := map_option f (g_cpu g)\<rparr>"

abbreviation ncpu_int :: "kg_guard \<Rightarrow> int" where
  "ncpu_int g \<equiv> sint (h_ncpu (g_hdr g))"

definition set_full :: "kg_cpu_mit \<Rightarrow> kg_cpu_mit" where
  "set_full m = m\<lparr>m_strategy := KG_STRAT_FULL\<rparr>"

definition set_base :: "kg_cpu_mit \<Rightarrow> kg_cpu_mit" where
  "set_base m = m\<lparr>m_strategy := m_base_strategy m\<rparr>"

definition kg_mit_store :: "sha_fn \<Rightarrow> nat \<Rightarrow> kg_probe \<Rightarrow> kg_guard \<Rightarrow> kg_guard" where
  "kg_mit_store sha cpu p g =
     kg_guard_unlock_release sha
       (upd_cpus (\<lambda>cs. cs[cpu := (cs ! cpu)\<lparr>m_features := p_features p,
            m_base_strategy := p_strategy p,
            m_strategy := (if KG_POSTURE_HIGH \<le> h_posture (g_hdr g) then KG_STRAT_FULL else p_strategy p),
            m_flush_cost_ns := p_cost_ns p, m_cat_ways := p_cat_ways p,
            m_cat_sens_cbm := p_cat_sens_cbm p, m_cat_def_cbm := p_cat_def_cbm p\<rparr>]) g)"

definition kg_mit_cpu_online :: "sha_fn \<Rightarrow> cpu_facts \<Rightarrow> nat \<Rightarrow> kg_guard \<Rightarrow> kg_guard" where
  "kg_mit_cpu_online sha c cpu g = kg_mit_store sha cpu (kg_probe_this_cpu c) g"

definition kg_mit_set_posture :: "sha_fn \<Rightarrow> u32 \<Rightarrow> kg_guard \<Rightarrow> kg_guard" where
  "kg_mit_set_posture sha posture g =
     (let n = nat (ncpu_int g);
          g1 = (if KG_POSTURE_HIGH \<le> posture then upd_cpus (map_first n set_full) g
                else if KG_POSTURE_HIGH \<le> h_posture (g_hdr g) then upd_cpus (map_first n set_base) g
                else g)
      in kg_guard_unlock_release sha
           (g1\<lparr>g_hdr := (g_hdr g1)\<lparr>h_posture := posture,
                 h_failsafe := (if posture = KG_POSTURE_FAILSAFE then 1 else 0)\<rparr>\<rparr>))"

definition kg_mit_enter_failsafe :: "sha_fn \<Rightarrow> kg_guard \<Rightarrow> kg_guard \<times> bool" where
  "kg_mit_enter_failsafe sha g =
     (if h_failsafe (g_hdr g) \<noteq> 0 then (kg_guard_unlock_release sha g, False)
      else (kg_guard_unlock_release sha
              (upd_cpus (map_first (nat (ncpu_int g)) set_full)
                 (g\<lparr>g_hdr := (g_hdr g)\<lparr>h_failsafe := 1, h_posture := KG_POSTURE_FAILSAFE\<rparr>\<rparr>)), True))"

definition kg_mit_escalate_cpu :: "sha_fn \<Rightarrow> int \<Rightarrow> kg_guard \<Rightarrow> kg_guard" where
  "kg_mit_escalate_cpu sha cpu g =
     (if cpu < 0 \<or> ncpu_int g \<le> cpu then g
      else kg_guard_unlock_release sha (upd_cpus (\<lambda>cs. cs[nat cpu := set_full (cs ! nat cpu)]) g))"

definition kg_mit_relax_cpu :: "sha_fn \<Rightarrow> int \<Rightarrow> kg_guard \<Rightarrow> kg_guard" where
  "kg_mit_relax_cpu sha cpu g =
     (if cpu < 0 \<or> ncpu_int g \<le> cpu then g
      else kg_guard_unlock_release sha
             (if h_posture (g_hdr g) < KG_POSTURE_HIGH
              then upd_cpus (\<lambda>cs. cs[nat cpu := set_base (cs ! nat cpu)]) g else g))"

section \<open>Initialisation and tear-down\<close>

definition zero_mit :: kg_cpu_mit where
  "zero_mit = \<lparr>m_features = 0, m_strategy = 0, m_base_strategy = 0, m_flush_cost_ns = 0,
     m_cat_ways = 0, m_pad = 0, m_cat_sens_cbm = 0, m_cat_def_cbm = 0\<rparr>"

text \<open>
  \<open>nr\<close> is \<open>nr_cpu_ids\<close>; \<open>alloc\<close> says whether \<open>kcalloc\<close> succeeds; \<open>hp\<close> is the result of
  \<open>cpuhp_setup_state\<close>, which runs the online callback on every CPU of \<open>online\<close> first.
\<close>

definition kg_mit_init ::
  "sha_fn \<Rightarrow> nat \<Rightarrow> bool \<Rightarrow> errno option \<Rightarrow> nat list \<Rightarrow> (nat \<Rightarrow> cpu_facts) \<Rightarrow> kg_guard \<Rightarrow> kg_guard \<times> errno option"
where
  "kg_mit_init sha nr alloc hp online facts g =
     (let g0 = g\<lparr>g_hdr := \<lparr>h_magic = 0x4B474744, h_abi = KG_ABI_VERSION, h_ncpu = of_nat nr,
                            h_failsafe = 0, h_posture = KG_POSTURE_NORMAL\<rparr>,
                  g_cpu := (if alloc then Some (replicate nr zero_mit) else None)\<rparr>
      in if \<not> alloc then (g0, Some ENOMEM)
         else let g1 = fold (\<lambda>cpu. kg_mit_cpu_online sha (facts cpu) cpu) online g0
              in case hp of
                   Some e \<Rightarrow> (g1\<lparr>g_cpu := None\<rparr>, Some e)
                 | None \<Rightarrow> (kg_guard_update sha g1, None))"

definition kg_mit_exit :: "kg_guard \<Rightarrow> kg_guard" where
  "kg_mit_exit g = (case g_cpu g of None \<Rightarrow> g | Some _ \<Rightarrow> g\<lparr>g_valid := False, g_cpu := None\<rparr>)"

section \<open>Flushing\<close>

datatype hw_op = Verw | L1d_flush | Lfence | Ibpb

definition kg_l1d_flush :: "kg_cpu_mit \<Rightarrow> hw_op list" where
  "kg_l1d_flush m = (if m_features m AND KG_FEAT_L1D_FLUSH \<noteq> 0 then [L1d_flush] else [])"

definition strategy_ops :: "kg_cpu_mit \<Rightarrow> hw_op list" where
  "strategy_ops m =
     (let s = m_strategy m
      in if s = KG_STRAT_NONE then []
         else if s = KG_STRAT_VERW then [Verw]
         else if s = KG_STRAT_L1D then kg_l1d_flush m
         else if s = KG_STRAT_VERW_L1D then [Verw] @ kg_l1d_flush m
         else if s = KG_STRAT_FULL then [Verw] @ kg_l1d_flush m @ [Lfence]
         else [])"

text \<open>The flush primitives count themselves in the statistics and issue their instructions.\<close>

definition kg_boundary_flush :: "kg_cpu_mit \<Rightarrow> kg_stats \<Rightarrow> kg_stats \<times> hw_op list" where
  "kg_boundary_flush m st = (st\<lparr>total_flush_count := total_flush_count st + 1\<rparr>, strategy_ops m)"

definition kg_boundary_flush_forced :: "kg_cpu_mit \<Rightarrow> kg_stats \<Rightarrow> kg_stats \<times> hw_op list" where
  "kg_boundary_flush_forced m st =
     (st\<lparr>total_flush_count := total_flush_count st + 1\<rparr>, [Verw] @ kg_l1d_flush m @ [Lfence])"

definition kg_flush_ipi :: "kg_cpu_mit \<Rightarrow> kg_stats \<Rightarrow> kg_stats \<times> hw_op list" where
  "kg_flush_ipi m st =
     (let s = m_strategy m;
          (st1, ops) = kg_boundary_flush m st;
          ibpb = (s = KG_STRAT_FULL \<and> m_features m AND KG_FEAT_IBPB \<noteq> 0);
          flags = flag (s = KG_STRAT_VERW \<or> s = KG_STRAT_VERW_L1D \<or> s = KG_STRAT_FULL) KG_MIT_VERW OR
            flag ((s = KG_STRAT_L1D \<or> s = KG_STRAT_VERW_L1D \<or> s = KG_STRAT_FULL) \<and>
                  m_features m AND KG_FEAT_L1D_FLUSH \<noteq> 0) KG_MIT_L1D_FLUSH OR
            flag ibpb KG_MIT_IBPB
      in (if flags \<noteq> 0 then st1\<lparr>active_mitigation_flags := active_mitigation_flags st1 OR flags\<rparr> else st1,
          ops @ (if ibpb then [Ibpb] else [])))"

text \<open>
  The CPUs of the machine: \<open>nr_cpu_ids\<close>, the online CPUs and the SMT siblings of each CPU (which
  include the CPU itself).  \<open>smp_call_function_single\<close> runs the IPI on the given CPU; the trace records
  which CPU issued which instructions.
\<close>

record kg_topo =
  tp_nr :: nat
  tp_online :: "nat list"
  tp_siblings :: "nat \<Rightarrow> nat list"

type_synonym flush_trace = "(nat \<times> hw_op list) list"

definition ipi_on :: "nat \<Rightarrow> kg_guard \<Rightarrow> kg_stats \<Rightarrow> kg_stats \<times> flush_trace" where
  "ipi_on cpu g st =
     (case g_cpu g of
        None \<Rightarrow> (st, [])
      | Some cs \<Rightarrow> (let (st', ops) = kg_flush_ipi (cs ! cpu) st in (st', [(cpu, ops)])))"

definition cpu_valid :: "kg_topo \<Rightarrow> int \<Rightarrow> bool" where
  "cpu_valid tp cpu \<longleftrightarrow> 0 \<le> cpu \<and> cpu < int (tp_nr tp) \<and> nat cpu \<in> set (tp_online tp)"

definition kg_mit_flush_cpu :: "kg_topo \<Rightarrow> int \<Rightarrow> kg_guard \<Rightarrow> kg_stats \<Rightarrow> kg_stats \<times> flush_trace" where
  "kg_mit_flush_cpu tp cpu g st = (if cpu_valid tp cpu then ipi_on (nat cpu) g st else (st, []))"

fun flush_sibs :: "sha_fn \<Rightarrow> kg_topo \<Rightarrow> nat \<Rightarrow> nat list \<Rightarrow> kg_guard \<Rightarrow> kg_stats \<Rightarrow> kg_guard \<times> kg_stats \<times> flush_trace" where
  "flush_sibs sha tp cpu [] g st = (g, st, [])"
| "flush_sibs sha tp cpu (sib # sibs) g st =
     (if sib = cpu \<or> sib \<notin> set (tp_online tp) then flush_sibs sha tp cpu sibs g st
      else let g1 = kg_mit_escalate_cpu sha (int sib) g;
               (st1, t) = ipi_on sib g1 st;
               (g2, st2, ts) = flush_sibs sha tp cpu sibs g1 st1
           in (g2, st2, t @ ts))"

definition kg_mit_flush_siblings ::
  "sha_fn \<Rightarrow> kg_topo \<Rightarrow> int \<Rightarrow> kg_guard \<Rightarrow> kg_stats \<Rightarrow> kg_guard \<times> kg_stats \<times> flush_trace" where
  "kg_mit_flush_siblings sha tp cpu g st =
     (if cpu < 0 \<or> int (tp_nr tp) \<le> cpu then (g, st, [])
      else flush_sibs sha tp (nat cpu) (tp_siblings tp (nat cpu)) g st)"

fun flush_each :: "nat list \<Rightarrow> kg_guard \<Rightarrow> kg_stats \<Rightarrow> kg_stats \<times> flush_trace" where
  "flush_each [] g st = (st, [])"
| "flush_each (cpu # cpus) g st =
     (let (st1, t) = ipi_on cpu g st; (st2, ts) = flush_each cpus g st1 in (st2, t @ ts))"

definition kg_mit_flush_all :: "kg_topo \<Rightarrow> kg_guard \<Rightarrow> kg_stats \<Rightarrow> kg_stats \<times> flush_trace" where
  "kg_mit_flush_all tp g st = flush_each (tp_online tp) g st"

section \<open>Query\<close>

record kg_cpu_info =
  ci_cpu :: u32
  ci_online :: bool
  ci_features :: u32
  ci_strategy :: u32
  ci_base_strategy :: u32
  ci_flush_cost_ns :: u32
  ci_cat_ways :: u32
  ci_cat_sensitive_cbm :: u32
  ci_cat_default_cbm :: u32

definition kg_mit_cpu_info :: "(nat \<Rightarrow> bool) \<Rightarrow> kg_guard \<Rightarrow> u32 \<Rightarrow> errno + kg_cpu_info" where
  "kg_mit_cpu_info online g cpu =
     (if h_ncpu (g_hdr g) \<le> cpu then Inl EINVAL
      else case g_cpu g of
             None \<Rightarrow> Inl EFAULT
           | Some cs \<Rightarrow>
               let m = cs ! unat cpu
               in Inr \<lparr>ci_cpu = cpu, ci_online = online (unat cpu), ci_features = m_features m,
                    ci_strategy = ucast (m_strategy m), ci_base_strategy = ucast (m_base_strategy m),
                    ci_flush_cost_ns = ucast (m_flush_cost_ns m), ci_cat_ways = ucast (m_cat_ways m),
                    ci_cat_sensitive_cbm = m_cat_sens_cbm m, ci_cat_default_cbm = m_cat_def_cbm m\<rparr>)"

section \<open>The policy invariant\<close>

text \<open>
  A live guard: the table has \<open>ncpu\<close> entries, the fail-safe flag says exactly that the posture is
  FAILSAFE, and from HIGH upwards every CPU is at full-spectrum mitigation.
\<close>

definition policy_wf :: "kg_guard_hdr \<Rightarrow> kg_cpu_mit list \<Rightarrow> bool" where
  "policy_wf h cs \<longleftrightarrow>
     int (length cs) = sint (h_ncpu h) \<and> h_posture h < KG_POSTURE_COUNT \<and>
     h_failsafe h = (if h_posture h = KG_POSTURE_FAILSAFE then 1 else 0) \<and>
     (KG_POSTURE_HIGH \<le> h_posture h \<longrightarrow> (\<forall>m \<in> set cs. m_strategy m = KG_STRAT_FULL))"

definition guard_wf :: "kg_guard \<Rightarrow> bool" where
  "guard_wf g \<longleftrightarrow> (case g_cpu g of None \<Rightarrow> False | Some cs \<Rightarrow> policy_wf (g_hdr g) cs)"

lemma guard_wfE:
  assumes "guard_wf g"
  obtains cs where "g_cpu g = Some cs" and "policy_wf (g_hdr g) cs"
  using assms by (auto simp: guard_wf_def split: option.splits)

lemma guard_wfI: "g_cpu g = Some cs \<Longrightarrow> policy_wf (g_hdr g) cs \<Longrightarrow> guard_wf g"
  by (simp add: guard_wf_def)

lemma length_map_first [simp]: "length (map_first n f xs) = length xs"
  by (simp add: map_first_def)

lemma map_first_all: "length xs \<le> n \<Longrightarrow> map_first n f xs = map f xs"
  by (simp add: map_first_def)

lemma set_full_strategy [simp]: "m_strategy (set_full m) = KG_STRAT_FULL"
  by (simp add: set_full_def)

lemma guard_wf_seal [simp]: "guard_wf (kg_guard_unlock_release sha g) = guard_wf g"
  by (simp add: guard_wf_def split: option.split)

lemma policy_wf_update:
  assumes "policy_wf h cs" and "KG_POSTURE_HIGH \<le> h_posture h \<Longrightarrow> m_strategy v = KG_STRAT_FULL"
  shows "policy_wf h (cs[i := v])"
proof -
  have "m_strategy m = KG_STRAT_FULL"
    if "m \<in> set (cs[i := v])" and "KG_POSTURE_HIGH \<le> h_posture h" for m
    using that assms set_update_subset [of cs i v] by (auto simp: policy_wf_def)
  with assms(1) show ?thesis by (simp add: policy_wf_def)
qed

lemma policy_wf_full:
  assumes "policy_wf h cs" and "p < KG_POSTURE_COUNT"
  shows "policy_wf (h\<lparr>h_posture := p, h_failsafe := (if p = KG_POSTURE_FAILSAFE then 1 else 0)\<rparr>)
           (map_first (nat (sint (h_ncpu h))) set_full cs)"
  using assms by (auto simp: policy_wf_def map_first_all)

lemma policy_wf_low:
  assumes "policy_wf h cs" and "p < KG_POSTURE_HIGH" and "length cs' = length cs"
  shows "policy_wf (h\<lparr>h_posture := p, h_failsafe := 0\<rparr>) cs'"
proof -
  from assms(2) have "unat p < 2" by (simp add: kg_const word_less_nat_alt)
  then have "p < KG_POSTURE_COUNT" "p \<noteq> KG_POSTURE_FAILSAFE" "\<not> KG_POSTURE_HIGH \<le> p"
    by (auto simp: kg_const word_less_nat_alt word_le_nat_alt)
  with assms(1,3) show ?thesis by (simp add: policy_wf_def)
qed

lemma kg_mit_store_wf [kg_inv]:
  assumes "guard_wf g"
  shows "guard_wf (kg_mit_store sha cpu p g)"
proof -
  from assms obtain cs where "g_cpu g = Some cs" and "policy_wf (g_hdr g) cs" by (rule guard_wfE)
  then show ?thesis
    unfolding kg_mit_store_def guard_wf_seal by (simp add: guard_wf_def policy_wf_update)
qed

lemma kg_mit_set_posture_wf [kg_inv]:
  assumes "guard_wf g" and "p < KG_POSTURE_COUNT"
  shows "guard_wf (kg_mit_set_posture sha p g)"
proof -
  from assms obtain cs where c: "g_cpu g = Some cs" and wf: "policy_wf (g_hdr g) cs"
    by (auto elim: guard_wfE)
  show ?thesis
  proof (cases "KG_POSTURE_HIGH \<le> p")
    case True
    with c policy_wf_full [OF wf assms(2)] show ?thesis
      unfolding kg_mit_set_posture_def Let_def guard_wf_seal by (intro guard_wfI) auto
  next
    case False
    then have low: "p < KG_POSTURE_HIGH" "p \<noteq> KG_POSTURE_FAILSAFE"
      by (auto simp: kg_const)
    have "policy_wf ((g_hdr g)\<lparr>h_posture := p, h_failsafe := 0\<rparr>) cs'" if "length cs' = length cs" for cs'
      using policy_wf_low [OF wf low(1) that] .
    with c False low(2) show ?thesis
      unfolding kg_mit_set_posture_def Let_def guard_wf_seal by (auto intro: guard_wfI)
  qed
qed

lemma kg_mit_enter_failsafe_wf [kg_inv]:
  assumes "guard_wf g"
  shows "guard_wf (fst (kg_mit_enter_failsafe sha g))"
proof -
  from assms obtain cs where c: "g_cpu g = Some cs" and wf: "policy_wf (g_hdr g) cs"
    by (rule guard_wfE)
  from policy_wf_full [OF wf, of KG_POSTURE_FAILSAFE] assms c show ?thesis
    by (simp add: kg_mit_enter_failsafe_def guard_wf_def policy_wf_def kg_const)
qed

lemma kg_mit_escalate_wf [kg_inv]:
  assumes "guard_wf g"
  shows "guard_wf (kg_mit_escalate_cpu sha cpu g)"
proof -
  from assms obtain cs where "g_cpu g = Some cs" and "policy_wf (g_hdr g) cs" by (rule guard_wfE)
  then have "guard_wf (upd_cpus (\<lambda>cs. cs[nat cpu := set_full (cs ! nat cpu)]) g)"
    by (simp add: guard_wf_def policy_wf_update not_le)
  with assms show ?thesis by (simp add: kg_mit_escalate_cpu_def)
qed

lemma kg_mit_relax_wf [kg_inv]:
  assumes "guard_wf g"
  shows "guard_wf (kg_mit_relax_cpu sha cpu g)"
proof -
  from assms obtain cs where "g_cpu g = Some cs" and "policy_wf (g_hdr g) cs" by (rule guard_wfE)
  then have "h_posture (g_hdr g) < KG_POSTURE_HIGH \<Longrightarrow>
      guard_wf (upd_cpus (\<lambda>cs. cs[nat cpu := set_base (cs ! nat cpu)]) g)"
    by (simp add: guard_wf_def policy_wf_update not_le)
  with assms show ?thesis by (simp add: kg_mit_relax_cpu_def)
qed

section \<open>Steps of the engine\<close>

text \<open>Every way the guarded policy changes while the module is loaded, in any order.\<close>

inductive guard_step :: "sha_fn \<Rightarrow> kg_guard \<Rightarrow> kg_guard \<Rightarrow> bool" for sha where
  online: "guard_step sha g (kg_mit_cpu_online sha c cpu g)"
| posture: "p < KG_POSTURE_COUNT \<Longrightarrow> guard_step sha g (kg_mit_set_posture sha p g)"
| failsafe: "guard_step sha g (fst (kg_mit_enter_failsafe sha g))"
| escalate: "guard_step sha g (kg_mit_escalate_cpu sha cpu g)"
| relax: "guard_step sha g (kg_mit_relax_cpu sha cpu g)"
| rehash: "guard_step sha g (kg_guard_update sha g)"

definition guard_ok :: "sha_fn \<Rightarrow> kg_guard \<Rightarrow> bool" where
  "guard_ok sha g \<longleftrightarrow> guard_wf g \<and> kg_guard_verify sha g"

lemma guard_wf_present: "guard_wf g \<Longrightarrow> g_cpu g \<noteq> None"
  by (auto elim: guard_wfE)

lemma guard_ok_seal: "sha_total_fn sha \<Longrightarrow> guard_wf g \<Longrightarrow> guard_ok sha (kg_guard_unlock_release sha g)"
  by (simp add: guard_ok_def seal_verify guard_wf_present)

lemma guard_step_wf: "guard_step sha g g' \<Longrightarrow> guard_wf g \<Longrightarrow> guard_wf g'"
  by (induction rule: guard_step.induct)
    (simp_all add: kg_inv kg_mit_cpu_online_def kg_guard_update_def
      guard_wf_seal [unfolded kg_guard_unlock_release_def])

text \<open>Each operation either does nothing or ends by re-sealing, so it keeps the guard intact.\<close>

lemma guard_step_sealed:
  "guard_step sha g g' \<Longrightarrow> g' = g \<or> (\<exists>x. g' = kg_guard_unlock_release sha x)"
proof (induction rule: guard_step.induct)
  case (online g c cpu)
  then show ?case unfolding kg_mit_cpu_online_def kg_mit_store_def by blast
next
  case (posture p g)
  then show ?case unfolding kg_mit_set_posture_def Let_def by blast
next
  case (failsafe g)
  then show ?case by (cases "h_failsafe (g_hdr g) = 0") (auto simp: kg_mit_enter_failsafe_def)
next
  case (escalate g cpu)
  then show ?case by (cases "cpu < 0 \<or> ncpu_int g \<le> cpu") (auto simp: kg_mit_escalate_cpu_def)
next
  case (relax g cpu)
  then show ?case by (cases "cpu < 0 \<or> ncpu_int g \<le> cpu") (auto simp: kg_mit_relax_cpu_def)
next
  case (rehash g)
  then show ?case by (auto simp: kg_guard_update_def kg_guard_unlock_release_def)
qed

lemma guard_step_ok:
  assumes "sha_total_fn sha" and "guard_step sha g g'" and "guard_ok sha g"
  shows "guard_ok sha g'"
proof -
  have wf: "guard_wf g'" using assms by (auto simp: guard_ok_def intro: guard_step_wf)
  from guard_step_sealed [OF assms(2)] show ?thesis
    using assms(1,3) wf guard_ok_seal [OF assms(1)] by auto
qed

lemma guard_steps_ok:
  assumes "sha_total_fn sha" and "(guard_step sha)\<^sup>*\<^sup>* g g'" and "guard_ok sha g"
  shows "guard_ok sha g'"
  using assms(2,3) by (induction rule: rtranclp_induct) (auto intro: guard_step_ok [OF assms(1)])

lemma sint_of_nat: "nr < 2 ^ 31 \<Longrightarrow> sint (of_nat nr :: u32) = int nr"
  by (simp add: sint_uint unsigned_of_nat take_bit_nat_eq_self signed_take_bit_int_eq_self_iff
      signed_take_bit_int_eq_self take_bit_int_eq_self)

lemma kg_mit_init_ok:
  assumes "sha_total_fn sha" and "nr < 2 ^ 31" and "kg_mit_init sha nr alloc hp online facts g0 = (g, None)"
  shows "guard_ok sha g"
proof -
  let ?g = "g0\<lparr>g_hdr := \<lparr>h_magic = 0x4B474744, h_abi = KG_ABI_VERSION, h_ncpu = of_nat nr,
      h_failsafe = 0, h_posture = KG_POSTURE_NORMAL\<rparr>, g_cpu := Some (replicate nr zero_mit)\<rparr>"
  have "guard_wf ?g"
    using assms(2) by (simp add: guard_wf_def policy_wf_def sint_of_nat kg_const)
  then have "guard_wf (fold (\<lambda>cpu. kg_mit_cpu_online sha (facts cpu) cpu) online ?g)"
    by (induction online arbitrary: g0 rule: rev_induct) (auto simp: kg_mit_cpu_online_def kg_mit_store_wf)
  moreover have "g = kg_guard_update sha (fold (\<lambda>cpu. kg_mit_cpu_online sha (facts cpu) cpu) online ?g)"
    using assms(3) by (auto simp: kg_mit_init_def Let_def split: if_splits option.splits)
  ultimately show ?thesis
    using guard_ok_seal [OF assms(1)] by (simp add: kg_guard_update_def kg_guard_unlock_release_def)
qed

section \<open>Feature bits and partition masks\<close>

lemma flag_and [simp]: "flag b w AND m = flag b (w AND m)"
  by (simp add: flag_def)

lemma flag_eq_0 [simp]: "flag b w = 0 \<longleftrightarrow> \<not> b \<or> w = 0"
  by (simp add: flag_def)

lemma probe_verw_bit: "p_features (kg_probe_this_cpu c) AND KG_FEAT_VERW_FLUSH \<noteq> 0 \<longleftrightarrow> f_md_clear c \<or> f_verw_clear c"
  by (simp add: kg_probe_this_cpu_def Let_def case_prod_unfold bit.conj_disj_distrib2 kg_const)

lemma probe_l1d_bit: "p_features (kg_probe_this_cpu c) AND KG_FEAT_L1D_FLUSH \<noteq> 0 \<longleftrightarrow> f_flush_l1d c"
  by (simp add: kg_probe_this_cpu_def Let_def case_prod_unfold bit.conj_disj_distrib2 kg_const)

lemma probe_strategy:
  "p_strategy (kg_probe_this_cpu c) =
     (if \<not> kg_cpu_needs_buffer_clear c then (if f_bug_l1tf c then KG_STRAT_L1D else KG_STRAT_NONE)
      else if \<not> f_bug_l1tf c then KG_STRAT_VERW
      else if f_md_clear c \<or> f_verw_clear c then KG_STRAT_VERW_L1D else KG_STRAT_FULL)"
proof -
  have "p_strategy (kg_probe_this_cpu c) =
     (if \<not> kg_cpu_needs_buffer_clear c then (if f_bug_l1tf c then KG_STRAT_L1D else KG_STRAT_NONE)
      else if \<not> f_bug_l1tf c then KG_STRAT_VERW
      else if p_features (kg_probe_this_cpu c) AND KG_FEAT_VERW_FLUSH \<noteq> 0 then KG_STRAT_VERW_L1D
      else KG_STRAT_FULL)"
    by (simp add: kg_probe_this_cpu_def Let_def case_prod_unfold)
  then show ?thesis by (simp only: probe_verw_bit)
qed

lemma bit_cat_sens_mask:
  "ways \<le> 32 \<Longrightarrow> 1 \<le> ways \<Longrightarrow> bit (cat_sens_mask ways) i \<longleftrightarrow> ways - cat_sens ways \<le> i \<and> i < ways"
  by (auto simp: cat_sens_mask_def cat_sens_def bit_simps mask_eq_exp_minus_1 [symmetric] push_bit_of_1
      simp flip: mask_eq_decr_exp)

lemma bit_cat_all_mask: "ways \<le> 32 \<Longrightarrow> bit (cat_all_mask ways) i \<longleftrightarrow> i < ways"
  by (auto simp: cat_all_mask_def bit_simps push_bit_of_1 simp flip: mask_eq_decr_exp)

lemma cat_ways_bounds: "1 \<le> cat_ways eax" "cat_ways eax \<le> 32"
proof -
  have "eax AND 0x1f \<le> 0x1f" by (rule word_and_le1)
  then have "unat (eax AND 0x1f) \<le> 31" by (simp add: word_le_nat_alt)
  then show "1 \<le> cat_ways eax" "cat_ways eax \<le> 32" by (simp_all add: cat_ways_def)
qed

section \<open>Properties\<close>

text \<open>
  C6. From a successful \<open>kg_mit_init\<close>, after any sequence of CPU hot-plug probes, posture changes,
  fail-safe entries, escalations, relaxations and re-hashes, the guard hash matches the table it
  protects, the fail-safe flag is set exactly in posture FAILSAFE, and while the posture is HIGH or
  FAILSAFE every CPU is at full-spectrum mitigation: the PMU sampler's relax step cannot go below
  that floor.
\<close>

theorem mit_policy_invariant:
  assumes "sha_total_fn sha" and "nr < 2 ^ 31"
    and "kg_mit_init sha nr alloc hp online facts g0 = (g, None)"
    and "(guard_step sha)\<^sup>*\<^sup>* g g'"
  shows "kg_guard_verify sha g' \<and>
         (kg_in_failsafe g' \<longleftrightarrow> kg_posture g' = KG_POSTURE_FAILSAFE) \<and>
         (\<exists>cs. g_cpu g' = Some cs \<and> int (length cs) = ncpu_int g' \<and>
               (KG_POSTURE_HIGH \<le> kg_posture g' \<longrightarrow> (\<forall>m \<in> set cs. m_strategy m = KG_STRAT_FULL)))"
proof -
  from guard_steps_ok [OF assms(1,4) kg_mit_init_ok [OF assms(1-3)]]
  have ok: "guard_wf g'" "kg_guard_verify sha g'" by (simp_all add: guard_ok_def)
  from ok(1) obtain cs where "g_cpu g' = Some cs" and "policy_wf (g_hdr g') cs" by (rule guard_wfE)
  with ok(2) show ?thesis
    by (auto simp: policy_wf_def kg_in_failsafe_def kg_posture_def)
qed

definition example_facts :: cpu_facts where
  "example_facts = \<lparr>f_arch_cap = True, f_arch_cap_msr = Some 0x02, f_md_clear = True, f_verw_clear = False,
     f_flush_l1d = True, f_ibpb = True, f_siblings = 2, f_cat_l3 = True, f_cpuid_eax = 10, f_cpuid_edx = 15,
     f_bug_mds = True, f_bug_taa = False, f_bug_mmio = False, f_bug_rfds = False, f_bug_l1tf = True\<rparr>"

theorem mit_policy_invariant_witness:
  "let g = fst (kg_mit_init Inr 2 True None [0, 1] (\<lambda>_. example_facts) (example_guard Inr));
       g' = kg_mit_relax_cpu Inr 1 (kg_mit_set_posture Inr KG_POSTURE_HIGH g)
   in kg_posture g' = KG_POSTURE_HIGH \<and> kg_guard_verify Inr g' \<and>
      (\<exists>cs. g_cpu g' = Some cs \<and> (\<forall>m \<in> set cs. m_strategy m = KG_STRAT_FULL))"
proof -
  define g where "g = fst (kg_mit_init Inr 2 True None [0, 1] (\<lambda>_. example_facts) (example_guard Inr))"
  define g' where "g' = kg_mit_relax_cpu Inr 1 (kg_mit_set_posture Inr KG_POSTURE_HIGH g)"
  have i: "kg_mit_init Inr 2 True None [0, 1] (\<lambda>_. example_facts) (example_guard Inr) = (g, None)"
    by (simp add: g_def kg_mit_init_def Let_def)
  have "guard_step Inr g (kg_mit_set_posture Inr KG_POSTURE_HIGH g)"
    by (rule guard_step.posture) (simp add: kg_const)
  then have s: "(guard_step Inr)\<^sup>*\<^sup>* g g'"
    unfolding g'_def by (meson guard_step.relax r_into_rtranclp rtranclp.rtrancl_into_rtrancl)
  have p: "kg_posture g' = KG_POSTURE_HIGH"
    by (simp add: g'_def kg_posture_def kg_mit_relax_cpu_def kg_mit_set_posture_def Let_def)
  have "sha_total_fn Inr" by (simp add: sha_total_fn_def)
  from mit_policy_invariant [OF this _ i s] p show ?thesis
    unfolding Let_def g_def [symmetric] g'_def [symmetric] by auto
qed

text \<open>
  The strategy chosen by the probe is sufficient: on a CPU that needs its buffers cleared (MDS, TAA,
  MMIO stale data or RFDS) a security-boundary flush issues VERW, on one affected by L1TF it flushes
  the L1D whenever the CPU has the flush command, and on one affected by neither it issues nothing.
\<close>

theorem probe_strategy_sufficient:
  assumes "m_features m = p_features (kg_probe_this_cpu c)"
    and "m_strategy m = p_strategy (kg_probe_this_cpu c)"
  shows "(kg_cpu_needs_buffer_clear c \<longrightarrow> Verw \<in> set (snd (kg_boundary_flush m st))) \<and>
         (f_bug_l1tf c \<and> f_flush_l1d c \<longrightarrow> L1d_flush \<in> set (snd (kg_boundary_flush m st))) \<and>
         (\<not> kg_cpu_needs_buffer_clear c \<and> \<not> f_bug_l1tf c \<longrightarrow> snd (kg_boundary_flush m st) = [])"
proof -
  have "kg_l1d_flush m = (if f_flush_l1d c then [L1d_flush] else [])"
    using probe_l1d_bit [of c] by (simp add: kg_l1d_flush_def assms(1))
  then show ?thesis
    by (simp add: kg_boundary_flush_def strategy_ops_def assms(2) probe_strategy Let_def kg_const)
qed

theorem probe_strategy_sufficient_witness:
  "let p = kg_probe_this_cpu example_facts;
       m = zero_mit\<lparr>m_features := p_features p, m_strategy := p_strategy p\<rparr>
   in Verw \<in> set (snd (kg_boundary_flush m zero_stats)) \<and> L1d_flush \<in> set (snd (kg_boundary_flush m zero_stats))"
proof -
  let ?p = "kg_probe_this_cpu example_facts"
  let ?m = "zero_mit\<lparr>m_features := p_features ?p, m_strategy := p_strategy ?p\<rparr>"
  have "m_features ?m = p_features ?p" "m_strategy ?m = p_strategy ?p" by simp_all
  from probe_strategy_sufficient [OF this, of zero_stats] show ?thesis
    by (simp add: Let_def example_facts_def kg_cpu_needs_buffer_clear_def)
qed

text \<open>
  The L3 partition the probe computes: of \<open>n\<close> ways (1 to 32) the sensitive mask is the contiguous
  top quarter, at least one way, and the default mask is exactly the rest; the two never overlap and
  nothing is lost when they are truncated to 32 bits.
\<close>

theorem probe_cat_partition:
  assumes "f_cat_l3 c" and "1 \<le> (f_cpuid_edx c AND 0xffff)"
  shows "let p = kg_probe_this_cpu c; n = cat_ways (f_cpuid_eax c) in
         unat (p_cat_ways p) = n \<and> 1 \<le> n \<and> n \<le> 32 \<and>
         (\<forall>i. bit (p_cat_sens_cbm p) i \<longleftrightarrow> n - cat_sens n \<le> i \<and> i < n) \<and>
         (\<forall>i. bit (p_cat_def_cbm p) i \<longleftrightarrow> i < n - cat_sens n) \<and>
         p_cat_sens_cbm p \<noteq> 0 \<and> p_cat_sens_cbm p AND p_cat_def_cbm p = 0"
proof -
  let ?p = "kg_probe_this_cpu c" and ?n = "cat_ways (f_cpuid_eax c)"
  note n = cat_ways_bounds [of "f_cpuid_eax c"]
  have p: "p_cat_ways ?p = of_nat ?n" "p_cat_sens_cbm ?p = ucast (cat_sens_mask ?n)"
    "p_cat_def_cbm ?p = ucast (cat_all_mask ?n AND NOT (cat_sens_mask ?n))"
    using assms by (simp_all add: kg_probe_this_cpu_def Let_def case_prod_unfold)
  have s: "1 \<le> cat_sens ?n" "cat_sens ?n \<le> ?n" using n by (auto simp: cat_sens_def)
  have ways: "unat (p_cat_ways ?p) = ?n"
    using n by (simp add: p unsigned_of_nat take_bit_nat_eq_self_iff)
  have sens: "bit (p_cat_sens_cbm ?p) i \<longleftrightarrow> ?n - cat_sens ?n \<le> i \<and> i < ?n" for i
    using n by (auto simp: p bit_simps bit_cat_sens_mask)
  have def: "bit (p_cat_def_cbm ?p) i \<longleftrightarrow> i < ?n - cat_sens ?n" for i
    using n s by (auto simp: p bit_simps bit_cat_sens_mask bit_cat_all_mask)
  have "bit (p_cat_sens_cbm ?p) (?n - 1)" using n s by (simp add: sens)
  then have "p_cat_sens_cbm ?p \<noteq> 0" by (metis bit_0_eq bot_apply bot_bool_def)
  moreover have "p_cat_sens_cbm ?p AND p_cat_def_cbm ?p = 0"
    by (rule bit_word_eqI) (simp add: bit_simps sens def)
  ultimately show ?thesis using ways n sens def by (simp add: Let_def)
qed

theorem probe_cat_partition_witness:
  "f_cat_l3 example_facts \<and> unat (p_cat_ways (kg_probe_this_cpu example_facts)) = 11 \<and>
   p_cat_sens_cbm (kg_probe_this_cpu example_facts) AND p_cat_def_cbm (kg_probe_this_cpu example_facts) = 0"
  using probe_cat_partition [of example_facts] by (simp add: Let_def example_facts_def cat_ways_def)

text \<open>
  Stepping down from HIGH or FAILSAFE restores every CPU's own baseline strategy, whatever had been
  escalated in between, and moving between NORMAL and ELEVATED leaves every strategy alone.
\<close>

theorem set_posture_strategies:
  assumes "guard_wf g" and "g_cpu g = Some cs" and "p < KG_POSTURE_COUNT"
  shows "map_option (map m_strategy) (g_cpu (kg_mit_set_posture sha p g)) =
           Some (if KG_POSTURE_HIGH \<le> p then replicate (length cs) KG_STRAT_FULL
                 else if KG_POSTURE_HIGH \<le> kg_posture g then map m_base_strategy cs
                 else map m_strategy cs) \<and>
         map_option (map m_base_strategy) (g_cpu (kg_mit_set_posture sha p g)) = Some (map m_base_strategy cs) \<and>
         kg_posture (kg_mit_set_posture sha p g) = p"
proof -
  from assms(1,2) have "length cs \<le> nat (ncpu_int g)"
    by (auto simp: guard_wf_def policy_wf_def)
  then show ?thesis
    using assms(2)
    by (simp add: kg_mit_set_posture_def Let_def map_first_all kg_posture_def set_full_def set_base_def
        comp_def map_replicate_const)
qed

theorem set_posture_strategies_witness:
  "kg_posture (kg_mit_set_posture Inr KG_POSTURE_FAILSAFE (example_guard Inr)) = KG_POSTURE_FAILSAFE \<and>
   map_option (map m_strategy) (g_cpu (kg_mit_set_posture Inr KG_POSTURE_FAILSAFE (example_guard Inr))) =
     Some [KG_STRAT_FULL, KG_STRAT_FULL]"
proof -
  have "guard_wf (example_guard Inr)"
    by (simp add: example_guard_def guard_wf_def policy_wf_def kg_const)
  moreover have "g_cpu (example_guard Inr) = Some [example_mit, example_mit]"
    by (simp add: example_guard_def)
  moreover have "KG_POSTURE_FAILSAFE < KG_POSTURE_COUNT" "KG_POSTURE_HIGH \<le> KG_POSTURE_FAILSAFE"
    by (simp_all add: kg_const)
  ultimately show ?thesis
    using set_posture_strategies [of "example_guard Inr" "[example_mit, example_mit]" KG_POSTURE_FAILSAFE Inr]
    by simp
qed

end
