(* ===== verification/KG_Cstring.thy ===== *)
theory KG_Cstring
  imports KG_Prelude
begin

text \<open>
  The C string functions the sources call, on NUL-free character lists: a C string is the list of
  its characters before the terminator.  Two character classifications are needed, because the
  monitor runs with the C locale of the user-space library and the kernel has its own table, in
  which the Latin-1 letters count as alphabetic.
\<close>

section \<open>Character classes\<close>

definition cval :: "char \<Rightarrow> nat" where
  "cval c = of_char c"

definition c_between :: "nat \<Rightarrow> nat \<Rightarrow> char \<Rightarrow> bool" where
  "c_between lo hi c \<longleftrightarrow> lo \<le> cval c \<and> cval c \<le> hi"

definition ascii_digit :: "char \<Rightarrow> bool" where
  "ascii_digit c \<longleftrightarrow> c_between 48 57 c"

definition ascii_alnum :: "char \<Rightarrow> bool" where
  "ascii_alnum c \<longleftrightarrow> ascii_digit c \<or> c_between 65 90 c \<or> c_between 97 122 c"

definition ascii_xdigit :: "char \<Rightarrow> bool" where
  "ascii_xdigit c \<longleftrightarrow> ascii_digit c \<or> c_between 65 70 c \<or> c_between 97 102 c"

definition c_space :: "char \<Rightarrow> bool" where
  "c_space c \<longleftrightarrow> cval c = 32 \<or> c_between 9 13 c"

text \<open>The kernel's \<open>isalnum\<close> (lib/ctype): ASCII and the Latin-1 letters.\<close>

definition kernel_alnum :: "char \<Rightarrow> bool" where
  "kernel_alnum c \<longleftrightarrow> ascii_alnum c \<or> c_between 192 214 c \<or> c_between 216 246 c \<or> c_between 248 255 c"

definition ascii_lower :: "char \<Rightarrow> char" where
  "ascii_lower c = (if c_between 65 90 c then char_of (cval c + 32) else c)"

definition ascii_upper :: "char \<Rightarrow> char" where
  "ascii_upper c = (if c_between 97 122 c then char_of (cval c - 32) else c)"

text \<open>\<open>strcasecmp(a, b) == 0\<close> in the C locale.\<close>

definition strcaseeq :: "string \<Rightarrow> string \<Rightarrow> bool" where
  "strcaseeq a b \<longleftrightarrow> map ascii_lower a = map ascii_lower b"

lemma strcaseeq_refl [simp]: "strcaseeq a a"
  by (simp add: strcaseeq_def)

lemma cval_char_of: "n < 256 \<Longrightarrow> cval (char_of n) = n"
  by (simp add: cval_def)

lemma cval_less [simp]: "cval c < 256"
  by (simp add: cval_def)

lemma cval_inj: "cval a = cval b \<Longrightarrow> a = b"
  by (simp add: cval_def)

lemma ascii_lower_upper [simp]: "ascii_lower (ascii_upper c) = ascii_lower c"
proof (cases "c_between 97 122 c")
  case True
  then have *: "97 \<le> cval c" "cval c \<le> 122" by (simp_all add: c_between_def)
  then have "cval (char_of (cval c - 32)) = cval c - 32" by (intro cval_char_of) simp
  with * have "ascii_lower (ascii_upper c) = char_of (cval c)"
    by (auto simp: ascii_lower_def ascii_upper_def c_between_def)
  with * show ?thesis by (simp add: ascii_lower_def c_between_def cval_def)
next
  case False
  then show ?thesis by (simp add: ascii_upper_def)
qed

lemma strcaseeq_map_upper [simp]: "strcaseeq (map ascii_upper s) s"
  by (simp add: strcaseeq_def comp_def)

text \<open>On strings without lower-case letters the comparison is equality.\<close>

definition no_lower :: "string \<Rightarrow> bool" where
  "no_lower s \<longleftrightarrow> list_all (\<lambda>c. \<not> c_between 97 122 c) s"

lemma ascii_lower_inj:
  assumes "\<not> c_between 97 122 a" and "\<not> c_between 97 122 b" and "ascii_lower a = ascii_lower b"
  shows "a = b"
proof -
  have *: "cval (ascii_lower c) = (if c_between 65 90 c then cval c + 32 else cval c)" for c
    by (auto simp: ascii_lower_def c_between_def intro: cval_char_of)
  have "cval (ascii_lower a) = cval (ascii_lower b)" using assms(3) by simp
  then have "cval a = cval b"
    using assms(1,2) unfolding * by (auto simp: c_between_def split: if_splits)
  then show ?thesis by (rule cval_inj)
qed

lemma strcaseeq_no_lower: "no_lower a \<Longrightarrow> no_lower b \<Longrightarrow> strcaseeq a b \<longleftrightarrow> a = b"
proof (induction a arbitrary: b)
  case Nil
  then show ?case by (auto simp: strcaseeq_def)
next
  case (Cons x a)
  then show ?case
    by (cases b) (auto simp: strcaseeq_def no_lower_def dest: ascii_lower_inj)
qed

lemma strcaseeq_cong: "strcaseeq n m \<Longrightarrow> strcaseeq x m = strcaseeq x n"
  by (auto simp: strcaseeq_def)

section \<open>strtoul\<close>

definition digit_of :: "nat \<Rightarrow> char \<Rightarrow> nat option" where
  "digit_of base c =
     (let v = (if c_between 48 57 c then cval c - 48
               else if c_between 97 122 c then cval c - 87
               else if c_between 65 90 c then cval c - 55 else base)
      in if v < base then Some v else None)"

fun digits_acc :: "nat \<Rightarrow> nat \<Rightarrow> string \<Rightarrow> nat \<times> string" where
  "digits_acc base acc [] = (acc, [])"
| "digits_acc base acc (c # cs) =
     (case digit_of base c of
        None \<Rightarrow> (acc, c # cs)
      | Some d \<Rightarrow> digits_acc base (acc * base + d) cs)"

definition skip_0x :: "nat \<Rightarrow> string \<Rightarrow> string" where
  "skip_0x base s =
     (case s of
        z # x # d # r \<Rightarrow>
          if base = 16 \<and> z = CHR ''0'' \<and> (x = CHR ''x'' \<or> x = CHR ''X'') \<and> digit_of 16 d \<noteq> None
          then d # r else s
      | _ \<Rightarrow> s)"

text \<open>
  \<open>strtoul s base\<close> of a 64-bit C library: the value, the unparsed rest, and whether \<open>errno\<close> is
  set to \<open>ERANGE\<close>.  Leading white space is skipped, a sign is accepted, a minus sign negates
  the value in the unsigned type, and with no digits the rest is the whole input.
\<close>

definition strtoul :: "nat \<Rightarrow> string \<Rightarrow> nat \<times> string \<times> bool" where
  "strtoul base s =
     (let s1 = dropWhile c_space s;
          neg = (case s1 of c # _ \<Rightarrow> c = CHR ''-'' | [] \<Rightarrow> False);
          s2 = (case s1 of c # r \<Rightarrow> if c = CHR ''-'' \<or> c = CHR ''+'' then r else s1 | [] \<Rightarrow> s1);
          s3 = skip_0x base s2
      in case s3 of
           [] \<Rightarrow> (0, s, False)
         | c # _ \<Rightarrow>
             if digit_of base c = None then (0, s, False)
             else (let (v, rest) = digits_acc base 0 s3
                   in if 2 ^ 64 \<le> v then (2 ^ 64 - 1, rest, True)
                      else (if neg then (2 ^ 64 - v) mod 2 ^ 64 else v, rest, False)))"

section \<open>strtok_r and strchr on one separator\<close>

text \<open>The tokens \<open>strtok_r(list, ",", ...)\<close> yields: maximal comma-free runs, empty ones skipped.\<close>

fun split_on :: "char \<Rightarrow> string \<Rightarrow> string list" where
  "split_on d [] = [[]]"
| "split_on d (c # cs) =
     (if c = d then [] # split_on d cs
      else (case split_on d cs of [] \<Rightarrow> [[c]] | t # ts \<Rightarrow> (c # t) # ts))"

definition strtok_list :: "char \<Rightarrow> string \<Rightarrow> string list" where
  "strtok_list d s = filter (\<lambda>t. t \<noteq> []) (split_on d s)"

text \<open>\<open>strchr(s, d)\<close>: the parts before and after the first \<open>d\<close>, if there is one.\<close>

fun strchr_split :: "char \<Rightarrow> string \<Rightarrow> (string \<times> string) option" where
  "strchr_split d [] = None"
| "strchr_split d (c # cs) =
     (if c = d then Some ([], cs)
      else map_option (\<lambda>(a, b). (c # a, b)) (strchr_split d cs))"

lemma strchr_split_Some: "strchr_split d s = Some (a, b) \<Longrightarrow> s = a @ d # b \<and> d \<notin> set a"
  by (induction s arbitrary: a) (auto split: if_splits)

lemma strchr_split_None: "strchr_split d s = None \<longleftrightarrow> d \<notin> set s"
  by (induction s) auto

lemma strchr_split_append: "d \<notin> set a \<Longrightarrow> strchr_split d (a @ d # b) = Some (a, b)"
  by (induction a) auto

text \<open>What evaluates these functions on concrete strings.\<close>

lemmas cstring_eval = strtoul_def skip_0x_def digit_of_def c_space_def c_between_def cval_def ascii_alnum_def
  ascii_digit_def ascii_xdigit_def strcaseeq_def ascii_lower_def strtok_list_def

section \<open>printf\<close>

fun udigits :: "nat \<Rightarrow> nat \<Rightarrow> nat list" where
  "udigits base n = (if base < 2 \<or> n < base then [n] else udigits base (n div base) @ [n mod base])"

declare udigits.simps [simp del]

definition digit_char :: "nat \<Rightarrow> char" where
  "digit_char d = char_of (if d < 10 then 48 + d else 87 + d)"

definition fmt_u :: "nat \<Rightarrow> string" where
  "fmt_u n = map digit_char (udigits 10 n)"

definition fmt_d :: "int \<Rightarrow> string" where
  "fmt_d i = (if i < 0 then CHR ''-'' # fmt_u (nat (- i)) else fmt_u (nat i))"

definition zpad :: "nat \<Rightarrow> string \<Rightarrow> string" where
  "zpad w s = replicate (w - length s) (CHR ''0'') @ s"

definition rpad :: "nat \<Rightarrow> string \<Rightarrow> string" where
  "rpad w s = s @ replicate (w - length s) (CHR '' '')"

definition fmt_x :: "nat \<Rightarrow> nat \<Rightarrow> string" where
  "fmt_x w n = zpad w (map digit_char (udigits 16 n))"

text \<open>\<open>snprintf(out, len, ...)\<close>: at most \<open>len - 1\<close> characters and the terminator.\<close>

definition snprintf :: "nat \<Rightarrow> string \<Rightarrow> string" where
  "snprintf len s = take (len - 1) s"

lemma udigits_bound: "2 \<le> base \<Longrightarrow> d \<in> set (udigits base n) \<Longrightarrow> d < base"
proof (induction base n rule: udigits.induct)
  case (1 base n)
  then show ?case by (subst (asm) (2) udigits.simps) (auto split: if_splits)
qed

end
