(* ===== verification/KG_Sens.thy ===== *)
theory KG_Sens
  imports KG_Uapi KG_Cstring
begin

text \<open>
  Helpers of \<^verbatim>\<open>src/linux/module/kg_state.c\<close> that keep no policy: the allow-list search
  \<open>kg_list_contains\<close> and the registry of sensitive allocations (\<open>kg_sens_alloc\<close>,
  \<open>kg_sens_free\<close>, \<open>kg_sens_pfn_tagged\<close>).  The allocator's answers are arguments.
\<close>

unbundle bit_operations_syntax

definition PAGE_SIZE :: u64 where [kg_const]: "PAGE_SIZE = 4096"

section \<open>Allow lists\<close>

definition list_sep :: "char \<Rightarrow> bool" where
  "list_sep c \<longleftrightarrow> c = CHR '','' \<or> c = CHR '' ''"

text \<open>
  One turn of the scan: skip separators, measure the run before the next separator, compare, and
  continue behind the run.
\<close>

function list_scan :: "string \<Rightarrow> string \<Rightarrow> bool" where
  "list_scan name p =
     (if p = [] then False
      else let q = dropWhile list_sep p; w = takeWhile (\<lambda>c. \<not> list_sep c) q
           in if length w = length name \<and> w = name then True
              else list_scan name (drop (length w) q))"
  by pat_completeness auto
termination
proof (relation "measure (\<lambda>(name, p). length p)", simp)
  fix name p q w :: string
  assume p: "p \<noteq> []" and q: "q = dropWhile list_sep p" and w: "w = takeWhile (\<lambda>c. \<not> list_sep c) q"
  have le: "length q \<le> length p" by (simp add: q length_dropWhile_le)
  show "((name, drop (length w) q), name, p) \<in> measure (\<lambda>(name, p). length p)"
  proof (cases q)
    case Nil
    with p show ?thesis by simp
  next
    case (Cons c cs)
    then have "\<not> list_sep c" using hd_dropWhile [of list_sep p] by (simp add: q)
    with Cons have "0 < length w" by (simp add: w)
    with Cons le show ?thesis by (cases w) auto
  qed
qed

declare list_scan.simps [simp del]

definition kg_list_contains :: "string \<Rightarrow> string \<Rightarrow> bool" where
  "kg_list_contains csv name = (if name = [] then False else list_scan name csv)"

text \<open>Reference: the words of a list are its maximal separator-free runs.\<close>

fun list_words :: "string \<Rightarrow> string list" where
  "list_words [] = [[]]"
| "list_words (c # cs) =
     (if list_sep c then [] # list_words cs
      else (case list_words cs of [] \<Rightarrow> [[c]] | w # ws \<Rightarrow> (c # w) # ws))"

lemma list_words_ne [simp]: "list_words s \<noteq> []"
  by (induction s) (auto split: list.splits)

lemma list_words_skip: "name \<noteq> [] \<Longrightarrow> name \<in> set (list_words (dropWhile list_sep p)) \<longleftrightarrow> name \<in> set (list_words p)"
  by (induction p) auto

lemma list_words_run:
  "list_words q = takeWhile (\<lambda>c. \<not> list_sep c) q #
     tl (list_words (dropWhile (\<lambda>c. \<not> list_sep c) q))"
proof (induction q)
  case (Cons c q)
  then show ?case by (cases "list_words q") auto
qed simp

lemma list_words_run_in:
  assumes "name \<noteq> []"
  shows "name \<in> set (list_words q) \<longleftrightarrow>
     name = takeWhile (\<lambda>c. \<not> list_sep c) q \<or> name \<in> set (list_words (dropWhile (\<lambda>c. \<not> list_sep c) q))"
proof -
  let ?r = "dropWhile (\<lambda>c. \<not> list_sep c) q"
  have "takeWhile (\<lambda>c. \<not> list_sep c) ?r = []" by (induction q) auto
  then have "name \<in> set (list_words ?r) \<longleftrightarrow> name \<in> set (tl (list_words ?r))"
    using assms list_words_run [of ?r] by (metis list.sel(3) set_ConsD list.set_intros(2))
  then show ?thesis by (subst list_words_run) simp
qed

lemma drop_takeWhile_length: "drop (length (takeWhile P q)) q = dropWhile P q"
  by (induction q) auto

lemma list_scan_words: "name \<noteq> [] \<Longrightarrow> list_scan name p \<longleftrightarrow> name \<in> set (list_words p)"
proof (induction name p rule: list_scan.induct)
  case (1 name p)
  show ?case
  proof (cases "p = []")
    case True
    with 1 show ?thesis by (simp add: list_scan.simps)
  next
    case False
    then show ?thesis
      using 1 by (subst list_scan.simps)
        (auto simp: Let_def drop_takeWhile_length list_words_run_in [of name "dropWhile list_sep p"]
          simp flip: list_words_skip [of name p])
  qed
qed

section \<open>Sensitive allocations\<close>

record kg_sens_rec =
  sr_ptr :: u64
  sr_size :: u64
  sr_flags :: u8
  sr_tgid :: int

definition KG_SENS_KEY_MATERIAL :: u8 where [kg_const]: "KG_SENS_KEY_MATERIAL = 2"

definition kg_sens_pages :: "u64 \<Rightarrow> u64" where
  "kg_sens_pages sz = (sz + PAGE_SIZE - 1) div PAGE_SIZE"

text \<open>\<open>rec\<close> says whether the record could be allocated, \<open>ptr\<close> is the buffer, \<open>tgid\<close> the current task.\<close>

definition kg_sens_alloc ::
  "bool \<Rightarrow> u64 option \<Rightarrow> int \<Rightarrow> u64 \<Rightarrow> u8 \<Rightarrow> kg_sens_rec list \<Rightarrow> kg_stats \<Rightarrow>
   u64 option \<times> kg_sens_rec list \<times> kg_stats"
where
  "kg_sens_alloc rec ptr tgid sz flags l st =
     (case ptr of
        Some p \<Rightarrow>
          if \<not> rec then (None, l, st)
          else (Some p, l @ [\<lparr>sr_ptr = p, sr_size = sz, sr_flags = flags, sr_tgid = tgid\<rparr>],
                st\<lparr>sens_page_count := sens_page_count st + kg_sens_pages sz\<rparr>)
      | None \<Rightarrow> (None, l, st))"

fun sens_find :: "u64 \<Rightarrow> kg_sens_rec list \<Rightarrow> (kg_sens_rec \<times> kg_sens_rec list) option" where
  "sens_find p [] = None"
| "sens_find p (r # rs) =
     (if sr_ptr r = p then Some (r, rs) else map_option (\<lambda>(f, rest). (f, r # rest)) (sens_find p rs))"

definition kg_sens_free :: "u64 \<Rightarrow> kg_sens_rec list \<Rightarrow> kg_stats \<Rightarrow> kg_sens_rec list \<times> kg_stats" where
  "kg_sens_free ptr l st =
     (if ptr = 0 then (l, st)
      else case sens_find ptr l of
             None \<Rightarrow> (l, st)
           | Some (r, l') \<Rightarrow>
               (l', st\<lparr>sens_page_count := sens_page_count st - kg_sens_pages (sr_size r)\<rparr>))"

text \<open>\<open>pa\<close> is \<open>__pa\<close>, the kernel's translation to physical addresses.\<close>

definition kg_sens_pfn_tagged :: "(u64 \<Rightarrow> u64) \<Rightarrow> u64 \<Rightarrow> kg_sens_rec list \<Rightarrow> bool" where
  "kg_sens_pfn_tagged pa pfn l =
     list_ex (\<lambda>r. drop_bit 12 (pa (sr_ptr r)) \<le> pfn \<and>
                  pfn \<le> drop_bit 12 (pa (sr_ptr r) + sr_size r - 1)) l"

datatype sens_call =
    Sens_alloc bool "u64 option" int u64 u8
  | Sens_free u64

fun sens_run :: "sens_call list \<Rightarrow> kg_sens_rec list \<Rightarrow> kg_stats \<Rightarrow> kg_sens_rec list \<times> kg_stats" where
  "sens_run [] l st = (l, st)"
| "sens_run (Sens_alloc rec ptr tgid sz flags # cs) l st =
     (let (_, l', st') = kg_sens_alloc rec ptr tgid sz flags l st in sens_run cs l' st')"
| "sens_run (Sens_free p # cs) l st =
     (let (l', st') = kg_sens_free p l st in sens_run cs l' st')"

definition sens_total :: "kg_sens_rec list \<Rightarrow> u64" where
  "sens_total l = sum_list (map (kg_sens_pages \<circ> sr_size) l)"

lemma sens_find_total: "sens_find p l = Some (r, l') \<Longrightarrow> sens_total l = kg_sens_pages (sr_size r) + sens_total l'"
  by (induction l arbitrary: l') (auto simp: sens_total_def split: if_splits)

lemma sens_run_accounting:
  "sens_page_count st = sens_total l \<Longrightarrow> sens_run cs l st = (l', st') \<Longrightarrow> sens_page_count st' = sens_total l'"
proof (induction cs l st rule: sens_run.induct)
  case (2 rec ptr tgid sz flags cs l st)
  then show ?case
    by (auto simp: kg_sens_alloc_def sens_total_def split: option.splits if_splits)
next
  case (3 p cs l st)
  then show ?case
    by (auto simp: kg_sens_free_def sens_find_total split: option.splits if_splits prod.splits)
qed simp

lemma sens_free_new:
  "p \<noteq> 0 \<Longrightarrow> \<forall>r \<in> set l. sr_ptr r \<noteq> p \<Longrightarrow> sr_ptr r = p \<Longrightarrow> sens_find p (l @ [r]) = Some (r, l)"
  by (induction l) auto

section \<open>Properties\<close>

text \<open>
  The allow-list search finds exactly the words of the list: \<open>kg_list_contains csv name\<close> holds
  for a name if and only if it is one of the non-empty runs between commas and spaces; a prefix of
  a listed name, or a name spanning a separator, is not in the list.
\<close>

theorem kg_list_contains_words:
  "kg_list_contains csv name \<longleftrightarrow> name \<noteq> [] \<and> name \<in> set (list_words csv)"
  by (simp add: kg_list_contains_def list_scan_words)

text \<open>
  Accounting of sensitive memory: starting from an empty registry with a zero counter, after any
  sequence of allocations (failing ones included) and frees (of unknown pointers and NULL too) the
  statistic \<open>sens_page_count\<close> is the number of pages of the buffers still registered, so it is zero
  again once the registry is empty.
\<close>

theorem sens_accounting:
  assumes "sens_run cs [] st = (l, st')" and "sens_page_count st = 0"
  shows "sens_page_count st' = sens_total l \<and> (l = [] \<longrightarrow> sens_page_count st' = 0)"
  using sens_run_accounting [of st "[]" cs l st'] assms by (simp add: sens_total_def)

theorem sens_accounting_witness:
  "snd (sens_run [Sens_alloc True (Some 64) 1 5000 2, Sens_alloc True None 1 8 1, Sens_free 7, Sens_free 64]
        [] zero_stats) = zero_stats \<and>
   sens_page_count (snd (sens_run [Sens_alloc True (Some 64) 1 5000 2] [] zero_stats)) = 2"
proof -
  let ?r = "\<lparr>sr_ptr = 64, sr_size = 5000, sr_flags = 2, sr_tgid = 1\<rparr>"
  have r: "sens_run [Sens_alloc True (Some 64) 1 5000 2] [] zero_stats = ([?r], zero_stats\<lparr>sens_page_count := 2\<rparr>)"
    by (simp add: kg_sens_alloc_def zero_stats_def kg_sens_pages_def PAGE_SIZE_def)
  from sens_accounting [OF r] show ?thesis
    by (simp add: kg_sens_alloc_def kg_sens_free_def zero_stats_def kg_sens_pages_def PAGE_SIZE_def)
qed

end
