(* ===== verification/KG_Comms.thy ===== *)
theory KG_Comms
  imports KG_Sens KG_Hmac "HOL-Library.Sublist"
begin

text \<open>
  Module 5, the kernel side of the alert channel (\<^verbatim>\<open>src/linux/module/kg_comms.c\<close>): the token
  bucket, the authenticated ring, the uevent fallback, and the file-operation helpers.  The keyed
  digest of the kernel crypto API is the parameter \<open>mac\<close>; the clocks are arguments.  A section
  under the spin lock is one operation; the word-by-word publication of a slot, which the reader can
  observe without the lock, is modelled in \<open>KG_Ring\<close>.
\<close>

unbundle bit_operations_syntax

type_synonym mac_fn = "bytes \<Rightarrow> bytes \<Rightarrow> errno + bytes"

definition KG_RL_BURST :: nat where [kg_const]: "KG_RL_BURST = 32"
definition KG_RL_INTERVAL_NS :: nat where [kg_const]: "KG_RL_INTERVAL_NS = 100000000"

text \<open>The context; \<open>kc_self\<close> is its own address, the handle the allocation registry knows it by.\<close>

record kg_comms =
  kc_ring :: kg_shared_region
  kc_key :: bytes
  kc_rl_last_ns :: u64
  kc_rl_tokens :: u32
  kc_ue_cursor :: u32
  kc_dev :: bool
  kc_self :: u64

section \<open>Rate limiter\<close>

definition kg_rl_allow :: "u64 \<Rightarrow> kg_comms \<Rightarrow> bool \<times> kg_comms" where
  "kg_rl_allow now c =
     (let add = (now - kc_rl_last_ns c) div of_nat KG_RL_INTERVAL_NS;
          c1 = (if add \<noteq> 0
                then c\<lparr>kc_rl_tokens := ucast (min (of_nat KG_RL_BURST) (ucast (kc_rl_tokens c) + add)),
                       kc_rl_last_ns := kc_rl_last_ns c + add * of_nat KG_RL_INTERVAL_NS\<rparr>
                else c)
      in if kc_rl_tokens c1 = 0 then (False, c1)
         else (True, c1\<lparr>kc_rl_tokens := kc_rl_tokens c1 - 1\<rparr>))"

section \<open>Publishing a notification\<close>

text \<open>Follow-up work an operation triggers: waking \<open>poll()\<close>, queueing or cancelling the uevent worker.\<close>

datatype comms_ev = Wake_readers | Queue_uevent_work | Cancel_uevent_work

definition slot_of :: "u32 \<Rightarrow> nat" where
  "slot_of seq = unat seq mod KG_NOTIFY_SLOTS"

definition ring_publish :: "kg_notification \<Rightarrow> kg_shared_region \<Rightarrow> kg_shared_region" where
  "ring_publish n r =
     r\<lparr>notifications := (notifications r)[slot_of (n_sequence n) := n],
       driver_nonce := n_sequence n + 1, write_index := n_sequence n + 1\<rparr>"

definition new_notification :: "u64 \<Rightarrow> u32 \<Rightarrow> u32 \<Rightarrow> u64 \<Rightarrow> u64 \<Rightarrow> u32 \<Rightarrow> kg_notification" where
  "new_notification wall type level p1 p2 seq =
     \<lparr>n_magic = KG_NOTIFY_MAGIC, n_sequence = seq, n_alert_type = type, n_alert_level = level,
      n_timestamp = wall, n_param1 = p1, n_param2 = p2, n_hmac = replicate 32 0\<rparr>"

definition kg_comms_notify ::
  "mac_fn \<Rightarrow> u64 \<Rightarrow> u64 \<Rightarrow> u32 \<Rightarrow> u32 \<Rightarrow> u64 \<Rightarrow> u64 \<Rightarrow> kg_comms option \<Rightarrow> kg_stats \<Rightarrow>
   kg_comms option \<times> kg_stats \<times> comms_ev list \<times> errno option"
where
  "kg_comms_notify mac now wall type level p1 p2 kc st =
     (case kc of
        None \<Rightarrow> (None, st, [], Some ENODEV)
      | Some c \<Rightarrow>
          let (allowed, c1) = (if level < KG_LEVEL_CRITICAL then kg_rl_allow now c else (True, c))
          in if \<not> allowed
             then (Some c1, st\<lparr>notifications_dropped := notifications_dropped st + 1\<rparr>, [], Some EBUSY)
             else let n = new_notification wall type level p1 p2 (driver_nonce (kc_ring c1))
                  in case mac (kc_key c1) (auth_bytes n) of
                       Inl e \<Rightarrow> (Some c1, st, [], Some e)
                     | Inr h \<Rightarrow>
                         (Some (c1\<lparr>kc_ring := ring_publish (n\<lparr>n_hmac := h\<rparr>) (kc_ring c1)\<rparr>),
                          st\<lparr>notifications_sent := notifications_sent st + 1\<rparr>,
                          [Wake_readers] @ (if KG_LEVEL_WATCH \<le> level then [Queue_uevent_work] else []),
                          None))"

section \<open>Fallback channel\<close>

text \<open>
  One turn of the loop in \<open>kg_uevent_workfn\<close>, up to the end of its critical section: nothing to do
  (\<open>None\<close>), or the new context and the notification to announce, if it is valid and not merely
  informational.
\<close>

definition kg_uevent_turn :: "kg_comms \<Rightarrow> (kg_comms \<times> kg_notification option) option" where
  "kg_uevent_turn c =
     (let fin = write_index (kc_ring c); i0 = kc_ue_cursor c
      in if \<not> kc_dev c \<or> i0 = fin then None
         else let i = (if of_nat KG_NOTIFY_SLOTS < fin - i0 then fin - of_nat KG_NOTIFY_SLOTS else i0);
                  snap = notifications (kc_ring c) ! slot_of i;
                  valid = (n_magic snap = KG_NOTIFY_MAGIC \<and> n_sequence snap = i)
              in Some (c\<lparr>kc_ue_cursor := i + 1\<rparr>,
                       if \<not> valid \<or> n_alert_level snap < KG_LEVEL_WATCH then None else Some snap))"

lemma kg_uevent_turn_decreases:
  assumes "kg_uevent_turn c = Some (c', s)"
  shows "unat (write_index (kc_ring c') - kc_ue_cursor c') < unat (write_index (kc_ring c) - kc_ue_cursor c)"
proof -
  define e i0 i where "e = write_index (kc_ring c)" and "i0 = kc_ue_cursor c"
    and "i = (if of_nat KG_NOTIFY_SLOTS < e - i0 then e - of_nat KG_NOTIFY_SLOTS else i0)"
  from assms have c': "c' = c\<lparr>kc_ue_cursor := i + 1\<rparr>" and ne: "i0 \<noteq> e"
    by (auto simp: kg_uevent_turn_def Let_def e_def i0_def i_def split: if_splits)
  have step: "unat (d - 1) < unat d" if "d \<noteq> 0" for d :: u32
    using that by (simp add: unat_minus_one unat_gt_0)
  show ?thesis
  proof (cases "of_nat KG_NOTIFY_SLOTS < e - i0")
    case True
    then have "unat (e - (i + 1)) = 15"
      by (simp add: i_def KG_NOTIFY_SLOTS_def)
    with True show ?thesis
      by (simp add: c' e_def [symmetric] i0_def [symmetric] KG_NOTIFY_SLOTS_def word_less_nat_alt)
  next
    case False
    then have "e - (i + 1) = e - i0 - 1" by (simp add: i_def)
    then show ?thesis
      using step [of "e - i0"] ne by (simp add: c' e_def [symmetric] i0_def [symmetric] diff_diff_eq)
  qed
qed

text \<open>
  The loop, when no notification arrives meanwhile: \<open>send\<close> says whether \<open>kobject_uevent_env\<close>
  succeeds; the announced notifications are listed in order.
\<close>

function uevent_loop :: "(kg_notification \<Rightarrow> bool) \<Rightarrow> kg_comms \<Rightarrow> kg_stats \<Rightarrow> kg_comms \<times> kg_stats \<times> kg_notification list" where
  "uevent_loop send c st =
     (case kg_uevent_turn c of
        None \<Rightarrow> (c, st, [])
      | Some (c', None) \<Rightarrow> uevent_loop send c' st
      | Some (c', Some n) \<Rightarrow>
          (let st' = (if send n then st\<lparr>fallback_signals_sent := fallback_signals_sent st + 1\<rparr> else st);
               (c'', st'', ns) = uevent_loop send c' st'
           in (c'', st'', n # ns)))"
  by pat_completeness auto
termination
  by (relation "measure (\<lambda>(send, c, st). unat (write_index (kc_ring c) - kc_ue_cursor c))")
    (auto simp: kg_uevent_turn_decreases)

declare uevent_loop.simps [simp del]

definition kg_uevent_workfn ::
  "(kg_notification \<Rightarrow> bool) \<Rightarrow> kg_comms option \<Rightarrow> kg_stats \<Rightarrow> kg_comms option \<times> kg_stats \<times> kg_notification list"
where
  "kg_uevent_workfn send kc st =
     (case kc of
        None \<Rightarrow> (None, st, [])
      | Some c \<Rightarrow> (let (c', st', ns) = uevent_loop send c st in (Some c', st', ns)))"

definition kg_comms_set_device :: "bool \<Rightarrow> kg_comms option \<Rightarrow> kg_comms option \<times> comms_ev list" where
  "kg_comms_set_device dev kc =
     (case kc of
        None \<Rightarrow> (None, [])
      | Some c \<Rightarrow> (Some (c\<lparr>kc_dev := dev\<rparr>), [if dev then Queue_uevent_work else Cancel_uevent_work]))"

section \<open>File-operation helpers\<close>

definition kg_comms_get_key :: "bool \<Rightarrow> kg_comms option \<Rightarrow> errno + bytes" where
  "kg_comms_get_key capable kc =
     (case kc of
        None \<Rightarrow> Inl ENODEV
      | Some c \<Rightarrow> if \<not> capable then Inl EPERM else Inr (kc_key c))"

record vm_area =
  vm_start :: u64
  vm_end :: u64
  vm_pgoff :: u64
  vm_write :: bool
  vm_maywrite :: bool
  vm_dontexpand :: bool
  vm_dontdump :: bool

text \<open>\<open>ins\<close> is the result of \<open>vm_insert_page\<close>.\<close>

definition kg_comms_mmap :: "errno option \<Rightarrow> kg_comms option \<Rightarrow> vm_area \<Rightarrow> errno + vm_area" where
  "kg_comms_mmap ins kc vma =
     (if kc = None then Inl ENODEV
      else if vm_pgoff vma \<noteq> 0 \<or> PAGE_SIZE < vm_end vma - vm_start vma then Inl EINVAL
      else if vm_write vma then Inl EPERM
      else case ins of
             Some e \<Rightarrow> Inl e
           | None \<Rightarrow> Inr (vma\<lparr>vm_maywrite := False, vm_dontexpand := True, vm_dontdump := True\<rparr>))"

definition kg_comms_open :: "kg_comms option \<Rightarrow> u32" where
  "kg_comms_open kc = (case kc of None \<Rightarrow> 0 | Some c \<Rightarrow> write_index (kc_ring c))"

datatype poll_result = Poll_err | Poll_in | Poll_none

definition kg_comms_poll :: "kg_comms option \<Rightarrow> u32 \<Rightarrow> u32 \<times> poll_result" where
  "kg_comms_poll kc seen =
     (case kc of
        None \<Rightarrow> (seen, Poll_err)
      | Some c \<Rightarrow> let w = write_index (kc_ring c)
                  in if w \<noteq> seen then (w, Poll_in) else (seen, Poll_none))"

section \<open>Initialisation\<close>

definition zero_notification :: kg_notification where
  "zero_notification = \<lparr>n_magic = 0, n_sequence = 0, n_alert_type = 0, n_alert_level = 0,
     n_timestamp = 0, n_param1 = 0, n_param2 = 0, n_hmac = replicate 32 0\<rparr>"

definition zero_ring :: kg_shared_region where
  "zero_ring = \<lparr>write_index = 0, read_index = 0, driver_nonce = 0, reserved = 0,
     notifications = replicate KG_NOTIFY_SLOTS zero_notification\<rparr>"

text \<open>
  \<open>rec\<close>, \<open>ptr\<close> and \<open>page\<close> are the answers of the allocators, \<open>csize\<close> the size of the context,
  \<open>tfm\<close> and \<open>setkey\<close> the errors of \<open>crypto_alloc_shash\<close> and \<open>crypto_shash_setkey\<close>, \<open>key\<close>
  the bytes of \<open>get_random_bytes\<close>; every failure after the first releases the context.
\<close>

definition kg_comms_init ::
  "bool \<Rightarrow> u64 option \<Rightarrow> int \<Rightarrow> u64 \<Rightarrow> bool \<Rightarrow> errno option \<Rightarrow> errno option \<Rightarrow> bytes \<Rightarrow> u64 \<Rightarrow>
   kg_sens_rec list \<Rightarrow> kg_stats \<Rightarrow> kg_comms option \<times> kg_sens_rec list \<times> kg_stats \<times> errno option"
where
  "kg_comms_init rec ptr tgid csize page tfm setkey key now l st =
     (case kg_sens_alloc rec ptr tgid csize KG_SENS_KEY_MATERIAL l st of
        (None, l1, st1) \<Rightarrow> (None, l1, st1, Some ENOMEM)
      | (Some p, l1, st1) \<Rightarrow>
          (let (l2, st2) = kg_sens_free p l1 st1
           in if \<not> page then (None, l2, st2, Some ENOMEM)
              else case tfm of
                     Some e \<Rightarrow> (None, l2, st2, Some e)
                   | None \<Rightarrow>
                       (case setkey of
                          Some e \<Rightarrow> (None, l2, st2, Some e)
                        | None \<Rightarrow>
                            (Some \<lparr>kc_ring = zero_ring, kc_key = key, kc_rl_last_ns = now,
                               kc_rl_tokens = of_nat KG_RL_BURST, kc_ue_cursor = 0, kc_dev = False,
                               kc_self = p\<rparr>, l1, st1, None))))"

text \<open>On exit the context is released, and the page a lingering mapping still sees is wiped.\<close>

definition kg_comms_exit ::
  "kg_comms option \<Rightarrow> kg_sens_rec list \<Rightarrow> kg_stats \<Rightarrow>
   kg_comms option \<times> kg_shared_region option \<times> kg_sens_rec list \<times> kg_stats"
where
  "kg_comms_exit kc l st =
     (case kc of
        None \<Rightarrow> (None, None, l, st)
      | Some c \<Rightarrow> (let (l', st') = kg_sens_free (kc_self c) l st in (None, Some zero_ring, l', st')))"

section \<open>The ring refines the log of published notifications\<close>

text \<open>
  The abstract specification of the channel is the list of everything published so far.  The ring
  represents a log when the indices count it (modulo the 32-bit width) and every slot holds the
  newest notification of its residue class.
\<close>

definition ring_rep :: "kg_shared_region \<Rightarrow> kg_notification list \<Rightarrow> bool" where
  "ring_rep r log \<longleftrightarrow>
     length (notifications r) = KG_NOTIFY_SLOTS \<and>
     write_index r = of_nat (length log) \<and> driver_nonce r = write_index r \<and>
     (\<forall>k < length log. n_sequence (log ! k) = of_nat k \<and> n_magic (log ! k) = KG_NOTIFY_MAGIC) \<and>
     (\<forall>k < length log. length log \<le> k + KG_NOTIFY_SLOTS \<longrightarrow>
        notifications r ! (k mod KG_NOTIFY_SLOTS) = log ! k)"

lemma slot_of_nat: "slot_of (of_nat k) = k mod KG_NOTIFY_SLOTS"
proof -
  have "(16::nat) dvd 2 ^ 32" by simp
  then show ?thesis
    by (simp add: slot_of_def KG_NOTIFY_SLOTS_def unsigned_of_nat take_bit_eq_mod mod_mod_cancel)
qed

lemma slot_of_less [simp]: "slot_of i < KG_NOTIFY_SLOTS"
  by (simp add: slot_of_def KG_NOTIFY_SLOTS_def)

lemma ring_rep_zero: "ring_rep zero_ring []"
  by (simp add: ring_rep_def zero_ring_def)

lemma ring_rep_publish:
  assumes rep: "ring_rep r log" and n: "n_sequence n = driver_nonce r" "n_magic n = KG_NOTIFY_MAGIC"
  shows "ring_rep (ring_publish n r) (log @ [n])"
proof -
  let ?L = "length log"
  have len: "length (notifications r) = KG_NOTIFY_SLOTS" and w: "driver_nonce r = of_nat ?L"
    and old: "\<And>k. k < ?L \<Longrightarrow> ?L \<le> k + KG_NOTIFY_SLOTS \<Longrightarrow>
                notifications r ! (k mod KG_NOTIFY_SLOTS) = log ! k"
    using rep by (auto simp: ring_rep_def)
  have slot: "slot_of (n_sequence n) = ?L mod KG_NOTIFY_SLOTS" by (simp add: n w slot_of_nat)
  have "notifications (ring_publish n r) ! (k mod KG_NOTIFY_SLOTS) = (log @ [n]) ! k"
    if k: "k < Suc ?L" "Suc ?L \<le> k + KG_NOTIFY_SLOTS" for k
  proof (cases "k = ?L")
    case True
    then show ?thesis
      using len slot_of_less [of "n_sequence n"] by (simp add: ring_publish_def slot)
  next
    case False
    with k have "k < ?L" "?L < k + KG_NOTIFY_SLOTS" by simp_all
    then have "k mod KG_NOTIFY_SLOTS \<noteq> ?L mod KG_NOTIFY_SLOTS"
      by (rule mod_window_neq)
    with \<open>k < ?L\<close> \<open>?L < k + KG_NOTIFY_SLOTS\<close> show ?thesis
      by (simp add: ring_publish_def slot old nth_append)
  qed
  moreover have "n_sequence ((log @ [n]) ! k) = of_nat k \<and> n_magic ((log @ [n]) ! k) = KG_NOTIFY_MAGIC"
    if "k < Suc ?L" for k
  proof (cases "k = ?L")
    case True
    then show ?thesis by (simp add: n w)
  next
    case False
    with that have "k < ?L" by simp
    with rep show ?thesis by (simp add: ring_rep_def nth_append)
  qed
  ultimately show ?thesis
    using len w n by (simp add: ring_rep_def ring_publish_def)
qed

section \<open>The rate limiter over time\<close>

lemma kg_rl_allow_nat:
  assumes le: "unat (kc_rl_last_ns c) \<le> unat now" and tk: "unat (kc_rl_tokens c) \<le> KG_RL_BURST"
    and eq: "kg_rl_allow now c = (ok, c')"
  defines "a \<equiv> (unat now - unat (kc_rl_last_ns c)) div KG_RL_INTERVAL_NS"
  shows "unat (kc_rl_last_ns c') = unat (kc_rl_last_ns c) + a * KG_RL_INTERVAL_NS"
    and "ok \<longleftrightarrow> 0 < unat (kc_rl_tokens c) + a"
    and "unat (kc_rl_tokens c') = min KG_RL_BURST (unat (kc_rl_tokens c) + a) - 1"
proof -
  define add where "add = (now - kc_rl_last_ns c) div of_nat KG_RL_INTERVAL_NS"
  define tok where "tok = (if add = 0 then kc_rl_tokens c
     else ucast (min (of_nat KG_RL_BURST) (ucast (kc_rl_tokens c) + add)))"
  note b = unat_bound [of now, simplified]
  have ua: "unat add = a"
    using le by (simp add: add_def a_def unat_div_distrib unat_sub word_le_nat_alt KG_RL_INTERVAL_NS_def)
  have aI: "a * KG_RL_INTERVAL_NS \<le> unat now - unat (kc_rl_last_ns c)"
    by (simp add: a_def div_times_less_eq_dividend)
  have mI: "unat (add * of_nat KG_RL_INTERVAL_NS) = a * KG_RL_INTERVAL_NS"
    using aI b by (simp add: unat_word_ariths ua KG_RL_INTERVAL_NS_def)
  have last: "unat (kc_rl_last_ns c + add * of_nat KG_RL_INTERVAL_NS) = unat (kc_rl_last_ns c) + a * KG_RL_INTERVAL_NS"
    using aI le b by (simp add: unat_word_ariths(1) mI)
  have sum: "unat (ucast (kc_rl_tokens c) + add :: u64) = unat (kc_rl_tokens c) + a"
    using aI b tk by (simp add: unat_word_ariths(1) ua unsigned_ucast_eq take_bit_nat_eq_self kg_const)
  have tok: "unat tok = min KG_RL_BURST (unat (kc_rl_tokens c) + a)"
  proof (cases "add = 0")
    case True
    then show ?thesis using tk ua by (simp add: tok_def)
  next
    case False
    then have "unat tok = take_bit 32 (unat (min (of_nat KG_RL_BURST) (ucast (kc_rl_tokens c) + add)))"
      by (simp add: tok_def unsigned_ucast_eq)
    also have "\<dots> = take_bit 32 (min KG_RL_BURST (unat (kc_rl_tokens c) + a))"
      by (simp add: unat_min sum KG_RL_BURST_def)
    finally show ?thesis by (simp add: take_bit_nat_eq_self KG_RL_BURST_def)
  qed
  have c': "kc_rl_last_ns c' = kc_rl_last_ns c + add * of_nat KG_RL_INTERVAL_NS"
    "ok \<longleftrightarrow> tok \<noteq> 0" "kc_rl_tokens c' = (if tok = 0 then tok else tok - 1)"
    using eq by (auto simp: kg_rl_allow_def Let_def tok_def add_def split: if_splits)
  show "unat (kc_rl_last_ns c') = unat (kc_rl_last_ns c) + a * KG_RL_INTERVAL_NS"
    by (simp only: c' last)
  show "ok \<longleftrightarrow> 0 < unat (kc_rl_tokens c) + a"
    using tok by (auto simp: c' KG_RL_BURST_def unat_gt_0 [symmetric])
  show "unat (kc_rl_tokens c') = min KG_RL_BURST (unat (kc_rl_tokens c) + a) - 1"
    using tok by (cases "tok = 0") (simp_all add: c' unat_minus_one)
qed

lemma kg_rl_allow_frame [kg_frame]:
  assumes "kg_rl_allow now c = (ok, c')"
  shows "kc_ring c' = kc_ring c" "kc_key c' = kc_key c" "kc_ue_cursor c' = kc_ue_cursor c" "kc_dev c' = kc_dev c"
  using assms by (auto simp: kg_rl_allow_def Let_def split: if_splits)

text \<open>The limiter asked at a sequence of times: how many requests it allows.\<close>

fun rl_run :: "u64 list \<Rightarrow> kg_comms \<Rightarrow> nat \<times> kg_comms" where
  "rl_run [] c = (0, c)"
| "rl_run (t # ts) c =
     (let (ok, c1) = kg_rl_allow t c; (n, c2) = rl_run ts c1
      in ((if ok then 1 else 0) + n, c2))"

lemma rl_run_potential:
  assumes "sorted (kc_rl_last_ns c # ts)" and "unat (kc_rl_tokens c) \<le> KG_RL_BURST" and "rl_run ts c = (n, c')"
  shows "n + unat (kc_rl_tokens c') \<le> unat (kc_rl_tokens c) +
           (unat (last (kc_rl_last_ns c # ts)) - unat (kc_rl_last_ns c)) div KG_RL_INTERVAL_NS"
  using assms
proof (induction ts arbitrary: c n)
  case Nil
  then show ?case by simp
next
  case (Cons t ts)
  obtain ok c1 m where r: "kg_rl_allow t c = (ok, c1)" "rl_run ts c1 = (m, c')"
    and n: "n = (if ok then 1 else 0) + m"
    using Cons.prems(3) by (auto split: prod.splits)
  let ?a = "(unat t - unat (kc_rl_last_ns c)) div KG_RL_INTERVAL_NS"
  let ?T = "unat (last (t # ts))"
  have le: "unat (kc_rl_last_ns c) \<le> unat t" using Cons.prems(1) by (simp add: word_le_nat_alt)
  note allow = kg_rl_allow_nat [OF le Cons.prems(2) r(1)]
  have aI: "?a * KG_RL_INTERVAL_NS \<le> unat t - unat (kc_rl_last_ns c)"
    by (simp add: div_times_less_eq_dividend)
  have lt: "unat (kc_rl_last_ns c1) \<le> unat t" using allow(1) aI le by linarith
  have s1: "sorted (kc_rl_last_ns c1 # ts)"
  proof -
    have "kc_rl_last_ns c1 \<le> t" using lt by (simp add: word_le_nat_alt)
    with Cons.prems(1) show ?thesis by (auto intro: order_trans)
  qed
  have tT: "unat t \<le> ?T"
    using Cons.prems(1) by (auto simp: word_le_nat_alt split: if_splits)
  have t1: "unat (kc_rl_tokens c1) \<le> KG_RL_BURST" using allow(3) by simp
  have IH: "m + unat (kc_rl_tokens c') \<le> unat (kc_rl_tokens c1) +
      (unat (last (kc_rl_last_ns c1 # ts)) - unat (kc_rl_last_ns c1)) div KG_RL_INTERVAL_NS"
    by (rule Cons.IH [OF s1 t1 r(2)])
  have "unat (last (kc_rl_last_ns c1 # ts)) \<le> ?T" using lt by (auto split: if_splits)
  then have "(unat (last (kc_rl_last_ns c1 # ts)) - unat (kc_rl_last_ns c1)) div KG_RL_INTERVAL_NS
     \<le> (?T - (unat (kc_rl_last_ns c) + ?a * KG_RL_INTERVAL_NS)) div KG_RL_INTERVAL_NS"
    unfolding allow(1) by (intro div_le_mono) simp
  also have "\<dots> = (?T - unat (kc_rl_last_ns c)) div KG_RL_INTERVAL_NS - ?a"
    by (simp only: diff_diff_eq [symmetric]) (rule diff_mult_div, simp add: KG_RL_INTERVAL_NS_def)
  finally have "m + unat (kc_rl_tokens c') \<le> unat (kc_rl_tokens c1) +
      ((?T - unat (kc_rl_last_ns c)) div KG_RL_INTERVAL_NS - ?a)"
    using IH by simp
  moreover have "?a \<le> (?T - unat (kc_rl_last_ns c)) div KG_RL_INTERVAL_NS"
    using tT by (intro div_le_mono) simp
  moreover have "(if ok then 1 else 0) + unat (kc_rl_tokens c1) \<le> unat (kc_rl_tokens c) + ?a"
    using allow(2,3) Cons.prems(2) by (auto simp: KG_RL_BURST_def)
  ultimately show ?case unfolding n by simp
qed

section \<open>The contract of an append-only alert log\<close>

text \<open>
  What producers and readers of alerts rely on: publishing appends to the log, and the newest \<open>cap\<close>
  entries can be read back.
\<close>

locale alert_log =
  fixes rep :: "'r \<Rightarrow> 'n list \<Rightarrow> bool"
    and publish :: "'n \<Rightarrow> 'r \<Rightarrow> 'r"
    and fits :: "'n \<Rightarrow> 'r \<Rightarrow> bool"
    and fetch :: "'r \<Rightarrow> nat \<Rightarrow> 'n"
    and cap :: nat
  assumes rep_publish: "rep r log \<Longrightarrow> fits n r \<Longrightarrow> rep (publish n r) (log @ [n])"
    and rep_fetch: "rep r log \<Longrightarrow> k < length log \<Longrightarrow> length log \<le> k + cap \<Longrightarrow> fetch r k = log ! k"
begin

lemma newest_window:
  assumes "rep r log"
  shows "map (fetch r) [length log - cap ..< length log] = drop (length log - cap) log"
  by (rule nth_equalityI) (simp_all add: rep_fetch [OF assms])

lemma fetch_published:
  assumes "rep r log" and "fits n r" and "0 < cap"
  shows "fetch (publish n r) (length log) = n"
  using rep_fetch [OF rep_publish [OF assms(1,2)], of "length log"] assms(3) by simp

end

interpretation ring: alert_log ring_rep ring_publish
  "\<lambda>n r. n_sequence n = driver_nonce r \<and> n_magic n = KG_NOTIFY_MAGIC"
  "\<lambda>r k. notifications r ! (k mod KG_NOTIFY_SLOTS)" KG_NOTIFY_SLOTS
proof (unfold_locales, goal_cases)
  case 1
  then show ?case by (simp add: ring_rep_publish)
next
  case 2
  then show ?case by (simp add: ring_rep_def)
qed

definition published :: "u64 \<Rightarrow> u32 \<Rightarrow> u32 \<Rightarrow> u64 \<Rightarrow> u64 \<Rightarrow> nat \<Rightarrow> bytes \<Rightarrow> kg_notification" where
  "published wall type level p1 p2 k h = (new_notification wall type level p1 p2 (of_nat k))\<lparr>n_hmac := h\<rparr>"

lemma ring_rep_nonce: "ring_rep r log \<Longrightarrow> driver_nonce r = of_nat (length log)"
  by (simp add: ring_rep_def)

lemma notify_gate_frame:
  assumes "(if level < KG_LEVEL_CRITICAL then kg_rl_allow now c else (True, c)) = (ok, c1)"
  shows "kc_ring c1 = kc_ring c \<and> kc_key c1 = kc_key c"
  using assms by (auto simp: kg_frame split: if_splits)

lemma kg_comms_notify_cases:
  assumes "kg_comms_notify mac now wall type level p1 p2 (Some c) st = (kc', st', ev, r)"
    and "ring_rep (kc_ring c) log"
  obtains (dropped) c' where "kc' = Some c'" "r = Some EBUSY" "kc_ring c' = kc_ring c" "kc_key c' = kc_key c"
      "level < KG_LEVEL_CRITICAL" "\<not> fst (kg_rl_allow now c)" "ev = []"
      "st' = st\<lparr>notifications_dropped := notifications_dropped st + 1\<rparr>"
  | (failed) c' e where "kc' = Some c'" "r = Some e" "kc_ring c' = kc_ring c" "kc_key c' = kc_key c"
      "mac (kc_key c) (auth_bytes (published wall type level p1 p2 (length log) [])) = Inl e" "ev = []" "st' = st"
  | (sent) c' h where "kc' = Some c'" "r = None" "kc_key c' = kc_key c"
      "mac (kc_key c) (auth_bytes (published wall type level p1 p2 (length log) [])) = Inr h"
      "ring_rep (kc_ring c') (log @ [published wall type level p1 p2 (length log) h])"
      "st' = st\<lparr>notifications_sent := notifications_sent st + 1\<rparr>"
      "ev = [Wake_readers] @ (if KG_LEVEL_WATCH \<le> level then [Queue_uevent_work] else [])"
proof -
  obtain ok c1 where g: "(if level < KG_LEVEL_CRITICAL then kg_rl_allow now c else (True, c)) = (ok, c1)"
    by fastforce
  note f = notify_gate_frame [OF g]
  let ?n = "new_notification wall type level p1 p2 (driver_nonce (kc_ring c))"
  have n: "?n\<lparr>n_hmac := h\<rparr> = published wall type level p1 p2 (length log) h" for h
    using ring_rep_nonce [OF assms(2)] by (simp add: published_def f)
  have a: "auth_bytes ?n = auth_bytes (published wall type level p1 p2 (length log) [])"
    by (simp add: n [symmetric] auth_bytes_def)
  show thesis
  proof (cases ok)
    case False
    then have "level < KG_LEVEL_CRITICAL" "\<not> fst (kg_rl_allow now c)" using g by (auto split: if_splits)
    with False show ?thesis
      using assms(1) g f by (intro dropped [of c1]) (simp_all add: kg_comms_notify_def)
  next
    case True
    show ?thesis
    proof (cases "mac (kc_key c) (auth_bytes ?n)")
      case (Inl e)
      then show ?thesis
        using True assms(1) g f a by (intro failed [of c1 e]) (simp_all add: kg_comms_notify_def Let_def)
    next
      case (Inr h)
      have "ring_rep (ring_publish (?n\<lparr>n_hmac := h\<rparr>) (kc_ring c)) (log @ [?n\<lparr>n_hmac := h\<rparr>])"
        by (rule ring.rep_publish) (use assms(2) in \<open>simp_all add: new_notification_def\<close>)
      then show ?thesis
        using Inr True assms(1) g f a
        by (intro sent [of "c1\<lparr>kc_ring := ring_publish (?n\<lparr>n_hmac := h\<rparr>) (kc_ring c)\<rparr>" h])
          (simp_all add: kg_comms_notify_def Let_def n)
    qed
  qed
qed


section \<open>Sequences of alerts\<close>

text \<open>An alert: the two clocks, then the payload (wall-clock time, type, level, parameters).\<close>

type_synonym payload = "u64 \<times> u32 \<times> u32 \<times> u64 \<times> u64"

definition payload_of :: "kg_notification \<Rightarrow> payload" where
  "payload_of n = (n_timestamp n, n_alert_type n, n_alert_level n, n_param1 n, n_param2 n)"

definition critical :: "payload \<Rightarrow> bool" where
  "critical p = (case p of (_, _, level, _, _) \<Rightarrow> KG_LEVEL_CRITICAL \<le> level)"

fun notify_run :: "mac_fn \<Rightarrow> (u64 \<times> payload) list \<Rightarrow> kg_comms option \<Rightarrow> kg_stats \<Rightarrow> kg_comms option \<times> kg_stats" where
  "notify_run mac [] kc st = (kc, st)"
| "notify_run mac ((now, wall, type, level, p1, p2) # calls) kc st =
     (let (kc', st', _, _) = kg_comms_notify mac now wall type level p1 p2 kc st
      in notify_run mac calls kc' st')"

definition authentic :: "mac_fn \<Rightarrow> bytes \<Rightarrow> kg_notification \<Rightarrow> bool" where
  "authentic mac key n \<longleftrightarrow> mac key (auth_bytes n) = Inr (n_hmac n)"

text \<open>What one alert adds to the log.\<close>

lemma notify_adds:
  assumes "kg_comms_notify mac now wall type level p1 p2 (Some c) st = (kc', st', ev, r)"
    and "ring_rep (kc_ring c) log"
  obtains c' new where "kc' = Some c'" "kc_key c' = kc_key c" "ring_rep (kc_ring c') (log @ new)"
    "new = [] \<and> r \<noteq> None \<and> notifications_sent st' = notifications_sent st \<or>
     (\<exists>n. new = [n] \<and> r = None \<and> authentic mac (kc_key c) n \<and> payload_of n = (wall, type, level, p1, p2) \<and>
       notifications_sent st' = notifications_sent st + 1)"
    "(\<exists>h. mac (kc_key c) (auth_bytes (published wall type level p1 p2 (length log) [])) = Inr h) \<Longrightarrow>
       KG_LEVEL_CRITICAL \<le> level \<Longrightarrow> new \<noteq> []"
  using assms
proof (cases rule: kg_comms_notify_cases)
  case (dropped c')
  then show ?thesis using assms(2) by (intro that [of c' "[]"]) simp_all
next
  case (failed c' e)
  then show ?thesis using assms(2) by (intro that [of c' "[]"]) simp_all
next
  case (sent c' h)
  let ?n = "published wall type level p1 p2 (length log) h"
  have "auth_bytes ?n = auth_bytes (published wall type level p1 p2 (length log) [])"
    "payload_of ?n = (wall, type, level, p1, p2)" "n_hmac ?n = h"
    by (simp_all add: published_def new_notification_def auth_bytes_def payload_of_def)
  with sent show ?thesis by (intro that [of c' "[?n]"]) (simp_all add: authentic_def)
qed

lemma notify_run_log:
  assumes "notify_run mac calls (Some c) st = (kc', st')" and "ring_rep (kc_ring c) log"
    and "\<forall>n \<in> set log. authentic mac (kc_key c) n"
  obtains c' new where "kc' = Some c'" "kc_key c' = kc_key c" "ring_rep (kc_ring c') (log @ new)"
    "\<forall>n \<in> set (log @ new). authentic mac (kc_key c) n" "subseq (map payload_of new) (map snd calls)"
    "notifications_sent st' = notifications_sent st + of_nat (length new)"
    "(\<forall>m. \<exists>h. mac (kc_key c) m = Inr h) \<Longrightarrow>
       filter critical (map payload_of new) = filter critical (map snd calls)"
  using assms
proof (induction calls arbitrary: c st log thesis)
  case Nil
  from Nil.prems(2-) show ?case by (intro Nil.prems(1) [of c "[]"]) simp_all
next
  case (Cons call calls)
  obtain now wall type level p1 p2 where call: "call = (now, wall, type, level, p1, p2)"
    by (cases call)
  obtain k1 st1 ev r where n1: "kg_comms_notify mac now wall type level p1 p2 (Some c) st = (k1, st1, ev, r)"
    by (metis prod_cases4)
  obtain c1 new1 where s1: "k1 = Some c1" "kc_key c1 = kc_key c" "ring_rep (kc_ring c1) (log @ new1)"
    and new1: "new1 = [] \<and> r \<noteq> None \<and> notifications_sent st1 = notifications_sent st \<or>
     (\<exists>n. new1 = [n] \<and> r = None \<and> authentic mac (kc_key c) n \<and> payload_of n = (wall, type, level, p1, p2) \<and>
       notifications_sent st1 = notifications_sent st + 1)"
    and crit: "(\<exists>h. mac (kc_key c) (auth_bytes (published wall type level p1 p2 (length log) [])) = Inr h) \<Longrightarrow>
       KG_LEVEL_CRITICAL \<le> level \<Longrightarrow> new1 \<noteq> []"
    by (rule notify_adds [OF n1 Cons.prems(3)]) blast
  have r1: "notify_run mac calls (Some c1) st1 = (kc', st')"
    using Cons.prems(2) by (simp add: call n1 s1(1))
  have a1: "\<forall>n \<in> set (log @ new1). authentic mac (kc_key c1) n"
    using Cons.prems(4) new1 s1(2) by auto
  obtain c' new2 where s2: "kc' = Some c'" "kc_key c' = kc_key c1" "ring_rep (kc_ring c') ((log @ new1) @ new2)"
    "\<forall>n \<in> set ((log @ new1) @ new2). authentic mac (kc_key c1) n"
    and sub: "subseq (map payload_of new2) (map snd calls)"
    and cnt: "notifications_sent st' = notifications_sent st1 + of_nat (length new2)"
    and cr: "(\<forall>m. \<exists>h. mac (kc_key c1) m = Inr h) \<Longrightarrow>
       filter critical (map payload_of new2) = filter critical (map snd calls)"
    by (rule Cons.IH [OF _ r1 s1(3) a1]) blast
  show ?case
  proof (rule Cons.prems(1) [of c' "new1 @ new2"])
    show "subseq (map payload_of (new1 @ new2)) (map snd (call # calls))"
      using new1 sub by (auto simp: call)
    show "notifications_sent st' = notifications_sent st + of_nat (length (new1 @ new2))"
      using new1 cnt by auto
    show "filter critical (map payload_of (new1 @ new2)) = filter critical (map snd (call # calls))"
      if "\<forall>m. \<exists>h. mac (kc_key c) m = Inr h"
      using that new1 crit cr s1(2) by (auto simp: call critical_def)
  qed (use s1 s2 in simp_all)
qed


section \<open>The uevent worker announces the unseen tail\<close>

lemma of_nat_diff_word: "k \<le> l \<Longrightarrow> (of_nat l - of_nat k :: u32) = of_nat (l - k)"
  by (simp add: of_nat_diff)

lemma kg_uevent_turn_rep:
  assumes rep: "ring_rep (kc_ring c) log" and dev: "kc_dev c" and cur: "kc_ue_cursor c = of_nat k"
    and k: "k < length log" and small: "length log - k < 2 ^ 32"
  defines "j \<equiv> max k (length log - KG_NOTIFY_SLOTS)"
  shows "kg_uevent_turn c = Some (c\<lparr>kc_ue_cursor := of_nat (Suc j)\<rparr>,
           if KG_LEVEL_WATCH \<le> n_alert_level (log ! j) then Some (log ! j) else None)"
proof -
  let ?L = "length log"
  have w: "write_index (kc_ring c) = of_nat ?L" using rep by (simp add: ring_rep_def)
  have d: "(of_nat ?L - of_nat k :: u32) = of_nat (?L - k)" using k by (intro of_nat_diff_word) simp
  have ud: "unat (of_nat (?L - k) :: u32) = ?L - k"
    using small by (intro unat_of_nat_small) simp
  have ne: "(of_nat k :: u32) \<noteq> of_nat ?L"
  proof
    assume "(of_nat k :: u32) = of_nat ?L"
    then have "unat (of_nat (?L - k) :: u32) = 0" unfolding d [symmetric] by simp
    with ud k show False by linarith
  qed
  have "(of_nat KG_NOTIFY_SLOTS < (of_nat ?L - of_nat k :: u32)) \<longleftrightarrow> KG_NOTIFY_SLOTS < ?L - k"
    unfolding d word_less_nat_alt ud by (simp add: KG_NOTIFY_SLOTS_def)
  note c = this
  have i: "(if of_nat KG_NOTIFY_SLOTS < (of_nat ?L - of_nat k :: u32)
                 then of_nat ?L - of_nat KG_NOTIFY_SLOTS else of_nat k) = (of_nat j :: u32)"
  proof (cases "KG_NOTIFY_SLOTS < ?L - k")
    case True
    then have "j = ?L - KG_NOTIFY_SLOTS" "KG_NOTIFY_SLOTS \<le> ?L" by (auto simp: j_def)
    with True c show ?thesis by (simp only: if_True of_nat_diff_word)
  next
    case False
    then have "j = k" by (auto simp: j_def)
    with False c show ?thesis by (simp only: if_False)
  qed
  have j: "j < ?L" "?L \<le> j + KG_NOTIFY_SLOTS" using k by (auto simp: j_def KG_NOTIFY_SLOTS_def)
  have snap: "notifications (kc_ring c) ! slot_of (of_nat j) = log ! j"
    unfolding slot_of_nat by (rule ring.rep_fetch [OF rep j])
  have "n_sequence (log ! j) = of_nat j" "n_magic (log ! j) = KG_NOTIFY_MAGIC"
    using rep j(1) by (simp_all add: ring_rep_def)
  then show ?thesis
    using dev ne i by (simp add: kg_uevent_turn_def Let_def w cur snap not_le add.commute)
qed

definition count_sent :: "(kg_notification \<Rightarrow> bool) \<Rightarrow> kg_notification list \<Rightarrow> kg_stats \<Rightarrow> kg_stats" where
  "count_sent send ns st = st\<lparr>fallback_signals_sent := fallback_signals_sent st + of_nat (length (filter send ns))\<rparr>"

definition unseen_tail :: "nat \<Rightarrow> kg_notification list \<Rightarrow> kg_notification list" where
  "unseen_tail k log =
     filter (\<lambda>n. KG_LEVEL_WATCH \<le> n_alert_level n) (drop (max k (length log - KG_NOTIFY_SLOTS)) log)"

lemma count_sent_Nil [simp]: "count_sent send [] st = st"
  by (simp add: count_sent_def)

lemma count_sent_Cons [simp]:
  "count_sent send (n # ns) st = count_sent send ns
     (if send n then st\<lparr>fallback_signals_sent := fallback_signals_sent st + 1\<rparr> else st)"
  by (simp add: count_sent_def)

lemma uevent_loop_rep:
  assumes "ring_rep (kc_ring c) log" and "kc_dev c" and "kc_ue_cursor c = of_nat k"
    and "k \<le> length log" and "length log - k < 2 ^ 32"
  shows "uevent_loop send c st =
    (c\<lparr>kc_ue_cursor := of_nat (length log)\<rparr>, count_sent send (unseen_tail k log) st, unseen_tail k log)"
  using assms
proof (induction "length log - k" arbitrary: c k st rule: less_induct)
  case less
  have w: "write_index (kc_ring c) = of_nat (length log)" using less.prems(1) by (simp add: ring_rep_def)
  let ?j = "max k (length log - KG_NOTIFY_SLOTS)"
  let ?c = "c\<lparr>kc_ue_cursor := of_nat (Suc ?j)\<rparr>"
  show ?case
  proof (cases "k = length log")
    case True
    then have "kg_uevent_turn c = None" using less.prems w by (simp add: kg_uevent_turn_def)
    with True show ?thesis
      using less.prems(3) by (simp add: uevent_loop.simps unseen_tail_def)
  next
    case False
    then have k: "k < length log" using less.prems(4) by simp
    note t = kg_uevent_turn_rep [OF less.prems(1-3) k less.prems(5)]
    have j: "?j < length log" "k \<le> ?j" using k by (auto simp: KG_NOTIFY_SLOTS_def)
    have mx: "max (Suc ?j) (length log - KG_NOTIFY_SLOTS) = Suc ?j" by simp
    have lt: "length log - Suc ?j < length log - k" and le: "Suc ?j \<le> length log"
      using j k by linarith+
    have sm: "length log - Suc ?j < 2 ^ 32" using lt less.prems(5) by linarith
    have IH: "uevent_loop send ?c st =
        (?c\<lparr>kc_ue_cursor := of_nat (length log)\<rparr>,
         count_sent send (unseen_tail (Suc ?j) log) st, unseen_tail (Suc ?j) log)" for st
      by (rule less.hyps) (use less.prems lt le sm in simp_all)
    have "drop ?j log = log ! ?j # drop (Suc ?j) log" using j by (simp add: Cons_nth_drop_Suc)
    then show ?thesis
      by (subst uevent_loop.simps, subst t) (simp add: IH unseen_tail_def del: of_nat_Suc)
  qed
qed

section \<open>Properties\<close>

definition example_comms :: kg_comms where
  "example_comms = \<lparr>kc_ring = zero_ring, kc_key = replicate 32 7, kc_rl_last_ns = 0,
     kc_rl_tokens = 2, kc_ue_cursor = 0, kc_dev = True, kc_self = 64\<rparr>"

definition hmac_mac :: mac_fn where
  "hmac_mac key m = Inr (kg_hmac_sha256 key m)"

lemma hmac_mac_total: "\<exists>h. hmac_mac key m = Inr h"
  by (simp add: hmac_mac_def)

text \<open>
  C7. \<open>kg_comms_notify\<close> refines appending to a log, on every branch: it succeeds exactly when the
  ring now represents the old log with one more notification, which carries the caller's
  parameters, the next sequence number and the keyed digest of its own authenticated bytes; when
  the limiter refuses (\<open>EBUSY\<close>, only below critical) or the digest fails, the ring and its
  sequence counter are as before.  The statistics count exactly what happened, and the uevent
  worker is queued exactly for a published notification above INFO.
\<close>

theorem notify_refines_log:
  assumes "kg_comms_notify mac now wall type level p1 p2 (Some c) st = (kc', st', ev, r)"
    and "ring_rep (kc_ring c) log"
  shows "\<exists>c'. kc' = Some c' \<and> kc_key c' = kc_key c \<and>
    (case r of
       None \<Rightarrow> (\<exists>n. ring_rep (kc_ring c') (log @ [n]) \<and> authentic mac (kc_key c) n \<and>
                  payload_of n = (wall, type, level, p1, p2) \<and> n_sequence n = of_nat (length log) \<and>
                  st' = st\<lparr>notifications_sent := notifications_sent st + 1\<rparr> \<and>
                  Wake_readers \<in> set ev \<and> (Queue_uevent_work \<in> set ev \<longleftrightarrow> KG_LEVEL_WATCH \<le> level))
     | Some e \<Rightarrow> kc_ring c' = kc_ring c \<and> ev = [] \<and>
                  (level < KG_LEVEL_CRITICAL \<and> e = EBUSY \<and>
                     st' = st\<lparr>notifications_dropped := notifications_dropped st + 1\<rparr> \<or>
                   (\<exists>m. mac (kc_key c) m = Inl e) \<and> st' = st))"
  using assms
proof (cases rule: kg_comms_notify_cases)
  case (sent c' h)
  let ?n = "published wall type level p1 p2 (length log) h"
  have "authentic mac (kc_key c) ?n" "payload_of ?n = (wall, type, level, p1, p2)"
    "n_sequence ?n = of_nat (length log)"
    using sent(4) by (simp_all add: published_def new_notification_def auth_bytes_def payload_of_def authentic_def)
  with sent show ?thesis by auto
qed auto

theorem notify_refines_log_witness:
  "\<exists>c' n. kg_comms_notify hmac_mac 5 9 KG_ALERT_TEXT_PATCH KG_LEVEL_CRITICAL 1 2 (Some example_comms) zero_stats =
      (Some c', zero_stats\<lparr>notifications_sent := 1\<rparr>, [Wake_readers, Queue_uevent_work], None) \<and>
    ring_rep (kc_ring c') [n] \<and> payload_of n = (9, KG_ALERT_TEXT_PATCH, KG_LEVEL_CRITICAL, 1, 2)"
proof -
  obtain kc' st' ev r where n: "kg_comms_notify hmac_mac 5 9 KG_ALERT_TEXT_PATCH KG_LEVEL_CRITICAL 1 2
      (Some example_comms) zero_stats = (kc', st', ev, r)"
    by (metis prod_cases4)
  then have r: "r = None" "ev = [Wake_readers, Queue_uevent_work]" "st' = zero_stats\<lparr>notifications_sent := 1\<rparr>"
    by (auto simp: kg_comms_notify_def Let_def hmac_mac_def kg_const zero_stats_def)
  have "ring_rep (kc_ring example_comms) []" by (simp add: example_comms_def ring_rep_zero)
  from notify_refines_log [OF n this] show ?thesis using n by (auto simp: r)
qed

text \<open>
  The whole channel, from initialisation through any sequence of alerts: the ring represents a log in
  which every notification authenticates under the boot key, sequence numbers have no gaps, the
  payloads are alerts that were raised, in the order they were raised, the newest 16 are all in
  their slots, and \<open>notifications_sent\<close> is the length of the log.
\<close>

theorem channel_log:
  assumes "kg_comms_init rec ptr tgid csize page tfm setkey key now l st = (Some c0, l0, st0, None)"
    and "notify_run mac calls (Some c0) st0 = (kc, st1)"
  shows "\<exists>c log. kc = Some c \<and> kc_key c = key \<and> ring_rep (kc_ring c) log \<and>
    (\<forall>n \<in> set log. authentic mac key n) \<and> map n_sequence log = map of_nat [0 ..< length log] \<and>
    subseq (map payload_of log) (map snd calls) \<and>
    map (\<lambda>k. notifications (kc_ring c) ! (k mod KG_NOTIFY_SLOTS)) [length log - KG_NOTIFY_SLOTS ..< length log] =
      drop (length log - KG_NOTIFY_SLOTS) log \<and>
    notifications_sent st1 = notifications_sent st0 + of_nat (length log)"
proof -
  have c0: "kc_key c0 = key" "ring_rep (kc_ring c0) []"
    using assms(1) by (auto simp: kg_comms_init_def ring_rep_zero Let_def split: option.splits prod.splits if_splits)
  obtain c log where l: "kc = Some c" "kc_key c = kc_key c0" "ring_rep (kc_ring c) ([] @ log)"
    "\<forall>n \<in> set ([] @ log). authentic mac (kc_key c0) n" "subseq (map payload_of log) (map snd calls)"
    "notifications_sent st1 = notifications_sent st0 + of_nat (length log)"
    by (rule notify_run_log [OF assms(2) c0(2)]) auto
  from l(3) have "map n_sequence log = map of_nat [0 ..< length log]"
    by (intro nth_equalityI) (simp_all add: ring_rep_def)
  with l c0(1) ring.newest_window [of "kc_ring c" log] show ?thesis by auto
qed

theorem channel_log_witness:
  "let k = replicate 32 (3::u8);
       (kc, l, st, _) = kg_comms_init True (Some 64) 1 200 True None None k 0 [] zero_stats
   in \<exists>c log. fst (notify_run hmac_mac [(1, 10, KG_ALERT_IDT_HOOK, 2, 0, 0), (2, 20, KG_ALERT_MODULE_LOADED, 0, 7, 8)]
                   kc st) = Some c \<and>
        ring_rep (kc_ring c) log \<and> (\<forall>n \<in> set log. authentic hmac_mac k n)"
proof -
  let ?k = "replicate 32 (3::u8)"
  obtain c0 l0 st0 where i: "kg_comms_init True (Some 64) 1 200 True None None ?k 0 [] zero_stats = (Some c0, l0, st0, None)"
    by (simp add: kg_comms_init_def kg_sens_alloc_def kg_sens_free_def)
  let ?calls = "[(1, 10, KG_ALERT_IDT_HOOK, 2, 0, 0), (2, 20, KG_ALERT_MODULE_LOADED, 0, 7, 8)]"
  obtain kc st1 where r: "notify_run hmac_mac ?calls (Some c0) st0 = (kc, st1)" by fastforce
  from channel_log [OF i r] show ?thesis by (simp only: i r Let_def prod.case fst_conv) blast
qed

text \<open>
  C37. Critical alerts are never lost to the rate limiter: as long as the keyed digest succeeds (it does not
  fail with a keyed transform), the critical alerts in the log are exactly the critical alerts
  raised, whatever flood of lesser alerts surrounds them.
\<close>

theorem critical_alerts_delivered:
  assumes "ring_rep (kc_ring c) log" and "\<forall>n \<in> set log. authentic mac (kc_key c) n"
    and "\<forall>m. \<exists>h. mac (kc_key c) m = Inr h"
  shows "\<exists>c' new. fst (notify_run mac calls (Some c) st) = Some c' \<and> ring_rep (kc_ring c') (log @ new) \<and>
           filter critical (map payload_of new) = filter critical (map snd calls)"
proof -
  obtain kc' st' where r: "notify_run mac calls (Some c) st = (kc', st')" by fastforce
  show ?thesis
    by (rule notify_run_log [OF r assms(1,2)]) (use r assms(3) in auto)
qed

theorem critical_alerts_delivered_witness:
  "\<exists>c' new. fst (notify_run hmac_mac (replicate 50 (0, 1, KG_ALERT_MODULE_LOADED, KG_LEVEL_INFO, 0, 0) @
                   [(0, 2, KG_ALERT_TEXT_PATCH, KG_LEVEL_CRITICAL, 5, 6)]) (Some example_comms) zero_stats) = Some c' \<and>
     ring_rep (kc_ring c') new \<and>
     filter critical (map payload_of new) = [(2, KG_ALERT_TEXT_PATCH, KG_LEVEL_CRITICAL, 5, 6)]"
proof -
  have rep: "ring_rep (kc_ring example_comms) []" by (simp add: example_comms_def ring_rep_zero)
  have c: "filter critical (map snd (replicate 50 (0, 1, KG_ALERT_MODULE_LOADED, KG_LEVEL_INFO, 0, 0) @
      [(0, 2, KG_ALERT_TEXT_PATCH, KG_LEVEL_CRITICAL, 5, 6)])) = [(2, KG_ALERT_TEXT_PATCH, KG_LEVEL_CRITICAL, 5, 6)]"
    by (simp add: critical_def kg_const)
  show ?thesis
    using critical_alerts_delivered [OF rep, of hmac_mac "replicate 50 (0, 1, KG_ALERT_MODULE_LOADED, KG_LEVEL_INFO, 0, 0) @
      [(0, 2, KG_ALERT_TEXT_PATCH, KG_LEVEL_CRITICAL, 5, 6)]" zero_stats] hmac_mac_total
    unfolding c by simp
qed

text \<open>
  The sustained rate of non-critical alerts is bounded: however often the limiter is asked between
  its last refill and time \<open>T\<close> (on a monotonic clock), it lets through at most its remaining tokens
  plus one alert per 100 ms elapsed, and never more than the burst of 32 beyond that rate.
\<close>

theorem rate_limit_bound:
  assumes "sorted (kc_rl_last_ns c # ts)" and "unat (kc_rl_tokens c) \<le> KG_RL_BURST" and "ts \<noteq> []"
  shows "fst (rl_run ts c) \<le> KG_RL_BURST + (unat (last ts) - unat (kc_rl_last_ns c)) div KG_RL_INTERVAL_NS"
proof -
  obtain n c' where r: "rl_run ts c = (n, c')" by fastforce
  show ?thesis
    using rl_run_potential [OF assms(1,2) r] assms(2,3) by (simp add: r)
qed

theorem rate_limit_bound_witness:
  "fst (rl_run [10, 20, 30, 250000000] example_comms) = 3 \<and>
   fst (rl_run [10, 20, 30, 250000000] example_comms) \<le> KG_RL_BURST + 2"
proof -
  have "sorted (kc_rl_last_ns example_comms # [10, 20, 30, 250000000])"
    by (simp add: example_comms_def)
  from rate_limit_bound [OF this] show ?thesis
    by (simp add: example_comms_def kg_rl_allow_def Let_def kg_const)
qed


text \<open>
  The fallback channel misses nothing it can still read: started at cursor \<open>k\<close> of a ring that
  represents a log, the worker terminates with the cursor at the end and announces, in order, exactly the
  notifications above INFO among those it has not seen and that have not been overwritten (the newest
  16), counting each successful uevent.
\<close>

theorem uevent_worker_announces:
  assumes "ring_rep (kc_ring c) log" and "kc_dev c" and "kc_ue_cursor c = of_nat k"
    and "k \<le> length log" and "length log - k < 2 ^ 32"
  shows "kg_uevent_workfn send (Some c) st =
    (Some (c\<lparr>kc_ue_cursor := write_index (kc_ring c)\<rparr>),
     st\<lparr>fallback_signals_sent := fallback_signals_sent st + of_nat (length (filter send (unseen_tail k log)))\<rparr>,
     filter (\<lambda>n. KG_LEVEL_WATCH \<le> n_alert_level n) (drop (max k (length log - 16)) log))"
proof -
  have "write_index (kc_ring c) = of_nat (length log)" using assms(1) by (simp add: ring_rep_def)
  then show ?thesis
    using uevent_loop_rep [OF assms, of send st]
    by (simp add: kg_uevent_workfn_def count_sent_def unseen_tail_def KG_NOTIFY_SLOTS_def)
qed

definition example_log :: "kg_notification list" where
  "example_log = [published 9 KG_ALERT_MODULE_LOADED KG_LEVEL_INFO 0 0 0 [], published 9 KG_ALERT_IDT_HOOK KG_LEVEL_CRITICAL 0 0 1 []]"

definition example_ring :: kg_shared_region where
  "example_ring = fold ring_publish example_log zero_ring"

lemma example_ring_rep: "ring_rep example_ring example_log"
proof -
  have "ring_rep (ring_publish (example_log ! 0) zero_ring) ([] @ [example_log ! 0])"
    by (rule ring_rep_publish [OF ring_rep_zero])
      (simp_all add: example_log_def published_def new_notification_def zero_ring_def)
  then have "ring_rep (ring_publish (example_log ! 1) (ring_publish (example_log ! 0) zero_ring))
      (([] @ [example_log ! 0]) @ [example_log ! 1])"
    by (rule ring_rep_publish)
      (simp_all add: example_log_def published_def new_notification_def ring_publish_def)
  then show ?thesis by (simp add: example_ring_def example_log_def)
qed

theorem uevent_worker_announces_witness:
  "snd (snd (kg_uevent_workfn (\<lambda>_. True) (Some (example_comms\<lparr>kc_ring := example_ring\<rparr>)) zero_stats)) =
     [published 9 KG_ALERT_IDT_HOOK KG_LEVEL_CRITICAL 0 0 1 []]"
  using uevent_worker_announces [of "example_comms\<lparr>kc_ring := example_ring\<rparr>" example_log 0 "\<lambda>_. True" zero_stats]
  by (simp add: example_ring_rep) (simp add: example_comms_def example_log_def published_def new_notification_def kg_const)

text \<open>
  The shared page cannot become writable from user space: a successful \<open>mmap\<close> maps at most the one
  page, at offset 0, not writable, and with write permission barred for any later \<open>mprotect\<close>; every
  request to map it writable is refused.
\<close>

theorem mmap_read_only:
  "(case kg_comms_mmap ins kc vma of
      Inr v \<Rightarrow> kc \<noteq> None \<and> \<not> vm_write v \<and> \<not> vm_maywrite v \<and> vm_dontexpand v \<and> vm_pgoff v = 0 \<and>
               vm_end v - vm_start v \<le> PAGE_SIZE
    | Inl e \<Rightarrow> e = ENODEV \<and> kc = None \<or> e = EINVAL \<or> e = EPERM \<and> vm_write vma \<or> ins = Some e) \<and>
   (vm_write vma \<longrightarrow> (\<exists>e. kg_comms_mmap ins kc vma = Inl e))"
  by (auto simp: kg_comms_mmap_def not_less split: option.splits)

theorem mmap_read_only_witness:
  "let v = \<lparr>vm_start = 0x1000, vm_end = 0x2000, vm_pgoff = 0, vm_write = True, vm_maywrite = True,
            vm_dontexpand = False, vm_dontdump = False\<rparr>
   in kg_comms_mmap None (Some example_comms) v = Inl EPERM \<and>
      (\<exists>e. kg_comms_mmap None (Some example_comms) v = Inl e) \<and>
      (\<exists>w. kg_comms_mmap None (Some example_comms) (v\<lparr>vm_write := False\<rparr>) = Inr w \<and> \<not> vm_maywrite w)"
  using mmap_read_only [where ins = None and kc = "Some example_comms" and vma = "\<lparr>vm_start = 0x1000, vm_end = 0x2000, vm_pgoff = 0,
      vm_write = True, vm_maywrite = True, vm_dontexpand = False, vm_dontdump = False\<rparr>"]
  by (simp add: Let_def kg_comms_mmap_def PAGE_SIZE_def)

end
