(* ===== verification/KG_State.thy ===== *)
theory KG_State
  imports KG_Mitigate KG_Comms
begin

text \<open>
  The policy core of the kernel module: the posture ladder
  (\<^verbatim>\<open>src/linux/module/kg_posture.c\<close>) and the alert router
  (\<^verbatim>\<open>src/linux/module/kg_state.c\<close>), over one state that joins the guarded policy, the
  statistics, the posture bookkeeping and the alert channel.  Reporting an alert can raise the
  posture, and entering fail-safe reports an alert, so \<open>kg_report\<close>, \<open>kg_dispatch\<close>,
  \<open>kg_posture_raise\<close> and \<open>kg_pos_after_up\<close> are mutually recursive, as in the code; their
  termination is proved here.  Every critical section is one operation; within one operation the
  clocks are read once.  Kernel log lines are not part of the state.
\<close>

unbundle bit_operations_syntax

section \<open>Environment and state\<close>

record kg_params =
  par_enforce :: bool
  par_auto_enforce :: bool
  par_max_posture :: u32
  par_posture_decay_s :: u32
  par_hw_interval_ms :: u32
  par_integ_interval_ms :: u32

text \<open>What an operation finds around it: the kernel's transforms, the clocks, the CPUs, the parameters.\<close>

record kg_env =
  e_sha :: sha_fn
  e_mac :: mac_fn
  e_real :: u64
  e_mono :: u64
  e_topo :: kg_topo
  e_this_cpu :: nat
  e_par :: kg_params

text \<open>A pending decay timer: the delay it was last armed with.\<close>

datatype decay_delay = After_ms nat | After_ns_plus_tick u64

record kg_pos =
  pos_ready :: bool
  pos_untrusted :: bool
  pos_since_ns :: u64
  pos_trigger_ns :: u64
  pos_trigger_mono :: u64
  pos_trigger :: u32
  pos_entered :: "u64 list"
  pos_timer :: "decay_delay option"

text \<open>What the operations do to the outside, in order.\<close>

datatype kg_ev =
    Ev_notify u32 u32 u64 u64 "errno option"
  | Ev_comms comms_ev
  | Ev_flush nat "hw_op list"
  | Ev_input_kick
  | Ev_hw_kick
  | Ev_integrity_kick

record kg_sys =
  s_guard :: kg_guard
  s_stats :: kg_stats
  s_pos :: kg_pos
  s_comms :: "kg_comms option"
  s_trace :: "kg_ev list"

definition emit :: "kg_ev list \<Rightarrow> kg_sys \<Rightarrow> kg_sys" where
  "emit evs s = s\<lparr>s_trace := s_trace s @ evs\<rparr>"

abbreviation upd_pos :: "(kg_pos \<Rightarrow> kg_pos) \<Rightarrow> kg_sys \<Rightarrow> kg_sys" where
  "upd_pos f s \<equiv> s\<lparr>s_pos := f (s_pos s)\<rparr>"

abbreviation sys_posture :: "kg_sys \<Rightarrow> u32" where
  "sys_posture s \<equiv> kg_posture (s_guard s)"

section \<open>The posture ladder\<close>

definition KG_POSTURE_SCAN_DIV :: u32 where [kg_const]: "KG_POSTURE_SCAN_DIV = 4"
definition KG_POSTURE_MIN_SCAN_MS :: u32 where [kg_const]: "KG_POSTURE_MIN_SCAN_MS = 100"
definition KG_POSTURE_MAX_DECAY_S :: u32 where [kg_const]: "KG_POSTURE_MAX_DECAY_S = 1000000"

definition kg_pos_str :: "u32 \<Rightarrow> string" where
  "kg_pos_str p = (if p < KG_POSTURE_COUNT
     then [''NORMAL'', ''ELEVATED'', ''HIGH'', ''FAIL-SAFE''] ! unat p else ''?'')"

definition kg_enforcing :: "kg_params \<Rightarrow> kg_guard \<Rightarrow> bool" where
  "kg_enforcing par g \<longleftrightarrow> par_enforce par \<or> (par_auto_enforce par \<and> KG_POSTURE_HIGH \<le> kg_posture g)"

definition kg_scan_ms :: "kg_guard \<Rightarrow> u32 \<Rightarrow> u32" where
  "kg_scan_ms g base =
     (let ms = max base KG_POSTURE_MIN_SCAN_MS
      in if KG_POSTURE_ELEVATED \<le> kg_posture g
         then max (ms div KG_POSTURE_SCAN_DIV) KG_POSTURE_MIN_SCAN_MS else ms)"

definition kg_pos_decay_s :: "kg_params \<Rightarrow> u32" where
  "kg_pos_decay_s par = min (par_posture_decay_s par) KG_POSTURE_MAX_DECAY_S"

definition kg_pos_arm_decay_locked :: "kg_params \<Rightarrow> kg_sys \<Rightarrow> kg_sys" where
  "kg_pos_arm_decay_locked par s =
     (let secs = kg_pos_decay_s par
      in if pos_ready (s_pos s) \<and> secs \<noteq> 0 \<and> sys_posture s = KG_POSTURE_ELEVATED
         then upd_pos (\<lambda>p. p\<lparr>pos_timer := Some (After_ms (unat (secs * 1000)))\<rparr>) s else s)"

definition kg_pos_apply_locked :: "kg_env \<Rightarrow> u32 \<Rightarrow> kg_sys \<Rightarrow> kg_sys" where
  "kg_pos_apply_locked env target s =
     (let s1 = s\<lparr>s_guard := kg_mit_set_posture (e_sha env) target (s_guard s)\<rparr>;
          s2 = upd_pos (\<lambda>p. p\<lparr>pos_since_ns := e_real env,
                 pos_entered := (pos_entered p)[unat target := pos_entered p ! unat target + 1]\<rparr>) s1
      in if target \<noteq> KG_POSTURE_FAILSAFE
         then s2\<lparr>s_stats := (s_stats s2)\<lparr>active_mitigation_flags :=
                    active_mitigation_flags (s_stats s2) AND NOT KG_MIT_FAIL_SAFE\<rparr>\<rparr>
         else s2)"

section \<open>The alert router\<close>

text \<open>Delivery: the call of \<open>kg_comms_notify\<close> in \<open>kg_report\<close>.\<close>

definition deliver :: "kg_env \<Rightarrow> u32 \<Rightarrow> u32 \<Rightarrow> u64 \<Rightarrow> u64 \<Rightarrow> kg_sys \<Rightarrow> kg_sys" where
  "deliver env type level p1 p2 s =
     (let (kc, st, evs, r) = kg_comms_notify (e_mac env) (e_mono env) (e_real env) type level p1 p2
                               (s_comms s) (s_stats s)
      in emit (Ev_notify type level p1 p2 r # map Ev_comms evs) (s\<lparr>s_comms := kc, s_stats := st\<rparr>))"

definition ev_flushes :: "flush_trace \<Rightarrow> kg_ev list" where
  "ev_flushes t = map (\<lambda>(cpu, ops). Ev_flush cpu ops) t"

definition flush_cpu :: "kg_env \<Rightarrow> int \<Rightarrow> kg_sys \<Rightarrow> kg_sys" where
  "flush_cpu env cpu s =
     (let (st, t) = kg_mit_flush_cpu (e_topo env) cpu (s_guard s) (s_stats s)
      in emit (ev_flushes t) (s\<lparr>s_stats := st\<rparr>))"

definition flush_siblings :: "kg_env \<Rightarrow> int \<Rightarrow> kg_sys \<Rightarrow> kg_sys" where
  "flush_siblings env cpu s =
     (let (g, st, t) = kg_mit_flush_siblings (e_sha env) (e_topo env) cpu (s_guard s) (s_stats s)
      in emit (ev_flushes t) (s\<lparr>s_guard := g, s_stats := st\<rparr>))"

definition flush_all :: "kg_env \<Rightarrow> kg_sys \<Rightarrow> kg_sys" where
  "flush_all env s =
     (let (st, t) = kg_mit_flush_all (e_topo env) (s_guard s) (s_stats s)
      in emit (ev_flushes t) (s\<lparr>s_stats := st\<rparr>))"

definition escalate_cpu :: "kg_env \<Rightarrow> int \<Rightarrow> kg_sys \<Rightarrow> kg_sys" where
  "escalate_cpu env cpu s = s\<lparr>s_guard := kg_mit_escalate_cpu (e_sha env) cpu (s_guard s)\<rparr>"

text \<open>
  The router's \<open>switch\<close> in two halves: what each case does before it asks for a posture, and the
  posture it asks for, if any.
\<close>

definition dispatch_actions :: "kg_env \<Rightarrow> u32 \<Rightarrow> u32 \<Rightarrow> u64 \<Rightarrow> kg_sys \<Rightarrow> kg_sys" where
  "dispatch_actions env type level p2 s =
     (if type = KG_ALERT_PMU_L1D_ANOMALY \<or> type = KG_ALERT_PMU_L2_ANOMALY then
        (let cpu = sint (ucast (drop_bit 32 p2) :: u32)
         in if KG_LEVEL_CRITICAL \<le> level \<and> cpu_valid (e_topo env) cpu
            then flush_siblings env cpu (flush_cpu env cpu (escalate_cpu env cpu s)) else s)
      else if type = KG_ALERT_UNAUTHORIZED_DMA then flush_cpu env (int (e_this_cpu env)) s
      else if type = KG_ALERT_PCI_DISCREPANCY then emit [Ev_input_kick] s
      else s)"

definition dispatch_target :: "u32 \<Rightarrow> u32 \<Rightarrow> u32 option" where
  "dispatch_target type level =
     (if type = KG_ALERT_PMU_L1D_ANOMALY \<or> type = KG_ALERT_PMU_L2_ANOMALY
      then (if KG_LEVEL_CRITICAL \<le> level then Some KG_POSTURE_ELEVATED else None)
      else if type \<in> {KG_ALERT_UNAUTHORIZED_DMA, KG_ALERT_PCI_DISCREPANCY, KG_ALERT_UNAUTHORIZED_KBD_FILTER,
                      KG_ALERT_KBD_FILTER_NEUTRALIZED, KG_ALERT_DEVICE_BME_DISABLED}
      then Some KG_POSTURE_ELEVATED
      else if type = KG_ALERT_MODULE_LOADED
      then (if KG_LEVEL_WATCH \<le> level then Some KG_POSTURE_ELEVATED else None)
      else if type = KG_ALERT_VULN_DRIVER
      then Some (if KG_LEVEL_CRITICAL \<le> level then KG_POSTURE_HIGH else KG_POSTURE_ELEVATED)
      else if type = KG_ALERT_DRIVER_BLOCKED
      then (if KG_LEVEL_CRITICAL \<le> level then Some KG_POSTURE_ELEVATED else None)
      else if type = KG_ALERT_IDT_HOOK \<or> type = KG_ALERT_CTRL_REG_TAMPER
      then (if KG_LEVEL_CRITICAL \<le> level then Some KG_POSTURE_HIGH else None)
      else if type = KG_ALERT_TEXT_PATCH \<or> type = KG_ALERT_DISPATCH_HOOK
      then (if KG_LEVEL_CRITICAL \<le> level then Some KG_POSTURE_FAILSAFE else None)
      else if type = KG_ALERT_SHARED_STATE_CORRUPT then Some KG_POSTURE_FAILSAFE
      else None)"

lemma dispatch_target_failsafe [simp]: "dispatch_target KG_ALERT_FAIL_SAFE_ENTERED level = None"
  by (simp add: dispatch_target_def kg_const)

lemma dispatch_target_changed [simp]: "dispatch_target KG_ALERT_POSTURE_CHANGED level = None"
  by (simp add: dispatch_target_def kg_const)

text \<open>The critical section of \<open>kg_posture_raise\<close>, for the capped target: the new state, and whether it went up.\<close>

definition raise_locked :: "kg_env \<Rightarrow> u32 \<Rightarrow> u32 \<Rightarrow> kg_sys \<Rightarrow> kg_sys \<times> bool" where
  "raise_locked env target trigger s =
     (let s1 = (if trigger = KG_ALERT_SHARED_STATE_CORRUPT
                then upd_pos (\<lambda>p. p\<lparr>pos_untrusted := True\<rparr>) s else s);
          old = sys_posture s1;
          s2 = (if KG_POSTURE_ELEVATED \<le> target
                then upd_pos (\<lambda>p. p\<lparr>pos_trigger_ns := e_real env, pos_trigger_mono := e_mono env,
                       pos_trigger := trigger\<rparr>) s1 else s1);
          s3 = (if old < target then kg_pos_apply_locked env target s2 else s2)
      in (kg_pos_arm_decay_locked (e_par env) s3, old < target))"

definition posture_cap :: "kg_params \<Rightarrow> u32" where
  "posture_cap par = min (par_max_posture par) KG_POSTURE_FAILSAFE"

function (sequential)
  kg_report :: "kg_env \<Rightarrow> u32 \<Rightarrow> u32 \<Rightarrow> u64 \<Rightarrow> u64 \<Rightarrow> kg_sys \<Rightarrow> kg_sys" and
  kg_dispatch :: "kg_env \<Rightarrow> u32 \<Rightarrow> u32 \<Rightarrow> u64 \<Rightarrow> u64 \<Rightarrow> kg_sys \<Rightarrow> kg_sys" and
  kg_posture_raise :: "kg_env \<Rightarrow> u32 \<Rightarrow> u32 \<Rightarrow> kg_sys \<Rightarrow> kg_sys" and
  kg_pos_after_up :: "kg_env \<Rightarrow> u32 \<Rightarrow> kg_sys \<Rightarrow> kg_sys"
where
  "kg_report env type level p1 p2 s = kg_dispatch env type level p1 p2 (deliver env type level p1 p2 s)"
| "kg_dispatch env type level p1 p2 s =
     (case dispatch_target type level of
        None \<Rightarrow> dispatch_actions env type level p2 s
      | Some t \<Rightarrow> kg_posture_raise env t type (dispatch_actions env type level p2 s))"
| "kg_posture_raise env target trigger s =
     (if \<not> pos_ready (s_pos s) then s
      else let t = min target (posture_cap (e_par env));
               (s', up) = raise_locked env t trigger s
           in if up then kg_pos_after_up env t s' else s')"
| "kg_pos_after_up env target s =
     (let s1 = (if target = KG_POSTURE_FAILSAFE
                then kg_report env KG_ALERT_FAIL_SAFE_ENTERED KG_LEVEL_CRITICAL 0 0
                       (flush_all env (s\<lparr>s_stats := (s_stats s)\<lparr>active_mitigation_flags :=
                          active_mitigation_flags (s_stats s) OR KG_MIT_FAIL_SAFE\<rparr>\<rparr>))
                else if target = KG_POSTURE_HIGH then flush_all env s
                else s)
      in emit ([Ev_input_kick, Ev_hw_kick] @ (if KG_POSTURE_HIGH \<le> target then [Ev_integrity_kick] else [])) s1)"
  by pat_completeness auto
termination
  by (relation "measure (\<lambda>x. case x of
        Inl (Inl (_, type, _)) \<Rightarrow> if type = KG_ALERT_FAIL_SAFE_ENTERED then 1 else 5
      | Inl (Inr (_, type, _)) \<Rightarrow> if type = KG_ALERT_FAIL_SAFE_ENTERED then 0 else 4
      | Inr (Inl _) \<Rightarrow> 3
      | Inr (Inr _) \<Rightarrow> 2)") auto

declare kg_report.simps [simp del] kg_dispatch.simps [simp del]
  kg_posture_raise.simps [simp del] kg_pos_after_up.simps [simp del]

section \<open>Lowering, operator control, query\<close>

definition kg_pos_announce :: "kg_env \<Rightarrow> u32 \<Rightarrow> u32 \<Rightarrow> u32 \<Rightarrow> u32 \<Rightarrow> kg_sys \<Rightarrow> kg_sys" where
  "kg_pos_announce env old new why trigger s =
     kg_report env KG_ALERT_POSTURE_CHANGED
       (if why = KG_POSTURE_WHY_DECAY then KG_LEVEL_INFO else KG_LEVEL_WATCH)
       (push_bit 32 (ucast old) OR ucast new) (push_bit 32 (ucast why) OR ucast trigger) s"

definition decay_due :: "kg_params \<Rightarrow> kg_pos \<Rightarrow> u64" where
  "decay_due par p = pos_trigger_mono p + ucast (kg_pos_decay_s par) * 1000000000"

text \<open>The work item has fired, so its timer is no longer pending unless it is armed again.\<close>

definition kg_pos_decay_fn :: "kg_env \<Rightarrow> kg_sys \<Rightarrow> kg_sys" where
  "kg_pos_decay_fn env s0 =
     (let s = upd_pos (\<lambda>p. p\<lparr>pos_timer := None\<rparr>) s0
      in if pos_ready (s_pos s) \<and> kg_pos_decay_s (e_par env) \<noteq> 0 \<and> sys_posture s = KG_POSTURE_ELEVATED
         then let due = decay_due (e_par env) (s_pos s); now = e_mono env
              in if due \<le> now
                 then kg_pos_announce env KG_POSTURE_ELEVATED KG_POSTURE_NORMAL KG_POSTURE_WHY_DECAY
                        (pos_trigger (s_pos s)) (kg_pos_apply_locked env KG_POSTURE_NORMAL s)
                 else upd_pos (\<lambda>p. p\<lparr>pos_timer := Some (After_ns_plus_tick (due - now))\<rparr>) s
         else s)"

definition kg_posture_set :: "kg_env \<Rightarrow> u32 \<Rightarrow> kg_sys \<Rightarrow> kg_sys \<times> errno option" where
  "kg_posture_set env target s =
     (let old = sys_posture s
      in if KG_POSTURE_COUNT \<le> target then (s, Some EINVAL)
         else if \<not> pos_ready (s_pos s) then (s, Some ENODEV)
         else if target = old then (s, None)
         else if target < old \<and> KG_POSTURE_HIGH \<le> old \<and> pos_untrusted (s_pos s) then (s, Some EUCLEAN)
         else let trigger = pos_trigger (s_pos s);
                  s1 = kg_pos_arm_decay_locked (e_par env)
                         (upd_pos (\<lambda>p. p\<lparr>pos_trigger_mono := e_mono env\<rparr>) (kg_pos_apply_locked env target s));
                  s2 = (if old < target then kg_pos_after_up env target s1 else s1)
              in (kg_pos_announce env old target KG_POSTURE_WHY_OPERATOR trigger s2, None))"

record kg_posture_info =
  pi_posture :: u32
  pi_max_posture :: u32
  pi_decay_s :: u32
  pi_flags :: u32
  pi_since_ns :: u64
  pi_last_trigger_ns :: u64
  pi_last_trigger_alert :: u32
  pi_entered :: "u64 list"
  pi_hw_interval_ms :: u32
  pi_integ_interval_ms :: u32

definition KG_POSTURE_F_AUTO_ENFORCE :: u32 where [kg_const]: "KG_POSTURE_F_AUTO_ENFORCE = 1"
definition KG_POSTURE_F_ENFORCING :: u32 where [kg_const]: "KG_POSTURE_F_ENFORCING = 2"
definition KG_POSTURE_F_UNTRUSTED :: u32 where [kg_const]: "KG_POSTURE_F_UNTRUSTED = 4"

definition kg_posture_info_of :: "kg_params \<Rightarrow> kg_sys \<Rightarrow> kg_posture_info" where
  "kg_posture_info_of par s =
     \<lparr>pi_posture = sys_posture s, pi_max_posture = posture_cap par, pi_decay_s = kg_pos_decay_s par,
      pi_flags = flag (par_auto_enforce par) KG_POSTURE_F_AUTO_ENFORCE OR
        flag (kg_enforcing par (s_guard s)) KG_POSTURE_F_ENFORCING OR
        flag (pos_untrusted (s_pos s)) KG_POSTURE_F_UNTRUSTED,
      pi_since_ns = pos_since_ns (s_pos s), pi_last_trigger_ns = pos_trigger_ns (s_pos s),
      pi_last_trigger_alert = pos_trigger (s_pos s), pi_entered = pos_entered (s_pos s),
      pi_hw_interval_ms = kg_scan_ms (s_guard s) (par_hw_interval_ms par),
      pi_integ_interval_ms = kg_scan_ms (s_guard s) (par_integ_interval_ms par)\<rparr>"

definition kg_posture_init :: "kg_env \<Rightarrow> kg_sys \<Rightarrow> kg_sys" where
  "kg_posture_init env s =
     s\<lparr>s_pos := \<lparr>pos_ready = True, pos_untrusted = False, pos_since_ns = e_real env, pos_trigger_ns = 0,
        pos_trigger_mono = 0, pos_trigger = 0, pos_entered = [1, 0, 0, 0], pos_timer = None\<rparr>\<rparr>"

definition kg_posture_exit :: "kg_sys \<Rightarrow> kg_sys" where
  "kg_posture_exit s = upd_pos (\<lambda>p. p\<lparr>pos_ready := False, pos_timer := None\<rparr>) s"

section \<open>Start and stop of the core\<close>

text \<open>
  \<open>kg_state_init\<close> clears the statistics and the guard; \<open>tfm\<close> is the error of
  \<open>crypto_alloc_shash\<close>, and the result of a digest is \<open>ENODEV\<close> while there is no transform.
\<close>

definition zero_guard :: kg_guard where
  "zero_guard = \<lparr>g_hdr = \<lparr>h_magic = 0, h_abi = 0, h_ncpu = 0, h_failsafe = 0, h_posture = 0\<rparr>,
     g_cpu = None, g_digest = replicate 32 0, g_valid = False\<rparr>"

definition kg_state_init :: "errno option \<Rightarrow> sha_fn \<Rightarrow> kg_sys \<Rightarrow> kg_sys \<times> sha_fn option \<times> errno option" where
  "kg_state_init tfm sha s =
     (let s' = s\<lparr>s_stats := zero_stats, s_guard := zero_guard\<rparr>
      in case tfm of None \<Rightarrow> (s', Some sha, None) | Some e \<Rightarrow> (s', None, Some e))"

definition kg_state_exit :: "sha_fn option \<Rightarrow> sha_fn option" where
  "kg_state_exit tfm = None"

definition kg_sha256_of :: "sha_fn option \<Rightarrow> bytes \<Rightarrow> errno + bytes" where
  "kg_sha256_of tfm m = (case tfm of None \<Rightarrow> Inl ENODEV | Some sha \<Rightarrow> sha m)"

section \<open>Sequences of operations\<close>

text \<open>Everything that acts on the core while the module is loaded.\<close>

datatype kg_act =
    A_report u32 u32 u64 u64
  | A_set u32
  | A_decay
  | A_escalate int
  | A_relax int
  | A_online cpu_facts nat

fun sys_do :: "kg_env \<Rightarrow> kg_act \<Rightarrow> kg_sys \<Rightarrow> kg_sys" where
  "sys_do env (A_report type level p1 p2) s = kg_report env type level p1 p2 s"
| "sys_do env (A_set target) s = fst (kg_posture_set env target s)"
| "sys_do env A_decay s = kg_pos_decay_fn env s"
| "sys_do env (A_escalate cpu) s = escalate_cpu env cpu s"
| "sys_do env (A_relax cpu) s = s\<lparr>s_guard := kg_mit_relax_cpu (e_sha env) cpu (s_guard s)\<rparr>"
| "sys_do env (A_online facts cpu) s = s\<lparr>s_guard := kg_mit_cpu_online (e_sha env) facts cpu (s_guard s)\<rparr>"

fun sys_run :: "(kg_env \<times> kg_act) list \<Rightarrow> kg_sys \<Rightarrow> kg_sys" where
  "sys_run [] s = s"
| "sys_run ((env, a) # as) s = sys_run as (sys_do env a s)"

section \<open>What the operations leave alone\<close>

lemma emit_frame [simp]:
  "s_guard (emit evs s) = s_guard s" "s_stats (emit evs s) = s_stats s" "s_pos (emit evs s) = s_pos s"
  "s_comms (emit evs s) = s_comms s" "s_trace (emit evs s) = s_trace s @ evs"
  by (simp_all add: emit_def)

lemma notify_flags:
  assumes "kg_comms_notify mac now wall type level p1 p2 kc st = (kc', st', evs, r)"
  shows "active_mitigation_flags st' = active_mitigation_flags st"
  using assms
  by (auto simp: kg_comms_notify_def Let_def split: option.splits prod.splits if_splits sum.splits)

lemma deliver_frame [simp]:
  "s_guard (deliver env type level p1 p2 s) = s_guard s"
  "s_pos (deliver env type level p1 p2 s) = s_pos s"
  "active_mitigation_flags (s_stats (deliver env type level p1 p2 s)) = active_mitigation_flags (s_stats s)"
  by (auto simp: deliver_def Let_def notify_flags split: prod.splits)

lemma hdr_frame [simp]:
  "g_hdr (kg_mit_escalate_cpu sha cpu g) = g_hdr g" "g_hdr (kg_mit_relax_cpu sha cpu g) = g_hdr g"
  "g_hdr (kg_mit_cpu_online sha c n g) = g_hdr g"
  by (simp_all add: kg_mit_escalate_cpu_def kg_mit_relax_cpu_def kg_mit_cpu_online_def kg_mit_store_def)

text \<open>Flushing records mitigation flags, never the fail-safe one.\<close>

definition failsafe_bit :: "kg_stats \<Rightarrow> bool" where
  "failsafe_bit st \<longleftrightarrow> active_mitigation_flags st AND KG_MIT_FAIL_SAFE \<noteq> 0"

lemma failsafe_bit_or:
  assumes "f AND KG_MIT_FAIL_SAFE = 0" and "active_mitigation_flags st' = active_mitigation_flags st OR f"
  shows "failsafe_bit st' = failsafe_bit st"
  using assms by (simp add: failsafe_bit_def bit.conj_disj_distrib2)

lemma ipi_failsafe:
  assumes "kg_flush_ipi m st = (st', ops)"
  shows "failsafe_bit st' = failsafe_bit st"
proof -
  define s where "s = m_strategy m"
  define f where "f = flag (s = KG_STRAT_VERW \<or> s = KG_STRAT_VERW_L1D \<or> s = KG_STRAT_FULL) KG_MIT_VERW OR
    flag ((s = KG_STRAT_L1D \<or> s = KG_STRAT_VERW_L1D \<or> s = KG_STRAT_FULL) \<and>
          m_features m AND KG_FEAT_L1D_FLUSH \<noteq> 0) KG_MIT_L1D_FLUSH OR
    flag (s = KG_STRAT_FULL \<and> m_features m AND KG_FEAT_IBPB \<noteq> 0) KG_MIT_IBPB"
  let ?st = "st\<lparr>total_flush_count := total_flush_count st + 1\<rparr>"
  have "st' = (if f \<noteq> 0 then ?st\<lparr>active_mitigation_flags := active_mitigation_flags ?st OR f\<rparr> else ?st)"
    using assms unfolding f_def s_def kg_flush_ipi_def kg_boundary_flush_def Let_def prod.case by blast
  then have "active_mitigation_flags st' = active_mitigation_flags st OR f" by auto
  moreover have "f AND KG_MIT_FAIL_SAFE = 0"
    by (simp add: f_def bit.conj_disj_distrib2 kg_const flag_def)
  ultimately show ?thesis by (rule failsafe_bit_or [rotated])
qed

lemma ipi_on_failsafe: "ipi_on cpu g st = (st', t) \<Longrightarrow> failsafe_bit st' = failsafe_bit st"
  by (auto simp: ipi_on_def Let_def ipi_failsafe split: option.splits prod.splits)

lemma flush_each_failsafe: "flush_each cpus g st = (st', t) \<Longrightarrow> failsafe_bit st' = failsafe_bit st"
  by (induction cpus arbitrary: st t) (auto simp: Let_def ipi_on_failsafe split: prod.splits)

lemma flush_sibs_frame:
  "flush_sibs sha tp cpu sibs g st = (g', st', t) \<Longrightarrow>
     failsafe_bit st' = failsafe_bit st \<and> g_hdr g' = g_hdr g \<and> (guard_step sha)\<^sup>*\<^sup>* g g'"
proof (induction sibs arbitrary: g st g' st' t)
  case (Cons sib sibs)
  show ?case
  proof (cases "sib = cpu \<or> sib \<notin> set (tp_online tp)")
    case True
    then show ?thesis using Cons by auto
  next
    case False
    let ?g = "kg_mit_escalate_cpu sha (int sib) g"
    have "guard_step sha g ?g" by (rule guard_step.escalate)
    with False show ?thesis
      using Cons.prems Cons.IH [of ?g]
      by (fastforce simp: Let_def ipi_on_failsafe intro: converse_rtranclp_into_rtranclp split: prod.splits)
  qed
qed simp

lemma guard_steps_wf: "(guard_step sha)\<^sup>*\<^sup>* g g' \<Longrightarrow> guard_wf g \<Longrightarrow> guard_wf g'"
  by (induction rule: rtranclp_induct) (auto intro: guard_step_wf)

text \<open>
  \<open>quiet s s'\<close>: only engine steps below the header happened, and nothing about the posture did.
\<close>

definition quiet :: "sha_fn \<Rightarrow> kg_sys \<Rightarrow> kg_sys \<Rightarrow> bool" where
  "quiet sha s s' \<longleftrightarrow> (guard_step sha)\<^sup>*\<^sup>* (s_guard s) (s_guard s') \<and> g_hdr (s_guard s') = g_hdr (s_guard s) \<and>
     s_pos s' = s_pos s \<and> failsafe_bit (s_stats s') = failsafe_bit (s_stats s)"

lemma quiet_refl [simp]: "quiet sha s s"
  by (simp add: quiet_def)

lemma quiet_trans: "quiet sha s s' \<Longrightarrow> quiet sha s' s'' \<Longrightarrow> quiet sha s s''"
  by (auto simp: quiet_def)

lemma quiet_emit [simp]: "quiet sha s (emit evs s') = quiet sha s s'"
  by (simp add: quiet_def)

lemma quiet_deliver [simp]: "quiet sha s (deliver env type level p1 p2 s') = quiet sha s s'"
  by (simp add: quiet_def failsafe_bit_def)

lemma quiet_flush_cpu: "quiet sha s (flush_cpu env cpu s)"
  by (auto simp: flush_cpu_def quiet_def kg_mit_flush_cpu_def Let_def ipi_on_failsafe split: prod.splits if_splits)

lemma quiet_flush_all: "quiet sha s (flush_all env s)"
  by (auto simp: flush_all_def quiet_def kg_mit_flush_all_def Let_def flush_each_failsafe split: prod.splits)

lemma quiet_escalate: "quiet (e_sha env) s (escalate_cpu env cpu s)"
  by (auto simp: escalate_cpu_def quiet_def intro: guard_step.escalate)

lemma quiet_flush_siblings: "quiet (e_sha env) s (flush_siblings env cpu s)"
  by (auto simp: flush_siblings_def quiet_def kg_mit_flush_siblings_def Let_def
      dest: flush_sibs_frame split: prod.splits if_splits)

lemma quiet_dispatch_actions: "quiet (e_sha env) s (dispatch_actions env type level p2 s)"
proof -
  have "quiet (e_sha env) s (flush_siblings env cpu (flush_cpu env cpu (escalate_cpu env cpu s)))" for cpu
    by (meson quiet_trans quiet_escalate quiet_flush_cpu quiet_flush_siblings)
  then show ?thesis by (simp add: dispatch_actions_def Let_def quiet_flush_cpu)
qed

lemma quiet_posture: "quiet sha s s' \<Longrightarrow> sys_posture s' = sys_posture s"
  by (simp add: quiet_def kg_posture_def)

lemma report_failsafe: "kg_report env KG_ALERT_FAIL_SAFE_ENTERED level p1 p2 s =
    deliver env KG_ALERT_FAIL_SAFE_ENTERED level p1 p2 s"
  by (simp add: kg_report.simps kg_dispatch.simps) (simp add: dispatch_actions_def kg_const)

lemma report_changed: "kg_report env KG_ALERT_POSTURE_CHANGED level p1 p2 s =
    deliver env KG_ALERT_POSTURE_CHANGED level p1 p2 s"
  by (simp add: kg_report.simps kg_dispatch.simps) (simp add: dispatch_actions_def kg_const)

lemma quiet_announce: "quiet sha s (kg_pos_announce env old new why trigger s)"
  by (simp add: kg_pos_announce_def report_changed)

text \<open>After the posture went up: the flag is set exactly for FAILSAFE, the rest is quiet.\<close>

lemma after_up_guard [simp]: "s_guard (kg_pos_after_up env t s) = s_guard s"
  and after_up_pos [simp]: "s_pos (kg_pos_after_up env t s) = s_pos s"
  by (auto simp: kg_pos_after_up.simps report_failsafe flush_all_def Let_def split: prod.splits)

lemma flush_all_bit [simp]: "failsafe_bit (s_stats (flush_all env s)) = failsafe_bit (s_stats s)"
  using quiet_flush_all [of undefined s env] by (simp add: quiet_def)

lemma deliver_bit [simp]: "failsafe_bit (s_stats (deliver env type level p1 p2 s)) = failsafe_bit (s_stats s)"
  by (simp add: failsafe_bit_def)

lemma after_up_bit [simp]:
  "failsafe_bit (s_stats (kg_pos_after_up env t s)) \<longleftrightarrow> t = KG_POSTURE_FAILSAFE \<or> failsafe_bit (s_stats s)"
proof -
  have "failsafe_bit (st\<lparr>active_mitigation_flags := active_mitigation_flags st OR KG_MIT_FAIL_SAFE\<rparr>)" for st
    by (simp add: failsafe_bit_def bit.conj_disj_distrib2 KG_MIT_FAIL_SAFE_def)
  then show ?thesis by (simp add: kg_pos_after_up.simps report_failsafe Let_def)
qed

section \<open>Transitions\<close>

lemma apply_posture [simp]: "kg_posture (s_guard (kg_pos_apply_locked env t s)) = t"
  by (simp add: kg_pos_apply_locked_def Let_def kg_posture_def kg_mit_set_posture_def)

lemma set_posture_posture [simp]: "kg_posture (kg_mit_set_posture sha t g) = t"
  by (simp add: kg_posture_def kg_mit_set_posture_def Let_def)

lemma apply_guard: "s_guard (kg_pos_apply_locked env t s) = kg_mit_set_posture (e_sha env) t (s_guard s)"
  by (simp add: kg_pos_apply_locked_def Let_def)

lemma apply_pos [simp]:
  "pos_ready (s_pos (kg_pos_apply_locked env t s)) = pos_ready (s_pos s)"
  "pos_untrusted (s_pos (kg_pos_apply_locked env t s)) = pos_untrusted (s_pos s)"
  "pos_timer (s_pos (kg_pos_apply_locked env t s)) = pos_timer (s_pos s)"
  "pos_trigger_mono (s_pos (kg_pos_apply_locked env t s)) = pos_trigger_mono (s_pos s)"
  "length (pos_entered (s_pos (kg_pos_apply_locked env t s))) = length (pos_entered (s_pos s))"
  by (simp_all add: kg_pos_apply_locked_def Let_def)

lemma apply_bit [simp]:
  "failsafe_bit (s_stats (kg_pos_apply_locked env t s)) \<longleftrightarrow> t = KG_POSTURE_FAILSAFE \<and> failsafe_bit (s_stats s)"
  by (simp add: kg_pos_apply_locked_def Let_def failsafe_bit_def and.assoc)

lemma arm_frame [simp]:
  "s_guard (kg_pos_arm_decay_locked par s) = s_guard s" "s_stats (kg_pos_arm_decay_locked par s) = s_stats s"
  "pos_ready (s_pos (kg_pos_arm_decay_locked par s)) = pos_ready (s_pos s)"
  "pos_untrusted (s_pos (kg_pos_arm_decay_locked par s)) = pos_untrusted (s_pos s)"
  "pos_entered (s_pos (kg_pos_arm_decay_locked par s)) = pos_entered (s_pos s)"
  "pos_trigger_mono (s_pos (kg_pos_arm_decay_locked par s)) = pos_trigger_mono (s_pos s)"
  by (simp_all add: kg_pos_arm_decay_locked_def Let_def)

lemma posture_cap_less: "min t (posture_cap par) < KG_POSTURE_COUNT"
proof -
  have "min t (posture_cap par) \<le> KG_POSTURE_FAILSAFE" by (simp add: posture_cap_def min.coboundedI2)
  then show ?thesis by (rule order_le_less_trans) (simp add: kg_const)
qed

text \<open>The raise, as a whole: what it does to the posture, the trust flag and the fail-safe bit.\<close>

lemma raise_effect:
  assumes "pos_ready (s_pos s)" and t: "t = min target (posture_cap (e_par env))"
  shows "sys_posture (kg_posture_raise env target trigger s) = max (sys_posture s) t"
    and "s_guard (kg_posture_raise env target trigger s) =
           (if sys_posture s < t then kg_mit_set_posture (e_sha env) t (s_guard s) else s_guard s)"
    and "pos_untrusted (s_pos (kg_posture_raise env target trigger s)) \<longleftrightarrow>
           pos_untrusted (s_pos s) \<or> trigger = KG_ALERT_SHARED_STATE_CORRUPT"
    and "pos_ready (s_pos (kg_posture_raise env target trigger s))"
    and "length (pos_entered (s_pos (kg_posture_raise env target trigger s))) = length (pos_entered (s_pos s))"
    and "failsafe_bit (s_stats (kg_posture_raise env target trigger s)) \<longleftrightarrow>
           (if sys_posture s < t then t = KG_POSTURE_FAILSAFE else failsafe_bit (s_stats s))"
  using assms(1)
  by (auto simp: kg_posture_raise.simps raise_locked_def Let_def t [symmetric] apply_guard kg_posture_def
      max_def kg_mit_set_posture_def)

lemma raise_not_ready: "\<not> pos_ready (s_pos s) \<Longrightarrow> kg_posture_raise env target trigger s = s"
  by (simp add: kg_posture_raise.simps)

section \<open>The invariant of the core\<close>

text \<open>
  The guard is intact, every posture has its counter, and the fail-safe statistic tells the truth.
\<close>

definition sys_inv :: "sha_fn \<Rightarrow> kg_sys \<Rightarrow> bool" where
  "sys_inv sha s \<longleftrightarrow> guard_ok sha (s_guard s) \<and> length (pos_entered (s_pos s)) = 4 \<and>
     (failsafe_bit (s_stats s) \<longleftrightarrow> sys_posture s = KG_POSTURE_FAILSAFE)"

lemma sys_inv_quiet:
  "sha_total_fn sha \<Longrightarrow> quiet sha s s' \<Longrightarrow> sys_inv sha s \<Longrightarrow> sys_inv sha s'"
  by (auto simp: sys_inv_def quiet_def kg_posture_def intro: guard_steps_ok)

lemma guard_ok_set_posture:
  "sha_total_fn sha \<Longrightarrow> guard_ok sha g \<Longrightarrow> t < KG_POSTURE_COUNT \<Longrightarrow> guard_ok sha (kg_mit_set_posture sha t g)"
  by (rule guard_step_ok [OF _ guard_step.posture])

lemma sys_inv_raise:
  assumes "sha_total_fn (e_sha env)" and "sys_inv (e_sha env) s"
  shows "sys_inv (e_sha env) (kg_posture_raise env target trigger s)"
proof (cases "pos_ready (s_pos s)")
  case True
  note r = raise_effect [OF True refl, where env = env and target = target and trigger = trigger]
  show ?thesis
    using assms posture_cap_less [of target "e_par env"]
    by (auto simp: sys_inv_def r guard_ok_set_posture max_def)
next
  case False
  with assms show ?thesis by (simp add: raise_not_ready)
qed

lemma sys_inv_report:
  assumes "sha_total_fn (e_sha env)" and "sys_inv (e_sha env) s"
  shows "sys_inv (e_sha env) (kg_report env type level p1 p2 s)"
proof -
  have "quiet (e_sha env) s (dispatch_actions env type level p2 (deliver env type level p1 p2 s))"
    by (rule quiet_trans [OF _ quiet_dispatch_actions]) simp
  from sys_inv_quiet [OF assms(1) this assms(2)] show ?thesis
    by (simp add: kg_report.simps kg_dispatch.simps sys_inv_raise [OF assms(1)] split: option.split)
qed

lemma sys_inv_apply_low:
  assumes "sha_total_fn (e_sha env)" and "sys_inv (e_sha env) s" and "t < KG_POSTURE_COUNT"
  shows "guard_ok (e_sha env) (s_guard (kg_pos_apply_locked env t s)) \<and>
         length (pos_entered (s_pos (kg_pos_apply_locked env t s))) = 4"
  using assms by (simp add: sys_inv_def apply_guard guard_ok_set_posture)

lemma sys_inv_decay:
  assumes "sha_total_fn (e_sha env)" and "sys_inv (e_sha env) s"
  shows "sys_inv (e_sha env) (kg_pos_decay_fn env s)"
proof -
  let ?s = "upd_pos (\<lambda>p. p\<lparr>pos_timer := None\<rparr>) s"
  have "sys_inv (e_sha env) ?s" using assms(2) by (simp add: sys_inv_def)
  from sys_inv_apply_low [OF assms(1) this, of KG_POSTURE_NORMAL]
  have "sys_inv (e_sha env) (kg_pos_apply_locked env KG_POSTURE_NORMAL ?s)"
    by (simp add: sys_inv_def kg_const)
  then have "sys_inv (e_sha env) (kg_pos_announce env old new w tr (kg_pos_apply_locked env KG_POSTURE_NORMAL ?s))" for old new w tr
    by (rule sys_inv_quiet [OF assms(1) quiet_announce])
  with assms(2) show ?thesis
    by (simp add: kg_pos_decay_fn_def Let_def) (simp add: sys_inv_def)
qed

lemma sys_inv_set:
  assumes "sha_total_fn (e_sha env)" and "sys_inv (e_sha env) s"
  shows "sys_inv (e_sha env) (fst (kg_posture_set env t s))"
proof (cases "t < KG_POSTURE_COUNT \<and> t \<noteq> sys_posture s")
  case True
  define s1 where "s1 = kg_pos_arm_decay_locked (e_par env)
     (upd_pos (\<lambda>p. p\<lparr>pos_trigger_mono := e_mono env\<rparr>) (kg_pos_apply_locked env t s))"
  have "\<not> sys_posture s < t \<Longrightarrow> t \<noteq> KG_POSTURE_FAILSAFE"
  proof
    assume "\<not> sys_posture s < t" and "t = KG_POSTURE_FAILSAFE"
    with True have "KG_POSTURE_FAILSAFE < sys_posture s" by auto
    moreover have "sys_posture s < KG_POSTURE_COUNT"
      using assms(2) by (auto simp: sys_inv_def guard_ok_def policy_wf_def kg_posture_def elim: guard_wfE)
    ultimately show False by (simp add: kg_const word_less_nat_alt)
  qed
  then have "sys_inv (e_sha env) (if sys_posture s < t then kg_pos_after_up env t s1 else s1)"
    using sys_inv_apply_low [OF assms, of t] True by (auto simp: sys_inv_def s1_def)
  from sys_inv_quiet [OF assms(1) quiet_announce this] show ?thesis
    using assms(2) by (simp add: kg_posture_set_def Let_def s1_def [symmetric])
next
  case False
  with assms(2) show ?thesis by (auto simp: kg_posture_set_def Let_def not_less)
qed

lemma sys_inv_do:
  assumes "sha_total_fn (e_sha env)" and "sys_inv (e_sha env) s"
  shows "sys_inv (e_sha env) (sys_do env a s)"
proof (cases a)
  case (A_escalate cpu)
  then show ?thesis using sys_inv_quiet [OF assms(1) quiet_escalate assms(2)] by simp
next
  case (A_relax cpu)
  then show ?thesis
    using assms by (auto simp: sys_inv_def kg_posture_def intro: guard_step_ok guard_step.relax)
next
  case (A_online c cpu)
  then show ?thesis
    using assms by (auto simp: sys_inv_def kg_posture_def intro: guard_step_ok guard_step.online)
qed (use assms in \<open>simp_all add: sys_inv_report sys_inv_set sys_inv_decay\<close>)

lemma sys_inv_run:
  assumes "sha_total_fn sha" and "\<forall>(env, a) \<in> set acts. e_sha env = sha" and "sys_inv sha s"
  shows "sys_inv sha (sys_run acts s)"
  using assms(2,3)
proof (induction acts s rule: sys_run.induct)
  case (2 env a acts s)
  then show ?case using sys_inv_do [of env s a] assms(1) by auto
qed simp

section \<open>What moves the posture\<close>

lemma report_ready_frame:
  "quiet (e_sha env) s (dispatch_actions env type level p2 (deliver env type level p1 p2 s))"
  by (rule quiet_trans [OF _ quiet_dispatch_actions]) simp

lemma report_posture_eq:
  "sys_posture (kg_report env type level p1 p2 s) =
     (case dispatch_target type level of
        Some t \<Rightarrow> if pos_ready (s_pos s) then max (sys_posture s) (min t (posture_cap (e_par env))) else sys_posture s
      | None \<Rightarrow> sys_posture s)"
proof -
  note q = report_ready_frame [of env s type level p2 p1]
  note f = quiet_posture [OF q]
  have r: "s_pos (dispatch_actions env type level p2 (deliver env type level p1 p2 s)) = s_pos s"
    using q by (simp add: quiet_def)
  show ?thesis
    by (simp add: kg_report.simps kg_dispatch.simps f r raise_effect(1) [OF _ refl] raise_not_ready split: option.split)
qed

lemma report_untrusted:
  "pos_untrusted (s_pos s) \<Longrightarrow> pos_untrusted (s_pos (kg_report env type level p1 p2 s))"
proof -
  assume u: "pos_untrusted (s_pos s)"
  have r: "s_pos (dispatch_actions env type level p2 (deliver env type level p1 p2 s)) = s_pos s"
    using report_ready_frame [of env s type level p2 p1] by (simp add: quiet_def)
  show ?thesis
    using u by (cases "pos_ready (s_pos s)")
      (simp_all add: kg_report.simps kg_dispatch.simps r raise_effect(3) [OF _ refl] raise_not_ready split: option.split)
qed

lemma report_not_lower: "sys_posture s \<le> sys_posture (kg_report env type level p1 p2 s)"
  by (simp add: report_posture_eq split: option.split)

lemma announce_posture [simp]: "sys_posture (kg_pos_announce env old new w tr s) = sys_posture s"
  using quiet_posture [OF quiet_announce] by blast

lemma announce_pos [simp]: "s_pos (kg_pos_announce env old new w tr s) = s_pos s"
  using quiet_announce [of undefined s env old new w tr] by (simp add: quiet_def)

lemma decay_posture_eq:
  "sys_posture (kg_pos_decay_fn env s) =
     (if pos_ready (s_pos s) \<and> kg_pos_decay_s (e_par env) \<noteq> 0 \<and> sys_posture s = KG_POSTURE_ELEVATED \<and>
         decay_due (e_par env) (s_pos s) \<le> e_mono env then KG_POSTURE_NORMAL else sys_posture s)"
  by (simp add: kg_pos_decay_fn_def Let_def decay_due_def)

lemma set_posture_eq:
  "sys_posture (fst (kg_posture_set env t s)) = (if snd (kg_posture_set env t s) = None then t else sys_posture s)"
  by (simp add: kg_posture_set_def Let_def)

lemma set_untrusted:
  "pos_untrusted (s_pos (fst (kg_posture_set env t s))) = pos_untrusted (s_pos s)"
  by (simp add: kg_posture_set_def Let_def)

lemma decay_untrusted: "pos_untrusted (s_pos (kg_pos_decay_fn env s)) = pos_untrusted (s_pos s)"
  by (simp add: kg_pos_decay_fn_def Let_def)

lemma posture_frame_do [simp]:
  "sys_posture (escalate_cpu env cpu s) = sys_posture s"
  "kg_posture (kg_mit_relax_cpu sha cpu g) = kg_posture g"
  "kg_posture (kg_mit_cpu_online sha c n g) = kg_posture g"
  by (simp_all add: escalate_cpu_def kg_posture_def)

lemma escalate_pos [simp]: "s_pos (escalate_cpu env cpu s) = s_pos s"
  by (simp add: escalate_cpu_def)

lemma high_above_elevated: "\<not> KG_POSTURE_HIGH \<le> KG_POSTURE_ELEVATED"
  by (simp add: kg_const word_le_nat_alt)

text \<open>The latch: with the policy state untrusted, HIGH and above is never left.\<close>

definition latched :: "kg_sys \<Rightarrow> bool" where
  "latched s \<longleftrightarrow> pos_untrusted (s_pos s) \<and> KG_POSTURE_HIGH \<le> sys_posture s"

lemma latched_do: "latched s \<Longrightarrow> latched (sys_do env a s)"
proof (cases a)
  case (A_report type level p1 p2)
  assume "latched s"
  then show ?thesis
    using A_report report_not_lower [of s env type level p1 p2]
    by (auto simp: latched_def report_untrusted intro: order_trans)
next
  case (A_set t)
  assume l: "latched s"
  show ?thesis
  proof (cases "snd (kg_posture_set env t s) = None")
    case True
    then have "\<not> t < sys_posture s"
      using l by (auto simp: latched_def kg_posture_set_def Let_def split: if_splits)
    with l A_set True show ?thesis
      by (auto simp: latched_def set_posture_eq set_untrusted not_less)
  next
    case False
    with l A_set show ?thesis by (auto simp: latched_def set_posture_eq set_untrusted)
  qed
next
  case A_decay
  assume "latched s"
  then show ?thesis
    using A_decay by (auto simp: latched_def decay_posture_eq decay_untrusted high_above_elevated)
qed (simp_all add: latched_def)

lemma latched_run: "latched s \<Longrightarrow> latched (sys_run acts s)"
  by (induction acts s rule: sys_run.induct) (simp_all add: latched_do)

section \<open>The decay timer\<close>

text \<open>While ELEVATED with decay switched on, the quiet-period timer is pending.\<close>

definition armed :: "kg_sys \<Rightarrow> bool" where
  "armed s \<longleftrightarrow> pos_ready (s_pos s) \<and> (sys_posture s = KG_POSTURE_ELEVATED \<longrightarrow> pos_timer (s_pos s) \<noteq> None)"

lemma arm_armed:
  "kg_pos_decay_s par \<noteq> 0 \<Longrightarrow> pos_ready (s_pos s) \<Longrightarrow> armed (kg_pos_arm_decay_locked par s)"
  by (simp add: armed_def kg_pos_arm_decay_locked_def Let_def)

lemma armed_quiet: "quiet sha s s' \<Longrightarrow> armed s' = armed s"
  by (simp add: armed_def quiet_def kg_posture_def)

lemma armed_after_up [simp]: "armed (kg_pos_after_up env t s) = armed s"
  by (simp add: armed_def)

lemma armed_raise:
  "kg_pos_decay_s (e_par env) \<noteq> 0 \<Longrightarrow> armed s \<Longrightarrow> armed (kg_posture_raise env target trigger s)"
  by (simp add: kg_posture_raise.simps raise_locked_def Let_def arm_armed)

lemma armed_do:
  assumes "kg_pos_decay_s (e_par env) \<noteq> 0" and "armed s"
  shows "armed (sys_do env a s)"
proof (cases a)
  case (A_report type level p1 p2)
  have "armed (dispatch_actions env type level p2 (deliver env type level p1 p2 s))"
    using armed_quiet [OF report_ready_frame] assms(2) by blast
  then show ?thesis
    using A_report assms(1) by (simp add: kg_report.simps kg_dispatch.simps armed_raise split: option.split)
next
  case (A_set t)
  then show ?thesis
    using assms armed_quiet [OF quiet_announce]
    by (auto simp: kg_posture_set_def Let_def armed_def kg_pos_arm_decay_locked_def)
next
  case A_decay
  then show ?thesis
    using assms armed_quiet [OF quiet_announce] 
    by (auto simp: kg_pos_decay_fn_def Let_def) (simp_all add: armed_def kg_const)
qed (use assms in \<open>simp_all add: armed_def\<close>)

lemma armed_run:
  "\<forall>(env, a) \<in> set acts. kg_pos_decay_s (e_par env) \<noteq> 0 \<Longrightarrow> armed s \<Longrightarrow> armed (sys_run acts s)"
  by (induction acts s rule: sys_run.induct) (auto simp: armed_do)

section \<open>What an alert makes visible\<close>

definition ipi_ops :: "kg_cpu_mit \<Rightarrow> hw_op list" where
  "ipi_ops m = strategy_ops m @
     (if m_strategy m = KG_STRAT_FULL \<and> m_features m AND KG_FEAT_IBPB \<noteq> 0 then [Ibpb] else [])"

lemma ipi_on_trace: "g_cpu g = Some cs \<Longrightarrow> snd (ipi_on cpu g st) = [(cpu, ipi_ops (cs ! cpu))]"
  by (simp add: ipi_on_def kg_flush_ipi_def kg_boundary_flush_def Let_def ipi_ops_def)

lemma flush_each_trace:
  "g_cpu g = Some cs \<Longrightarrow> snd (flush_each cpus g st) = map (\<lambda>cpu. (cpu, ipi_ops (cs ! cpu))) cpus"
proof (induction cpus arbitrary: st)
  case (Cons cpu cpus)
  then show ?case
    using ipi_on_trace [of g cs cpu st] by (auto simp: Let_def split: prod.splits) (metis snd_conv)
qed simp

lemma flush_all_trace:
  "g_cpu (s_guard s) = Some cs \<Longrightarrow>
   s_trace (flush_all env s) = s_trace s @ map (\<lambda>cpu. Ev_flush cpu (ipi_ops (cs ! cpu))) (tp_online (e_topo env))"
  using flush_each_trace [of "s_guard s" cs "tp_online (e_topo env)" "s_stats s"]
  by (auto simp: flush_all_def kg_mit_flush_all_def ev_flushes_def Let_def split: prod.splits)

lemma deliver_trace:
  "\<exists>r evs. s_trace (deliver env type level p1 p2 s) = s_trace s @ Ev_notify type level p1 p2 r # evs"
  by (auto simp: deliver_def Let_def split: prod.splits)

lemma dispatch_actions_trace: "\<exists>evs. s_trace (dispatch_actions env type level p2 s) = s_trace s @ evs"
  by (auto simp: dispatch_actions_def Let_def flush_cpu_def flush_siblings_def escalate_cpu_def split: prod.splits)

lemma raise_locked_trace: "s_trace (fst (raise_locked env t tr s)) = s_trace s"
  by (simp add: raise_locked_def Let_def kg_pos_arm_decay_locked_def kg_pos_apply_locked_def)

lemma after_up_appends: "\<exists>evs. s_trace (kg_pos_after_up env t s) = s_trace s @ evs"
  by (auto simp: kg_pos_after_up.simps report_failsafe flush_all_def deliver_def Let_def split: prod.splits)

lemma raise_appends: "\<exists>evs. s_trace (kg_posture_raise env t tr s) = s_trace s @ evs"
proof (cases "pos_ready (s_pos s)")
  case True
  let ?t = "min t (posture_cap (e_par env))"
  obtain s' up where r: "raise_locked env ?t tr s = (s', up)" by fastforce
  have e: "s_trace s' = s_trace s" using raise_locked_trace [of env ?t tr s] by (simp add: r)
  obtain evs where "s_trace (kg_pos_after_up env ?t s') = s_trace s' @ evs" using after_up_appends by blast
  with r e True show ?thesis by (cases up) (simp_all add: kg_posture_raise.simps)
qed (simp add: raise_not_ready)

text \<open>Whatever an alert leads to, its delivery comes first and nothing already recorded is lost.\<close>

lemma report_delivers_first:
  "\<exists>r evs. s_trace (kg_report env type level p1 p2 s) = s_trace s @ Ev_notify type level p1 p2 r # evs"
proof -
  let ?d = "deliver env type level p1 p2 s"
  let ?a = "dispatch_actions env type level p2 ?d"
  obtain r e1 where e1: "s_trace ?d = s_trace s @ Ev_notify type level p1 p2 r # e1" using deliver_trace by blast
  obtain e2 where e2: "s_trace ?a = s_trace ?d @ e2" using dispatch_actions_trace by blast
  have "\<exists>e3. s_trace (kg_report env type level p1 p2 s) = s_trace ?a @ e3"
    by (cases "dispatch_target type level") (simp_all add: kg_report.simps kg_dispatch.simps raise_appends)
  with e1 e2 show ?thesis by auto
qed

lemma posture_high_cases:
  "KG_POSTURE_HIGH \<le> t \<Longrightarrow> t < KG_POSTURE_COUNT \<Longrightarrow> t = KG_POSTURE_HIGH \<or> t = KG_POSTURE_FAILSAFE"
proof -
  assume "KG_POSTURE_HIGH \<le> t" and "t < KG_POSTURE_COUNT"
  then have "unat t = 2 \<or> unat t = 3" by (auto simp: kg_const word_le_nat_alt word_less_nat_alt)
  then show ?thesis by (auto simp: kg_const word_unat_eq_iff)
qed

lemma after_up_trace:
  assumes "g_cpu (s_guard s) = Some cs" and "t < KG_POSTURE_COUNT"
  obtains evs where "s_trace (kg_pos_after_up env t s) = s_trace s @ evs"
    "KG_POSTURE_HIGH \<le> t \<Longrightarrow> \<forall>cpu \<in> set (tp_online (e_topo env)). Ev_flush cpu (ipi_ops (cs ! cpu)) \<in> set evs"
    "t = KG_POSTURE_FAILSAFE \<Longrightarrow> \<exists>r. Ev_notify KG_ALERT_FAIL_SAFE_ENTERED KG_LEVEL_CRITICAL 0 0 r \<in> set evs"
proof -
  let ?s = "s\<lparr>s_stats := (s_stats s)\<lparr>active_mitigation_flags := active_mitigation_flags (s_stats s) OR KG_MIT_FAIL_SAFE\<rparr>\<rparr>"
  let ?fl = "map (\<lambda>cpu. Ev_flush cpu (ipi_ops (cs ! cpu))) (tp_online (e_topo env))"
  obtain r evs where d: "s_trace (deliver env KG_ALERT_FAIL_SAFE_ENTERED KG_LEVEL_CRITICAL 0 0 (flush_all env ?s)) =
      s_trace (flush_all env ?s) @ Ev_notify KG_ALERT_FAIL_SAFE_ENTERED KG_LEVEL_CRITICAL 0 0 r # evs"
    using deliver_trace by blast
  note fl = flush_all_trace [of s cs env] flush_all_trace [of ?s cs env]
  have ne: "KG_POSTURE_HIGH \<noteq> KG_POSTURE_FAILSAFE" by (simp add: kg_const)
  consider "t = KG_POSTURE_FAILSAFE" | "t = KG_POSTURE_HIGH" | "\<not> KG_POSTURE_HIGH \<le> t" "t \<noteq> KG_POSTURE_FAILSAFE"
    using posture_high_cases [OF _ assms(2)] by (auto simp: kg_const)
  then show thesis
  proof cases
    case 1
    then show ?thesis using d fl assms(1) ne
      by (intro that) (auto simp: kg_pos_after_up.simps report_failsafe Let_def)
  next
    case 2
    then show ?thesis using fl assms(1) ne
      by (intro that) (auto simp: kg_pos_after_up.simps Let_def)
  next
    case 3
    then have "t \<noteq> KG_POSTURE_HIGH" by auto
    with 3 show ?thesis by (intro that) (auto simp: kg_pos_after_up.simps Let_def)
  qed
qed

lemma raise_trace:
  assumes "guard_wf (s_guard s)" and "pos_ready (s_pos s)" and t: "t = min target (posture_cap (e_par env))"
  obtains evs where "s_trace (kg_posture_raise env target trigger s) = s_trace s @ evs"
    "sys_posture s < t \<Longrightarrow> KG_POSTURE_HIGH \<le> t \<Longrightarrow>
       \<forall>cpu \<in> set (tp_online (e_topo env)). int cpu < ncpu_int (s_guard s) \<longrightarrow>
         (\<exists>ops. Ev_flush cpu ops \<in> set evs \<and> Verw \<in> set ops)"
    "sys_posture s < t \<Longrightarrow> t = KG_POSTURE_FAILSAFE \<Longrightarrow>
       \<exists>r. Ev_notify KG_ALERT_FAIL_SAFE_ENTERED KG_LEVEL_CRITICAL 0 0 r \<in> set evs"
proof (cases "sys_posture s < t")
  case False
  then show ?thesis
    using assms(2) raise_locked_trace [of env t trigger s]
    by (intro that [of "[]"]) (auto simp: kg_posture_raise.simps raise_locked_def Let_def t [symmetric])
next
  case True
  define s1 where "s1 = fst (raise_locked env t trigger s)"
  have eq: "kg_posture_raise env target trigger s = kg_pos_after_up env t s1"
    using True assms(2) by (simp add: kg_posture_raise.simps s1_def raise_locked_def Let_def t [symmetric])
  have g1: "s_guard s1 = kg_mit_set_posture (e_sha env) t (s_guard s)"
    using True by (simp add: s1_def raise_locked_def Let_def apply_guard)
  have tc: "t < KG_POSTURE_COUNT" unfolding t by (rule posture_cap_less)
  have "guard_wf (s_guard s1)" unfolding g1 by (rule kg_mit_set_posture_wf [OF assms(1) tc])
  then obtain cs where cs: "g_cpu (s_guard s1) = Some cs" and wf: "policy_wf (g_hdr (s_guard s1)) cs"
    by (rule guard_wfE)
  have h: "h_posture (g_hdr (s_guard s1)) = t" "h_ncpu (g_hdr (s_guard s1)) = h_ncpu (g_hdr (s_guard s))"
    by (simp_all add: g1 kg_mit_set_posture_def Let_def)
  have full: "Verw \<in> set (ipi_ops (cs ! cpu))" if "KG_POSTURE_HIGH \<le> t" "int cpu < ncpu_int (s_guard s)" for cpu
    using wf h that by (auto simp: policy_wf_def ipi_ops_def strategy_ops_def Let_def kg_const)
  show ?thesis
    by (rule after_up_trace [OF cs tc, of env], rule that)
      (use full in \<open>auto simp: eq s1_def raise_locked_trace\<close>)
qed

section \<open>Reports only add\<close>

text \<open>What holds between the state before and after any number of reports: nothing recorded is lost, the posture
  never sinks.\<close>

definition later :: "kg_sys \<Rightarrow> kg_sys \<Rightarrow> bool" where
  "later s s' \<longleftrightarrow> (\<exists>evs. s_trace s' = s_trace s @ evs) \<and> sys_posture s \<le> sys_posture s' \<and>
     pos_ready (s_pos s') = pos_ready (s_pos s)"

lemma later_refl [simp]: "later s s"
  by (simp add: later_def)

lemma later_trans: "later s s' \<Longrightarrow> later s' s'' \<Longrightarrow> later s s''"
  by (auto simp: later_def)

lemma later_stats [simp]: "later s (s'\<lparr>s_stats := st\<rparr>) = later s s'" "later (s\<lparr>s_stats := st\<rparr>) s' = later s s'"
  by (simp_all add: later_def)

lemma report_pos_ready: "pos_ready (s_pos (kg_report env type level p1 p2 s)) = pos_ready (s_pos s)"
proof -
  have r: "s_pos (dispatch_actions env type level p2 (deliver env type level p1 p2 s)) = s_pos s"
    using report_ready_frame [of env s type level p2 p1] by (simp add: quiet_def)
  show ?thesis
    by (cases "pos_ready (s_pos s)")
      (simp_all add: kg_report.simps kg_dispatch.simps r raise_effect [OF _ refl] raise_not_ready split: option.split)
qed

lemma later_report: "later s (kg_report env type level p1 p2 s)"
  using report_delivers_first [of env type level p1 p2 s]
  by (auto simp: later_def report_pos_ready report_not_lower)

text \<open>The alerts of some types in a record of events, in order.\<close>

fun alert_in :: "u32 set \<Rightarrow> kg_ev \<Rightarrow> (u32 \<times> u32 \<times> u64 \<times> u64) option" where
  "alert_in T (Ev_notify type level p1 p2 r) = (if type \<in> T then Some (type, level, p1, p2) else None)"
| "alert_in T _ = None"

definition notes_of :: "u32 set \<Rightarrow> kg_sys \<Rightarrow> (u32 \<times> u32 \<times> u64 \<times> u64) list" where
  "notes_of T s = List.map_filter (alert_in T) (s_trace s)"

lemma map_filter_append: "List.map_filter f (xs @ ys) = List.map_filter f xs @ List.map_filter f ys"
  by (induction xs) (auto simp: map_filter_def)

lemma map_filter_none: "(\<And>x. x \<in> set xs \<Longrightarrow> f x = None) \<Longrightarrow> List.map_filter f xs = []"
  by (induction xs) (auto simp: map_filter_def)

lemma notes_of_stats [simp]:
  "notes_of T (s\<lparr>s_stats := st\<rparr>) = notes_of T s" "notes_of T (s\<lparr>s_guard := g\<rparr>) = notes_of T s"
  "notes_of T (s\<lparr>s_pos := q\<rparr>) = notes_of T s" "notes_of T (s\<lparr>s_comms := k\<rparr>) = notes_of T s"
  by (simp_all add: notes_of_def)

lemma notes_of_emit: "notes_of T (emit evs s) = notes_of T s @ List.map_filter (alert_in T) evs"
  by (simp add: notes_of_def emit_def map_filter_append)

lemma notes_of_trace: "s_trace s' = s_trace s \<Longrightarrow> notes_of T s' = notes_of T s"
  by (simp add: notes_of_def)

lemma alert_in_flushes [simp]: "List.map_filter (alert_in T) (ev_flushes t) = []"
  by (rule map_filter_none) (auto simp: ev_flushes_def)

lemma alert_in_comms [simp]: "List.map_filter (alert_in T) (map Ev_comms evs) = []"
  by (rule map_filter_none) auto

lemma map_filter_Cons': "List.map_filter f (x # xs) = (case f x of Some y \<Rightarrow> [y] | None \<Rightarrow> []) @ List.map_filter f xs"
  by (auto simp: map_filter_def split: option.split)

lemma notes_of_deliver:
  "notes_of T (deliver env type level p1 p2 s) = notes_of T s @ (if type \<in> T then [(type, level, p1, p2)] else [])"
  by (auto simp: deliver_def Let_def notes_of_emit map_filter_Cons' split: prod.split)

lemma notes_of_flush_all [simp]: "notes_of T (flush_all env s) = notes_of T s"
  by (auto simp: flush_all_def notes_of_emit split: prod.split)

lemma notes_of_actions [simp]: "notes_of T (dispatch_actions env type level p2 s) = notes_of T s"
  by (auto simp: dispatch_actions_def Let_def flush_cpu_def flush_siblings_def escalate_cpu_def notes_of_emit
      map_filter_Cons' split: prod.split)

lemma notes_of_after_up:
  "KG_ALERT_FAIL_SAFE_ENTERED \<notin> T \<Longrightarrow> notes_of T (kg_pos_after_up env t s) = notes_of T s"
  by (auto simp: kg_pos_after_up.simps Let_def report_failsafe notes_of_emit notes_of_deliver map_filter_Cons' map_filter_append)

lemma notes_of_raise:
  assumes "KG_ALERT_FAIL_SAFE_ENTERED \<notin> T"
  shows "notes_of T (kg_posture_raise env t tr s) = notes_of T s"
proof (cases "pos_ready (s_pos s)")
  case True
  let ?t = "min t (posture_cap (e_par env))"
  obtain s' up where r: "raise_locked env ?t tr s = (s', up)" by fastforce
  have "notes_of T s' = notes_of T s"
    using raise_locked_trace [of env ?t tr s] r by (auto intro: notes_of_trace)
  with r True assms show ?thesis by (cases up) (simp_all add: kg_posture_raise.simps notes_of_after_up)
qed (simp add: raise_not_ready)

text \<open>A report puts its own alert on record and, at most, that of entering fail-safe.\<close>

lemma notes_of_report:
  "KG_ALERT_FAIL_SAFE_ENTERED \<notin> T \<Longrightarrow> notes_of T (kg_report env type level p1 p2 s) =
     notes_of T s @ (if type \<in> T then [(type, level, p1, p2)] else [])"
  by (simp add: kg_report.simps kg_dispatch.simps notes_of_raise notes_of_deliver split: option.split)

section \<open>Properties\<close>

definition example_par :: kg_params where
  "example_par = \<lparr>par_enforce = False, par_auto_enforce = True, par_max_posture = 3, par_posture_decay_s = 600,
     par_hw_interval_ms = 5000, par_integ_interval_ms = 30000\<rparr>"

definition example_env :: "u64 \<Rightarrow> kg_env" where
  "example_env now = \<lparr>e_sha = Inr, e_mac = hmac_mac, e_real = now, e_mono = now,
     e_topo = \<lparr>tp_nr = 2, tp_online = [0, 1], tp_siblings = (\<lambda>_. [0, 1])\<rparr>, e_this_cpu = 0, e_par = example_par\<rparr>"

definition example_sys :: kg_sys where
  "example_sys = kg_posture_init (example_env 1) \<lparr>s_guard = example_guard Inr, s_stats = zero_stats,
     s_pos = \<lparr>pos_ready = False, pos_untrusted = False, pos_since_ns = 0, pos_trigger_ns = 0,
       pos_trigger_mono = 0, pos_trigger = 0, pos_entered = [], pos_timer = None\<rparr>,
     s_comms = Some example_comms, s_trace = []\<rparr>"

lemma example_sha: "sha_total_fn Inr"
  by (simp add: sha_total_fn_def)

lemma example_env_simps [simp]:
  "e_sha (example_env now) = Inr" "e_par (example_env now) = example_par" "e_mono (example_env now) = now"
  "e_topo (example_env now) = \<lparr>tp_nr = 2, tp_online = [0, 1], tp_siblings = (\<lambda>_. [0, 1])\<rparr>"
  by (simp_all add: example_env_def)

lemma example_sys_simps [simp]:
  "s_guard example_sys = example_guard Inr" "pos_ready (s_pos example_sys)" "s_trace example_sys = []"
  "pos_untrusted (s_pos example_sys) = False" "pos_timer (s_pos example_sys) = None"
  by (simp_all add: example_sys_def kg_posture_init_def)

lemma example_guard_posture [simp]: "kg_posture (example_guard sha) = KG_POSTURE_NORMAL"
  by (simp add: example_guard_def kg_posture_def kg_const)

lemma example_guard_wf: "guard_wf (example_guard sha)"
  by (simp add: example_guard_def guard_wf_def policy_wf_def kg_const)

lemma example_sys_inv: "sys_inv Inr example_sys"
  using example_guard_wf [of Inr] example_guard_verifies [OF example_sha]
  by (simp add: sys_inv_def guard_ok_def example_sys_def kg_posture_init_def)
    (simp add: failsafe_bit_def zero_stats_def kg_const)

text \<open>
  C1. Every alert moves the posture exactly as the routing table says: to the requested rung, bounded by
  \<open>max_posture\<close> and FAILSAFE, and never down; an alert the table does not mention, and any alert before
  the ladder is initialised, leaves it alone.
\<close>

theorem report_posture:
  "sys_posture (kg_report env type level p1 p2 s) =
     (case dispatch_target type level of
        Some t \<Rightarrow> if pos_ready (s_pos s) then max (sys_posture s) (min t (min (par_max_posture (e_par env)) KG_POSTURE_FAILSAFE))
                  else sys_posture s
      | None \<Rightarrow> sys_posture s)"
  unfolding posture_cap_def [symmetric] by (rule report_posture_eq)

text \<open>
  No automatic lowering above ELEVATED: if any operation on the core (an alert, the decay worker, the PMU
  sampler's escalate and relax, CPU hot-plug) leaves the posture lower than it found it, then either
  it was the operator's request for exactly that posture, or it was the decay worker taking ELEVATED
  to NORMAL after the configured quiet period since the last trigger.
\<close>

theorem posture_lowered_only_by:
  assumes "sys_posture (sys_do env a s) < sys_posture s"
  shows "(\<exists>t. a = A_set t \<and> sys_posture (sys_do env a s) = t \<and> snd (kg_posture_set env t s) = None) \<or>
         (a = A_decay \<and> sys_posture s = KG_POSTURE_ELEVATED \<and> sys_posture (sys_do env a s) = KG_POSTURE_NORMAL \<and>
          kg_pos_decay_s (e_par env) \<noteq> 0 \<and>
          pos_trigger_mono (s_pos s) + ucast (kg_pos_decay_s (e_par env)) * 1000000000 \<le> e_mono env)"
proof (cases a)
  case (A_report type level p1 p2)
  then show ?thesis using assms report_not_lower [of s env type level p1 p2] by simp
next
  case (A_set t)
  then show ?thesis using assms by (auto simp: set_posture_eq split: if_splits)
next
  case A_decay
  then show ?thesis using assms by (auto simp: decay_posture_eq decay_due_def split: if_splits)
qed (use assms in simp_all)

theorem posture_lowered_only_by_witness:
  "sys_posture (sys_do (example_env 5) (A_set KG_POSTURE_NORMAL) (sys_do (example_env 2) (A_set KG_POSTURE_HIGH) example_sys)) <
     sys_posture (sys_do (example_env 2) (A_set KG_POSTURE_HIGH) example_sys) \<and>
   (\<exists>t. A_set KG_POSTURE_NORMAL = A_set t)"
proof -
  let ?s = "sys_do (example_env 2) (A_set KG_POSTURE_HIGH) example_sys"
  have h: "sys_posture ?s = KG_POSTURE_HIGH" "pos_ready (s_pos ?s)" "\<not> pos_untrusted (s_pos ?s)"
    by (simp_all add: kg_posture_set_def Let_def kg_const)
  then have n: "sys_posture (sys_do (example_env 5) (A_set KG_POSTURE_NORMAL) ?s) < sys_posture ?s"
    by (simp add: set_posture_eq kg_posture_set_def Let_def kg_const)
  from posture_lowered_only_by [OF n] n show ?thesis by auto
qed

text \<open>
  C2. Corruption of the policy state latches the response: once a state-corruption alert has marked the
  state untrusted and the posture is HIGH or FAILSAFE, no sequence of alerts, operator requests, decay runs and
  sampler or hot-plug activity brings it below HIGH again.
\<close>

theorem untrusted_latch:
  assumes "pos_untrusted (s_pos s)" and "KG_POSTURE_HIGH \<le> sys_posture s"
  shows "KG_POSTURE_HIGH \<le> sys_posture (sys_run acts s) \<and> pos_untrusted (s_pos (sys_run acts s))"
  using latched_run [of s acts] assms by (simp add: latched_def)

theorem untrusted_latch_witness:
  "let s = kg_report (example_env 2) KG_ALERT_SHARED_STATE_CORRUPT KG_LEVEL_CRITICAL 0 0 example_sys
   in KG_POSTURE_HIGH \<le> sys_posture (sys_run [(example_env 9, A_set KG_POSTURE_NORMAL), (example_env 10, A_decay)] s)"
proof -
  let ?s = "kg_report (example_env 2) KG_ALERT_SHARED_STATE_CORRUPT KG_LEVEL_CRITICAL 0 0 example_sys"
  let ?d = "deliver (example_env 2) KG_ALERT_SHARED_STATE_CORRUPT KG_LEVEL_CRITICAL 0 0 example_sys"
  have t: "dispatch_target KG_ALERT_SHARED_STATE_CORRUPT KG_LEVEL_CRITICAL = Some KG_POSTURE_FAILSAFE"
    by (simp add: dispatch_target_def kg_const)
  have e: "?s = kg_posture_raise (example_env 2) KG_POSTURE_FAILSAFE KG_ALERT_SHARED_STATE_CORRUPT ?d"
    by (simp add: kg_report.simps kg_dispatch.simps t) (simp add: dispatch_actions_def kg_const)
  have "pos_untrusted (s_pos ?s)"
    unfolding e by (subst raise_effect(3) [OF _ refl]) simp_all
  moreover have "KG_POSTURE_HIGH \<le> sys_posture ?s"
    by (simp add: report_posture_eq t) (simp add: posture_cap_def example_par_def kg_const)
  ultimately show ?thesis
    unfolding Let_def by (rule untrusted_latch [THEN conjunct1])
qed



text \<open>
  What an alert makes visible, in order: the alert itself is delivered before any reaction to it; if it
  takes the posture up to HIGH or FAILSAFE, every online CPU is flushed with VERW, and if it enters
  fail-safe a critical FAIL_SAFE_ENTERED notification follows.
\<close>

theorem report_visible_effects:
  assumes "guard_wf (s_guard s)" and "\<forall>cpu \<in> set (tp_online (e_topo env)). int cpu < ncpu_int (s_guard s)"
  shows "\<exists>r evs. s_trace (kg_report env type level p1 p2 s) = s_trace s @ Ev_notify type level p1 p2 r # evs \<and>
    (sys_posture s < sys_posture (kg_report env type level p1 p2 s) \<and>
       KG_POSTURE_HIGH \<le> sys_posture (kg_report env type level p1 p2 s) \<longrightarrow>
     (\<forall>cpu \<in> set (tp_online (e_topo env)). \<exists>ops. Ev_flush cpu ops \<in> set evs \<and> Verw \<in> set ops)) \<and>
    (sys_posture s < sys_posture (kg_report env type level p1 p2 s) \<and>
       sys_posture (kg_report env type level p1 p2 s) = KG_POSTURE_FAILSAFE \<longrightarrow>
     (\<exists>r'. Ev_notify KG_ALERT_FAIL_SAFE_ENTERED KG_LEVEL_CRITICAL 0 0 r' \<in> set evs))"
proof -
  define d where "d = dispatch_actions env type level p2 (deliver env type level p1 p2 s)"
  obtain r e1 where e1: "s_trace (deliver env type level p1 p2 s) = s_trace s @ Ev_notify type level p1 p2 r # e1"
    using deliver_trace by blast
  obtain e2 where e2: "s_trace d = s_trace (deliver env type level p1 p2 s) @ e2"
    using dispatch_actions_trace d_def by blast
  have q: "quiet (e_sha env) s d" unfolding d_def by (rule report_ready_frame)
  have wf: "guard_wf (s_guard d)" and h: "ncpu_int (s_guard d) = ncpu_int (s_guard s)" and p: "sys_posture d = sys_posture s"
    using q guard_steps_wf [OF _ assms(1)] by (auto simp: quiet_def kg_posture_def)
  consider (none) "dispatch_target type level = None" | (idle) t where "dispatch_target type level = Some t" "\<not> pos_ready (s_pos d)"
    | (raise) t where "dispatch_target type level = Some t" "pos_ready (s_pos d)"
    by (cases "dispatch_target type level") auto
  then show ?thesis
  proof cases
    case none
    then have "kg_report env type level p1 p2 s = d" by (simp add: kg_report.simps kg_dispatch.simps d_def)
    with e1 e2 p show ?thesis by simp
  next
    case (idle t)
    then have "kg_report env type level p1 p2 s = d"
      by (simp add: kg_report.simps kg_dispatch.simps d_def [symmetric] raise_not_ready)
    with e1 e2 p show ?thesis by simp
  next
    case (raise t)
    have eq: "kg_report env type level p1 p2 s = kg_posture_raise env t type d"
      using raise(1) by (simp add: kg_report.simps kg_dispatch.simps d_def)
    let ?t = "min t (posture_cap (e_par env))"
    have pp: "sys_posture (kg_report env type level p1 p2 s) = max (sys_posture s) ?t"
      unfolding eq raise_effect(1) [OF raise(2) refl] p ..
    obtain e3 where e3: "s_trace (kg_posture_raise env t type d) = s_trace d @ e3"
      and fl: "sys_posture d < ?t \<Longrightarrow> KG_POSTURE_HIGH \<le> ?t \<Longrightarrow>
       \<forall>cpu \<in> set (tp_online (e_topo env)). int cpu < ncpu_int (s_guard d) \<longrightarrow>
         (\<exists>ops. Ev_flush cpu ops \<in> set e3 \<and> Verw \<in> set ops)"
      and fs: "sys_posture d < ?t \<Longrightarrow> ?t = KG_POSTURE_FAILSAFE \<Longrightarrow>
       \<exists>r. Ev_notify KG_ALERT_FAIL_SAFE_ENTERED KG_LEVEL_CRITICAL 0 0 r \<in> set e3"
      using raise_trace [OF wf raise(2) refl] by blast
    have up: "sys_posture s < ?t \<and> sys_posture (kg_report env type level p1 p2 s) = ?t"
      if "sys_posture s < sys_posture (kg_report env type level p1 p2 s)"
      using that unfolding pp by (auto simp: max_def split: if_splits)
    have tr: "s_trace (kg_report env type level p1 p2 s) = s_trace s @ Ev_notify type level p1 p2 r # e1 @ e2 @ e3"
      using e1 e2 e3 by (simp add: eq)
    have "\<exists>ops. Ev_flush cpu ops \<in> set (e1 @ e2 @ e3) \<and> Verw \<in> set ops"
      if "sys_posture s < sys_posture (kg_report env type level p1 p2 s)"
        "KG_POSTURE_HIGH \<le> sys_posture (kg_report env type level p1 p2 s)" "cpu \<in> set (tp_online (e_topo env))" for cpu
      using fl that(2,3) up [OF that(1)] assms(2) unfolding p h by auto
    moreover have "\<exists>r'. Ev_notify KG_ALERT_FAIL_SAFE_ENTERED KG_LEVEL_CRITICAL 0 0 r' \<in> set (e1 @ e2 @ e3)"
      if "sys_posture s < sys_posture (kg_report env type level p1 p2 s)"
        "sys_posture (kg_report env type level p1 p2 s) = KG_POSTURE_FAILSAFE"
      using fs that(2) up [OF that(1)] unfolding p by auto
    ultimately show ?thesis using tr by blast
  qed
qed

theorem report_visible_effects_witness:
  "\<exists>evs r. s_trace (kg_report (example_env 2) KG_ALERT_DISPATCH_HOOK KG_LEVEL_CRITICAL 1 2 example_sys) =
      Ev_notify KG_ALERT_DISPATCH_HOOK KG_LEVEL_CRITICAL 1 2 r # evs \<and>
     (\<exists>ops. Ev_flush 1 ops \<in> set evs \<and> Verw \<in> set ops) \<and>
     (\<exists>r'. Ev_notify KG_ALERT_FAIL_SAFE_ENTERED KG_LEVEL_CRITICAL 0 0 r' \<in> set evs)"
proof -
  have wf: "guard_wf (s_guard example_sys)" by (simp add: example_guard_wf)
  have on: "\<forall>cpu \<in> set (tp_online (e_topo (example_env 2))). int cpu < ncpu_int (s_guard example_sys)"
    by (simp add: example_guard_def)
  have p: "sys_posture (kg_report (example_env 2) KG_ALERT_DISPATCH_HOOK KG_LEVEL_CRITICAL 1 2 example_sys) = KG_POSTURE_FAILSAFE"
    by (simp add: report_posture_eq) (simp add: dispatch_target_def posture_cap_def example_par_def kg_const)
  have lt: "KG_POSTURE_NORMAL < KG_POSTURE_FAILSAFE" "KG_POSTURE_HIGH \<le> KG_POSTURE_FAILSAFE"
    by (simp_all add: kg_const)
  from report_visible_effects [OF wf on, of KG_ALERT_DISPATCH_HOOK KG_LEVEL_CRITICAL 1 2] lt
  show ?thesis unfolding p by auto
qed

text \<open>
  ELEVATED does decay: with decay switched on the quiet-period timer is pending whenever the posture is
  ELEVATED, whatever happened before; when it fires, a posture whose quiet period is over becomes
  NORMAL and this is announced in the alert log, and one whose period is not over stays ELEVATED
  with the timer set again for exactly the time that is left.
\<close>

theorem elevated_decays:
  assumes "pos_ready (s_pos s0)" and "sys_posture s0 \<noteq> KG_POSTURE_ELEVATED"
    and "\<forall>(env, a) \<in> set acts. kg_pos_decay_s (e_par env) \<noteq> 0"
    and "sys_posture (sys_run acts s0) = KG_POSTURE_ELEVATED" and "kg_pos_decay_s (e_par env) \<noteq> 0"
  shows "let s = sys_run acts s0; s' = kg_pos_decay_fn env s in
    pos_timer (s_pos s) \<noteq> None \<and>
    (if decay_due (e_par env) (s_pos s) \<le> e_mono env
     then sys_posture s' = KG_POSTURE_NORMAL \<and>
          (\<exists>p1 p2 r evs. s_trace s' = s_trace s @ Ev_notify KG_ALERT_POSTURE_CHANGED KG_LEVEL_INFO p1 p2 r # evs)
     else sys_posture s' = KG_POSTURE_ELEVATED \<and>
          pos_timer (s_pos s') = Some (After_ns_plus_tick (decay_due (e_par env) (s_pos s) - e_mono env)))"
proof -
  define s where "s = sys_run acts s0"
  have "armed s0" using assms(1,2) by (simp add: armed_def)
  from armed_run [OF assms(3) this] have a: "pos_ready (s_pos s)" "pos_timer (s_pos s) \<noteq> None"
    using assms(4) by (simp_all add: armed_def s_def)
  let ?s1 = "kg_pos_apply_locked env KG_POSTURE_NORMAL (upd_pos (\<lambda>p. p\<lparr>pos_timer := None\<rparr>) s)"
  have "s_trace ?s1 = s_trace s" by (simp add: kg_pos_apply_locked_def Let_def)
  then have tr: "\<exists>p1 p2 r evs. s_trace (kg_pos_announce env KG_POSTURE_ELEVATED KG_POSTURE_NORMAL KG_POSTURE_WHY_DECAY tg ?s1) =
      s_trace s @ Ev_notify KG_ALERT_POSTURE_CHANGED KG_LEVEL_INFO p1 p2 r # evs" for tg
    unfolding kg_pos_announce_def report_changed using deliver_trace [of env KG_ALERT_POSTURE_CHANGED KG_LEVEL_INFO _ _ ?s1]
    by fastforce
  have p: "sys_posture s = KG_POSTURE_ELEVATED" using assms(4) by (simp add: s_def)
  show ?thesis
  proof (cases "decay_due (e_par env) (s_pos s) \<le> e_mono env")
    case True
    then have "kg_pos_decay_fn env s =
        kg_pos_announce env KG_POSTURE_ELEVATED KG_POSTURE_NORMAL KG_POSTURE_WHY_DECAY (pos_trigger (s_pos s)) ?s1"
      using a p assms(5) by (simp add: kg_pos_decay_fn_def Let_def decay_due_def)
    with True a tr show ?thesis by (simp add: Let_def s_def [symmetric])
  next
    case False
    with a p assms(5) show ?thesis
      by (simp add: Let_def s_def [symmetric] decay_posture_eq) (simp add: kg_pos_decay_fn_def Let_def decay_due_def)
  qed
qed

theorem elevated_decays_witness:
  "let s = sys_run [(example_env 2, A_report KG_ALERT_UNAUTHORIZED_DMA KG_LEVEL_CRITICAL 0 0)] example_sys
   in sys_posture s = KG_POSTURE_ELEVATED \<and> pos_timer (s_pos s) \<noteq> None \<and>
      sys_posture (kg_pos_decay_fn (example_env 600000000002) s) = KG_POSTURE_NORMAL"
proof -
  let ?acts = "[(example_env 2, A_report KG_ALERT_UNAUTHORIZED_DMA KG_LEVEL_CRITICAL 0 0)]"
  let ?s = "sys_run ?acts example_sys"
  have t: "dispatch_target KG_ALERT_UNAUTHORIZED_DMA KG_LEVEL_CRITICAL = Some KG_POSTURE_ELEVATED"
    by (simp add: dispatch_target_def kg_const)
  have p: "sys_posture ?s = KG_POSTURE_ELEVATED"
    by (simp add: report_posture_eq t) (simp add: posture_cap_def example_par_def kg_const)
  let ?d = "dispatch_actions (example_env 2) KG_ALERT_UNAUTHORIZED_DMA KG_LEVEL_CRITICAL 0
      (deliver (example_env 2) KG_ALERT_UNAUTHORIZED_DMA KG_LEVEL_CRITICAL 0 0 example_sys)"
  have d: "s_pos ?d = s_pos example_sys" "sys_posture ?d = KG_POSTURE_NORMAL"
    using report_ready_frame [of "example_env 2" example_sys KG_ALERT_UNAUTHORIZED_DMA KG_LEVEL_CRITICAL 0 0]
    by (simp_all add: quiet_def kg_posture_def) (simp add: example_guard_def kg_const)
  have m: "pos_trigger_mono (s_pos ?s) = 2"
    by (simp add: kg_report.simps kg_dispatch.simps t kg_posture_raise.simps d raise_locked_def Let_def)
      (simp add: posture_cap_def example_par_def kg_const)
  have dec: "kg_pos_decay_s (e_par (example_env n)) \<noteq> 0" for n
    by (simp add: kg_pos_decay_s_def example_par_def kg_const)
  have "decay_due (e_par (example_env 600000000002)) (s_pos ?s) \<le> e_mono (example_env 600000000002)"
    unfolding decay_due_def m by (simp add: kg_pos_decay_s_def example_par_def kg_const)
  moreover have "sys_posture example_sys \<noteq> KG_POSTURE_ELEVATED" by (simp add: kg_const)
  ultimately show ?thesis
    using elevated_decays [OF example_sys_simps(2) _ _ p dec, of 600000000002] dec p
    unfolding Let_def by (auto split: if_splits)
qed

text \<open>
  The scan cadence: the interval used for a scan is never below 100 ms, never above the configured one
  (or 100 ms), exactly a quarter of it while ELEVATED or above when that is at least 100 ms, and
  the reported posture information shows the same numbers.
\<close>

theorem scan_interval_bounds:
  "100 \<le> unat (kg_scan_ms g base) \<and> unat (kg_scan_ms g base) \<le> max (unat base) 100 \<and>
   unat (kg_scan_ms g base) =
     (if unat (kg_posture g) = 0 then max (unat base) 100 else max (unat base div 4) 100) \<and>
   pi_hw_interval_ms (kg_posture_info_of par s) = kg_scan_ms (s_guard s) (par_hw_interval_ms par)"
proof -
  have mx: "unat (max a b) = max (unat a) (unat b)" for a b :: u32
    by (simp add: max_def word_le_nat_alt)
  have "KG_POSTURE_ELEVATED \<le> kg_posture g \<longleftrightarrow> unat (kg_posture g) \<noteq> 0"
    by (auto simp: KG_POSTURE_ELEVATED_def word_le_nat_alt)
  then have "unat (kg_scan_ms g base) =
      (if unat (kg_posture g) = 0 then max (unat base) 100 else max (max (unat base) 100 div 4) 100)"
    by (simp add: kg_scan_ms_def Let_def mx unat_div_distrib kg_const)
  moreover have "max (max (unat base) 100 div 4) 100 = max (unat base div 4) 100"
    using div_le_dividend [of "unat base" 4] by (auto simp: max_def)
  ultimately show ?thesis
    by (auto simp: kg_posture_info_of_def intro: order_trans [OF div_le_dividend])
qed

end
