(* ===== verification/KG_Pmu.thy ===== *)
theory KG_Pmu
  imports KG_State
begin

text \<open>
  Module 1, the side-channel detector (\<^verbatim>\<open>src/linux/module/kg_pmu.c\<close>): the overflow handler that runs in NMI
  context, the sampler that turns overflow counts into rates, levels and alerts and relaxes the mitigation of calm
  CPUs, and the per-CPU set-up and tear-down.  The perf counters and the hot-plug machinery are code outside the
  repository: whether a counter could be created is an argument, and \<open>cpuhp_setup_state\<close> and \<open>cpuhp_remove_state\<close> call
  the given function for every online CPU.  The name of the offending process only appears in the log text.
\<close>

unbundle bit_operations_syntax

section \<open>State\<close>

definition KG_PMU_CALM_WINDOWS :: u8 where [kg_const]: "KG_PMU_CALM_WINDOWS = 3"

abbreviation (input) KG_EV_L1D :: nat where "KG_EV_L1D \<equiv> 0"
abbreviation (input) KG_EV_LLC :: nat where "KG_EV_LLC \<equiv> 1"
abbreviation (input) KG_EV_NR :: nat where "KG_EV_NR \<equiv> 2"

text \<open>The module parameters that can be written at run time.\<close>

record pmu_par =
  pp_window_ms :: u32
  pp_warn :: u32
  pp_crit :: u32

definition kg_pmu_thresholds :: "pmu_par \<Rightarrow> u32 \<times> u32" where
  "kg_pmu_thresholds par = (let w = max (pp_warn par) 1 in (w, max (pp_crit par) (w + 1)))"

record kg_pmu_cpu =
  pc_ev :: "bool list"
  pc_ovf :: "u64 list"
  pc_cand_tgid :: u32
  pc_cand_cnt :: u32
  pc_level :: "u8 list"
  pc_calm :: "u8 list"
  pc_last_alert_ns :: "u64 list"
  pc_crit :: bool

text \<open>\<open>pm_work\<close> is the delay in milliseconds with which the sampler is queued.\<close>

record kg_pmu =
  pm_cpu :: "nat \<Rightarrow> kg_pmu_cpu"
  pm_running :: bool
  pm_stop :: bool
  pm_events :: u32
  pm_work :: "u32 option"
  pm_last_ns :: u64
  pm_period_l1d :: u64
  pm_period_llc :: u64

abbreviation upd_pmu_cpu :: "nat \<Rightarrow> kg_pmu_cpu \<Rightarrow> kg_pmu \<Rightarrow> kg_pmu" where
  "upd_pmu_cpu cpu pc pm \<equiv> pm\<lparr>pm_cpu := (pm_cpu pm)(cpu := pc)\<rparr>"

definition window_ms :: "pmu_par \<Rightarrow> u32" where
  "window_ms par = max (pp_window_ms par) 100"

definition kg_pmu_active :: "kg_pmu \<Rightarrow> bool" where
  "kg_pmu_active pm = pm_running pm"

section \<open>Overflow handler\<close>

text \<open>The majority vote over the tasks that were running at the overflows.\<close>

definition pmu_vote :: "u32 \<Rightarrow> kg_pmu_cpu \<Rightarrow> kg_pmu_cpu" where
  "pmu_vote tgid pc =
     (if pc_cand_tgid pc = tgid then pc\<lparr>pc_cand_cnt := pc_cand_cnt pc + 1\<rparr>
      else if sint (pc_cand_cnt pc) \<le> 0 then pc\<lparr>pc_cand_tgid := tgid, pc_cand_cnt := 1\<rparr>
      else pc\<lparr>pc_cand_cnt := pc_cand_cnt pc - 1\<rparr>)"

text \<open>The forced flush on the interrupted CPU.\<close>

definition flush_forced :: "nat \<Rightarrow> kg_sys \<Rightarrow> kg_sys" where
  "flush_forced cpu s =
     (case g_cpu (s_guard s) of
        None \<Rightarrow> s
      | Some cs \<Rightarrow> (let (st, ops) = kg_boundary_flush_forced (cs ! cpu) (s_stats s)
                     in emit [Ev_flush cpu ops] (s\<lparr>s_stats := st\<rparr>)))"

text \<open>
  \<open>busy\<close> is \<open>kg_self_busy\<close> of this CPU, \<open>user\<close> the thread group that was interrupted in user mode.  The last component of the
  result says whether the interrupt work was queued.
\<close>

definition kg_pmu_overflow ::
  "pmu_par \<Rightarrow> nat \<Rightarrow> bool \<Rightarrow> u32 option \<Rightarrow> nat \<Rightarrow> kg_pmu \<times> kg_sys \<Rightarrow> (kg_pmu \<times> kg_sys) \<times> bool" where
  "kg_pmu_overflow par kind busy user cpu ps =
     (case ps of (pm, s) \<Rightarrow>
        if KG_EV_NR \<le> kind \<or> pm_stop pm \<or> busy then ((pm, s), False)
        else
          let pc = pm_cpu pm cpu;
              n = pc_ovf pc ! kind + 1;
              pc1 = pc\<lparr>pc_ovf := (pc_ovf pc)[kind := n]\<rparr>;
              st = (if kind = KG_EV_L1D then (s_stats s)\<lparr>pmu_l1d_overflows := pmu_l1d_overflows (s_stats s) + 1\<rparr>
                    else (s_stats s)\<lparr>pmu_llc_overflows := pmu_llc_overflows (s_stats s) + 1\<rparr>);
              s1 = s\<lparr>s_stats := st\<rparr>;
              pc2 = (case user of None \<Rightarrow> pc1 | Some tgid \<Rightarrow> pmu_vote tgid pc1);
              crit = int (unat (snd (kg_pmu_thresholds par)))
          in ((upd_pmu_cpu cpu pc2 pm, if crit \<le> sint n then flush_forced cpu s1 else s1), sint n = crit))"

definition kg_pmu_irq_work :: "kg_pmu \<Rightarrow> kg_pmu" where
  "kg_pmu_irq_work pm = (if pm_stop pm then pm else pm\<lparr>pm_work := Some 0\<rparr>)"

section \<open>Sampler\<close>

definition pmu_level :: "pmu_par \<Rightarrow> u64 \<Rightarrow> u8" where
  "pmu_level par rate =
     (case kg_pmu_thresholds par of (warn, crit) \<Rightarrow>
        if ucast crit \<le> rate then ucast KG_LEVEL_CRITICAL else if ucast warn \<le> rate then ucast KG_LEVEL_WATCH else 0)"

definition alert_due :: "u64 \<Rightarrow> u8 \<Rightarrow> nat \<Rightarrow> kg_pmu_cpu \<Rightarrow> bool" where
  "alert_due now lvl kind pc \<longleftrightarrow>
     (pc_level pc ! kind < lvl \<and> 1000000000 \<le> now - pc_last_alert_ns pc ! kind) \<or>
     (lvl \<noteq> 0 \<and> lvl = pc_level pc ! kind \<and> 10 * 1000000000 \<le> now - pc_last_alert_ns pc ! kind)"

definition kind_alert :: "nat \<Rightarrow> u32" where
  "kind_alert kind = (if kind = KG_EV_L1D then KG_ALERT_PMU_L1D_ANOMALY else KG_ALERT_PMU_L2_ANOMALY)"

text \<open>One event of one CPU: its level, the alert if one is due, or the count of calm windows.\<close>

definition sample_kind ::
  "kg_env \<Rightarrow> pmu_par \<Rightarrow> u64 \<Rightarrow> nat \<Rightarrow> nat \<Rightarrow> kg_pmu_cpu \<times> kg_sys \<Rightarrow> kg_pmu_cpu \<times> kg_sys" where
  "sample_kind env par denom cpu kind ps =
     (case ps of (pc0, s) \<Rightarrow>
        if \<not> pc_ev pc0 ! kind then (pc0, s)
        else
          let now = e_mono env;
              rate = pc_ovf pc0 ! kind * 1000 div denom;
              lvl = pmu_level par rate;
              pc = pc0\<lparr>pc_ovf := (pc_ovf pc0)[kind := 0]\<rparr>
          in if alert_due now lvl kind pc
             then (pc\<lparr>pc_cand_tgid := 0, pc_cand_cnt := 0, pc_last_alert_ns := (pc_last_alert_ns pc)[kind := now],
                      pc_level := (pc_level pc)[kind := lvl], pc_calm := (pc_calm pc)[kind := 0]\<rparr>,
                   kg_report env (kind_alert kind) (ucast lvl)
                     (if 0 < sint (pc_cand_tgid pc) then ucast (pc_cand_tgid pc) else 0)
                     (push_bit 32 (of_nat cpu) OR ucast (ucast rate :: u32)) s)
             else if lvl < pc_level pc ! kind
             then (if KG_PMU_CALM_WINDOWS \<le> pc_calm pc ! kind + 1
                   then pc\<lparr>pc_level := (pc_level pc)[kind := lvl], pc_calm := (pc_calm pc)[kind := 0]\<rparr>
                   else pc\<lparr>pc_calm := (pc_calm pc)[kind := pc_calm pc ! kind + 1]\<rparr>, s)
             else (pc\<lparr>pc_calm := (pc_calm pc)[kind := 0]\<rparr>, s))"

text \<open>The levels of the events that exist.\<close>

definition live_levels :: "kg_pmu_cpu \<Rightarrow> u8 list" where
  "live_levels pc = map (\<lambda>k. pc_level pc ! k) (filter (\<lambda>k. pc_ev pc ! k) [KG_EV_L1D, KG_EV_LLC])"

definition sample_cpu :: "kg_env \<Rightarrow> pmu_par \<Rightarrow> u64 \<Rightarrow> nat \<Rightarrow> kg_pmu \<times> kg_sys \<Rightarrow> kg_pmu \<times> kg_sys" where
  "sample_cpu env par denom cpu ps =
     (case ps of (pm, s) \<Rightarrow>
        let (pc, s') = fold (sample_kind env par denom cpu) [KG_EV_L1D, KG_EV_LLC] (pm_cpu pm cpu, s)
        in (upd_pmu_cpu cpu (pc\<lparr>pc_crit := list_ex (\<lambda>l. ucast KG_LEVEL_CRITICAL \<le> l) (live_levels pc)\<rparr>) pm, s'))"

text \<open>Back to the CPU's own strategy, unless it or an SMT sibling is critical or the posture holds it up.\<close>

definition relax_one :: "kg_env \<Rightarrow> (nat \<Rightarrow> bool) \<Rightarrow> nat \<Rightarrow> kg_sys \<Rightarrow> kg_sys" where
  "relax_one env crit cpu s =
     (if \<not> list_ex crit (tp_siblings (e_topo env) cpu) \<and> sys_posture s < KG_POSTURE_HIGH \<and>
         (case g_cpu (s_guard s) of None \<Rightarrow> False | Some cs \<Rightarrow> m_strategy (cs ! cpu) \<noteq> m_base_strategy (cs ! cpu))
      then s\<lparr>s_guard := kg_mit_relax_cpu (e_sha env) (int cpu) (s_guard s)\<rparr> else s)"

definition sample_denom :: "pmu_par \<Rightarrow> u64 \<Rightarrow> u64 \<Rightarrow> u64" where
  "sample_denom par now prev =
     (let elapsed = max ((now - prev) div 1000000) 1 in max elapsed (ucast (window_ms par)))"

definition kg_pmu_sample :: "kg_env \<Rightarrow> pmu_par \<Rightarrow> kg_pmu \<times> kg_sys \<Rightarrow> kg_pmu \<times> kg_sys" where
  "kg_pmu_sample env par ps =
     (case ps of (pm, s) \<Rightarrow>
        let online = tp_online (e_topo env);
            denom = sample_denom par (e_mono env) (pm_last_ns pm);
            (pm1, s1) = fold (sample_cpu env par denom) online (pm\<lparr>pm_last_ns := e_mono env, pm_work := None\<rparr>, s);
            lvls = concat (map (\<lambda>cpu. live_levels (pm_cpu pm1 cpu)) online);
            s2 = s1\<lparr>s_stats := (s_stats s1)\<lparr>pmu_alert_level := ucast (fold max lvls 0)\<rparr>\<rparr>;
            s3 = fold (relax_one env (\<lambda>c. pc_crit (pm_cpu pm1 c))) online s2
        in (if pm_stop pm1 then pm1 else pm1\<lparr>pm_work := Some (window_ms par)\<rparr>, s3))"

section \<open>Per-CPU counters, start and stop\<close>

text \<open>\<open>avail\<close>: could the counter of this kind be created on this CPU?\<close>

definition open_kind :: "(nat \<Rightarrow> nat \<Rightarrow> bool) \<Rightarrow> nat \<Rightarrow> nat \<Rightarrow> kg_pmu \<Rightarrow> kg_pmu" where
  "open_kind avail cpu kind pm =
     (let pc = pm_cpu pm cpu;
          pc1 = pc\<lparr>pc_ovf := (pc_ovf pc)[kind := 0], pc_ev := (pc_ev pc)[kind := avail cpu kind]\<rparr>
      in (upd_pmu_cpu cpu pc1 pm)\<lparr>pm_events := pm_events pm + of_bool (avail cpu kind)\<rparr>)"

definition kg_pmu_cpu_online :: "(nat \<Rightarrow> nat \<Rightarrow> bool) \<Rightarrow> nat \<Rightarrow> kg_pmu \<Rightarrow> kg_pmu" where
  "kg_pmu_cpu_online avail cpu pm =
     fold (open_kind avail cpu) [KG_EV_L1D, KG_EV_LLC]
       (upd_pmu_cpu cpu ((pm_cpu pm cpu)\<lparr>pc_level := [0, 0], pc_calm := [0, 0], pc_cand_tgid := 0, pc_cand_cnt := 0\<rparr>) pm)"

definition close_kind :: "nat \<Rightarrow> nat \<Rightarrow> kg_pmu \<Rightarrow> kg_pmu" where
  "close_kind cpu kind pm =
     (let pc = pm_cpu pm cpu
      in if pc_ev pc ! kind
         then (upd_pmu_cpu cpu (pc\<lparr>pc_ev := (pc_ev pc)[kind := False]\<rparr>) pm)\<lparr>pm_events := pm_events pm - 1\<rparr> else pm)"

definition kg_pmu_cpu_offline :: "nat \<Rightarrow> kg_pmu \<Rightarrow> kg_pmu" where
  "kg_pmu_cpu_offline cpu pm =
     (let pm1 = fold (close_kind cpu) [KG_EV_L1D, KG_EV_LLC] pm
      in upd_pmu_cpu cpu ((pm_cpu pm1 cpu)\<lparr>pc_crit := False\<rparr>) pm1)"

definition clamp_period :: "u64 \<Rightarrow> u64" where
  "clamp_period p = min (max p 1000) (push_bit 30 1)"

text \<open>\<open>hp\<close> is the answer of \<open>cpuhp_setup_state\<close>, \<open>has_pmu\<close> whether the processor has a usable PMU.\<close>

definition kg_pmu_init ::
  "kg_env \<Rightarrow> pmu_par \<Rightarrow> bool \<Rightarrow> errno option \<Rightarrow> (nat \<Rightarrow> nat \<Rightarrow> bool) \<Rightarrow> kg_pmu \<Rightarrow> kg_pmu \<times> errno option" where
  "kg_pmu_init env par has_pmu hp avail pm =
     (if \<not> has_pmu then (pm, Some ENODEV)
      else
        let pm1 = pm\<lparr>pm_period_l1d := clamp_period (pm_period_l1d pm), pm_period_llc := clamp_period (pm_period_llc pm),
                     pm_stop := False, pm_last_ns := e_mono env\<rparr>
        in case hp of
             Some e \<Rightarrow> (pm1, Some e)
           | None \<Rightarrow>
               let pm2 = fold (kg_pmu_cpu_online avail) (tp_online (e_topo env)) pm1
               in if pm_events pm2 = 0 then (fold kg_pmu_cpu_offline (tp_online (e_topo env)) pm2, Some ENODEV)
                  else (pm2\<lparr>pm_running := True, pm_work := Some (window_ms par)\<rparr>, None))"

definition kg_pmu_exit :: "kg_env \<Rightarrow> kg_pmu \<Rightarrow> kg_pmu" where
  "kg_pmu_exit env pm =
     (if \<not> pm_running pm then pm
      else (fold kg_pmu_cpu_offline (tp_online (e_topo env)) (pm\<lparr>pm_stop := True\<rparr>))\<lparr>pm_work := None, pm_running := False\<rparr>)"

section \<open>The majority vote\<close>

text \<open>
  With \<open>c\<close> the candidate and \<open>k\<close> its count after the overflows of the tasks \<open>xs\<close>: no other task accounts for more than the
  overflows that cancelled out, and the candidate for at most \<open>k\<close> more.
\<close>

definition vote_inv :: "u32 list \<Rightarrow> kg_pmu_cpu \<Rightarrow> nat \<Rightarrow> bool" where
  "vote_inv xs pc k \<longleftrightarrow> pc_cand_cnt pc = of_nat k \<and> k \<le> length xs \<and>
     2 * count_list xs (pc_cand_tgid pc) \<le> length xs + k \<and>
     (\<forall>v. v \<noteq> pc_cand_tgid pc \<longrightarrow> 2 * count_list xs v + k \<le> length xs)"

lemma vote_inv_step:
  assumes "vote_inv xs pc k" and "Suc (length xs) < 2 ^ 31"
  shows "\<exists>k'. vote_inv (xs @ [t]) (pmu_vote t pc) k'"
proof -
  have i: "pc_cand_cnt pc = of_nat k" "k \<le> length xs" "2 * count_list xs (pc_cand_tgid pc) \<le> length xs + k"
    "\<And>v. v \<noteq> pc_cand_tgid pc \<Longrightarrow> 2 * count_list xs v + k \<le> length xs"
    using assms(1) by (auto simp: vote_inv_def)
  have s: "sint (pc_cand_cnt pc) = int k" using i(1,2) assms(2) by (simp add: sint_of_nat)
  consider (same) "pc_cand_tgid pc = t" | (fresh) "pc_cand_tgid pc \<noteq> t" "k = 0" | (other) "pc_cand_tgid pc \<noteq> t" "0 < k"
    by blast
  then show ?thesis
  proof cases
    case same
    have "vote_inv (xs @ [t]) (pmu_vote t pc) (Suc k)"
      using same i(2,3) i(4) by (auto simp: vote_inv_def pmu_vote_def i(1) count_list_append)
    then show ?thesis by blast
  next
    case fresh
    have "2 * count_list xs v \<le> length xs" for v
      using i(3) i(4) [of v] fresh(2) by (cases "v = pc_cand_tgid pc") auto
    then have "vote_inv (xs @ [t]) (pmu_vote t pc) 1"
      using fresh s by (auto simp: vote_inv_def pmu_vote_def count_list_append intro: le_SucI)
    then show ?thesis by blast
  next
    case other
    then obtain m where m: "k = Suc m" by (cases k) auto
    have o: "2 * count_list xs v + Suc m \<le> length xs" if "v \<noteq> pc_cand_tgid pc" for v
      using i(4) [OF that] m by simp
    have "2 * count_list (xs @ [t]) v + m \<le> Suc (length xs)" if "v \<noteq> pc_cand_tgid pc" for v
      using o [OF that] by (cases "v = t") (auto simp: count_list_append)
    then have "vote_inv (xs @ [t]) (pmu_vote t pc) m"
      using other s i(1-3) m by (auto simp: vote_inv_def pmu_vote_def count_list_append)
    then show ?thesis by blast
  qed
qed

lemma vote_inv_fold:
  assumes "length xs + length ys < 2 ^ 31" and "vote_inv xs pc k"
  shows "\<exists>k'. vote_inv (xs @ ys) (fold pmu_vote ys pc) k'"
  using assms
proof (induction ys arbitrary: xs pc k)
  case (Cons y ys)
  obtain k' where "vote_inv (xs @ [y]) (pmu_vote y pc) k'"
    using vote_inv_step [OF Cons.prems(2)] Cons.prems(1) by auto
  with Cons.IH [of "xs @ [y]" "pmu_vote y pc" k'] Cons.prems(1) show ?case by simp
qed auto

lemma vote_majority:
  assumes "length xs < 2 ^ 31" and "pc_cand_cnt pc = 0" and "length xs < 2 * count_list xs v"
  shows "pc_cand_tgid (fold pmu_vote xs pc) = v"
proof -
  have "vote_inv [] pc 0" using assms(2) by (simp add: vote_inv_def)
  from vote_inv_fold [OF _ this, of xs] assms(1) obtain k where "vote_inv xs (fold pmu_vote xs pc) k" by auto
  then have "2 * count_list xs v + k \<le> length xs" if "v \<noteq> pc_cand_tgid (fold pmu_vote xs pc)"
    using that by (auto simp: vote_inv_def)
  with assms(3) show ?thesis by (cases "v = pc_cand_tgid (fold pmu_vote xs pc)") auto
qed

text \<open>A run of overflows on one CPU, with the parameters and the interrupted task of each.\<close>

fun overflow_run :: "nat \<Rightarrow> (pmu_par \<times> nat \<times> u32 option) list \<Rightarrow> kg_pmu \<times> kg_sys \<Rightarrow> kg_pmu \<times> kg_sys" where
  "overflow_run cpu [] ps = ps"
| "overflow_run cpu ((par, kind, user) # os) ps =
     overflow_run cpu os (fst (kg_pmu_overflow par kind False user cpu ps))"

definition users_of :: "(pmu_par \<times> nat \<times> u32 option) list \<Rightarrow> u32 list" where
  "users_of os = List.map_filter (\<lambda>(par, kind, user). user) os"

lemma vote_frame [simp]:
  "pc_cand_tgid (pmu_vote t (pc\<lparr>pc_ovf := x\<rparr>)) = pc_cand_tgid (pmu_vote t pc)"
  "pc_cand_cnt (pmu_vote t (pc\<lparr>pc_ovf := x\<rparr>)) = pc_cand_cnt (pmu_vote t pc)"
  by (simp_all add: pmu_vote_def)

lemma vote_cong:
  assumes "pc_cand_tgid pc = pc_cand_tgid pd" and "pc_cand_cnt pc = pc_cand_cnt pd"
  shows "pc_cand_tgid (fold pmu_vote xs pc) = pc_cand_tgid (fold pmu_vote xs pd)"
  using assms
proof (induction xs arbitrary: pc pd)
  case (Cons x xs)
  have "pc_cand_tgid (pmu_vote x pc) = pc_cand_tgid (pmu_vote x pd)" "pc_cand_cnt (pmu_vote x pc) = pc_cand_cnt (pmu_vote x pd)"
    using Cons.prems by (simp_all add: pmu_vote_def)
  from Cons.IH [OF this] show ?case by simp
qed simp

lemma overflow_pmu:
  assumes "kind < KG_EV_NR" and "\<not> pm_stop pm"
  shows "fst (fst (kg_pmu_overflow par kind False user cpu (pm, s))) =
    upd_pmu_cpu cpu (case user of
        None \<Rightarrow> (pm_cpu pm cpu)\<lparr>pc_ovf := (pc_ovf (pm_cpu pm cpu))[kind := pc_ovf (pm_cpu pm cpu) ! kind + 1]\<rparr>
      | Some tgid \<Rightarrow> pmu_vote tgid ((pm_cpu pm cpu)\<lparr>pc_ovf := (pc_ovf (pm_cpu pm cpu))[kind := pc_ovf (pm_cpu pm cpu) ! kind + 1]\<rparr>)) pm"
  using assms by (simp add: kg_pmu_overflow_def Let_def)

lemma overflow_run_votes:
  assumes "\<forall>(par, kind, user) \<in> set os. kind < KG_EV_NR" and "\<not> pm_stop (fst ps)"
  shows "pc_cand_tgid (pm_cpu (fst (overflow_run cpu os ps)) cpu) =
    pc_cand_tgid (fold pmu_vote (users_of os) (pm_cpu (fst ps) cpu))"
  using assms
proof (induction cpu os ps rule: overflow_run.induct)
  case (2 cpu par kind user os ps)
  obtain pm s where ps: "ps = (pm, s)" by fastforce
  let ?ps = "fst (kg_pmu_overflow par kind False user cpu ps)"
  have stop: "\<not> pm_stop (fst ?ps)" and
    vote: "pc_cand_tgid (pm_cpu (fst ?ps) cpu) = pc_cand_tgid (case user of None \<Rightarrow> pm_cpu pm cpu | Some t \<Rightarrow> pmu_vote t (pm_cpu pm cpu))"
      "pc_cand_cnt (pm_cpu (fst ?ps) cpu) = pc_cand_cnt (case user of None \<Rightarrow> pm_cpu pm cpu | Some t \<Rightarrow> pmu_vote t (pm_cpu pm cpu))"
    using 2(2,3) by (simp_all add: ps overflow_pmu split: option.split)
  have "pc_cand_tgid (pm_cpu (fst (overflow_run cpu os ?ps)) cpu) = pc_cand_tgid (fold pmu_vote (users_of os) (pm_cpu (fst ?ps) cpu))"
    using 2 stop by auto
  also have "\<dots> = pc_cand_tgid (fold pmu_vote (users_of os) (case user of None \<Rightarrow> pm_cpu pm cpu | Some t \<Rightarrow> pmu_vote t (pm_cpu pm cpu)))"
    by (rule vote_cong [OF vote])
  finally show ?case
    by (simp add: users_of_def map_filter_simps ps split: option.split)
qed (simp add: users_of_def map_filter_simps)

section \<open>How alerts are counted\<close>

text \<open>
  A test on events that only looks at notifications, and not at the one that announces fail-safe, sees an alert exactly
  once, when it is reported.
\<close>

definition notify_test :: "(kg_ev \<Rightarrow> bool) \<Rightarrow> bool" where
  "notify_test P \<longleftrightarrow> (\<forall>e. P e \<longrightarrow> (\<exists>t l p1 p2 r. e = Ev_notify t l p1 p2 r \<and> t \<noteq> KG_ALERT_FAIL_SAFE_ENTERED)) \<and>
     (\<forall>t l p1 p2 r r'. P (Ev_notify t l p1 p2 r) = P (Ev_notify t l p1 p2 r'))"

lemma notify_test_no:
  assumes "notify_test P"
  shows "\<not> P (Ev_comms e)" "\<not> P (Ev_flush cpu ops)" "\<not> P Ev_input_kick" "\<not> P Ev_hw_kick" "\<not> P Ev_integrity_kick"
    "\<not> P (Ev_notify KG_ALERT_FAIL_SAFE_ENTERED l p1 p2 r)"
  using assms by (auto simp: notify_test_def)

lemma filter_flushes: "notify_test P \<Longrightarrow> filter P (ev_flushes t) = []"
  by (induction t) (auto simp: ev_flushes_def notify_test_no)

lemma filter_comms: "notify_test P \<Longrightarrow> filter P (map Ev_comms es) = []"
  by (induction es) (auto simp: notify_test_no)

lemma count_flush:
  assumes "notify_test P"
  shows "filter P (s_trace (flush_cpu env cpu s)) = filter P (s_trace s)"
    "filter P (s_trace (flush_siblings env cpu s)) = filter P (s_trace s)"
    "filter P (s_trace (flush_all env s)) = filter P (s_trace s)"
    "s_trace (escalate_cpu env cpu s) = s_trace s"
  by (simp_all add: flush_cpu_def flush_siblings_def flush_all_def escalate_cpu_def Let_def filter_flushes [OF assms] split: prod.split)

lemma count_deliver:
  assumes "notify_test P"
  shows "length (filter P (s_trace (deliver env type level p1 p2 s))) =
    length (filter P (s_trace s)) + of_bool (P (Ev_notify type level p1 p2 None))"
proof -
  have "P (Ev_notify type level p1 p2 r) = P (Ev_notify type level p1 p2 None)" for r
    using assms by (auto simp: notify_test_def)
  then show ?thesis by (auto simp: deliver_def Let_def filter_comms [OF assms] split: prod.split)
qed

lemma count_actions:
  "notify_test P \<Longrightarrow> filter P (s_trace (dispatch_actions env type level p2 s)) = filter P (s_trace s)"
  by (simp add: dispatch_actions_def Let_def count_flush notify_test_no)

lemma count_raise:
  assumes "notify_test P"
  shows "length (filter P (s_trace (kg_posture_raise env target trigger s))) = length (filter P (s_trace s))"
proof (cases "pos_ready (s_pos s)")
  case True
  have up: "length (filter P (s_trace (kg_pos_after_up env t s'))) = length (filter P (s_trace s'))" for t s'
    by (simp add: kg_pos_after_up.simps report_failsafe Let_def count_flush [OF assms] count_deliver [OF assms] notify_test_no [OF assms])
  show ?thesis
    using True raise_locked_trace [of env "min target (posture_cap (e_par env))" trigger s]
    by (auto simp: kg_posture_raise.simps Let_def up split: prod.splits)
qed (simp add: raise_not_ready)

lemma count_report:
  assumes "notify_test P"
  shows "length (filter P (s_trace (kg_report env type level p1 p2 s))) =
    length (filter P (s_trace s)) + of_bool (P (Ev_notify type level p1 p2 None))"
  by (simp add: kg_report.simps kg_dispatch.simps count_raise [OF assms] count_actions [OF assms] count_deliver [OF assms]
      split: option.split)

section \<open>The spacing of alerts\<close>

definition is_pmu_alert :: "nat \<Rightarrow> nat \<Rightarrow> kg_ev \<Rightarrow> bool" where
  "is_pmu_alert cpu kind e =
     (case e of Ev_notify t l p1 p2 r \<Rightarrow> t = kind_alert kind \<and> drop_bit 32 p2 = of_nat cpu | _ \<Rightarrow> False)"

definition pmu_alerts :: "nat \<Rightarrow> nat \<Rightarrow> kg_sys \<Rightarrow> nat" where
  "pmu_alerts cpu kind s = length (filter (is_pmu_alert cpu kind) (s_trace s))"

lemma pmu_alert_test: "notify_test (is_pmu_alert cpu kind)"
  by (auto simp: notify_test_def is_pmu_alert_def kind_alert_def kg_const split: kg_ev.splits)

lemma kind_alert_inj: "k < 2 \<Longrightarrow> k' < 2 \<Longrightarrow> kind_alert k = kind_alert k' \<longleftrightarrow> k = k'"
  by (auto simp: kind_alert_def kg_const less_2_cases_iff)

lemma alert_cpu_field:
  assumes "cpu < 2 ^ 31"
  shows "drop_bit 32 (push_bit 32 (of_nat cpu) OR ucast (r :: u32) :: u64) = of_nat cpu"
proof (rule bit_word_eqI)
  fix n assume n: "n < LENGTH(64)"
  have c: "n < 31" if "bit cpu n"
  proof (rule ccontr)
    assume "\<not> n < 31"
    then have "cpu < 2 ^ n" using assms by (meson less_le_trans linorder_not_less one_le_numeral power_increasing)
    with that show False by (simp add: bit_iff_odd)
  qed
  have "\<not> bit r (32 + n)" using bit_imp_le_length [of r "32 + n"] by auto
  with c n show "bit (drop_bit 32 (push_bit 32 (of_nat cpu) OR ucast r :: u64)) n = bit (of_nat cpu :: u64) n"
    by (auto simp: bit_simps)
qed

lemma of_nat_cpu_inj: "c < 2 ^ 31 \<Longrightarrow> d < 2 ^ 31 \<Longrightarrow> (of_nat c :: u64) = of_nat d \<longleftrightarrow> c = d"
proof -
  assume "c < 2 ^ 31" and "d < 2 ^ 31"
  then have "unat (of_nat c :: u64) = c" and "unat (of_nat d :: u64) = d" by (simp_all add: unat_of_nat_small)
  then show ?thesis by metis
qed

text \<open>
  \<open>paced a0 n0\<close>: since the state with last alert at \<open>a0\<close> and \<open>n0\<close> alerts counted, every further alert has moved the time of the
  last one on by a second.
\<close>

definition paced :: "nat \<Rightarrow> nat \<Rightarrow> nat \<Rightarrow> nat \<Rightarrow> u64 \<Rightarrow> kg_pmu_cpu \<times> kg_sys \<Rightarrow> bool" where
  "paced cpu kind a0 n0 now ps = (case ps of (pc, s) \<Rightarrow>
     length (pc_last_alert_ns pc) = 2 \<and> unat (pc_last_alert_ns pc ! kind) \<le> unat now \<and>
     pmu_alerts cpu kind s * 1000000000 + a0 \<le> unat (pc_last_alert_ns pc ! kind) + n0 * 1000000000)"

lemma alert_due_spaced:
  assumes "alert_due now lvl kind pc" and "unat (pc_last_alert_ns pc ! kind) \<le> unat now"
  shows "unat (pc_last_alert_ns pc ! kind) + 1000000000 \<le> unat now"
proof -
  have "unat (now - pc_last_alert_ns pc ! kind) = unat now - unat (pc_last_alert_ns pc ! kind)"
    using assms(2) by (simp add: unat_sub word_le_nat_alt)
  moreover have "1000000000 \<le> unat (now - pc_last_alert_ns pc ! kind)"
    using assms(1) by (auto simp: alert_due_def word_le_nat_alt)
  ultimately show ?thesis using assms(2) by linarith
qed

lemma alert_due_frame [simp]: "alert_due now lvl kind (pc\<lparr>pc_ovf := x\<rparr>) = alert_due now lvl kind pc"
  by (simp add: alert_due_def)

text \<open>What one event of one CPU does to the alert times and to the core.\<close>

lemma sample_kind_cases:
  obtains (quiet) pc' where "sample_kind env par denom cpu kind (pc, s) = (pc', s)" "pc_last_alert_ns pc' = pc_last_alert_ns pc"
    "pc_ev pc' = pc_ev pc"
  | (alert) pc' lvl p1 r where "sample_kind env par denom cpu kind (pc, s) =
        (pc', kg_report env (kind_alert kind) (ucast lvl) p1 (push_bit 32 (of_nat cpu) OR ucast (r :: u32)) s)"
      "pc_last_alert_ns pc' = (pc_last_alert_ns pc)[kind := e_mono env]" "alert_due (e_mono env) lvl kind pc" "pc_ev pc' = pc_ev pc"
      "pc_ev pc ! kind" "lvl = pmu_level par (pc_ovf pc ! kind * 1000 div denom)" "pc_level pc' = (pc_level pc)[kind := lvl]"
proof (cases "pc_ev pc ! kind \<and> alert_due (e_mono env) (pmu_level par (pc_ovf pc ! kind * 1000 div denom)) kind pc")
  case True
  let ?lvl = "pmu_level par (pc_ovf pc ! kind * 1000 div denom)"
  let ?pc = "fst (sample_kind env par denom cpu kind (pc, s))"
  have "sample_kind env par denom cpu kind (pc, s) =
      (?pc, kg_report env (kind_alert kind) (ucast ?lvl) (if 0 < sint (pc_cand_tgid pc) then ucast (pc_cand_tgid pc) else 0)
        (push_bit 32 (of_nat cpu) OR ucast (ucast (pc_ovf pc ! kind * 1000 div denom) :: u32)) s)"
    "pc_last_alert_ns ?pc = (pc_last_alert_ns pc)[kind := e_mono env]" "pc_ev ?pc = pc_ev pc"
    "pc_level ?pc = (pc_level pc)[kind := ?lvl]"
    using True by (simp_all add: sample_kind_def Let_def)
  with True show ?thesis by (intro alert [of ?pc ?lvl]) simp_all
next
  case False
  have "snd (sample_kind env par denom cpu kind (pc, s)) = s" "pc_ev (fst (sample_kind env par denom cpu kind (pc, s))) = pc_ev pc"
    "pc_last_alert_ns (fst (sample_kind env par denom cpu kind (pc, s))) = pc_last_alert_ns pc"
    using False by (simp_all add: sample_kind_def Let_def)
  then show ?thesis using quiet by (metis prod.collapse)
qed

lemma sample_kind_paced:
  assumes "paced cpu k a0 n0 (e_mono env) (pc, s)" and "kind < 2" and "k < 2" and "cpu < 2 ^ 31"
  shows "paced cpu k a0 n0 (e_mono env) (sample_kind env par denom cpu kind (pc, s))"
proof (cases rule: sample_kind_cases [of env par denom cpu kind pc s])
  case (quiet pc')
  with assms(1) show ?thesis by (simp add: paced_def)
next
  case (alert pc' lvl p1 r)
  have p: "length (pc_last_alert_ns pc) = 2" "unat (pc_last_alert_ns pc ! k) \<le> unat (e_mono env)"
    "pmu_alerts cpu k s * 1000000000 + a0 \<le> unat (pc_last_alert_ns pc ! k) + n0 * 1000000000"
    using assms(1) by (simp_all add: paced_def)
  have c: "pmu_alerts cpu k (snd (sample_kind env par denom cpu kind (pc, s))) = pmu_alerts cpu k s + of_bool (k = kind)"
    using kind_alert_inj [OF assms(2,3)] alert_cpu_field [OF assms(4)]
    by (simp add: alert(1) pmu_alerts_def count_report [OF pmu_alert_test] is_pmu_alert_def)
  show ?thesis
  proof (cases "k = kind")
    case True
    have "unat (pc_last_alert_ns pc ! k) + 1000000000 \<le> unat (e_mono env)"
      using alert_due_spaced [OF alert(3)] p(2) True by simp
    with p c True assms(2) show ?thesis by (simp add: paced_def alert(1,2))
  next
    case False
    with p c show ?thesis by (simp add: paced_def alert(1,2))
  qed
qed

text \<open>Another CPU's events leave them alone.\<close>

lemma sample_kind_other:
  assumes "cpu \<noteq> c" and "cpu < 2 ^ 31" and "c < 2 ^ 31"
  shows "pmu_alerts c k (snd (sample_kind env par denom cpu kind (pc, s))) = pmu_alerts c k s"
  using of_nat_cpu_inj [OF assms(2,3)] alert_cpu_field [OF assms(2)] assms(1)
  by (cases rule: sample_kind_cases [of env par denom cpu kind pc s])
    (simp_all add: pmu_alerts_def count_report [OF pmu_alert_test] is_pmu_alert_def)

definition pm_paced :: "nat \<Rightarrow> nat \<Rightarrow> nat \<Rightarrow> nat \<Rightarrow> u64 \<Rightarrow> kg_pmu \<times> kg_sys \<Rightarrow> bool" where
  "pm_paced cpu kind a0 n0 now ps = paced cpu kind a0 n0 now (pm_cpu (fst ps) cpu, snd ps)"

lemma paced_crit [simp]: "paced cpu k a0 n0 now (pc\<lparr>pc_crit := b\<rparr>, s) = paced cpu k a0 n0 now (pc, s)"
  by (simp add: paced_def)

lemma sample_cpu_paced:
  assumes "pm_paced c k a0 n0 (e_mono env) ps" and "k < 2" and "c < 2 ^ 31" and "cpu < 2 ^ 31"
  shows "pm_paced c k a0 n0 (e_mono env) (sample_cpu env par denom cpu ps)"
proof -
  obtain pm s where ps: "ps = (pm, s)" by fastforce
  obtain pc1 s1 where 1: "sample_kind env par denom cpu KG_EV_L1D (pm_cpu pm cpu, s) = (pc1, s1)" by fastforce
  obtain pc2 s2 where 2: "sample_kind env par denom cpu KG_EV_LLC (pc1, s1) = (pc2, s2)" by fastforce
  have e: "sample_cpu env par denom cpu ps =
      (upd_pmu_cpu cpu (pc2\<lparr>pc_crit := list_ex (\<lambda>l. ucast KG_LEVEL_CRITICAL \<le> l) (live_levels pc2)\<rparr>) pm, s2)"
    using 2 by (simp add: sample_cpu_def ps 1)
  show ?thesis
  proof (cases "cpu = c")
    case True
    have "paced c k a0 n0 (e_mono env) (pc1, s1)"
      using sample_kind_paced [of c k a0 n0 env "pm_cpu pm cpu" s 0 par denom] assms 1 True by (simp add: pm_paced_def ps)
    from sample_kind_paced [OF this, of 1 par denom] have "paced c k a0 n0 (e_mono env) (pc2, s2)" using assms 2 True by simp
    then show ?thesis using True unfolding pm_paced_def e by simp
  next
    case False
    have "pmu_alerts c k s2 = pmu_alerts c k s"
      using sample_kind_other [OF False assms(4,3), of k env par denom 0 "pm_cpu pm cpu" s]
        sample_kind_other [OF False assms(4,3), of k env par denom 1 pc1 s1] 1 2 by simp
    with False assms(1) show ?thesis unfolding pm_paced_def paced_def e by (simp add: ps)
  qed
qed

lemma relax_trace: "s_trace (fold (relax_one env crit) cpus s) = s_trace s"
  by (induction cpus arbitrary: s) (simp_all add: relax_one_def)

lemma pmu_sample_paced:
  assumes "pm_paced c k a0 n0 (e_mono env) ps" and "k < 2" and "c < 2 ^ 31" and "\<forall>cpu \<in> set (tp_online (e_topo env)). cpu < 2 ^ 31"
  shows "pm_paced c k a0 n0 (e_mono env) (kg_pmu_sample env par ps)"
proof -
  obtain pm s where ps: "ps = (pm, s)" by fastforce
  let ?d = "sample_denom par (e_mono env) (pm_last_ns pm)"
  have "pm_paced c k a0 n0 (e_mono env) (fold (sample_cpu env par ?d) cpus x)"
    if "\<forall>cpu \<in> set cpus. cpu < 2 ^ 31" "pm_paced c k a0 n0 (e_mono env) x" for cpus x
    using that
  proof (induction cpus arbitrary: x)
    case (Cons a cpus)
    then have "pm_paced c k a0 n0 (e_mono env) (sample_cpu env par ?d a x)"
      by (intro sample_cpu_paced [OF _ assms(2,3)]) simp_all
    with Cons show ?case by simp
  qed simp
  from this [OF assms(4), of "(pm\<lparr>pm_last_ns := e_mono env, pm_work := None\<rparr>, s)"]
  have "pm_paced c k a0 n0 (e_mono env)
    (fold (sample_cpu env par ?d) (tp_online (e_topo env)) (pm\<lparr>pm_last_ns := e_mono env, pm_work := None\<rparr>, s))"
    using assms(1) by (simp add: pm_paced_def ps)
  then show ?thesis
    by (auto simp: pm_paced_def paced_def kg_pmu_sample_def ps Let_def relax_trace pmu_alerts_def split: prod.splits)
qed

lemma flush_forced_alerts [simp]: "pmu_alerts c k (flush_forced cpu s) = pmu_alerts c k s"
  by (simp add: flush_forced_def Let_def kg_boundary_flush_forced_def pmu_alerts_def is_pmu_alert_def split: option.split)

lemma stats_alerts [simp]: "pmu_alerts c k (s\<lparr>s_stats := st\<rparr>) = pmu_alerts c k s"
  by (simp add: pmu_alerts_def)

lemma vote_last [simp]: "pc_last_alert_ns (pmu_vote t pc) = pc_last_alert_ns pc"
  by (simp add: pmu_vote_def)

lemma overflow_paced:
  assumes "pm_paced c k a0 n0 now ps"
  shows "pm_paced c k a0 n0 now (fst (kg_pmu_overflow par kind busy user cpu ps))"
proof -
  obtain pm s where ps: "ps = (pm, s)" by fastforce
  have "pmu_alerts c k (snd (fst (kg_pmu_overflow par kind busy user cpu ps))) = pmu_alerts c k s"
    by (simp add: ps kg_pmu_overflow_def Let_def)
  moreover have "pc_last_alert_ns (pm_cpu (fst (fst (kg_pmu_overflow par kind busy user cpu ps))) c) = pc_last_alert_ns (pm_cpu pm c)"
    by (simp add: ps kg_pmu_overflow_def Let_def split: option.split)
  ultimately show ?thesis using assms by (simp add: pm_paced_def paced_def ps)
qed

text \<open>Overflows and sampler runs in any order, on a clock that does not run backwards.\<close>

datatype pmu_act = P_overflow pmu_par nat bool "u32 option" nat | P_sample kg_env pmu_par

fun pmu_do :: "pmu_act \<Rightarrow> kg_pmu \<times> kg_sys \<Rightarrow> kg_pmu \<times> kg_sys" where
  "pmu_do (P_overflow par kind busy user cpu) ps = fst (kg_pmu_overflow par kind busy user cpu ps)"
| "pmu_do (P_sample env par) ps = kg_pmu_sample env par ps"

text \<open>The clock readings of the sampler runs do not go back from \<open>t\<close>, and CPU numbers are below 2 to the 31.\<close>

fun pmu_clock :: "u64 \<Rightarrow> pmu_act list \<Rightarrow> bool" where
  "pmu_clock t [] = True"
| "pmu_clock t (P_overflow par kind busy user cpu # as) = pmu_clock t as"
| "pmu_clock t (P_sample env par # as) =
     (t \<le> e_mono env \<and> list_all (\<lambda>c. c < 2 ^ 31) (tp_online (e_topo env)) \<and> pmu_clock (e_mono env) as)"

fun pmu_end :: "u64 \<Rightarrow> pmu_act list \<Rightarrow> u64" where
  "pmu_end t [] = t"
| "pmu_end t (P_overflow par kind busy user cpu # as) = pmu_end t as"
| "pmu_end t (P_sample env par # as) = pmu_end (e_mono env) as"

lemma pm_paced_later: "pm_paced c k a0 n0 t ps \<Longrightarrow> t \<le> t' \<Longrightarrow> pm_paced c k a0 n0 t' ps"
  by (auto simp: pm_paced_def paced_def word_le_nat_alt)

lemma pmu_run_paced:
  "pmu_clock t as \<Longrightarrow> pm_paced c k a0 n0 t ps \<Longrightarrow> k < 2 \<Longrightarrow> c < 2 ^ 31 \<Longrightarrow> pm_paced c k a0 n0 (pmu_end t as) (fold pmu_do as ps)"
proof (induction as arbitrary: t ps)
  case (Cons a as)
  show ?case
  proof (cases a)
    case (P_overflow par kind busy user cpu)
    then show ?thesis using Cons by (simp add: overflow_paced)
  next
    case (P_sample env par)
    with Cons.prems have "pm_paced c k a0 n0 (e_mono env) ps" by (auto intro: pm_paced_later)
    with Cons P_sample show ?thesis by (simp add: pmu_sample_paced list_all_iff)
  qed
qed simp

section \<open>Full-spectrum mitigation is kept\<close>

definition cpu_full :: "nat \<Rightarrow> kg_guard \<Rightarrow> bool" where
  "cpu_full c g \<longleftrightarrow> (case g_cpu g of None \<Rightarrow> False | Some cs \<Rightarrow> c < length cs \<and> m_strategy (cs ! c) = KG_STRAT_FULL)"

lemma full_seal [simp]: "cpu_full c (kg_guard_unlock_release sha g) = cpu_full c g"
  by (simp add: cpu_full_def kg_guard_unlock_release_def kg_guard_update_locked_def split: option.split sum.split)

lemma full_escalate: "cpu_full c g \<Longrightarrow> cpu_full c (kg_mit_escalate_cpu sha cpu g)"
  by (cases "nat cpu = c")
    (auto simp: kg_mit_escalate_cpu_def, auto simp: cpu_full_def split: option.splits)

lemma full_escalate_self:
  assumes "guard_wf g" and "int c < ncpu_int g"
  shows "cpu_full c (kg_mit_escalate_cpu sha (int c) g)"
proof -
  obtain cs where "g_cpu g = Some cs" "policy_wf (g_hdr g) cs" using assms(1) by (rule guard_wfE)
  with assms(2) show ?thesis by (simp add: kg_mit_escalate_cpu_def) (simp add: cpu_full_def policy_wf_def)
qed

lemma full_set_up:
  assumes "cpu_full c g" and "kg_posture g < t"
  shows "cpu_full c (kg_mit_set_posture sha t g)"
proof -
  have "KG_POSTURE_HIGH \<le> t" if "KG_POSTURE_HIGH \<le> h_posture (g_hdr g)"
    using assms(2) that by (simp add: kg_posture_def)
  moreover obtain cs where "g_cpu g = Some cs" "c < length cs" "m_strategy (cs ! c) = KG_STRAT_FULL"
    using assms(1) by (auto simp: cpu_full_def split: option.splits)
  ultimately show ?thesis
    by (auto simp: kg_mit_set_posture_def Let_def) (auto simp: cpu_full_def map_first_def nth_append min_def)
qed

lemma full_sibs: "flush_sibs sha tp cpu sibs g st = (g', st', t) \<Longrightarrow> cpu_full c g \<Longrightarrow> cpu_full c g'"
proof (induction sibs arbitrary: g st g' st' t)
  case (Cons sib sibs)
  then show ?case
    using full_escalate [of c g sha "int sib"] by (auto simp: Let_def split: if_splits prod.splits)
qed simp

lemma full_sibs_self:
  assumes "flush_sibs sha tp cpu sibs g st = (g', st', t)" and "guard_wf g" and "c \<in> set sibs" and "c \<noteq> cpu"
    and "c \<in> set (tp_online tp)" and "int c < ncpu_int g"
  shows "cpu_full c g'"
  using assms(1-3,6)
proof (induction sibs arbitrary: g st g' st' t)
  case (Cons sib sibs)
  show ?case
  proof (cases "sib = cpu \<or> sib \<notin> set (tp_online tp)")
    case True
    with Cons assms(4,5) show ?thesis by auto
  next
    case False
    let ?g = "kg_mit_escalate_cpu sha (int sib) g"
    obtain st1 t1 g2 st2 t2 where f: "flush_sibs sha tp cpu sibs ?g st1 = (g2, st2, t2)" "g' = g2"
      using False Cons.prems(1) by (auto simp: Let_def split: prod.splits)
    show ?thesis
    proof (cases "sib = c")
      case True
      then show ?thesis
        using full_sibs [OF f(1)] full_escalate_self [OF Cons.prems(2,4), of sha] f(2) by simp
    next
      case other: False
      have "guard_wf ?g" by (rule kg_mit_escalate_wf [OF Cons.prems(2)])
      with Cons.IH [OF f(1)] other Cons.prems(3,4) f(2) show ?thesis by simp
    qed
  qed
qed simp

lemma full_flush_cpu [simp]: "s_guard (flush_cpu env cpu s) = s_guard s"
  by (simp add: flush_cpu_def Let_def split: prod.split)

lemma full_actions:
  assumes "cpu_full c (s_guard s)"
  shows "cpu_full c (s_guard (dispatch_actions env type level p2 s))"
proof -
  have "cpu_full c (s_guard (flush_siblings env cpu (flush_cpu env cpu (escalate_cpu env cpu s))))" for cpu
    using full_escalate [OF assms, of "e_sha env" cpu] full_sibs
    by (auto simp: flush_siblings_def kg_mit_flush_siblings_def Let_def escalate_cpu_def split: prod.split)
  with assms show ?thesis by (simp add: dispatch_actions_def Let_def)
qed

lemma full_raise:
  "cpu_full c (s_guard s) \<Longrightarrow> cpu_full c (s_guard (kg_posture_raise env target trigger s))"
  by (cases "pos_ready (s_pos s)") (simp_all add: raise_effect(2) [OF _ refl] raise_not_ready full_set_up)

lemma full_report:
  assumes "cpu_full c (s_guard s)"
  shows "cpu_full c (s_guard (kg_report env type level p1 p2 s))"
proof -
  have "cpu_full c (s_guard (dispatch_actions env type level p2 (deliver env type level p1 p2 s)))"
    by (rule full_actions) (simp add: assms)
  then show ?thesis by (simp add: kg_report.simps kg_dispatch.simps full_raise split: option.split)
qed

text \<open>A critical alert brings the CPU and its online siblings to full-spectrum mitigation.\<close>

lemma critical_report_full:
  assumes "guard_wf (s_guard s)" and "cpu \<in> set (tp_online (e_topo env))" and "cpu < tp_nr (e_topo env)" and "tp_nr (e_topo env) < 2 ^ 31"
    and "c = cpu \<or> c \<in> set (tp_siblings (e_topo env) cpu) \<and> c \<in> set (tp_online (e_topo env))" and "int c < ncpu_int (s_guard s)"
    and "drop_bit 32 p2 = (of_nat cpu :: u64)"
  shows "cpu_full c (s_guard (kg_report env (kind_alert kind) KG_LEVEL_CRITICAL p1 p2 s))"
proof -
  let ?ty = "kind_alert kind"
  let ?d = "deliver env ?ty KG_LEVEL_CRITICAL p1 p2 s"
  let ?g = "kg_mit_escalate_cpu (e_sha env) (int cpu) (s_guard s)"
  have ty: "?ty = KG_ALERT_PMU_L1D_ANOMALY \<or> ?ty = KG_ALERT_PMU_L2_ANOMALY" by (simp add: kind_alert_def)
  have "unat (of_nat cpu :: u64) = cpu" using assms(3,4) by (simp add: unat_of_nat_small)
  then have "(ucast (of_nat cpu :: u64) :: u32) = of_nat cpu"
    by (metis of_nat_unat)
  then have cpu: "sint (ucast (drop_bit 32 p2) :: u32) = int cpu"
    using assms(3,4,7) by (simp add: sint_of_nat)
  have v: "cpu_valid (e_topo env) (int cpu)" using assms(2,3) by (simp add: cpu_valid_def)
  have a: "dispatch_actions env ?ty KG_LEVEL_CRITICAL p2 ?d =
      flush_siblings env (int cpu) (flush_cpu env (int cpu) (escalate_cpu env (int cpu) ?d))"
    using ty v by (simp add: dispatch_actions_def cpu Let_def)
  obtain st where "s_stats (flush_cpu env (int cpu) (escalate_cpu env (int cpu) ?d)) = st" by blast
  obtain g' st' t where f: "flush_sibs (e_sha env) (e_topo env) cpu (tp_siblings (e_topo env) cpu) ?g
      (s_stats (flush_cpu env (int cpu) (escalate_cpu env (int cpu) ?d))) = (g', st', t)" by (metis prod_cases3)
  have g': "s_guard (dispatch_actions env ?ty KG_LEVEL_CRITICAL p2 ?d) = g'"
    using f assms(3) by (simp add: a flush_siblings_def kg_mit_flush_siblings_def escalate_cpu_def)
  have wf: "guard_wf ?g" by (rule kg_mit_escalate_wf [OF assms(1)])
  have "cpu_full c g'"
  proof (cases "c = cpu")
    case True
    then show ?thesis using full_sibs [OF f] full_escalate_self [OF assms(1)] assms(6) by simp
  next
    case False
    then show ?thesis using full_sibs_self [OF f wf, of c] assms(5,6) by simp
  qed
  then show ?thesis
    using g' by (simp add: kg_report.simps kg_dispatch.simps full_raise split: option.split)
qed

section \<open>A critical CPU through one sampler run\<close>

lemma report_wf:
  assumes "guard_wf (s_guard s)"
  shows "guard_wf (s_guard (kg_report env type level p1 p2 s))"
    and "h_ncpu (g_hdr (s_guard (kg_report env type level p1 p2 s))) = h_ncpu (g_hdr (s_guard s))"
proof -
  let ?d = "dispatch_actions env type level p2 (deliver env type level p1 p2 s)"
  have q: "quiet (e_sha env) s ?d" by (rule report_ready_frame)
  then have wf: "guard_wf (s_guard ?d)" and h: "h_ncpu (g_hdr (s_guard ?d)) = h_ncpu (g_hdr (s_guard s))"
    using guard_steps_wf assms by (auto simp: quiet_def)
  have "guard_wf (s_guard (kg_posture_raise env t type ?d)) \<and>
      h_ncpu (g_hdr (s_guard (kg_posture_raise env t type ?d))) = h_ncpu (g_hdr (s_guard ?d))" for t
  proof (cases "pos_ready (s_pos ?d)")
    case True
    have n: "h_ncpu (g_hdr (kg_mit_set_posture sha t' g)) = h_ncpu (g_hdr g)" for sha t' g
      by (simp add: kg_mit_set_posture_def Let_def)
    show ?thesis
      using kg_mit_set_posture_wf [OF wf posture_cap_less] wf by (simp add: raise_effect(2) [OF True refl] n)
  qed (simp add: raise_not_ready wf)
  with wf h show "guard_wf (s_guard (kg_report env type level p1 p2 s))"
    and "h_ncpu (g_hdr (s_guard (kg_report env type level p1 p2 s))) = h_ncpu (g_hdr (s_guard s))"
    by (simp_all add: kg_report.simps kg_dispatch.simps split: option.split)
qed

text \<open>What every step of the sampler keeps of the core, for a CPU number \<open>c\<close>.\<close>

definition core_kept :: "nat \<Rightarrow> kg_sys \<Rightarrow> kg_sys \<Rightarrow> bool" where
  "core_kept c s s' \<longleftrightarrow> (guard_wf (s_guard s) \<longrightarrow> guard_wf (s_guard s')) \<and> (guard_wf (s_guard s) \<longrightarrow> ncpu_int (s_guard s') = ncpu_int (s_guard s)) \<and>
     (cpu_full c (s_guard s) \<longrightarrow> cpu_full c (s_guard s'))"

lemma core_kept_refl [simp]: "core_kept c s s"
  by (simp add: core_kept_def)

lemma core_kept_trans: "core_kept c s s' \<Longrightarrow> core_kept c s' s'' \<Longrightarrow> core_kept c s s''"
  by (auto simp: core_kept_def)

lemma core_kept_kind: "core_kept c s (snd (sample_kind env par denom cpu kind (pc, s)))"
  by (cases rule: sample_kind_cases [of env par denom cpu kind pc s])
    (auto simp: core_kept_def report_wf full_report)

text \<open>The other event of the CPU is not touched.\<close>

lemma sample_kind_other_kind:
  assumes "k \<noteq> kind"
  shows "let pc' = fst (sample_kind env par denom cpu kind (pc, s)) in
    pc_level pc' ! k = pc_level pc ! k \<and> pc_ovf pc' ! k = pc_ovf pc ! k \<and> pc_last_alert_ns pc' ! k = pc_last_alert_ns pc ! k \<and>
    pc_ev pc' = pc_ev pc \<and> length (pc_level pc') = length (pc_level pc)"
  using assms by (simp add: sample_kind_def Let_def)

text \<open>The event that is due: its report, then the level.\<close>

definition crit_due :: "kg_env \<Rightarrow> pmu_par \<Rightarrow> u64 \<Rightarrow> nat \<Rightarrow> kg_pmu_cpu \<Rightarrow> bool" where
  "crit_due env par denom kind pc \<longleftrightarrow> kind < 2 \<and> pc_ev pc ! kind \<and> length (pc_level pc) = 2 \<and>
     pmu_level par (pc_ovf pc ! kind * 1000 div denom) = ucast KG_LEVEL_CRITICAL \<and>
     alert_due (e_mono env) (ucast KG_LEVEL_CRITICAL) kind pc"

definition topo_ok :: "kg_topo \<Rightarrow> int \<Rightarrow> bool" where
  "topo_ok tp n \<longleftrightarrow> distinct (tp_online tp) \<and> tp_nr tp < 2 ^ 31 \<and>
     (\<forall>c \<in> set (tp_online tp). c < tp_nr tp \<and> int c < n \<and> c \<in> set (tp_siblings tp c)) \<and>
     (\<forall>c \<in> set (tp_online tp). \<forall>d \<in> set (tp_siblings tp c). c \<in> set (tp_siblings tp d))"

abbreviation shares_core :: "kg_topo \<Rightarrow> nat \<Rightarrow> nat \<Rightarrow> bool" where
  "shares_core tp cpu c \<equiv> c \<in> set (tp_online tp) \<and> c \<in> set (tp_siblings tp cpu)"

lemma critical_kind:
  assumes "crit_due env par denom kind pc" and "guard_wf (s_guard s)" and "topo_ok (e_topo env) (ncpu_int (s_guard s))"
    and "cpu \<in> set (tp_online (e_topo env))" and "shares_core (e_topo env) cpu c"
  shows "cpu_full c (s_guard (snd (sample_kind env par denom cpu kind (pc, s))))"
    and "pc_level (fst (sample_kind env par denom cpu kind (pc, s))) ! kind = ucast KG_LEVEL_CRITICAL"
    and "pc_ev (fst (sample_kind env par denom cpu kind (pc, s))) = pc_ev pc"
proof -
  have d: "kind < 2" "pc_ev pc ! kind" "length (pc_level pc) = 2"
    "pmu_level par (pc_ovf pc ! kind * 1000 div denom) = ucast KG_LEVEL_CRITICAL" "alert_due (e_mono env) (ucast KG_LEVEL_CRITICAL) kind pc"
    using assms(1) by (simp_all add: crit_due_def)
  have tp: "cpu < tp_nr (e_topo env)" "tp_nr (e_topo env) < 2 ^ 31" "int c < ncpu_int (s_guard s)"
    using assms(3-5) by (auto simp: topo_ok_def)
  have l: "(ucast (ucast KG_LEVEL_CRITICAL :: u8) :: u32) = KG_LEVEL_CRITICAL" by (simp add: kg_const)
  obtain p1 where p1: "snd (sample_kind env par denom cpu kind (pc, s)) =
      kg_report env (kind_alert kind) KG_LEVEL_CRITICAL p1
        (push_bit 32 (of_nat cpu) OR ucast (ucast (pc_ovf pc ! kind * 1000 div denom) :: u32)) s"
    using d l by (simp add: sample_kind_def Let_def)
  have "drop_bit 32 (push_bit 32 (of_nat cpu) OR ucast (r :: u32) :: u64) = of_nat cpu" for r
    using tp by (intro alert_cpu_field) simp
  then show "cpu_full c (s_guard (snd (sample_kind env par denom cpu kind (pc, s))))"
    unfolding p1 using assms(4,5) tp by (intro critical_report_full [OF assms(2)]) auto
  show "pc_level (fst (sample_kind env par denom cpu kind (pc, s))) ! kind = ucast KG_LEVEL_CRITICAL"
    and "pc_ev (fst (sample_kind env par denom cpu kind (pc, s))) = pc_ev pc"
    using d by (simp_all add: sample_kind_def Let_def)
qed

lemma crit_due_other_kind:
  assumes "crit_due env par denom k pc" and "k \<noteq> kind"
  shows "crit_due env par denom k (fst (sample_kind env par denom cpu kind (pc, s)))"
  using assms(1) sample_kind_other_kind [OF assms(2), of env par denom cpu pc s]
  by (simp add: crit_due_def alert_due_def Let_def)

lemma critical_cpu:
  assumes "crit_due env par denom kind (pm_cpu pm cpu)" and "guard_wf (s_guard s)" and "topo_ok (e_topo env) (ncpu_int (s_guard s))"
    and "cpu \<in> set (tp_online (e_topo env))" and "shares_core (e_topo env) cpu c"
  shows "cpu_full c (s_guard (snd (sample_cpu env par denom cpu (pm, s))))"
    and "pc_crit (pm_cpu (fst (sample_cpu env par denom cpu (pm, s))) cpu)"
proof -
  obtain pc1 s1 where 1: "sample_kind env par denom cpu KG_EV_L1D (pm_cpu pm cpu, s) = (pc1, s1)" by fastforce
  obtain pc2 s2 where 2: "sample_kind env par denom cpu KG_EV_LLC (pc1, s1) = (pc2, s2)" by fastforce
  have e: "sample_cpu env par denom cpu (pm, s) =
      (upd_pmu_cpu cpu (pc2\<lparr>pc_crit := list_ex (\<lambda>l. ucast KG_LEVEL_CRITICAL \<le> l) (live_levels pc2)\<rparr>) pm, s2)"
    using 2 by (simp add: sample_cpu_def 1)
  have k1: "core_kept c s s1" using core_kept_kind [of c s env par denom cpu 0 "pm_cpu pm cpu"] 1 by simp
  have k2: "core_kept c s1 s2" using core_kept_kind [of c s1 env par denom cpu 1 pc1] 2 by simp
  have "cpu_full c (s_guard s2) \<and> pc_ev pc2 ! kind \<and> pc_level pc2 ! kind = ucast KG_LEVEL_CRITICAL \<and> kind < 2"
  proof (cases "kind = 0")
    case True
    note c = critical_kind [OF assms(1-5), unfolded True 1]
    have "pc_level pc2 ! 0 = pc_level pc1 ! 0 \<and> pc_ev pc2 = pc_ev pc1"
      using sample_kind_other_kind [of 0 1 env par denom cpu pc1 s1] 2 by simp
    with c k2 assms(1) True show ?thesis by (simp add: core_kept_def crit_due_def)
  next
    case False
    then have k: "kind = 1" using assms(1) by (simp add: crit_due_def less_2_cases_iff)
    have d: "crit_due env par denom 1 pc1"
      using crit_due_other_kind [of env par denom 1 "pm_cpu pm cpu" 0 cpu s] assms(1) 1 k by simp
    have "guard_wf (s_guard s1)" "topo_ok (e_topo env) (ncpu_int (s_guard s1))"
      using k1 assms(2,3) by (simp_all add: core_kept_def)
    note c = critical_kind [OF d this assms(4,5), unfolded 2]
    with d k show ?thesis by (simp add: crit_due_def)
  qed
  then have f: "cpu_full c (s_guard s2)" and "ucast KG_LEVEL_CRITICAL \<in> set (live_levels pc2)"
    by (auto simp: live_levels_def less_2_cases_iff)
  then have "list_ex (\<lambda>l. ucast KG_LEVEL_CRITICAL \<le> l) (live_levels pc2)" by (auto simp: list_ex_iff)
  with f show "cpu_full c (s_guard (snd (sample_cpu env par denom cpu (pm, s))))"
    and "pc_crit (pm_cpu (fst (sample_cpu env par denom cpu (pm, s))) cpu)" by (simp_all add: e)
qed

lemma sample_cpu_kept:
  "core_kept c s (snd (sample_cpu env par denom cpu (pm, s)))"
  "cpu \<noteq> d \<Longrightarrow> pm_cpu (fst (sample_cpu env par denom cpu (pm, s))) d = pm_cpu pm d"
proof -
  obtain pc1 s1 where 1: "sample_kind env par denom cpu KG_EV_L1D (pm_cpu pm cpu, s) = (pc1, s1)" by fastforce
  obtain pc2 s2 where 2: "sample_kind env par denom cpu KG_EV_LLC (pc1, s1) = (pc2, s2)" by fastforce
  have k: "core_kept c s s1" "core_kept c s1 s2"
    using core_kept_kind [of c s env par denom cpu 0 "pm_cpu pm cpu"] core_kept_kind [of c s1 env par denom cpu 1 pc1] 1 2 by simp_all
  show "core_kept c s (snd (sample_cpu env par denom cpu (pm, s)))"
    using core_kept_trans [OF k] 2 by (simp add: sample_cpu_def 1)
  show "cpu \<noteq> d \<Longrightarrow> pm_cpu (fst (sample_cpu env par denom cpu (pm, s))) d = pm_cpu pm d"
    using 2 by (simp add: sample_cpu_def 1)
qed

lemma sample_cpus_kept:
  "core_kept c (snd ps) (snd (fold (sample_cpu env par denom) cpus ps)) \<and>
   (d \<notin> set cpus \<longrightarrow> pm_cpu (fst (fold (sample_cpu env par denom) cpus ps)) d = pm_cpu (fst ps) d)"
proof (induction cpus arbitrary: ps)
  case (Cons a cpus)
  obtain pm s where ps: "ps = (pm, s)" by fastforce
  show ?case
    using Cons.IH [of "sample_cpu env par denom a ps"] sample_cpu_kept(1) [of c s env par denom a pm] sample_cpu_kept(2) [of a d env par denom pm s] core_kept_trans
    by (auto simp: ps)
qed simp

lemma relax_one_full:
  assumes "cpu_full c (s_guard s)" and "list_ex crit (tp_siblings (e_topo env) c)"
  shows "cpu_full c (s_guard (relax_one env crit cpu s))"
proof (cases "cpu = c")
  case True
  with assms show ?thesis by (simp add: relax_one_def)
next
  case False
  then have "cpu_full c (kg_mit_relax_cpu sha (int cpu) g) = cpu_full c g" for sha g
    by (simp add: kg_mit_relax_cpu_def) (simp add: cpu_full_def split: option.split)
  with assms(1) show ?thesis by (simp add: relax_one_def)
qed

lemma relax_fold_full:
  "cpu_full c (s_guard s) \<Longrightarrow> list_ex crit (tp_siblings (e_topo env) c) \<Longrightarrow>
   cpu_full c (s_guard (fold (relax_one env crit) cpus s))"
  by (induction cpus arbitrary: s) (simp_all add: relax_one_full)

lemma critical_sample:
  assumes "crit_due env par (sample_denom par (e_mono env) (pm_last_ns pm)) kind (pm_cpu pm cpu)"
    and "guard_wf (s_guard s)" and "topo_ok (e_topo env) (ncpu_int (s_guard s))"
    and "cpu \<in> set (tp_online (e_topo env))" and "shares_core (e_topo env) cpu c"
  shows "cpu_full c (s_guard (snd (kg_pmu_sample env par (pm, s))))"
proof -
  let ?d = "sample_denom par (e_mono env) (pm_last_ns pm)"
  let ?f = "fold (sample_cpu env par ?d)"
  let ?ps = "(pm\<lparr>pm_last_ns := e_mono env, pm_work := None\<rparr>, s)"
  obtain xs ys where o: "tp_online (e_topo env) = xs @ cpu # ys" using assms(4) by (metis split_list)
  have dis: "cpu \<notin> set xs" "cpu \<notin> set ys" using assms(3) by (auto simp: topo_ok_def o)
  obtain pm1 s1 where 1: "?f xs ?ps = (pm1, s1)" by fastforce
  obtain pm2 s2 where 2: "sample_cpu env par ?d cpu (pm1, s1) = (pm2, s2)" by fastforce
  obtain pm3 s3 where 3: "?f ys (pm2, s2) = (pm3, s3)" by fastforce
  have all: "?f (tp_online (e_topo env)) ?ps = (pm3, s3)" by (simp add: o 1 2 3)
  have k1: "core_kept c s s1" "pm_cpu pm1 cpu = pm_cpu pm cpu"
    using sample_cpus_kept [of c ?ps env par ?d xs cpu] dis(1) 1 by simp_all
  have i: "guard_wf (s_guard s1)" "topo_ok (e_topo env) (ncpu_int (s_guard s1))"
    using k1(1) assms(2,3) by (simp_all add: core_kept_def)
  have c: "crit_due env par ?d kind (pm_cpu pm1 cpu)" using assms(1) k1(2) by simp
  have f2: "cpu_full c (s_guard s2)" "pc_crit (pm_cpu pm2 cpu)"
    using critical_cpu [OF c i assms(4,5)] by (simp_all add: 2)
  have k3: "core_kept c s2 s3" "pm_cpu pm3 cpu = pm_cpu pm2 cpu"
    using sample_cpus_kept [of c "(pm2, s2)" env par ?d ys cpu] dis(2) 3 by simp_all
  have f3: "cpu_full c (s_guard s3)" "pc_crit (pm_cpu pm3 cpu)" using f2 k3 by (simp_all add: core_kept_def)
  have "cpu \<in> set (tp_siblings (e_topo env) c)" using assms(3-5) by (auto simp: topo_ok_def)
  then have "list_ex (\<lambda>d. pc_crit (pm_cpu pm3 d)) (tp_siblings (e_topo env) c)" using f3(2) by (auto simp: list_ex_iff)
  from relax_fold_full [where s = "s3\<lparr>s_stats := st\<rparr>" for st, OF _ this] f3(1) show ?thesis
    by (simp add: kg_pmu_sample_def Let_def all)
qed

section \<open>Properties\<close>

text \<open>
  C22. A CPU under attack is protected together with its core: if a sampler run finds that the overflow rate of an event has
  reached the critical threshold and the alert is due, then when the run ends that CPU and every online SMT sibling of
  it are at full-spectrum mitigation, whatever the other CPUs did and although the same run puts calm CPUs back to
  their own strategy.
\<close>

theorem critical_cpu_mitigated:
  assumes "guard_wf (s_guard s)" and "topo_ok (e_topo env) (ncpu_int (s_guard s))"
    and "cpu \<in> set (tp_online (e_topo env))" and "kind < 2" and "pc_ev (pm_cpu pm cpu) ! kind" and "length (pc_level (pm_cpu pm cpu)) = 2"
    and "rate = pc_ovf (pm_cpu pm cpu) ! kind * 1000 div sample_denom par (e_mono env) (pm_last_ns pm)"
    and "ucast (snd (kg_pmu_thresholds par)) \<le> rate"
    and "alert_due (e_mono env) (ucast KG_LEVEL_CRITICAL) kind (pm_cpu pm cpu)"
    and "c \<in> set (tp_siblings (e_topo env) cpu)" and "c \<in> set (tp_online (e_topo env))"
  shows "\<exists>cs. g_cpu (s_guard (snd (kg_pmu_sample env par (pm, s)))) = Some cs \<and> m_strategy (cs ! c) = KG_STRAT_FULL"
proof -
  have "pmu_level par rate = ucast KG_LEVEL_CRITICAL"
    using assms(8) by (auto simp: pmu_level_def split: prod.splits)
  then have "crit_due env par (sample_denom par (e_mono env) (pm_last_ns pm)) kind (pm_cpu pm cpu)"
    using assms(4-7,9) by (simp add: crit_due_def)
  from critical_sample [OF this assms(1-3)] assms(10,11)
  have "cpu_full c (s_guard (snd (kg_pmu_sample env par (pm, s))))" by blast
  then show ?thesis by (simp add: cpu_full_def split: option.splits)
qed

definition example_pmu :: kg_pmu where
  "example_pmu = \<lparr>pm_cpu = (\<lambda>cpu. \<lparr>pc_ev = [True, False], pc_ovf = [9000, 0], pc_cand_tgid = 0, pc_cand_cnt = 0, pc_level = [0, 0],
       pc_calm = [0, 0], pc_last_alert_ns = [0, 0], pc_crit = False\<rparr>),
     pm_running = True, pm_stop = False, pm_events = 2, pm_work = None, pm_last_ns = 0, pm_period_l1d = 100000, pm_period_llc = 20000\<rparr>"

definition example_pmu_par :: pmu_par where
  "example_pmu_par = \<lparr>pp_window_ms = 1000, pp_warn = 500, pp_crit = 2000\<rparr>"

theorem critical_cpu_mitigated_witness:
  "\<exists>cs. g_cpu (s_guard (snd (kg_pmu_sample (example_env 2000000000) example_pmu_par (example_pmu, example_sys)))) = Some cs \<and>
     m_strategy (cs ! 1) = KG_STRAT_FULL"
proof -
  let ?env = "example_env 2000000000"
  let ?rate = "pc_ovf (pm_cpu example_pmu 0) ! 0 * 1000 div sample_denom example_pmu_par (e_mono ?env) (pm_last_ns example_pmu)"
  have t: "topo_ok (e_topo ?env) (ncpu_int (s_guard example_sys))"
    by (simp add: topo_ok_def example_guard_def)
  have r: "ucast (snd (kg_pmu_thresholds example_pmu_par)) \<le> ?rate"
    by (simp add: kg_pmu_thresholds_def example_pmu_par_def example_pmu_def sample_denom_def window_ms_def)
  have d: "alert_due (e_mono ?env) (ucast KG_LEVEL_CRITICAL) 0 (pm_cpu example_pmu 0)"
    by (simp add: alert_due_def example_pmu_def kg_const)
  show ?thesis
    by (rule critical_cpu_mitigated [OF _ t _ _ _ _ refl r d])
      (simp_all add: example_guard_wf, simp_all add: example_pmu_def)
qed

text \<open>
  The alert rate of the sampler is bounded whatever the thresholds are: over any sequence of overflows and sampler runs, on a
  clock that does not run backwards, the alerts for one CPU and one event number at most one per second since the last one before.
\<close>

theorem pmu_alert_spacing:
  assumes "pmu_clock t as" and "length (pc_last_alert_ns (pm_cpu pm cpu)) = 2" and "kind < 2" and "cpu < 2 ^ 31"
    and "pc_last_alert_ns (pm_cpu pm cpu) ! kind \<le> t"
  shows "(pmu_alerts cpu kind (snd (fold pmu_do as (pm, s))) - pmu_alerts cpu kind s) * 1000000000 \<le>
    unat (pmu_end t as) - unat (pc_last_alert_ns (pm_cpu pm cpu) ! kind)"
proof -
  let ?a = "unat (pc_last_alert_ns (pm_cpu pm cpu) ! kind)"
  have "pm_paced cpu kind ?a (pmu_alerts cpu kind s) t (pm, s)"
    using assms(2,5) by (simp add: pm_paced_def paced_def word_le_nat_alt)
  from pmu_run_paced [OF assms(1) this assms(3,4)] show ?thesis
    by (auto simp: pm_paced_def paced_def diff_mult_distrib split: prod.splits)
qed

theorem pmu_alert_spacing_witness:
  "(pmu_alerts 0 0 (snd (fold pmu_do [P_sample (example_env 2000000000) example_pmu_par] (example_pmu, example_sys))) -
     pmu_alerts 0 0 example_sys) * 1000000000 \<le> 2000000000"
proof -
  have c: "pmu_clock 1 [P_sample (example_env 2000000000) example_pmu_par]" by simp
  have l: "length (pc_last_alert_ns (pm_cpu example_pmu 0)) = 2" "pc_last_alert_ns (pm_cpu example_pmu 0) ! 0 \<le> 1"
    by (simp_all add: example_pmu_def)
  have e: "unat (pmu_end 1 [P_sample (example_env 2000000000) example_pmu_par]) - unat (pc_last_alert_ns (pm_cpu example_pmu 0) ! 0) = 2000000000"
    by (simp add: example_pmu_def)
  from pmu_alert_spacing [OF c l(1) _ _ l(2), of example_sys] show ?thesis unfolding e by simp
qed

text \<open>
  The task named in an alert is the right one: if, since the vote was last reset, one task was running at more than half of the
  overflows that interrupted user mode on a CPU, then that task is the candidate.
\<close>

theorem pmu_names_majority:
  assumes "\<not> pm_stop pm" and "\<forall>(par, kind, user) \<in> set os. kind < 2" and "pc_cand_cnt (pm_cpu pm cpu) = 0"
    and "length (users_of os) < 2 ^ 31" and "length (users_of os) < 2 * count_list (users_of os) v"
  shows "pc_cand_tgid (pm_cpu (fst (overflow_run cpu os (pm, s))) cpu) = v"
  using overflow_run_votes [OF assms(2), of "(pm, s)" cpu] vote_majority [OF assms(4,3,5)] assms(1) by simp

theorem pmu_names_majority_witness:
  "let o7 = (example_pmu_par, 0, Some 7); o9 = (example_pmu_par, 1, Some 9)
   in pc_cand_tgid (pm_cpu (fst (overflow_run 0 [o9, o7, o7, o9, o7, (example_pmu_par, 0, None)] (example_pmu, example_sys))) 0) = 7"
proof -
  let ?os = "[(example_pmu_par, 1, Some 9), (example_pmu_par, 0, Some 7), (example_pmu_par, 0, Some 7), (example_pmu_par, 1, Some 9),
    (example_pmu_par, 0, Some 7), (example_pmu_par, 0, None)] :: (pmu_par \<times> nat \<times> u32 option) list"
  have u: "users_of ?os = [9, 7, 7, 9, 7]" by (simp add: users_of_def map_filter_simps)
  have m: "length (users_of ?os) < 2 ^ 31" "length (users_of ?os) < 2 * count_list (users_of ?os) 7"
    unfolding u by simp_all
  have "pc_cand_tgid (pm_cpu (fst (overflow_run 0 ?os (example_pmu, example_sys))) 0) = 7"
    by (rule pmu_names_majority [OF _ _ _ m]) (simp_all add: example_pmu_def)
  then show ?thesis by (simp add: Let_def)
qed

text \<open>
  The thresholds every consumer uses: the warning threshold is at least 1, and the critical one is above it, except when the
  warning threshold is the largest number of its type; then the sum wraps and the critical threshold is whatever was
  configured, so that with a configured 0 even a silent window is critical.
\<close>

theorem pmu_threshold_wrap:
  "(case kg_pmu_thresholds par of (warn, crit) \<Rightarrow>
      1 \<le> warn \<and> (if pp_warn par = 0xFFFFFFFF then crit = pp_crit par else warn < crit)) \<and>
   pmu_level \<lparr>pp_window_ms = w, pp_warn = 0xFFFFFFFF, pp_crit = 0\<rparr> 0 = ucast KG_LEVEL_CRITICAL"
proof -
  let ?w = "max (pp_warn par) 1"
  have "?w < max (pp_crit par) (?w + 1)" if "pp_warn par \<noteq> 0xFFFFFFFF"
  proof -
    have "?w \<noteq> 0xFFFFFFFF" using that by (auto simp: max_def)
    moreover have "(0xFFFFFFFF :: u32) = - 1" by simp
    ultimately have "?w + 1 \<noteq> 0" by (metis eq_neg_iff_add_eq_0)
    then have "unat (?w + 1) = Suc (unat ?w)" by (rule unat_plus_one)
    then have "?w < ?w + 1" by (simp add: word_less_nat_alt)
    then show ?thesis by (simp add: less_max_iff_disj)
  qed
  moreover have "max (pp_crit par) (?w + 1) = pp_crit par" if "pp_warn par = 0xFFFFFFFF"
  proof -
    have "?w = 0xFFFFFFFF" unfolding that by (simp add: max_def word_le_nat_alt)
    moreover have "(0xFFFFFFFF :: u32) + 1 = 0" by simp
    ultimately have "?w + 1 = 0" by metis
    then show ?thesis by (simp add: max_absorb1)
  qed
  moreover have "max (0xFFFFFFFF :: u32) 1 + 1 = 0" by (simp add: max_def word_le_nat_alt)
  ultimately show ?thesis
    by (simp add: kg_pmu_thresholds_def Let_def pmu_level_def)
qed

end
