(* ===== verification/KG_Modgate.thy ===== *)
theory KG_Modgate
  imports KG_State
begin

text \<open>
  The driver-load gate (\<^verbatim>\<open>src/linux/module/kg_modgate.c\<close>): the deny and allow lists parsed from the
  module parameters, the lock-mode baseline, the verdict on a module that is being loaded, the
  audit of the operating system's own defences, and the walk over the loaded modules that
  \<^verbatim>\<open>src/linux/module/kg_integrity.c\<close> provides.  Verdicts are reported through the router of
  \<open>KG_State\<close>, so the state of an operation is the pair of the gate and the core.  The module list, the
  answers of the allocator and of the notifier chain, and the facts the audit asks the kernel for are
  arguments.  Strings are NUL-free; a table of fixed-size names is a list, its counter the length.
\<close>

unbundle bit_operations_syntax

section \<open>Structures\<close>

definition KG_GATE_LIST_MAX :: nat where [kg_const]: "KG_GATE_LIST_MAX = 64"
definition KG_GATE_SRCVER_MAX :: nat where [kg_const]: "KG_GATE_SRCVER_MAX = 32"
definition KG_GATE_BASE_MAX :: nat where [kg_const]: "KG_GATE_BASE_MAX = 1024"
definition KG_MAX_BOOT_MODULES :: nat where [kg_const]: "KG_MAX_BOOT_MODULES = 1024"

text \<open>The kernel's bound on a module name, terminator included, on a 64-bit machine.\<close>

definition MODULE_NAME_LEN :: nat where [kg_const]: "MODULE_NAME_LEN = 56"

text \<open>What the gate reads of a kernel \<open>struct module\<close>.\<close>

record kg_module =
  mod_name :: string
  mod_srcversion :: "string option"

text \<open>An entry of the kernel's module list, as the walk sees it; the callback decides what is read of a module.\<close>

record 'm mod_entry =
  me_mod :: 'm
  me_in_area :: bool
  me_this :: bool
  me_live :: bool
  me_get_ok :: bool

datatype module_state = MODULE_STATE_LIVE | MODULE_STATE_COMING | MODULE_STATE_GOING | MODULE_STATE_UNFORMED

record kg_gate_deny =
  d_name :: string
  d_srcver :: string

record kg_gate =
  gt_deny :: "kg_gate_deny list"
  gt_allow :: "string list"
  gt_ignored :: u32
  gt_lock :: bool
  gt_base :: "string list"
  gt_ready :: bool
  gt_registered :: bool
  gt_audited :: bool
  gt_lp_mask :: u32
  gt_lp_raw :: u32
  gt_deny_hits :: u64
  gt_blocked :: u64
  gt_lock_hits :: u64

section \<open>Parsing\<close>

definition kg_gate_sep :: "char \<Rightarrow> bool" where
  "kg_gate_sep c \<longleftrightarrow> c = CHR '','' \<or> c = CHR '' '' \<or> c = CHR 0x09 \<or> c = CHR 0x0A"

text \<open>The next entry and the text behind it; an empty entry means the end.\<close>

definition kg_gate_next :: "string \<Rightarrow> string \<times> string" where
  "kg_gate_next p =
     (let q = dropWhile kg_gate_sep p in (takeWhile (\<lambda>c. \<not> kg_gate_sep c) q, dropWhile (\<lambda>c. \<not> kg_gate_sep c) q))"

definition kg_gate_name_ok :: "string \<Rightarrow> bool" where
  "kg_gate_name_ok s \<longleftrightarrow> s \<noteq> [] \<and> length s < MODULE_NAME_LEN \<and>
     list_all (\<lambda>c. kernel_alnum c \<or> c = CHR ''_'' \<or> c = CHR ''-'' \<or> c = CHR ''.'') s"

definition kg_gate_hex_ok :: "string \<Rightarrow> bool" where
  "kg_gate_hex_ok s \<longleftrightarrow> s \<noteq> [] \<and> length s < KG_GATE_SRCVER_MAX \<and> list_all ascii_xdigit s"

text \<open>An entry is a name, or a name and a version around the first \<open>@\<close>; the name is stored with underscores, the
  version in upper case.\<close>

definition gate_split :: "string \<Rightarrow> string \<times> string option" where
  "gate_split w = (case strchr_split (CHR 0x40) w of None \<Rightarrow> (w, None) | Some (n, v) \<Rightarrow> (n, Some v))"

definition gate_entry_ok :: "bool \<Rightarrow> string \<Rightarrow> bool" where
  "gate_entry_ok is_deny w =
     (case gate_split w of (n, v) \<Rightarrow>
        kg_gate_name_ok n \<and> (case v of None \<Rightarrow> True | Some ver \<Rightarrow> is_deny \<and> kg_gate_hex_ok ver))"

definition gate_norm :: "string \<Rightarrow> string" where
  "gate_norm = map (\<lambda>c. if c = CHR ''-'' then CHR ''_'' else c)"

definition gate_entry :: "bool \<Rightarrow> string \<Rightarrow> kg_gate \<Rightarrow> kg_gate" where
  "gate_entry is_deny w g =
     (if \<not> gate_entry_ok is_deny w then g\<lparr>gt_ignored := gt_ignored g + 1\<rparr>
      else if KG_GATE_LIST_MAX \<le> (if is_deny then length (gt_deny g) else length (gt_allow g))
      then g\<lparr>gt_ignored := gt_ignored g + 1\<rparr>
      else (case gate_split w of (n, v) \<Rightarrow>
              if is_deny
              then g\<lparr>gt_deny := gt_deny g @ [\<lparr>d_name = gate_norm n,
                       d_srcver = (case v of None \<Rightarrow> [] | Some ver \<Rightarrow> map ascii_upper ver)\<rparr>]\<rparr>
              else g\<lparr>gt_allow := gt_allow g @ [gate_norm n]\<rparr>))"

lemma kg_gate_next_shorter: "kg_gate_next p = (w, r) \<Longrightarrow> w \<noteq> [] \<Longrightarrow> length r < length p"
proof -
  assume n: "kg_gate_next p = (w, r)" and w: "w \<noteq> []"
  let ?q = "dropWhile kg_gate_sep p"
  have q: "?q = w @ r" using n by (auto simp: kg_gate_next_def Let_def)
  have "length ?q \<le> length p" by (rule length_dropWhile_le)
  with q w show ?thesis by (cases w) auto
qed

function gate_loop :: "bool \<Rightarrow> string \<Rightarrow> kg_gate \<Rightarrow> kg_gate" where
  "gate_loop is_deny p g =
     (case kg_gate_next p of (w, r) \<Rightarrow> if w = [] then g else gate_loop is_deny r (gate_entry is_deny w g))"
  by pat_completeness auto
termination
  by (relation "measure (\<lambda>(d, p, g). length p)") (auto intro: kg_gate_next_shorter [OF sym])

declare gate_loop.simps [simp del]

definition kg_gate_parse :: "string \<Rightarrow> bool \<Rightarrow> kg_gate \<Rightarrow> kg_gate" where
  "kg_gate_parse csv is_deny g = gate_loop is_deny csv g"

section \<open>Verdicts\<close>

text \<open>
  \<open>strcasecmp\<close> in the kernel also folds the Latin-1 letters; the stored version consists of ASCII digits and
  letters, which no Latin-1 letter folds to, so the comparison is the one of the C locale.
\<close>

definition kg_gate_denied :: "kg_gate \<Rightarrow> kg_module \<Rightarrow> bool" where
  "kg_gate_denied g m = list_ex (\<lambda>d. d_name d = mod_name m \<and>
     (d_srcver d = [] \<or> (case mod_srcversion m of None \<Rightarrow> False | Some v \<Rightarrow> strcaseeq (d_srcver d) v))) (gt_deny g)"

definition kg_gate_trusted :: "kg_gate \<Rightarrow> string \<Rightarrow> bool" where
  "kg_gate_trusted g name = (name \<in> set (gt_allow g) \<or> name \<in> set (gt_base g))"

section \<open>The module list and the baseline\<close>

text \<open>The modules held by \<open>kg_for_each_live_module\<close>, in the order its callback gets them.\<close>

definition kg_for_each_live_module :: "bool \<Rightarrow> 'm mod_entry list \<Rightarrow> errno + 'm list" where
  "kg_for_each_live_module alloc_ok entries =
     (if \<not> alloc_ok then Inl ENOMEM
      else Inr (take KG_MAX_BOOT_MODULES
             (map me_mod (filter (\<lambda>e. \<not> me_this e \<and> me_live e \<and> me_get_ok e) (takeWhile me_in_area entries)))))"

text \<open>\<open>strscpy\<close> into a name field.\<close>

definition name_copy :: "string \<Rightarrow> string" where
  "name_copy s = take (MODULE_NAME_LEN - 1) s"

definition kg_gate_snap_cb :: "kg_module \<Rightarrow> string list \<Rightarrow> string list" where
  "kg_gate_snap_cb m tab = (if length tab < KG_GATE_BASE_MAX then tab @ [name_copy (mod_name m)] else tab)"

text \<open>The system facts an operation of the gate asks for.\<close>

record gate_env =
  ge_tab_ok :: bool
  ge_held_ok :: bool
  ge_modules :: "kg_module mod_entry list"
  ge_register :: "errno option"
  ge_sig_built :: bool
  ge_sig_enforced :: bool
  ge_locked_down :: bool
  ge_secure_boot :: bool

definition kg_gate_snapshot :: "gate_env \<Rightarrow> kg_gate \<Rightarrow> kg_gate \<times> errno option" where
  "kg_gate_snapshot ge g =
     (if \<not> ge_tab_ok ge then (g, Some ENOMEM)
      else (case kg_for_each_live_module (ge_held_ok ge) (ge_modules ge) of
              Inl e \<Rightarrow> (g, Some e)
            | Inr ms \<Rightarrow> (g\<lparr>gt_base := fold kg_gate_snap_cb ms []\<rparr>, None)))"

text \<open>A write to \<open>mod_lock\<close>; \<open>val\<close> is what the kernel's \<open>param_set_bool\<close> made of the text.\<close>

definition kg_gate_cfg_set_lock :: "gate_env \<Rightarrow> errno + bool \<Rightarrow> kg_gate \<Rightarrow> kg_gate \<times> errno option" where
  "kg_gate_cfg_set_lock ge val g =
     (case val of
        Inl e \<Rightarrow> (g, Some e)
      | Inr b \<Rightarrow>
          let was = gt_lock g; g1 = g\<lparr>gt_lock := b\<rparr>
          in if gt_ready g \<and> b \<and> \<not> was
             then (case kg_gate_snapshot ge g1 of
                     (g2, None) \<Rightarrow> (g2, None)
                   | (g2, Some e) \<Rightarrow> (g2\<lparr>gt_lock := was\<rparr>, Some e))
             else (g1, None))"

section \<open>The gate\<close>

text \<open>\<open>strscpy_pad\<close> into 16 bytes, read back as two little-endian words.\<close>

definition kg_pack_name :: "string \<Rightarrow> u64 \<times> u64" where
  "kg_pack_name s =
     (let b = map (\<lambda>c. of_nat (cval c)) (take 15 s) @ replicate (16 - length (take 15 s)) 0
      in (of_nat (le_val (take 8 b)), of_nat (le_val (drop 8 b))))"

type_synonym gate_sys = "kg_gate \<times> kg_sys"

definition kg_gate_notify :: "kg_env \<Rightarrow> module_state \<Rightarrow> bool \<Rightarrow> kg_module \<Rightarrow> gate_sys \<Rightarrow> gate_sys \<times> errno option" where
  "kg_gate_notify env action this_module m gs =
     (case gs of (g, s) \<Rightarrow>
        if action \<noteq> MODULE_STATE_COMING \<or> this_module then ((g, s), None)
        else
          let denied = kg_gate_denied g m;
              locked = (\<not> denied \<and> gt_lock g \<and> \<not> kg_gate_trusted g (mod_name m))
          in if \<not> denied \<and> \<not> locked then ((g, s), None)
             else
               let g1 = (if denied then g\<lparr>gt_deny_hits := gt_deny_hits g + 1\<rparr>
                         else g\<lparr>gt_lock_hits := gt_lock_hits g + 1\<rparr>);
                   (n0, n1) = kg_pack_name (mod_name m)
               in if kg_enforcing (e_par env) (s_guard s)
                  then ((g1\<lparr>gt_blocked := gt_blocked g1 + 1\<rparr>,
                         kg_report env KG_ALERT_DRIVER_BLOCKED (if denied then KG_LEVEL_CRITICAL else KG_LEVEL_WATCH) n0 n1 s),
                        Some EPERM)
                  else if denied
                  then ((g1, kg_report env KG_ALERT_VULN_DRIVER KG_LEVEL_CRITICAL n0 n1 s), None)
                  else ((g1, kg_report env KG_ALERT_MODULE_LOADED KG_LEVEL_WATCH n0 n1 s), None))"

definition kg_gate_walk_cb :: "kg_env \<Rightarrow> kg_module \<Rightarrow> gate_sys \<Rightarrow> gate_sys" where
  "kg_gate_walk_cb env m gs =
     (case gs of (g, s) \<Rightarrow>
        if \<not> kg_gate_denied g m then (g, s)
        else let (n0, n1) = kg_pack_name (mod_name m)
             in (g\<lparr>gt_deny_hits := gt_deny_hits g + 1\<rparr>, kg_report env KG_ALERT_VULN_DRIVER KG_LEVEL_WATCH n0 n1 s))"

definition kg_gate_audit :: "kg_env \<Rightarrow> gate_env \<Rightarrow> gate_sys \<Rightarrow> gate_sys" where
  "kg_gate_audit env ge gs =
     (case gs of (g, s) \<Rightarrow>
        let raw = flag (ge_sig_built ge) KG_LP_RAW_SIG_BUILT OR flag (ge_sig_enforced ge) KG_LP_RAW_SIG_ENFORCE OR
              flag (ge_locked_down ge) KG_LP_RAW_LOCKDOWN OR flag (ge_secure_boot ge) KG_LP_RAW_SECUREBOOT;
            weak = flag (\<not> ge_sig_enforced ge) KG_LP_NO_SIG_ENFORCE OR flag (\<not> ge_locked_down ge) KG_LP_NO_LOCKDOWN OR
              flag (\<not> ge_secure_boot ge) KG_LP_NO_SECUREBOOT
        in (g\<lparr>gt_lp_mask := weak, gt_lp_raw := raw, gt_audited := True\<rparr>,
            kg_report env KG_ALERT_LOAD_POLICY (if weak \<noteq> 0 then KG_LEVEL_WATCH else KG_LEVEL_INFO) (ucast weak) (ucast raw) s))"

section \<open>Query, start and stop\<close>

definition KG_MODGATE_F_ACTIVE :: u32 where [kg_const]: "KG_MODGATE_F_ACTIVE = 1"
definition KG_MODGATE_F_LOCK :: u32 where [kg_const]: "KG_MODGATE_F_LOCK = 2"
definition KG_MODGATE_F_ENFORCING :: u32 where [kg_const]: "KG_MODGATE_F_ENFORCING = 4"
definition KG_MODGATE_F_AUDITED :: u32 where [kg_const]: "KG_MODGATE_F_AUDITED = 8"

record kg_modgate_info =
  mi_flags :: u32
  mi_n_deny :: u32
  mi_n_allow :: u32
  mi_n_baseline :: u32
  mi_deny_hits :: u64
  mi_blocked :: u64
  mi_lock_hits :: u64
  mi_lp_mask :: u32
  mi_lp_raw :: u32
  mi_ignored :: u32

definition kg_modgate_info_of :: "kg_params \<Rightarrow> gate_sys \<Rightarrow> kg_modgate_info" where
  "kg_modgate_info_of par gs =
     (case gs of (g, s) \<Rightarrow>
        \<lparr>mi_flags = flag (gt_registered g) KG_MODGATE_F_ACTIVE OR
            flag (gt_registered g \<and> kg_enforcing par (s_guard s)) KG_MODGATE_F_ENFORCING OR
            flag (gt_lock g) KG_MODGATE_F_LOCK OR flag (gt_audited g) KG_MODGATE_F_AUDITED,
         mi_n_deny = of_nat (length (gt_deny g)), mi_n_allow = of_nat (length (gt_allow g)),
         mi_n_baseline = of_nat (length (gt_base g)), mi_deny_hits = gt_deny_hits g, mi_blocked = gt_blocked g,
         mi_lock_hits = gt_lock_hits g, mi_lp_mask = gt_lp_mask g, mi_lp_raw = gt_lp_raw g, mi_ignored = gt_ignored g\<rparr>)"

definition kg_modgate_exit :: "kg_gate \<Rightarrow> kg_gate" where
  "kg_modgate_exit g = g\<lparr>gt_registered := False, gt_ready := False, gt_base := []\<rparr>"

text \<open>The state the module is loaded with, for a given \<open>mod_lock\<close> parameter.\<close>

definition gate_loaded :: "bool \<Rightarrow> kg_gate" where
  "gate_loaded lock = \<lparr>gt_deny = [], gt_allow = [], gt_ignored = 0, gt_lock = lock, gt_base = [], gt_ready = False,
     gt_registered = False, gt_audited = False, gt_lp_mask = 0, gt_lp_raw = 0, gt_deny_hits = 0, gt_blocked = 0,
     gt_lock_hits = 0\<rparr>"

definition gate_start :: "gate_env \<Rightarrow> string \<Rightarrow> string \<Rightarrow> kg_gate \<Rightarrow> kg_gate" where
  "gate_start ge deny allow g =
     (let g1 = kg_gate_parse allow False (kg_gate_parse deny True g);
          g2 = (if gt_lock g1
                then (case kg_gate_snapshot ge g1 of (g', None) \<Rightarrow> g' | (g', Some e) \<Rightarrow> g'\<lparr>gt_lock := False\<rparr>)
                else g1)
      in g2\<lparr>gt_ready := True\<rparr>)"

definition kg_modgate_init ::
  "kg_env \<Rightarrow> gate_env \<Rightarrow> bool \<Rightarrow> string \<Rightarrow> string \<Rightarrow> gate_sys \<Rightarrow> gate_sys \<times> errno option" where
  "kg_modgate_init env ge enabled deny allow gs =
     (case gs of (g, s) \<Rightarrow>
        if \<not> enabled then ((g, s), None)
        else
          let g1 = gate_start ge deny allow g
          in case ge_register ge of
               Some e \<Rightarrow> ((kg_modgate_exit g1, s), Some e)
             | None \<Rightarrow>
                 let g2 = g1\<lparr>gt_registered := True\<rparr>;
                     gs1 = (if gt_deny g2 = [] then (g2, s)
                            else (case kg_for_each_live_module (ge_held_ok ge) (ge_modules ge) of
                                    Inl e \<Rightarrow> (g2, s)
                                  | Inr ms \<Rightarrow> fold (kg_gate_walk_cb env) ms (g2, s)))
                 in (kg_gate_audit env ge gs1, None))"

section \<open>What the parser accepts\<close>

text \<open>Reference: the entries of a parameter are its non-empty separator-free runs.\<close>

fun gate_runs :: "string \<Rightarrow> string list" where
  "gate_runs [] = [[]]"
| "gate_runs (c # cs) =
     (if kg_gate_sep c then [] # gate_runs cs
      else (case gate_runs cs of [] \<Rightarrow> [[c]] | w # ws \<Rightarrow> (c # w) # ws))"

definition gate_words :: "string \<Rightarrow> string list" where
  "gate_words s = filter (\<lambda>w. w \<noteq> []) (gate_runs s)"

definition deny_of :: "string \<Rightarrow> kg_gate_deny" where
  "deny_of w = (case gate_split w of (n, v) \<Rightarrow>
     \<lparr>d_name = gate_norm n, d_srcver = (case v of None \<Rightarrow> [] | Some ver \<Rightarrow> map ascii_upper ver)\<rparr>)"

lemma gate_runs_ne [simp]: "gate_runs s \<noteq> []"
  by (induction s) (auto split: list.splits)

lemma gate_words_skip: "gate_words (dropWhile kg_gate_sep p) = gate_words p"
  by (induction p) (simp_all add: gate_words_def)

lemma gate_runs_first:
  "gate_runs q = takeWhile (\<lambda>c. \<not> kg_gate_sep c) q # tl (gate_runs (dropWhile (\<lambda>c. \<not> kg_gate_sep c) q))"
proof (induction q)
  case (Cons c q)
  show ?case
  proof (cases "kg_gate_sep c")
    case False
    then show ?thesis by (simp, subst Cons.IH, simp)
  qed simp
qed simp

lemma gate_words_rest:
  "filter (\<lambda>w. w \<noteq> []) (tl (gate_runs (dropWhile (\<lambda>c. \<not> kg_gate_sep c) q))) =
     gate_words (dropWhile (\<lambda>c. \<not> kg_gate_sep c) q)"
proof (cases "dropWhile (\<lambda>c. \<not> kg_gate_sep c) q")
  case (Cons c cs)
  then have "kg_gate_sep c" using hd_dropWhile [of "\<lambda>c. \<not> kg_gate_sep c" q] by simp
  with Cons show ?thesis by (simp add: gate_words_def)
next
  case Nil
  show ?thesis unfolding Nil by (simp add: gate_words_def)
qed

lemma gate_words_next:
  assumes "kg_gate_next p = (w, r)"
  shows "gate_words p = (if w = [] then [] else w # gate_words r)"
proof -
  let ?q = "dropWhile kg_gate_sep p"
  have w: "w = takeWhile (\<lambda>c. \<not> kg_gate_sep c) ?q" and r: "r = dropWhile (\<lambda>c. \<not> kg_gate_sep c) ?q"
    using assms by (auto simp: kg_gate_next_def Let_def)
  have e: "gate_words p = filter (\<lambda>w. w \<noteq> []) (gate_runs ?q)"
    using gate_words_skip [of p] by (simp add: gate_words_def)
  have f: "gate_words p = (if w = [] then gate_words r else w # gate_words r)"
    unfolding e by (subst gate_runs_first) (simp add: w [symmetric] r gate_words_rest)
  have q: "?q = []" if "w = []"
  proof (rule ccontr)
    assume "?q \<noteq> []"
    then have "\<not> kg_gate_sep (hd ?q)" by (rule hd_dropWhile)
    with \<open>?q \<noteq> []\<close> have "w \<noteq> []" by (cases ?q) (auto simp: w)
    with that show False by simp
  qed
  have "gate_words r = []" if "w = []"
    unfolding r q [OF that] by (simp add: gate_words_def)
  with f show ?thesis by simp
qed

lemma gate_loop_fold: "gate_loop d p g = fold (gate_entry d) (gate_words p) g"
proof (induction d p g rule: gate_loop.induct)
  case (1 d p g)
  obtain w r where n: "kg_gate_next p = (w, r)" by fastforce
  show ?case
    using 1 [OF n [symmetric]] gate_words_next [OF n] by (subst gate_loop.simps) (simp add: n)
qed

lemma deny_fold:
  assumes "length (gt_deny g) \<le> KG_GATE_LIST_MAX"
  shows "gt_deny (fold (gate_entry True) ws g) =
     gt_deny g @ take (KG_GATE_LIST_MAX - length (gt_deny g)) (map deny_of (filter (gate_entry_ok True) ws))"
  using assms
proof (induction ws arbitrary: g)
  case (Cons w ws)
  show ?case
  proof (cases "gate_entry_ok True w \<and> length (gt_deny g) < KG_GATE_LIST_MAX")
    case True
    let ?n = "KG_GATE_LIST_MAX - Suc (length (gt_deny g))"
    have d: "gt_deny (gate_entry True w g) = gt_deny g @ [deny_of w]"
      using True by (auto simp: gate_entry_def deny_of_def split: prod.splits)
    have "KG_GATE_LIST_MAX - length (gt_deny g) = Suc ?n" using True by (simp add: Suc_diff_Suc)
    with True d Cons.IH [of "gate_entry True w g"] show ?thesis by simp
  next
    case False
    then have d: "gt_deny (gate_entry True w g) = gt_deny g" by (auto simp: gate_entry_def)
    from False Cons.prems consider "\<not> gate_entry_ok True w" | "length (gt_deny g) = KG_GATE_LIST_MAX" by linarith
    then show ?thesis by cases (use Cons.prems Cons.IH [of "gate_entry True w g"] d in simp_all)
  qed
qed simp

lemma allow_fold:
  assumes "length (gt_allow g) \<le> KG_GATE_LIST_MAX"
  shows "gt_allow (fold (gate_entry False) ws g) =
     gt_allow g @ take (KG_GATE_LIST_MAX - length (gt_allow g)) (map gate_norm (filter (gate_entry_ok False) ws))"
  using assms
proof (induction ws arbitrary: g)
  case (Cons w ws)
  show ?case
  proof (cases "gate_entry_ok False w \<and> length (gt_allow g) < KG_GATE_LIST_MAX")
    case True
    let ?n = "KG_GATE_LIST_MAX - Suc (length (gt_allow g))"
    have "snd (gate_split w) = None"
      using True by (auto simp: gate_entry_ok_def split: prod.splits option.splits)
    then have "gate_split w = (w, None)"
      by (auto simp: gate_split_def split: option.splits prod.splits)
    then have d: "gt_allow (gate_entry False w g) = gt_allow g @ [gate_norm w]"
      using True by (auto simp: gate_entry_def)
    have "KG_GATE_LIST_MAX - length (gt_allow g) = Suc ?n" using True by (simp add: Suc_diff_Suc)
    with True d Cons.IH [of "gate_entry False w g"] show ?thesis by simp
  next
    case False
    then have d: "gt_allow (gate_entry False w g) = gt_allow g" by (auto simp: gate_entry_def)
    from False Cons.prems consider "\<not> gate_entry_ok False w" | "length (gt_allow g) = KG_GATE_LIST_MAX" by linarith
    then show ?thesis by cases (use Cons.prems Cons.IH [of "gate_entry False w g"] d in simp_all)
  qed
qed simp

lemma entry_frame [simp]:
  "gt_allow (gate_entry True w g) = gt_allow g" "gt_deny (gate_entry False w g) = gt_deny g"
  "gt_lock (gate_entry d w g) = gt_lock g" "gt_base (gate_entry d w g) = gt_base g"
  by (simp_all add: gate_entry_def split: prod.split)

lemma fold_entry_frame [simp]:
  "gt_allow (fold (gate_entry True) ws g) = gt_allow g" "gt_deny (fold (gate_entry False) ws g) = gt_deny g"
  "gt_lock (fold (gate_entry d) ws g) = gt_lock g" "gt_base (fold (gate_entry d) ws g) = gt_base g"
  by (induction ws arbitrary: g) simp_all

text \<open>Entry by entry: a listed name denies, with a version only that version.\<close>

definition entry_denies :: "kg_module \<Rightarrow> string \<Rightarrow> bool" where
  "entry_denies m w = (case gate_split w of (n, v) \<Rightarrow> gate_norm n = mod_name m \<and>
     (case v of None \<Rightarrow> True
      | Some ver \<Rightarrow> (case mod_srcversion m of None \<Rightarrow> False | Some sv \<Rightarrow> strcaseeq ver sv)))"

lemma entry_denies_of:
  assumes "gate_entry_ok True w"
  shows "d_name (deny_of w) = mod_name m \<and> (d_srcver (deny_of w) = [] \<or>
     (case mod_srcversion m of None \<Rightarrow> False | Some v \<Rightarrow> strcaseeq (d_srcver (deny_of w)) v)) \<longleftrightarrow> entry_denies m w"
  using assms
  by (auto simp: deny_of_def entry_denies_def gate_entry_ok_def kg_gate_hex_ok_def strcaseeq_def comp_def
      split: prod.splits option.splits)

lemma start_lists:
  "gt_deny (gate_start ge deny allow g) = gt_deny (fold (gate_entry True) (gate_words deny) g)"
  "gt_allow (gate_start ge deny allow g) =
     gt_allow (fold (gate_entry False) (gate_words allow) (fold (gate_entry True) (gate_words deny) g))"
  by (auto simp: gate_start_def Let_def kg_gate_parse_def gate_loop_fold kg_gate_snapshot_def
      split: prod.splits option.splits sum.splits)

section \<open>The gate at work\<close>

text \<open>What happens while the gate is registered: module loads, writes to \<open>mod_lock\<close>, and everything the core does.\<close>

datatype gate_act = G_load kg_module | G_lock gate_env "errno + bool" | G_core kg_act

fun gate_do :: "kg_env \<Rightarrow> gate_act \<Rightarrow> gate_sys \<Rightarrow> gate_sys" where
  "gate_do env (G_load m) gs = fst (kg_gate_notify env MODULE_STATE_COMING False m gs)"
| "gate_do env (G_lock ge val) gs = (fst (kg_gate_cfg_set_lock ge val (fst gs)), snd gs)"
| "gate_do env (G_core a) gs = (fst gs, sys_do env a (snd gs))"

fun gate_run :: "(kg_env \<times> gate_act) list \<Rightarrow> gate_sys \<Rightarrow> gate_sys" where
  "gate_run [] gs = gs"
| "gate_run ((env, a) # as) gs = gate_run as (gate_do env a gs)"

definition gate_flagged :: "kg_gate \<Rightarrow> kg_module \<Rightarrow> bool" where
  "gate_flagged g m \<longleftrightarrow> kg_gate_denied g m \<or> (gt_lock g \<and> \<not> kg_gate_trusted g (mod_name m))"

definition verdict_alert :: "kg_env \<Rightarrow> kg_gate \<Rightarrow> kg_sys \<Rightarrow> kg_module \<Rightarrow> u32 \<times> u32" where
  "verdict_alert env g s m =
     (if kg_enforcing (e_par env) (s_guard s)
      then (KG_ALERT_DRIVER_BLOCKED, if kg_gate_denied g m then KG_LEVEL_CRITICAL else KG_LEVEL_WATCH)
      else if kg_gate_denied g m then (KG_ALERT_VULN_DRIVER, KG_LEVEL_CRITICAL) else (KG_ALERT_MODULE_LOADED, KG_LEVEL_WATCH))"

lemma notify_core:
  "snd (fst (kg_gate_notify env MODULE_STATE_COMING False m (g, s))) =
     (if gate_flagged g m
      then kg_report env (fst (verdict_alert env g s m)) (snd (verdict_alert env g s m))
             (fst (kg_pack_name (mod_name m))) (snd (kg_pack_name (mod_name m))) s
      else s)"
  by (simp add: kg_gate_notify_def gate_flagged_def verdict_alert_def Let_def split: prod.splits)

lemma notify_result:
  "snd (kg_gate_notify env MODULE_STATE_COMING False m (g, s)) =
     (if gate_flagged g m \<and> kg_enforcing (e_par env) (s_guard s) then Some EPERM else None)"
  by (auto simp: kg_gate_notify_def gate_flagged_def Let_def split: prod.splits)

lemma verdict_frame [simp]:
  "gt_deny (fst (fst (kg_gate_notify env a t m gs))) = gt_deny (fst gs)"
  "gt_allow (fst (fst (kg_gate_notify env a t m gs))) = gt_allow (fst gs)"
  "gt_lock (fst (fst (kg_gate_notify env a t m gs))) = gt_lock (fst gs)"
  "gt_base (fst (fst (kg_gate_notify env a t m gs))) = gt_base (fst gs)"
  by (cases gs; simp add: kg_gate_notify_def Let_def split: prod.splits)+

lemma set_lock_deny [simp]: "gt_deny (fst (kg_gate_cfg_set_lock ge val g)) = gt_deny g"
  by (auto simp: kg_gate_cfg_set_lock_def Let_def kg_gate_snapshot_def split: sum.splits prod.splits option.splits)

lemma gate_do_deny [simp]: "gt_deny (fst (gate_do env a gs)) = gt_deny (fst gs)"
  by (cases a) simp_all

lemma gate_run_deny [simp]: "gt_deny (fst (gate_run as gs)) = gt_deny (fst gs)"
  by (induction as gs rule: gate_run.induct) simp_all

lemma denied_cong: "gt_deny g = gt_deny g' \<Longrightarrow> kg_gate_denied g m = kg_gate_denied g' m"
  by (simp add: kg_gate_denied_def)

lemma report_ready [simp]: "pos_ready (s_pos (kg_report env type level p1 p2 s)) = pos_ready (s_pos s)"
proof -
  have r: "s_pos (dispatch_actions env type level p2 (deliver env type level p1 p2 s)) = s_pos s"
    using report_ready_frame [of env s type level p2 p1] by (simp add: quiet_def)
  show ?thesis
    by (cases "pos_ready (s_pos s)")
      (simp_all add: kg_report.simps kg_dispatch.simps r raise_effect(4) [OF _ refl] raise_not_ready split: option.split)
qed

text \<open>Above ELEVATED only the operator lowers the posture.\<close>

lemma high_kept:
  assumes "KG_POSTURE_HIGH \<le> sys_posture s" and "\<nexists>t. a = A_set t"
  shows "KG_POSTURE_HIGH \<le> sys_posture (sys_do env a s)"
proof (cases a)
  case (A_report type level p1 p2)
  then show ?thesis using assms(1) report_not_lower [of s env type level p1 p2] by simp
next
  case (A_set t)
  with assms(2) show ?thesis by simp
next
  case A_decay
  then show ?thesis using assms(1) high_above_elevated by (auto simp: decay_posture_eq)
qed (use assms in simp_all)

lemma high_kept_gate:
  assumes "KG_POSTURE_HIGH \<le> sys_posture (snd gs)" and "\<nexists>t. a = G_core (A_set t)"
  shows "KG_POSTURE_HIGH \<le> sys_posture (snd (gate_do env a gs))"
proof (cases a)
  case (G_load m)
  obtain g s where gs: "gs = (g, s)" by fastforce
  show ?thesis
    using assms(1) report_not_lower [of s env] order_trans
    unfolding gs G_load by (simp add: notify_core) blast
next
  case (G_core b)
  with assms show ?thesis by (simp add: high_kept)
qed (use assms in simp)

lemma high_kept_run:
  assumes "KG_POSTURE_HIGH \<le> sys_posture (snd gs)" and "\<forall>(env, a) \<in> set as. \<nexists>t. a = G_core (A_set t)"
  shows "KG_POSTURE_HIGH \<le> sys_posture (snd (gate_run as gs))"
  using assms
proof (induction as gs rule: gate_run.induct)
  case (2 env a as gs)
  then have "KG_POSTURE_HIGH \<le> sys_posture (snd (gate_do env a gs))" by (intro high_kept_gate) auto
  with 2 show ?case by simp
qed simp

text \<open>A denied load that is only reported takes the posture to HIGH.\<close>

lemma denied_load_raises:
  assumes "kg_gate_denied g m" and "\<not> kg_enforcing (e_par env) (s_guard s)" and "pos_ready (s_pos s)"
    and "KG_POSTURE_HIGH \<le> par_max_posture (e_par env)"
  shows "KG_POSTURE_HIGH \<le> sys_posture (snd (fst (kg_gate_notify env MODULE_STATE_COMING False m (g, s))))"
proof -
  have f: "gate_flagged g m" using assms(1) by (simp add: gate_flagged_def)
  have v: "verdict_alert env g s m = (KG_ALERT_VULN_DRIVER, KG_LEVEL_CRITICAL)"
    using assms(1,2) by (simp add: verdict_alert_def)
  have t: "dispatch_target KG_ALERT_VULN_DRIVER KG_LEVEL_CRITICAL = Some KG_POSTURE_HIGH"
    by (simp add: dispatch_target_def kg_const)
  have "KG_POSTURE_HIGH \<le> KG_POSTURE_FAILSAFE" by (simp add: kg_const)
  then have "KG_POSTURE_HIGH \<le> min KG_POSTURE_HIGH (posture_cap (e_par env))"
    using assms(4) by (simp add: posture_cap_def)
  then show ?thesis
    using f v t assms(3) by (simp add: notify_core report_posture_eq le_max_iff_disj)
qed

section \<open>The baseline\<close>

lemma snap_fold:
  "length tab \<le> KG_GATE_BASE_MAX \<Longrightarrow>
   fold kg_gate_snap_cb ms tab = tab @ take (KG_GATE_BASE_MAX - length tab) (map (\<lambda>m. name_copy (mod_name m)) ms)"
proof (induction ms arbitrary: tab)
  case (Cons m ms)
  show ?case
  proof (cases "length tab < KG_GATE_BASE_MAX")
    case True
    then have "KG_GATE_BASE_MAX - length tab = Suc (KG_GATE_BASE_MAX - Suc (length tab))" by (simp add: Suc_diff_Suc)
    with True Cons.IH [of "tab @ [name_copy (mod_name m)]"] show ?thesis by (simp add: kg_gate_snap_cb_def)
  next
    case False
    with Cons show ?thesis by (simp add: kg_gate_snap_cb_def)
  qed
qed simp

definition live_modules :: "kg_module mod_entry list \<Rightarrow> kg_module list" where
  "live_modules es = map me_mod (filter (\<lambda>e. \<not> me_this e \<and> me_live e \<and> me_get_ok e) (takeWhile me_in_area es))"

lemma snapshot_cases:
  "kg_gate_snapshot ge g =
     (if ge_tab_ok ge \<and> ge_held_ok ge
      then (g\<lparr>gt_base := take 1024 (map (\<lambda>m. name_copy (mod_name m)) (live_modules (ge_modules ge)))\<rparr>, None)
      else (g, Some ENOMEM))"
  by (simp add: kg_gate_snapshot_def kg_for_each_live_module_def live_modules_def snap_fold KG_GATE_BASE_MAX_def
      KG_MAX_BOOT_MODULES_def take_map)

lemma denied_start:
  "kg_gate_denied (gate_start ge deny allow (gate_loaded lock)) m \<longleftrightarrow>
     (\<exists>w \<in> set (take 64 (filter (gate_entry_ok True) (gate_words deny))). entry_denies m w)"
proof -
  let ?ws = "take 64 (filter (gate_entry_ok True) (gate_words deny))"
  have "gt_deny (gate_start ge deny allow (gate_loaded lock)) = map deny_of ?ws"
    unfolding start_lists by (subst deny_fold) (simp_all add: gate_loaded_def KG_GATE_LIST_MAX_def take_map)
  moreover have "gate_entry_ok True w" if "w \<in> set ?ws" for w
    using that by (auto dest: in_set_takeD)
  ultimately show ?thesis
    unfolding kg_gate_denied_def list_ex_iff by (simp only: set_map bex_simps(7)) (rule bex_cong [OF refl], rule entry_denies_of)
qed

section \<open>Properties\<close>

text \<open>
  The deny list means what it says: after start-up a module is denied exactly when one of the first 64
  well-formed entries of \<open>mod_deny\<close> names it (a hyphen in the entry standing for an underscore), either for every
  version or for the module's own \<open>srcversion\<close>, compared without regard to case; a malformed entry never denies anything.
\<close>

theorem deny_list_correct:
  "kg_gate_denied (gate_start ge deny allow (gate_loaded lock)) m \<longleftrightarrow>
     (\<exists>w \<in> set (take 64 (filter (gate_entry_ok True) (gate_words deny))). entry_denies m w)"
  by (rule denied_start)

text \<open>
  C30. The verdict on a module that is being loaded: it is flagged when it is denied, or when lock mode is on and it is neither
  allowed nor in the baseline.  A flagged load is refused with \<open>EPERM\<close> exactly while the driver is enforcing; it is counted
  once, as a deny or as a lock hit, and as blocked when it is refused; and before anything else
  happens it is delivered to the alert channel, as DRIVER_BLOCKED when refused and as VULN_DRIVER or MODULE_LOADED when
  only reported.  A load that is not flagged changes nothing.
\<close>

theorem gate_verdict:
  assumes "kg_gate_notify env MODULE_STATE_COMING False m (g, s) = ((g', s'), r)"
    and "flagged \<longleftrightarrow> kg_gate_denied g m \<or> (gt_lock g \<and> \<not> kg_gate_trusted g (mod_name m))"
    and "enforcing \<longleftrightarrow> kg_enforcing (e_par env) (s_guard s)" and "denied \<longleftrightarrow> kg_gate_denied g m"
  shows "r = (if flagged \<and> enforcing then Some EPERM else None) \<and>
    (if flagged
     then g' = g\<lparr>gt_deny_hits := gt_deny_hits g + of_bool denied, gt_lock_hits := gt_lock_hits g + of_bool (\<not> denied),
            gt_blocked := gt_blocked g + of_bool enforcing\<rparr> \<and>
       (\<exists>x evs. s_trace s' = s_trace s @
          Ev_notify (if enforcing then KG_ALERT_DRIVER_BLOCKED else if denied then KG_ALERT_VULN_DRIVER else KG_ALERT_MODULE_LOADED)
            (if denied then KG_LEVEL_CRITICAL else KG_LEVEL_WATCH)
            (fst (kg_pack_name (mod_name m))) (snd (kg_pack_name (mod_name m))) x # evs)
     else g' = g \<and> s' = s)"
proof -
  have f: "flagged \<longleftrightarrow> gate_flagged g m" by (simp add: assms(2) gate_flagged_def)
  have s': "s' = snd (fst (kg_gate_notify env MODULE_STATE_COMING False m (g, s)))" by (simp add: assms(1))
  have "r = (if flagged \<and> enforcing then Some EPERM else None)"
    using notify_result [of env m g s] by (simp add: assms(1,3) f)
  moreover have "g' = g \<and> s' = s" if "\<not> flagged"
    using assms(1) that by (auto simp: f gate_flagged_def kg_gate_notify_def)
  moreover have "g' = g\<lparr>gt_deny_hits := gt_deny_hits g + of_bool denied,
      gt_lock_hits := gt_lock_hits g + of_bool (\<not> denied), gt_blocked := gt_blocked g + of_bool enforcing\<rparr>" if "flagged"
    using assms(1) that
    by (auto simp: f gate_flagged_def assms(3,4) kg_gate_notify_def Let_def split: prod.splits if_splits)
  moreover have "\<exists>x evs. s_trace s' = s_trace s @
      Ev_notify (if enforcing then KG_ALERT_DRIVER_BLOCKED else if denied then KG_ALERT_VULN_DRIVER else KG_ALERT_MODULE_LOADED)
        (if denied then KG_LEVEL_CRITICAL else KG_LEVEL_WATCH)
        (fst (kg_pack_name (mod_name m))) (snd (kg_pack_name (mod_name m))) x # evs" if "flagged"
    using that report_delivers_first [of env _ _ _ _ s]
    unfolding s' notify_core f by (simp add: verdict_alert_def assms(3,4))
  ultimately show ?thesis by simp
qed

definition example_gate_env :: gate_env where
  "example_gate_env = \<lparr>ge_tab_ok = True, ge_held_ok = True,
     ge_modules = [\<lparr>me_mod = \<lparr>mod_name = ''ext4'', mod_srcversion = None\<rparr>, me_in_area = True, me_this = False,
       me_live = True, me_get_ok = True\<rparr>],
     ge_register = None, ge_sig_built = True, ge_sig_enforced = True, ge_locked_down = False, ge_secure_boot = False\<rparr>"

definition example_gate :: kg_gate where
  "example_gate = gate_start example_gate_env ''rt-core@ab12'' [] (gate_loaded False)"

definition bad_driver :: kg_module where
  "bad_driver = \<lparr>mod_name = ''rt_core'', mod_srcversion = Some ''AB12''\<rparr>"

lemmas example_gate_eval = example_gate_def gate_start_def Let_def kg_gate_parse_def gate_loaded_def
  gate_loop_fold gate_words_def kg_gate_sep_def gate_entry_def gate_entry_ok_def gate_split_def kg_gate_name_ok_def
  kg_gate_hex_ok_def kernel_alnum_def gate_norm_def kg_gate_denied_def ascii_upper_def cstring_eval kg_const

lemma bad_driver_denied: "kg_gate_denied example_gate bad_driver"
  by (simp add: bad_driver_def example_gate_eval)

theorem gate_verdict_witness:
  "snd (kg_gate_notify (example_env 2) MODULE_STATE_COMING False bad_driver (example_gate, example_sys)) = None \<and>
   (\<exists>x evs. s_trace (snd (fst (kg_gate_notify (example_env 2) MODULE_STATE_COMING False bad_driver (example_gate, example_sys)))) =
      Ev_notify KG_ALERT_VULN_DRIVER KG_LEVEL_CRITICAL (fst (kg_pack_name ''rt_core'')) (snd (kg_pack_name ''rt_core'')) x # evs)"
proof -
  obtain g' s' r where n: "kg_gate_notify (example_env 2) MODULE_STATE_COMING False bad_driver (example_gate, example_sys) = ((g', s'), r)"
    by (metis prod.collapse)
  have e: "False \<longleftrightarrow> kg_enforcing (e_par (example_env 2)) (s_guard example_sys)"
    by (simp add: kg_enforcing_def example_par_def kg_const)
  have d: "True \<longleftrightarrow> kg_gate_denied example_gate bad_driver" by (simp add: bad_driver_denied)
  have f: "True \<longleftrightarrow> kg_gate_denied example_gate bad_driver \<or> (gt_lock example_gate \<and> \<not> kg_gate_trusted example_gate (mod_name bad_driver))"
    by (simp add: bad_driver_denied)
  have b: "mod_name bad_driver = ''rt_core''" by (simp add: bad_driver_def)
  from gate_verdict [OF n f e d] show ?thesis by (simp add: n b)
qed

text \<open>
  The gate closes itself: with \<open>auto_enforce\<close> on and a ceiling of HIGH or above, once a denied module has been seen
  loading, every later load of a denied module is refused, whatever alerts, decay runs, loads and changes of lock mode come
  in between, as long as no operator resets the posture.
\<close>

theorem auto_enforce_closes_gate:
  assumes "kg_gate_denied g m" and "pos_ready (s_pos s)" and "e_par env = par" and "e_par env' = par"
    and "par_auto_enforce par" and "KG_POSTURE_HIGH \<le> par_max_posture par"
    and "\<forall>(e, a) \<in> set acts. \<nexists>t. a = G_core (A_set t)" and "kg_gate_denied g m'"
  shows "snd (kg_gate_notify env' MODULE_STATE_COMING False m' (gate_run acts (gate_do env (G_load m) (g, s)))) = Some EPERM"
proof -
  let ?gs = "gate_do env (G_load m) (g, s)"
  have "par_enforce par \<or> KG_POSTURE_HIGH \<le> sys_posture (snd ?gs)"
  proof (cases "kg_enforcing (e_par env) (s_guard s)")
    case True
    show ?thesis
    proof (cases "par_enforce par")
      case False
      with True assms(3) have "KG_POSTURE_HIGH \<le> sys_posture s" by (simp add: kg_enforcing_def)
      then show ?thesis using high_kept_gate [of "(g, s)" "G_load m" env] by simp
    qed simp
  next
    case False
    then show ?thesis using denied_load_raises [OF assms(1) False assms(2)] assms(3,6) by simp
  qed
  then have "par_enforce par \<or> KG_POSTURE_HIGH \<le> sys_posture (snd (gate_run acts ?gs))"
    using high_kept_run [OF _ assms(7)] by blast
  then have e: "kg_enforcing (e_par env') (s_guard (snd (gate_run acts ?gs)))"
    using assms(4,5) by (auto simp: kg_enforcing_def)
  have "gt_deny (fst (gate_run acts ?gs)) = gt_deny g" by simp
  from denied_cong [OF this, of m'] have "gate_flagged (fst (gate_run acts ?gs)) m'"
    using assms(8) by (simp add: gate_flagged_def)
  with e show ?thesis
    using notify_result [of env' m' "fst (gate_run acts ?gs)" "snd (gate_run acts ?gs)"] by simp
qed

theorem auto_enforce_closes_gate_witness:
  "snd (kg_gate_notify (example_env 900) MODULE_STATE_COMING False bad_driver
     (gate_run [(example_env 800, G_core A_decay)] (gate_do (example_env 2) (G_load bad_driver) (example_gate, example_sys)))) = Some EPERM"
proof -
  have p: "par_auto_enforce example_par" "KG_POSTURE_HIGH \<le> par_max_posture example_par"
    by (simp_all add: example_par_def kg_const)
  have a: "\<forall>(e, a) \<in> set [(example_env 800, G_core A_decay)]. \<nexists>t. a = G_core (A_set t)" by simp
  from auto_enforce_closes_gate [OF bad_driver_denied _ _ _ p a bad_driver_denied, of example_sys "example_env 2" "example_env 900"]
  show ?thesis by simp
qed

text \<open>
  Switching lock mode on takes the baseline or fails cleanly: if memory is short the switch is refused and the gate is as
  before; otherwise every module that is live at that moment (of the first 1024, with a name that fits) is
  trusted from then on, and while lock mode stays on a load that is not denied is flagged exactly when its name is
  neither allowed nor one of those.
\<close>

theorem lock_baseline:
  assumes "gt_ready g" and "\<not> gt_lock g" and "kg_gate_cfg_set_lock ge (Inr True) g = (g', r)"
    and "names = map mod_name (take 1024 (live_modules (ge_modules ge)))"
    and "\<forall>n \<in> set names. length n < MODULE_NAME_LEN"
  shows "if ge_tab_ok ge \<and> ge_held_ok ge
         then r = None \<and> gt_lock g' \<and> gt_deny g' = gt_deny g \<and>
           (\<forall>m. gate_flagged g' m \<longleftrightarrow> kg_gate_denied g m \<or> (mod_name m \<notin> set (gt_allow g) \<and> mod_name m \<notin> set names))
         else r = Some ENOMEM \<and> g' = g"
proof (cases "ge_tab_ok ge \<and> ge_held_ok ge")
  case True
  let ?b = "take 1024 (map (\<lambda>m. name_copy (mod_name m)) (live_modules (ge_modules ge)))"
  have "name_copy n = n" if "n \<in> set names" for n
    using assms(5) that by (auto simp: name_copy_def kg_const)
  then have "map name_copy names = names" by (simp add: map_idI)
  then have "?b = names" by (simp add: assms(4) take_map comp_def)
  with True assms(1-3) have "g' = g\<lparr>gt_lock := True, gt_base := names\<rparr>" "r = None"
    by (auto simp: kg_gate_cfg_set_lock_def snapshot_cases)
  with True show ?thesis
    by (auto simp: gate_flagged_def kg_gate_trusted_def kg_gate_denied_def)
next
  case False
  with assms(1-3) show ?thesis by (auto simp: kg_gate_cfg_set_lock_def snapshot_cases)
qed

theorem lock_baseline_witness:
  "gate_flagged (fst (kg_gate_cfg_set_lock example_gate_env (Inr True) example_gate)) \<lparr>mod_name = ''dummy'', mod_srcversion = None\<rparr> \<and>
   \<not> gate_flagged (fst (kg_gate_cfg_set_lock example_gate_env (Inr True) example_gate)) \<lparr>mod_name = ''ext4'', mod_srcversion = None\<rparr>"
proof -
  obtain g' r where g': "kg_gate_cfg_set_lock example_gate_env (Inr True) example_gate = (g', r)" by fastforce
  have i: "gt_ready example_gate" "\<not> gt_lock example_gate" "gt_allow example_gate = []"
    by (simp_all add: example_gate_def gate_start_def Let_def kg_gate_parse_def gate_loop_fold gate_words_def gate_loaded_def)
  have n: "[''ext4''] = map mod_name (take 1024 (live_modules (ge_modules example_gate_env)))"
    by (simp add: example_gate_env_def live_modules_def)
  have d: "\<not> kg_gate_denied example_gate \<lparr>mod_name = ''ext4'', mod_srcversion = None\<rparr>"
    by (simp add: example_gate_eval)
  have ok: "ge_tab_ok example_gate_env" "ge_held_ok example_gate_env" by (simp_all add: example_gate_env_def)
  from lock_baseline [OF i(1,2) g' n] d i(3) ok show ?thesis
    by (simp add: g' kg_const)
qed

end
