(* ===== verification/KG_Textscan.thy ===== *)
theory KG_Textscan
  imports KG_Modgate KG_Sens
begin

text \<open>
  The text-integrity half of \<^verbatim>\<open>src/linux/module/kg_integrity.c\<close>: the bounds of the kernel text
  found in the page tables, the monitored regions with their baseline copies, the classification of
  a modified byte run against the kernel's own patch sites, and the verification pass.  Memory that
  other CPUs rewrite is a \<open>snapshot\<close>, the byte every address showed to one reading; a pass takes
  three readings of a chunk, each its own snapshot, so a byte may change between any two of them.
  Positions inside a region are natural numbers, addresses are 64-bit words.
\<close>

unbundle bit_operations_syntax

section \<open>Symbol helper\<close>

text \<open>
  \<open>kg_sym_module\<close>, on the text \<open>sprint_symbol_no_offset\<close> produced: whether the address resolved,
  and the module name between the brackets, cut to the buffer and at a build-id suffix.
\<close>

definition kg_sym_module :: "string \<Rightarrow> nat \<Rightarrow> bool \<times> string" where
  "kg_sym_module buf len =
     (let found = (take 2 buf \<noteq> ''0x'')
      in case strchr_split (CHR 0x5B) buf of
           Some (_, rest) \<Rightarrow>
             (if found
              then (case strchr_split (CHR 0x5D) rest of
                      Some (inner, _) \<Rightarrow>
                        let m = take (len - 1) inner
                        in (found, case strchr_split (CHR '' '') m of Some (n, _) \<Rightarrow> n | None \<Rightarrow> m)
                    | None \<Rightarrow> (found, []))
              else (found, []))
         | None \<Rightarrow> (found, []))"

section \<open>Text bounds\<close>

definition TEXT_LIMIT :: u64 where [kg_const]: "TEXT_LIMIT = 0x10000000"
definition TEXT_MIN :: u64 where [kg_const]: "TEXT_MIN = 0x100000"

text \<open>What \<open>lookup_address\<close> finds for a page: present, executable, writable.\<close>

record pte_info =
  pte_present :: bool
  pte_exec :: bool
  pte_write :: bool

type_synonym page_tables = "u64 \<Rightarrow> pte_info option"

definition kg_va_is_rx :: "page_tables \<Rightarrow> u64 \<Rightarrow> bool" where
  "kg_va_is_rx pt va = (case pt va of None \<Rightarrow> False | Some p \<Rightarrow> pte_present p \<and> pte_exec p \<and> \<not> pte_write p)"

lemma page_step:
  fixes d :: u64
  assumes "d < TEXT_LIMIT"
  shows "unat (d + PAGE_SIZE) = unat d + 4096"
proof -
  have "unat d < 0x10000000" using assms by (simp add: kg_const word_less_nat_alt)
  then have "unat d + unat (4096 :: u64) < 2 ^ LENGTH(64)" by simp
  then show ?thesis by (simp only: unat_add_lem [THEN iffD1] PAGE_SIZE_def) simp
qed

lemma page_step_bound: "(d :: u64) < TEXT_LIMIT \<Longrightarrow> unat d < 268435456"
  by (simp add: kg_const word_less_nat_alt)

function text_down :: "page_tables \<Rightarrow> u64 \<Rightarrow> u64 \<Rightarrow> u64" where
  "text_down pt anchor lo =
     (if anchor - lo < TEXT_LIMIT \<and> kg_va_is_rx pt (lo - PAGE_SIZE) then text_down pt anchor (lo - PAGE_SIZE) else lo)"
  by pat_completeness auto
termination
proof (relation "measure (\<lambda>(pt, anchor, lo). 268435456 + 4096 - unat (anchor - lo))")
  fix pt :: page_tables and anchor lo :: u64
  assume "anchor - lo < TEXT_LIMIT \<and> kg_va_is_rx pt (lo - PAGE_SIZE)"
  then have "unat (anchor - (lo - PAGE_SIZE)) = unat (anchor - lo) + 4096" "unat (anchor - lo) < 268435456"
    using page_step [of "anchor - lo"] page_step_bound by (simp_all add: algebra_simps)
  then show "((pt, anchor, lo - PAGE_SIZE), pt, anchor, lo)
      \<in> measure (\<lambda>(pt, anchor, lo). 268435456 + 4096 - unat (anchor - lo))"
    by simp
qed simp

function text_up :: "page_tables \<Rightarrow> u64 \<Rightarrow> u64 \<Rightarrow> u64" where
  "text_up pt anchor hi =
     (if hi - anchor < TEXT_LIMIT \<and> kg_va_is_rx pt hi then text_up pt anchor (hi + PAGE_SIZE) else hi)"
  by pat_completeness auto
termination
proof (relation "measure (\<lambda>(pt, anchor, hi). 268435456 + 4096 - unat (hi - anchor))")
  fix pt :: page_tables and anchor hi :: u64
  assume "hi - anchor < TEXT_LIMIT \<and> kg_va_is_rx pt hi"
  then have "unat (hi + PAGE_SIZE - anchor) = unat (hi - anchor) + 4096" "unat (hi - anchor) < 268435456"
    using page_step [of "hi - anchor"] page_step_bound by (simp_all add: algebra_simps)
  then show "((pt, anchor, hi + PAGE_SIZE), pt, anchor, hi)
      \<in> measure (\<lambda>(pt, anchor, hi). 268435456 + 4096 - unat (hi - anchor))"
    by simp
qed simp

declare text_down.simps [simp del] text_up.simps [simp del]

text \<open>\<open>printk\<close> is the address of the kernel function the search starts from.\<close>

definition kg_find_text_bounds :: "page_tables \<Rightarrow> u64 \<Rightarrow> errno + (u64 \<times> u64)" where
  "kg_find_text_bounds pt printk =
     (let anchor = printk AND NOT (PAGE_SIZE - 1)
      in if \<not> kg_va_is_rx pt anchor then Inl ENODATA
         else let lo = text_down pt anchor anchor; hi = text_up pt anchor (anchor + PAGE_SIZE)
              in if hi - lo < TEXT_MIN \<or> TEXT_LIMIT \<le> hi - lo then Inl ERANGE else Inr (lo, hi))"

section \<open>Monitored regions\<close>

record kg_region =
  r_name :: string
  r_base :: u64
  r_size :: u64
  r_copy :: bytes
  r_kernel :: bool
  r_mod :: "u64 option"

text \<open>The module parameters and the module address range of the running kernel.\<close>

record text_par =
  tp_text :: bool
  tp_text_modules :: bool
  tp_text_max_mb :: u32
  tp_modules_vaddr :: u64
  tp_modules_end :: u64

text \<open>The static data of the text monitor.\<close>

record kg_text =
  t_start :: u64
  t_end :: u64
  t_regions :: "kg_region list"
  t_copy_bytes :: u64
  t_nregions :: u32
  t_enabled :: bool

definition KG_CHUNK :: nat where [kg_const]: "KG_CHUNK = 65536"
definition KG_OVERLAP :: nat where [kg_const]: "KG_OVERLAP = 8"

type_synonym snapshot = "u64 \<Rightarrow> u8"

definition kg_addr_in_kernel_text :: "kg_text \<Rightarrow> u64 \<Rightarrow> bool" where
  "kg_addr_in_kernel_text t addr \<longleftrightarrow> t_end t \<noteq> 0 \<and> t_start t \<le> addr \<and> addr < t_end t"

definition kg_region_contains :: "kg_region \<Rightarrow> u64 \<Rightarrow> bool" where
  "kg_region_contains r addr \<longleftrightarrow> r_base r \<le> addr \<and> addr < r_base r + r_size r"

definition kg_in_tracked_module :: "kg_text \<Rightarrow> u64 \<Rightarrow> bool" where
  "kg_in_tracked_module t addr = list_ex (\<lambda>r. \<not> r_kernel r \<and> kg_region_contains r addr) (t_regions t)"

definition kg_in_module_area :: "text_par \<Rightarrow> u64 \<Rightarrow> bool" where
  "kg_in_module_area tp addr \<longleftrightarrow> tp_modules_vaddr tp \<le> addr \<and> addr < tp_modules_end tp"

text \<open>The bytes one reading of \<open>n\<close> bytes at an address finds.\<close>

definition mem_read :: "snapshot \<Rightarrow> u64 \<Rightarrow> nat \<Rightarrow> bytes" where
  "mem_read m base n = map (\<lambda>i. m (base + of_nat i)) [0..<n]"

text \<open>\<open>kg_stream_copy\<close> moves a region piece by piece; \<open>kg_stream_equal\<close> stops at the first piece that differs.\<close>

function kg_stream_copy :: "snapshot \<Rightarrow> u64 \<Rightarrow> nat \<Rightarrow> nat \<Rightarrow> bytes" where
  "kg_stream_copy m src off n =
     (if off < n
      then mem_read m (src + of_nat off) (min KG_CHUNK (n - off)) @ kg_stream_copy m src (off + KG_CHUNK) n
      else [])"
  by pat_completeness auto
termination by (relation "measure (\<lambda>(m, src, off, n). n - off)") (auto simp: kg_const)

function kg_stream_equal :: "bytes \<Rightarrow> snapshot \<Rightarrow> u64 \<Rightarrow> nat \<Rightarrow> nat \<Rightarrow> bool" where
  "kg_stream_equal a m b off n =
     (if off < n
      then (let len = min KG_CHUNK (n - off)
            in if take len (drop off a) = mem_read m (b + of_nat off) len
               then kg_stream_equal a m b (off + KG_CHUNK) n else False)
      else True)"
  by pat_completeness auto
termination by (relation "measure (\<lambda>(a, m, b, off, n). n - off)") (auto simp: kg_const)

declare kg_stream_copy.simps [simp del] kg_stream_equal.simps [simp del]

text \<open>
  The baseline of \<open>kg_region_add\<close>: up to four attempts, each with a reading to copy and a reading
  to compare.  After the fourth the copy stays as it is.
\<close>

fun take_baseline :: "(nat \<Rightarrow> snapshot) \<Rightarrow> u64 \<Rightarrow> nat \<Rightarrow> nat \<Rightarrow> nat \<Rightarrow> bytes \<Rightarrow> bytes" where
  "take_baseline rd base n attempt 0 copy = copy"
| "take_baseline rd base n attempt (Suc k) _ =
     (let c = kg_stream_copy (rd (2 * attempt)) base 0 n
      in if kg_stream_equal c (rd (2 * attempt + 1)) base 0 n then c
         else take_baseline rd base n (Suc attempt) k c)"

definition kg_region_add ::
  "text_par \<Rightarrow> bool \<Rightarrow> bool \<Rightarrow> (nat \<Rightarrow> snapshot) \<Rightarrow> string \<Rightarrow> u64 \<Rightarrow> u64 \<Rightarrow> bool \<Rightarrow> u64 option \<Rightarrow> kg_text \<Rightarrow> kg_text \<times> errno option" where
  "kg_region_add tp rec_ok copy_ok rd name base sz is_kernel owner t =
     (if sz = 0 then (t, None)
      else if push_bit 20 (ucast (tp_text_max_mb tp)) < t_copy_bytes t + sz then (t, Some ENOSPC)
      else if \<not> rec_ok \<or> \<not> copy_ok then (t, Some ENOMEM)
      else (t\<lparr>t_regions := t_regions t @ [\<lparr>r_name = name_copy name, r_base = base, r_size = sz,
                r_copy = take_baseline rd base (unat sz) 0 4 [], r_kernel = is_kernel, r_mod = owner\<rparr>],
              t_copy_bytes := t_copy_bytes t + sz, t_nregions := t_nregions t + 1\<rparr>, None))"

text \<open>Unlinking the \<open>i\<close>-th region of the list.\<close>

definition kg_region_del :: "nat \<Rightarrow> kg_text \<Rightarrow> kg_text" where
  "kg_region_del i t = t\<lparr>t_regions := take i (t_regions t) @ drop (Suc i) (t_regions t),
     t_copy_bytes := t_copy_bytes t - r_size (t_regions t ! i), t_nregions := t_nregions t - 1\<rparr>"

definition kg_text_active :: "kg_text \<Rightarrow> bool" where
  "kg_text_active t = t_enabled t"

definition kg_text_stats :: "kg_text \<Rightarrow> u32 \<times> u32" where
  "kg_text_stats t = (t_nregions t, ucast (drop_bit 10 (t_copy_bytes t)))"

section \<open>Classification of a modified run\<close>

datatype kg_form = F_OTHER | F_NOP5 | F_CALL | F_JMP | F_XOR5 | F_RET5

definition kg_form5 :: "bytes \<Rightarrow> kg_form" where
  "kg_form5 p =
     (if p = [0x0f, 0x1f, 0x44, 0x00, 0x00] \<or> p = [0x66, 0x66, 0x90, 0x66, 0x90] then F_NOP5
      else if p ! 0 = 0xe8 then F_CALL
      else if p ! 0 = 0xe9 then F_JMP
      else if p = [0x2e, 0x2e, 0x2e, 0x31, 0xc0] then F_XOR5
      else if p = [0xc3, 0xcc, 0xcc, 0xcc, 0xcc] then F_RET5
      else F_OTHER)"

definition kg_branch_target :: "u64 \<Rightarrow> bytes \<Rightarrow> u64" where
  "kg_branch_target site p = site + 5 + scast (of_nat (le_val (take 4 (drop 1 p))) :: u32)"

datatype kg_verdict = KG_V_BENIGN | KG_V_WATCH | KG_V_CRITICAL

text \<open>The verdicts are ordered; the worst wins.\<close>

fun verdict_rank :: "kg_verdict \<Rightarrow> nat" where
  "verdict_rank KG_V_BENIGN = 0"
| "verdict_rank KG_V_WATCH = 1"
| "verdict_rank KG_V_CRITICAL = 2"

instantiation kg_verdict :: linorder
begin

definition less_eq_kg_verdict :: "kg_verdict \<Rightarrow> kg_verdict \<Rightarrow> bool" where
  "less_eq_kg_verdict a b \<longleftrightarrow> verdict_rank a \<le> verdict_rank b"

definition less_kg_verdict :: "kg_verdict \<Rightarrow> kg_verdict \<Rightarrow> bool" where
  "less_kg_verdict a b \<longleftrightarrow> verdict_rank a < verdict_rank b"

instance
proof
  fix a b :: kg_verdict
  show "a \<le> b \<Longrightarrow> b \<le> a \<Longrightarrow> a = b"
    by (cases a; cases b) (simp_all add: less_eq_kg_verdict_def)
qed (auto simp: less_eq_kg_verdict_def less_kg_verdict_def)

end

record kg_verdict_info =
  vi_v :: kg_verdict
  vi_flags :: u32
  vi_site :: u64
  vi_wlen :: nat

record kg_seg =
  sg_end :: nat
  sg_v :: kg_verdict
  sg_flags :: u32
  sg_site :: u64

definition kg_new_at :: "kg_region \<Rightarrow> nat \<Rightarrow> nat \<Rightarrow> bytes \<Rightarrow> nat \<Rightarrow> u8" where
  "kg_new_at r rs re newb pos = (if rs \<le> pos \<and> pos < re then newb ! (pos - rs) else r_copy r ! pos)"

text \<open>The two-byte shape of \<open>kg_match_site\<close>: NOP2 and a short jump.\<close>

definition short_site :: "kg_region \<Rightarrow> nat \<Rightarrow> nat \<Rightarrow> bytes \<Rightarrow> nat \<Rightarrow> bool" where
  "short_site r rs re newb pos \<longleftrightarrow> pos + 2 \<le> unat (r_size r) \<and>
     (let o0 = r_copy r ! pos; o1 = r_copy r ! (pos + 1);
          n0 = kg_new_at r rs re newb pos; n1 = kg_new_at r rs re newb (pos + 1)
      in (o0 = 0x66 \<and> o1 = 0x90 \<and> n0 = 0xeb) \<or> (n0 = 0x66 \<and> n1 = 0x90 \<and> o0 = 0xeb))"

definition old5 :: "kg_region \<Rightarrow> nat \<Rightarrow> bytes" where
  "old5 r s = map (\<lambda>k. r_copy r ! (s + k)) [0..<5]"

definition new5 :: "kg_region \<Rightarrow> nat \<Rightarrow> nat \<Rightarrow> bytes \<Rightarrow> nat \<Rightarrow> bytes" where
  "new5 r rs re newb s = map (\<lambda>k. kg_new_at r rs re newb (s + k)) [0..<5]"

text \<open>One turn of the window loop, for a window that starts \<open>delta\<close> bytes early; \<open>None\<close> is \<open>continue\<close>.\<close>

definition window5 :: "text_par \<Rightarrow> kg_text \<Rightarrow> kg_region \<Rightarrow> nat \<Rightarrow> nat \<Rightarrow> nat \<Rightarrow> bytes \<Rightarrow> nat \<Rightarrow> kg_seg option" where
  "window5 tp t r pos rs re newb delta =
     (let s = pos - delta
      in if unat (r_size r) < s + 5 then None
         else
           let old = old5 r s; new = new5 r rs re newb s; fo = kg_form5 old; fn = kg_form5 new;
               site = r_base r + of_nat s;
               seg = \<lparr>sg_end = s + 5, sg_v = KG_V_BENIGN, sg_flags = 0, sg_site = site\<rparr>;
               tgt = kg_branch_target site new
           in if delta \<noteq> 0 \<and> (old ! 0 \<noteq> new ! 0 \<or> (old ! 0 \<noteq> 0xe8 \<and> old ! 0 \<noteq> 0xe9)) then None
              else if fo = F_OTHER \<and> fn = F_OTHER then None
              else if fo = F_OTHER \<or> fn = F_OTHER
              then (if fo = F_OTHER \<and> fn = F_JMP \<and> delta = 0
                    then Some (seg\<lparr>sg_v := (if kg_in_module_area tp tgt \<and> \<not> kg_in_tracked_module t tgt \<and>
                                 \<not> kg_addr_in_kernel_text t tgt then KG_V_WATCH else KG_V_CRITICAL),
                               sg_flags := KG_TEXTF_UNKNOWN_TARGET\<rparr>)
                    else None)
              else if fo = F_XOR5 \<or> fo = F_RET5 \<or> fn = F_XOR5 \<or> fn = F_RET5
              then Some (seg\<lparr>sg_v := KG_V_WATCH\<rparr>)
              else if (fn = F_CALL \<or> fn = F_JMP) \<and>
                      \<not> (kg_addr_in_kernel_text t tgt \<or> kg_region_contains r tgt \<or>
                         (fn = F_CALL \<and> (kg_in_tracked_module t tgt \<or> kg_in_module_area tp tgt)))
              then Some (seg\<lparr>sg_flags := KG_TEXTF_UNKNOWN_TARGET,
                     sg_v := (if fn = F_JMP \<and> kg_in_module_area tp tgt \<and> \<not> kg_in_tracked_module t tgt
                              then KG_V_WATCH else KG_V_CRITICAL)\<rparr>)
              else Some seg)"

fun try_windows :: "text_par \<Rightarrow> kg_text \<Rightarrow> kg_region \<Rightarrow> nat \<Rightarrow> nat \<Rightarrow> nat \<Rightarrow> bytes \<Rightarrow> nat list \<Rightarrow> kg_seg option" where
  "try_windows tp t r pos rs re newb [] = None"
| "try_windows tp t r pos rs re newb (delta # ds) =
     (if pos < delta then None
      else (case window5 tp t r pos rs re newb delta of
              Some seg \<Rightarrow> Some seg
            | None \<Rightarrow> try_windows tp t r pos rs re newb ds))"

definition kg_match_site ::
  "text_par \<Rightarrow> kg_text \<Rightarrow> kg_region \<Rightarrow> nat \<Rightarrow> nat \<Rightarrow> nat \<Rightarrow> bytes \<Rightarrow> bool \<Rightarrow> kg_seg option" where
  "kg_match_site tp t r pos rs re newb first =
     (if short_site r rs re newb pos
      then Some \<lparr>sg_end = pos + 2, sg_v = KG_V_BENIGN, sg_flags = 0, sg_site = r_base r + of_nat pos\<rparr>
      else try_windows tp t r pos rs re newb (if first then [0, 1, 2, 3, 4] else [0]))"

function classify_loop ::
  "text_par \<Rightarrow> kg_text \<Rightarrow> kg_region \<Rightarrow> nat \<Rightarrow> nat \<Rightarrow> bytes \<Rightarrow> nat \<Rightarrow> bool \<Rightarrow> kg_verdict_info \<Rightarrow> kg_verdict_info" where
  "classify_loop tp t r rs re newb pos first out =
     (if re \<le> pos then out
      else if newb ! (pos - rs) = r_copy r ! pos then classify_loop tp t r rs re newb (pos + 1) first out
      else (case kg_match_site tp t r pos rs re newb first of
              None \<Rightarrow>
                (if re - rs = 1 \<and> (newb ! 0 = 0xcc \<or> r_copy r ! rs = 0xcc)
                 then out\<lparr>vi_v := max (vi_v out) KG_V_WATCH, vi_flags := vi_flags out OR KG_TEXTF_BREAKPOINT\<rparr>
                 else out\<lparr>vi_v := KG_V_CRITICAL, vi_site := r_base r + of_nat pos, vi_wlen := re - pos\<rparr>)
            | Some seg \<Rightarrow>
                let out1 = (if vi_v out < sg_v seg
                            then out\<lparr>vi_v := sg_v seg, vi_site := sg_site seg, vi_wlen := 5\<rparr> else out);
                    out2 = out1\<lparr>vi_flags := vi_flags out1 OR sg_flags seg\<rparr>
                in classify_loop tp t r rs re newb (if pos < sg_end seg then sg_end seg else pos + 1) False out2))"
  by pat_completeness auto
termination
  by (relation "measure (\<lambda>(tp, t, r, rs, re, newb, pos, first, out). re - pos)") (auto split: if_splits)

declare classify_loop.simps [simp del]

definition kg_classify :: "text_par \<Rightarrow> kg_text \<Rightarrow> kg_region \<Rightarrow> nat \<Rightarrow> nat \<Rightarrow> bytes \<Rightarrow> kg_verdict_info" where
  "kg_classify tp t r rs re newb =
     classify_loop tp t r rs re newb rs True
       \<lparr>vi_v = KG_V_BENIGN, vi_flags = flag (r_kernel r) KG_TEXTF_KERNEL, vi_site = r_base r + of_nat rs, vi_wlen = re - rs\<rparr>"

section \<open>Verification of a region\<close>

definition kg_handle_run ::
  "kg_env \<Rightarrow> text_par \<Rightarrow> kg_text \<Rightarrow> nat \<Rightarrow> nat \<Rightarrow> bytes \<Rightarrow> kg_region \<times> kg_sys \<Rightarrow> kg_region \<times> kg_sys" where
  "kg_handle_run env tp t rs re newb st =
     (case st of (r, s) \<Rightarrow>
        let vi = kg_classify tp t r rs re newb;
            p2 = push_bit 32 (ucast (vi_flags vi)) OR ucast (of_nat (re - rs) :: u32);
            s1 = (if vi_v vi = KG_V_BENIGN
                  then s\<lparr>s_stats := (s_stats s)\<lparr>text_dynamic_patches := text_dynamic_patches (s_stats s) + 1\<rparr>\<rparr>
                  else kg_report env KG_ALERT_TEXT_PATCH
                         (if vi_v vi = KG_V_CRITICAL then KG_LEVEL_CRITICAL else KG_LEVEL_WATCH)
                         (r_base r + of_nat rs) p2
                         (s\<lparr>s_stats := (s_stats s)\<lparr>text_patch_detected := text_patch_detected (s_stats s) + 1\<rparr>\<rparr>))
        in (r\<lparr>r_copy := take rs (r_copy r) @ take (re - rs) newb @ drop re (r_copy r)\<rparr>, s1))"

text \<open>The end of the run that starts before \<open>j\<close>: it goes on over gaps of up to three equal bytes.\<close>

function run_end :: "bytes \<Rightarrow> bytes \<Rightarrow> nat \<Rightarrow> nat \<Rightarrow> nat \<Rightarrow> nat \<Rightarrow> nat" where
  "run_end cur old n j re gap =
     (if j < n \<and> gap \<le> 3
      then (if cur ! j \<noteq> old ! j then run_end cur old n (j + 1) (j + 1) 0 else run_end cur old n (j + 1) re (gap + 1))
      else re)"
  by pat_completeness auto
termination by (relation "measure (\<lambda>(cur, old, n, j, re, gap). n - j)") auto

function skip_equal :: "bytes \<Rightarrow> bytes \<Rightarrow> nat \<Rightarrow> nat \<Rightarrow> nat" where
  "skip_equal cur old n i = (if i < n \<and> cur ! i = old ! i then skip_equal cur old n (i + 1) else i)"
  by pat_completeness auto
termination by (relation "measure (\<lambda>(cur, old, n, i). n - i)") auto

declare run_end.simps [simp del] skip_equal.simps [simp del]

lemma run_end_ge: "re \<le> j \<Longrightarrow> re \<le> run_end cur old n j re gap"
proof (induction cur old n j re gap rule: run_end.induct)
  case (1 cur old n j re gap)
  show ?case
    using 1 by (subst run_end.simps) (auto dest: Suc_le_lessD)
qed

lemma run_end_le: "re \<le> n \<Longrightarrow> run_end cur old n j re gap \<le> n"
proof (induction cur old n j re gap rule: run_end.induct)
  case (1 cur old n j re gap)
  show ?case
    using 1 by (subst run_end.simps) auto
qed

lemma skip_equal_ge: "i \<le> skip_equal cur old n i"
proof (induction cur old n i rule: skip_equal.induct)
  case (1 cur old n i)
  then show ?case by (subst skip_equal.simps) auto
qed

text \<open>
  The scan of a chunk; \<open>old\<close> is the copy of the region at the chunk, which \<open>kg_handle_run\<close> rewrites,
  so it is read afresh in every turn.
\<close>

function chunk_runs ::
  "(nat \<Rightarrow> kg_env) \<Rightarrow> text_par \<Rightarrow> kg_text \<Rightarrow> nat \<Rightarrow> nat \<Rightarrow> bytes \<Rightarrow> nat \<Rightarrow> kg_region \<times> kg_sys \<Rightarrow> kg_region \<times> kg_sys" where
  "chunk_runs env tp t off n cur i st =
     (let old = drop off (r_copy (fst st)); rs = skip_equal cur old n i
      in if n \<le> rs then st
         else
           let re = run_end cur old n (rs + 1) (rs + 1) 0;
               st1 = (if rs < KG_CHUNK \<or> unat (r_size (fst st)) \<le> off + n
                      then kg_handle_run (env (off + rs)) tp t (off + rs) (off + re) (drop rs cur) st else st)
           in chunk_runs env tp t off n cur re st1)"
  by pat_completeness auto
termination
proof (relation "measure (\<lambda>(env, tp, t, off, n, cur, i, st). n - i)")
  fix env tp t off n cur i and st :: "kg_region \<times> kg_sys" and old rs re st1
  assume old: "old = drop off (r_copy (fst st))" and rs: "rs = skip_equal cur old n i"
    and n: "\<not> n \<le> rs" and re: "re = run_end cur old n (rs + 1) (rs + 1) 0"
  have "i \<le> rs" using rs by (simp add: skip_equal_ge)
  moreover have "rs + 1 \<le> re" unfolding re by (rule run_end_ge) simp
  ultimately show "((env, tp, t, off, n, cur, re, st1), env, tp, t, off, n, cur, i, st)
      \<in> measure (\<lambda>(env, tp, t, off, n, cur, i, st). n - i)"
    using n by simp
qed simp

declare chunk_runs.simps [simp del]

text \<open>
  \<open>first\<close> and \<open>second\<close> are the two readings, 20 ms apart; a byte on which they disagree counts as unchanged.
\<close>

definition sample_twice :: "snapshot \<Rightarrow> snapshot \<Rightarrow> u64 \<Rightarrow> nat \<Rightarrow> bytes \<Rightarrow> bytes" where
  "sample_twice first second live n old =
     (let cur = kg_stream_copy first live 0 n
      in map (\<lambda>i. if cur ! i \<noteq> second (live + of_nat i) then old ! i else cur ! i) [0..<n])"

definition kg_chunk_check ::
  "(nat \<Rightarrow> kg_env) \<Rightarrow> text_par \<Rightarrow> kg_text \<Rightarrow> snapshot \<Rightarrow> snapshot \<Rightarrow> nat \<Rightarrow> nat \<Rightarrow> kg_region \<times> kg_sys \<Rightarrow> kg_region \<times> kg_sys" where
  "kg_chunk_check env tp t first second off n st =
     (let r = fst st; cur = sample_twice first second (r_base r + of_nat off) n (drop off (r_copy r))
      in chunk_runs env tp t off n cur 0 st)"

text \<open>
  The readings of a region: for the chunk at an offset, the comparison and the two samples.  The clock
  of the alert for a run is the one at the run's offset.
\<close>

type_synonym readings = "nat \<Rightarrow> nat \<Rightarrow> snapshot"

function region_loop ::
  "(nat \<Rightarrow> kg_env) \<Rightarrow> text_par \<Rightarrow> kg_text \<Rightarrow> readings \<Rightarrow> nat \<Rightarrow> nat \<Rightarrow> kg_region \<times> kg_sys \<Rightarrow> kg_region \<times> kg_sys" where
  "region_loop env tp t rd sz off st =
     (if off < sz
      then
        let n = min (KG_CHUNK + KG_OVERLAP) (sz - off);
            same = (mem_read (rd off 0) (r_base (fst st) + of_nat off) n = take n (drop off (r_copy (fst st))));
            st1 = (if same then st else kg_chunk_check env tp t (rd off 1) (rd off 2) off n st)
        in region_loop env tp t rd sz (off + KG_CHUNK) st1
      else st)"
  by pat_completeness auto
termination by (relation "measure (\<lambda>(env, tp, t, rd, sz, off, st). sz - off)") (auto simp: kg_const)

declare region_loop.simps [simp del]

definition kg_region_verify ::
  "(nat \<Rightarrow> kg_env) \<Rightarrow> text_par \<Rightarrow> kg_text \<Rightarrow> readings \<Rightarrow> kg_region \<times> kg_sys \<Rightarrow> kg_region \<times> kg_sys" where
  "kg_region_verify env tp t rd st = region_loop env tp t rd (unat (r_size (fst st))) 0 st"

text \<open>The walk over the regions; \<open>i\<close> counts them.\<close>

function verify_from ::
  "(nat \<Rightarrow> nat \<Rightarrow> kg_env) \<Rightarrow> text_par \<Rightarrow> (nat \<Rightarrow> readings) \<Rightarrow> nat \<Rightarrow> kg_text \<times> kg_sys \<Rightarrow> kg_text \<times> kg_sys" where
  "verify_from env tp rd i ts =
     (case ts of (t, s) \<Rightarrow>
        if i < length (t_regions t)
        then (case kg_region_verify (env i) tp t (rd i) (t_regions t ! i, s) of
                (r, s1) \<Rightarrow> verify_from env tp rd (Suc i) (t\<lparr>t_regions := (t_regions t)[i := r]\<rparr>, s1))
        else (t, s))"
  by pat_completeness auto
termination
  by (relation "measure (\<lambda>(env, tp, rd, i, ts). length (t_regions (fst ts)) - i)") auto

declare verify_from.simps [simp del]

definition kg_text_verify_all ::
  "(nat \<Rightarrow> nat \<Rightarrow> kg_env) \<Rightarrow> text_par \<Rightarrow> (nat \<Rightarrow> readings) \<Rightarrow> kg_text \<times> kg_sys \<Rightarrow> kg_text \<times> kg_sys" where
  "kg_text_verify_all env tp rd ts = (if \<not> t_enabled (fst ts) then ts else verify_from env tp rd 0 ts)"

section \<open>The text bounds are the whole read-only executable run\<close>

lemma text_down_spec:
  assumes "unat (anchor - lo) < 268435456 + 4096"
  shows "\<exists>a. text_down pt anchor lo = lo - of_nat a * PAGE_SIZE \<and>
     (\<forall>i<a. kg_va_is_rx pt (lo - of_nat (Suc i) * PAGE_SIZE)) \<and>
     unat (anchor - text_down pt anchor lo) = unat (anchor - lo) + a * 4096 \<and>
     unat (anchor - text_down pt anchor lo) < 268435456 + 4096 \<and>
     (unat (anchor - text_down pt anchor lo) < 268435456 \<longrightarrow> \<not> kg_va_is_rx pt (text_down pt anchor lo - PAGE_SIZE))"
  using assms
proof (induction pt anchor lo rule: text_down.induct)
  case (1 pt anchor lo)
  show ?case
  proof (cases "anchor - lo < TEXT_LIMIT \<and> kg_va_is_rx pt (lo - PAGE_SIZE)")
    case True
    then have td: "text_down pt anchor lo = text_down pt anchor (lo - PAGE_SIZE)"
      by (subst text_down.simps) simp
    have st: "unat (anchor - (lo - PAGE_SIZE)) = unat (anchor - lo) + 4096" "unat (anchor - lo) < 268435456"
      using True page_step [of "anchor - lo"] page_step_bound by (simp_all add: algebra_simps)
    from 1 True st obtain a where
      a: "text_down pt anchor lo = lo - PAGE_SIZE - of_nat a * PAGE_SIZE"
        "\<forall>i<a. kg_va_is_rx pt (lo - PAGE_SIZE - of_nat (Suc i) * PAGE_SIZE)"
        "unat (anchor - text_down pt anchor lo) = unat (anchor - (lo - PAGE_SIZE)) + a * 4096"
        "unat (anchor - text_down pt anchor lo) < 268435456 + 4096"
        "unat (anchor - text_down pt anchor lo) < 268435456 \<longrightarrow> \<not> kg_va_is_rx pt (text_down pt anchor lo - PAGE_SIZE)"
      unfolding td by auto
    show ?thesis
    proof (intro exI [of _ "Suc a"] conjI)
      show "text_down pt anchor lo = lo - of_nat (Suc a) * PAGE_SIZE" using a(1) by (simp add: algebra_simps)
      show "\<forall>i<Suc a. kg_va_is_rx pt (lo - of_nat (Suc i) * PAGE_SIZE)"
      proof (intro allI impI)
        fix i assume "i < Suc a"
        then show "kg_va_is_rx pt (lo - of_nat (Suc i) * PAGE_SIZE)"
          using True a(2) by (cases i) (auto simp: algebra_simps)
      qed
      show "unat (anchor - text_down pt anchor lo) = unat (anchor - lo) + Suc a * 4096" using a(3) st by simp
    qed (use a in auto)
  next
    case False
    then have "text_down pt anchor lo = lo" by (subst text_down.simps) auto
    with False 1(2) show ?thesis
      by (intro exI [of _ 0]) (auto simp: kg_const word_less_nat_alt)
  qed
qed

lemma text_up_spec:
  assumes "unat (hi - anchor) < 268435456 + 4096"
  shows "\<exists>b. text_up pt anchor hi = hi + of_nat b * PAGE_SIZE \<and>
     (\<forall>i<b. kg_va_is_rx pt (hi + of_nat i * PAGE_SIZE)) \<and>
     unat (text_up pt anchor hi - anchor) = unat (hi - anchor) + b * 4096 \<and>
     unat (text_up pt anchor hi - anchor) < 268435456 + 4096 \<and>
     (unat (text_up pt anchor hi - anchor) < 268435456 \<longrightarrow> \<not> kg_va_is_rx pt (text_up pt anchor hi))"
  using assms
proof (induction pt anchor hi rule: text_up.induct)
  case (1 pt anchor hi)
  show ?case
  proof (cases "hi - anchor < TEXT_LIMIT \<and> kg_va_is_rx pt hi")
    case True
    then have tu: "text_up pt anchor hi = text_up pt anchor (hi + PAGE_SIZE)"
      by (subst text_up.simps) simp
    have st: "unat (hi + PAGE_SIZE - anchor) = unat (hi - anchor) + 4096" "unat (hi - anchor) < 268435456"
      using True page_step [of "hi - anchor"] page_step_bound by (simp_all add: algebra_simps)
    from 1 True st obtain b where
      b: "text_up pt anchor hi = hi + PAGE_SIZE + of_nat b * PAGE_SIZE"
        "\<forall>i<b. kg_va_is_rx pt (hi + PAGE_SIZE + of_nat i * PAGE_SIZE)"
        "unat (text_up pt anchor hi - anchor) = unat (hi + PAGE_SIZE - anchor) + b * 4096"
        "unat (text_up pt anchor hi - anchor) < 268435456 + 4096"
        "unat (text_up pt anchor hi - anchor) < 268435456 \<longrightarrow> \<not> kg_va_is_rx pt (text_up pt anchor hi)"
      unfolding tu by auto
    show ?thesis
    proof (intro exI [of _ "Suc b"] conjI)
      show "text_up pt anchor hi = hi + of_nat (Suc b) * PAGE_SIZE" using b(1) by (simp add: algebra_simps)
      show "\<forall>i<Suc b. kg_va_is_rx pt (hi + of_nat i * PAGE_SIZE)"
      proof (intro allI impI)
        fix i assume "i < Suc b"
        then show "kg_va_is_rx pt (hi + of_nat i * PAGE_SIZE)"
          using True b(2) by (cases i) (auto simp: algebra_simps)
      qed
      show "unat (text_up pt anchor hi - anchor) = unat (hi - anchor) + Suc b * 4096" using b(3) st by simp
    qed (use b in auto)
  next
    case False
    then have "text_up pt anchor hi = hi" by (subst text_up.simps) auto
    with False 1(2) show ?thesis
      by (intro exI [of _ 0]) (auto simp: kg_const word_less_nat_alt)
  qed
qed

lemma find_text_bounds_run:
  assumes "kg_find_text_bounds pt printk = Inr (lo, hi)" and "anchor = printk AND NOT (PAGE_SIZE - 1)"
  shows "\<exists>a b. lo = anchor - of_nat a * PAGE_SIZE \<and> hi = anchor + of_nat b * PAGE_SIZE \<and> 0 < b \<and>
     256 \<le> a + b \<and> a + b < 65536 \<and> (\<forall>i\<le>a. kg_va_is_rx pt (anchor - of_nat i * PAGE_SIZE)) \<and>
     (\<forall>i<b. kg_va_is_rx pt (anchor + of_nat i * PAGE_SIZE)) \<and> \<not> kg_va_is_rx pt (lo - PAGE_SIZE) \<and> \<not> kg_va_is_rx pt hi"
proof -
  have rx: "kg_va_is_rx pt anchor" and lo: "lo = text_down pt anchor anchor"
    and hi: "hi = text_up pt anchor (anchor + PAGE_SIZE)"
    and ext: "TEXT_MIN \<le> hi - lo" "hi - lo < TEXT_LIMIT"
    using assms by (auto simp: kg_find_text_bounds_def Let_def split: if_splits)
  obtain a where a: "lo = anchor - of_nat a * PAGE_SIZE"
    "\<forall>i<a. kg_va_is_rx pt (anchor - of_nat (Suc i) * PAGE_SIZE)"
    "unat (anchor - lo) = a * 4096" "unat (anchor - lo) < 268435456 + 4096"
    "unat (anchor - lo) < 268435456 \<longrightarrow> \<not> kg_va_is_rx pt (lo - PAGE_SIZE)"
    using text_down_spec [of anchor anchor pt] unfolding lo by auto
  obtain b where b: "hi = anchor + PAGE_SIZE + of_nat b * PAGE_SIZE"
    "\<forall>i<b. kg_va_is_rx pt (anchor + PAGE_SIZE + of_nat i * PAGE_SIZE)"
    "unat (hi - anchor) = 4096 + b * 4096" "unat (hi - anchor) < 268435456 + 4096"
    "unat (hi - anchor) < 268435456 \<longrightarrow> \<not> kg_va_is_rx pt hi"
    using text_up_spec [of "anchor + PAGE_SIZE" anchor pt] unfolding hi by (auto simp: kg_const)
  have "hi - lo = (hi - anchor) + (anchor - lo)" by simp
  then have w: "unat (hi - lo) = a * 4096 + (4096 + b * 4096)"
    using a(3,4) b(3,4) unat_add_lem [THEN iffD1, of "hi - anchor" "anchor - lo"] by simp
  have bounds: "1048576 \<le> unat (hi - lo)" "unat (hi - lo) < 268435456"
    using ext by (simp_all add: kg_const word_less_nat_alt word_le_nat_alt)
  show ?thesis
  proof (rule exI [of _ a], rule exI [of _ "Suc b"], intro conjI)
    show "\<forall>i\<le>a. kg_va_is_rx pt (anchor - of_nat i * PAGE_SIZE)"
    proof (intro allI impI)
      fix i assume "i \<le> a"
      then show "kg_va_is_rx pt (anchor - of_nat i * PAGE_SIZE)"
        using rx a(2) by (cases i) (auto simp: Suc_le_eq)
    qed
    show "\<forall>i<Suc b. kg_va_is_rx pt (anchor + of_nat i * PAGE_SIZE)"
    proof (intro allI impI)
      fix i assume "i < Suc b"
      then show "kg_va_is_rx pt (anchor + of_nat i * PAGE_SIZE)"
        using rx b(2) by (cases i) (auto simp: algebra_simps)
    qed
  qed (use a b w bounds in \<open>auto simp: algebra_simps\<close>)
qed

section \<open>Copies and comparisons\<close>

lemma length_mem_read [simp]: "length (mem_read m b n) = n"
  by (simp add: mem_read_def)

lemma nth_mem_read [simp]: "i < n \<Longrightarrow> mem_read m b n ! i = m (b + of_nat i)"
  by (simp add: mem_read_def)

lemma mem_read_append: "mem_read m b (k + l) = mem_read m b k @ mem_read m (b + of_nat k) l"
  by (rule nth_equalityI) (auto simp: nth_append of_nat_diff algebra_simps)

lemma drop_mem_read: "drop k (mem_read m b n) = mem_read m (b + of_nat k) (n - k)"
  by (rule nth_equalityI) (auto simp: algebra_simps)

lemma take_mem_read: "take k (mem_read m b n) = mem_read m b (min k n)"
  by (rule nth_equalityI) auto

lemma stream_copy_from: "kg_stream_copy m b off n = mem_read m (b + of_nat off) (n - off)"
proof (induction m b off n rule: kg_stream_copy.induct)
  case (1 m b off n)
  show ?case
  proof (cases "off < n")
    case True
    let ?k = "min KG_CHUNK (n - off)"
    have "n - off = ?k + (n - (off + KG_CHUNK))" by simp
    then have "mem_read m (b + of_nat off) (n - off)
      = mem_read m (b + of_nat off) ?k @ mem_read m (b + of_nat off + of_nat ?k) (n - (off + KG_CHUNK))"
      by (metis mem_read_append)
    moreover have "mem_read m (b + of_nat off + of_nat ?k) (n - (off + KG_CHUNK))
      = mem_read m (b + of_nat (off + KG_CHUNK)) (n - (off + KG_CHUNK))"
      by (cases "KG_CHUNK \<le> n - off") (simp_all add: min_def algebra_simps mem_read_def)
    ultimately show ?thesis using True 1 by (subst kg_stream_copy.simps) simp
  qed (simp add: kg_stream_copy.simps mem_read_def)
qed

lemma stream_copy [simp]: "kg_stream_copy m b 0 n = mem_read m b n"
  by (simp add: stream_copy_from)

lemma stream_equal_from:
  assumes "length a = n"
  shows "kg_stream_equal a m b off n \<longleftrightarrow> drop off a = mem_read m (b + of_nat off) (n - off)"
  using assms
proof (induction a m b off n rule: kg_stream_equal.induct)
  case (1 a m b off n)
  show ?case
  proof (cases "off < n")
    case True
    let ?k = "min KG_CHUNK (n - off)" and ?l = "n - (off + KG_CHUNK)"
    have split: "mem_read m (b + of_nat off) (n - off)
      = mem_read m (b + of_nat off) ?k @ mem_read m (b + of_nat (off + KG_CHUNK)) ?l"
      using stream_copy_from [of m b off n, symmetric] True
      by (subst (asm) kg_stream_copy.simps) (simp add: stream_copy_from)
    have "drop off a = take ?k (drop off a) @ drop (off + KG_CHUNK) a"
      using 1(2) by (cases "KG_CHUNK \<le> n - off") (simp_all add: min_def add.commute flip: drop_drop)
    then have "drop off a = mem_read m (b + of_nat off) (n - off) \<longleftrightarrow>
      take ?k (drop off a) = mem_read m (b + of_nat off) ?k \<and>
      drop (off + KG_CHUNK) a = mem_read m (b + of_nat (off + KG_CHUNK)) ?l"
      unfolding split using 1(2) by (metis append_eq_append_conv length_mem_read length_take length_drop min.left_idem min_def)
    with True 1 show ?thesis by (subst kg_stream_equal.simps) (auto simp: Let_def)
  qed (use 1(2) in \<open>simp add: kg_stream_equal.simps mem_read_def\<close>)
qed

lemma stream_equal: "length a = n \<Longrightarrow> kg_stream_equal a m b 0 n \<longleftrightarrow> a = mem_read m b n"
  by (simp add: stream_equal_from)

lemma length_take_baseline: "length c = n \<or> 0 < k \<Longrightarrow> length (take_baseline rd b n i k c) = n"
proof (induction k arbitrary: i c)
  case (Suc k)
  then show ?case by (simp add: Let_def)
qed simp

section \<open>What a verdict means\<close>

text \<open>A branch the kernel may have written itself: its target is kernel text, the same region, or, for a call, module code.\<close>

definition known_target :: "text_par \<Rightarrow> kg_text \<Rightarrow> kg_region \<Rightarrow> kg_form \<Rightarrow> u64 \<Rightarrow> bool" where
  "known_target tp t r f tgt \<longleftrightarrow> kg_addr_in_kernel_text t tgt \<or> kg_region_contains r tgt \<or>
     (f = F_CALL \<and> (kg_in_tracked_module t tgt \<or> kg_in_module_area tp tgt))"

text \<open>
  The kernel's own patch sites, for the change of the run \<open>[rs, re)\<close> to \<open>newb\<close>: a short jump label, or a
  five-byte no-op, call or jump that became another one with a known target.
\<close>

definition patch_site :: "text_par \<Rightarrow> kg_text \<Rightarrow> kg_region \<Rightarrow> nat \<Rightarrow> nat \<Rightarrow> bytes \<Rightarrow> nat \<Rightarrow> nat \<Rightarrow> bool" where
  "patch_site tp t r rs re newb s len \<longleftrightarrow>
     (len = 2 \<and> short_site r rs re newb s) \<or>
     (len = 5 \<and> s + 5 \<le> unat (r_size r) \<and> kg_form5 (old5 r s) \<in> {F_NOP5, F_CALL, F_JMP} \<and>
      kg_form5 (new5 r rs re newb s) \<in> {F_NOP5, F_CALL, F_JMP} \<and>
      (kg_form5 (new5 r rs re newb s) \<noteq> F_NOP5 \<longrightarrow>
         known_target tp t r (kg_form5 (new5 r rs re newb s))
           (kg_branch_target (r_base r + of_nat s) (new5 r rs re newb s))))"

text \<open>A change that is reported, below critical: a static call cleared, or a jump to a detour buffer in the module area.\<close>

definition watch_site :: "text_par \<Rightarrow> kg_text \<Rightarrow> kg_region \<Rightarrow> nat \<Rightarrow> nat \<Rightarrow> bytes \<Rightarrow> nat \<Rightarrow> bool" where
  "watch_site tp t r rs re newb s \<longleftrightarrow> s + 5 \<le> unat (r_size r) \<and>
     (let fo = kg_form5 (old5 r s); fn = kg_form5 (new5 r rs re newb s);
          tgt = kg_branch_target (r_base r + of_nat s) (new5 r rs re newb s)
      in (fo \<noteq> F_OTHER \<and> fn \<noteq> F_OTHER \<and> (fo \<in> {F_XOR5, F_RET5} \<or> fn \<in> {F_XOR5, F_RET5})) \<or>
         (fn = F_JMP \<and> kg_in_module_area tp tgt \<and> \<not> kg_in_tracked_module t tgt))"

definition lone_breakpoint :: "kg_region \<Rightarrow> nat \<Rightarrow> nat \<Rightarrow> bytes \<Rightarrow> bool" where
  "lone_breakpoint r rs re newb \<longleftrightarrow> re - rs = 1 \<and> (newb ! 0 = 0xcc \<or> r_copy r ! rs = 0xcc)"

text \<open>What explains the changed byte at \<open>p\<close> when the verdict is \<open>v\<close>.\<close>

definition explained :: "text_par \<Rightarrow> kg_text \<Rightarrow> kg_region \<Rightarrow> nat \<Rightarrow> nat \<Rightarrow> bytes \<Rightarrow> kg_verdict \<Rightarrow> nat \<Rightarrow> bool" where
  "explained tp t r rs re newb v p \<longleftrightarrow>
     (\<exists>s len. s \<le> p \<and> p < s + len \<and> patch_site tp t r rs re newb s len) \<or>
     (KG_V_WATCH \<le> v \<and> (lone_breakpoint r rs re newb \<or> (\<exists>s. s \<le> p \<and> p < s + 5 \<and> watch_site tp t r rs re newb s)))"

lemma explained_mono: "explained tp t r rs re newb v p \<Longrightarrow> v \<le> w \<Longrightarrow> explained tp t r rs re newb w p"
  by (auto simp: explained_def intro: order_trans)

lemma explained_patch: "patch_site tp t r rs re newb s len \<Longrightarrow> s \<le> p \<Longrightarrow> p < s + len \<Longrightarrow> explained tp t r rs re newb v p"
  by (auto simp: explained_def)

lemma verdict_le [simp]: "KG_V_BENIGN \<le> v" "v \<le> KG_V_CRITICAL" "v \<le> KG_V_BENIGN \<longleftrightarrow> v = KG_V_BENIGN"
  by (cases v; simp add: less_eq_kg_verdict_def)+

lemma verdict_less [simp]: "\<not> v < KG_V_BENIGN" "\<not> KG_V_CRITICAL < v"
  by (simp_all add: not_less)

lemma form_cases: "f \<noteq> F_OTHER \<Longrightarrow> f \<noteq> F_XOR5 \<Longrightarrow> f \<noteq> F_RET5 \<Longrightarrow> f \<in> {F_NOP5, F_CALL, F_JMP}"
  by (cases f) auto

lemma window5_sound:
  assumes "window5 tp t r pos rs re newb delta = Some seg"
  shows "sg_end seg = pos - delta + 5"
    and "sg_v seg = KG_V_BENIGN \<Longrightarrow> patch_site tp t r rs re newb (pos - delta) 5"
    and "sg_v seg = KG_V_WATCH \<Longrightarrow> watch_site tp t r rs re newb (pos - delta)"
proof -
  let ?s = "pos - delta"
  define fo fn tgt where "fo = kg_form5 (old5 r ?s)" and "fn = kg_form5 (new5 r rs re newb ?s)"
    and "tgt = kg_branch_target (r_base r + of_nat ?s) (new5 r rs re newb ?s)"
  note w = assms [unfolded window5_def Let_def, folded fo_def fn_def tgt_def]
  show "sg_end seg = pos - delta + 5" using w by (auto split: if_splits)
  have fits: "?s + 5 \<le> unat (r_size r)" using w by (auto split: if_splits)
  { assume "sg_v seg = KG_V_BENIGN"
    with w have "fo \<noteq> F_OTHER \<and> fn \<noteq> F_OTHER \<and> fo \<noteq> F_XOR5 \<and> fo \<noteq> F_RET5 \<and> fn \<noteq> F_XOR5 \<and> fn \<noteq> F_RET5 \<and>
      (fn = F_CALL \<or> fn = F_JMP \<longrightarrow> known_target tp t r fn tgt)"
      by (auto simp: known_target_def split: if_splits)
    then have "fo \<in> {F_NOP5, F_CALL, F_JMP}" "fn \<in> {F_NOP5, F_CALL, F_JMP}" "fn \<noteq> F_NOP5 \<longrightarrow> known_target tp t r fn tgt"
      using form_cases by auto
    with fits show "patch_site tp t r rs re newb ?s 5"
      by (simp add: patch_site_def fo_def fn_def tgt_def) }
  { assume "sg_v seg = KG_V_WATCH"
    with w have "(fo \<noteq> F_OTHER \<and> fn \<noteq> F_OTHER \<and> (fo = F_XOR5 \<or> fo = F_RET5 \<or> fn = F_XOR5 \<or> fn = F_RET5)) \<or>
      (fn = F_JMP \<and> kg_in_module_area tp tgt \<and> \<not> kg_in_tracked_module t tgt)"
      by (auto split: if_splits)
    with fits show "watch_site tp t r rs re newb ?s"
      by (auto simp: watch_site_def Let_def fo_def fn_def tgt_def) }
qed

lemma try_windows_some:
  assumes "try_windows tp t r pos rs re newb ds = Some seg"
  obtains delta where "delta \<in> set ds" "delta \<le> pos" "window5 tp t r pos rs re newb delta = Some seg"
  using assms by (induction ds) (auto simp: not_less split: if_splits option.splits)

lemma match_site_sound:
  assumes "kg_match_site tp t r pos rs re newb first = Some seg"
  shows "pos < sg_end seg" and "pos \<le> p \<Longrightarrow> p < sg_end seg \<Longrightarrow> sg_v seg \<noteq> KG_V_CRITICAL \<Longrightarrow>
    explained tp t r rs re newb (sg_v seg) p"
proof -
  have "pos < sg_end seg \<and> (pos \<le> p \<longrightarrow> p < sg_end seg \<longrightarrow> sg_v seg \<noteq> KG_V_CRITICAL \<longrightarrow>
    explained tp t r rs re newb (sg_v seg) p)"
  proof (cases "short_site r rs re newb pos")
    case True
    with assms have "seg = \<lparr>sg_end = pos + 2, sg_v = KG_V_BENIGN, sg_flags = 0, sg_site = r_base r + of_nat pos\<rparr>"
      by (simp add: kg_match_site_def)
    moreover have "patch_site tp t r rs re newb pos 2" using True by (simp add: patch_site_def)
    ultimately show ?thesis by (auto elim: explained_patch)
  next
    case False
    with assms have "try_windows tp t r pos rs re newb (if first then [0, 1, 2, 3, 4] else [0]) = Some seg"
      by (simp add: kg_match_site_def del: try_windows.simps)
    then obtain delta where "delta \<in> set (if first then [0, 1, 2, 3, 4] else [0])" "delta \<le> pos"
      "window5 tp t r pos rs re newb delta = Some seg" by (rule try_windows_some)
    then have d: "delta \<le> 4" "delta \<le> pos" "window5 tp t r pos rs re newb delta = Some seg"
      by (auto split: if_splits)
    have "explained tp t r rs re newb (sg_v seg) p"
      if "pos \<le> p" "p < sg_end seg" "sg_v seg \<noteq> KG_V_CRITICAL"
    proof (cases "sg_v seg")
      case KG_V_BENIGN
      with window5_sound [OF d(3)] that d show ?thesis
        by (auto elim: explained_patch)
    next
      case KG_V_WATCH
      with window5_sound [OF d(3)] that d show ?thesis
        by (auto simp: explained_def intro!: exI [of _ "pos - delta"])
    qed (use that in simp)
    then show ?thesis using d window5_sound(1) [OF d(3)] by auto
  qed
  then show "pos < sg_end seg" "pos \<le> p \<Longrightarrow> p < sg_end seg \<Longrightarrow> sg_v seg \<noteq> KG_V_CRITICAL \<Longrightarrow>
    explained tp t r rs re newb (sg_v seg) p" by auto
qed

lemma classify_loop_sound:
  assumes "vi = classify_loop tp t r rs re newb pos first out"
  shows "vi_v out \<le> vi_v vi \<and> (vi_v vi \<noteq> KG_V_CRITICAL \<longrightarrow>
    (\<forall>p. pos \<le> p \<longrightarrow> p < re \<longrightarrow> newb ! (p - rs) \<noteq> r_copy r ! p \<longrightarrow> explained tp t r rs re newb (vi_v vi) p))"
  using assms
proof (induction tp t r rs re newb pos first out rule: classify_loop.induct)
  case (1 tp t r rs re newb pos first out)
  note loop = classify_loop.simps [of tp t r rs re newb pos first out]
  consider (over) "re \<le> pos" | (gap) "pos < re" "newb ! (pos - rs) = r_copy r ! pos"
    | (none) "pos < re" "newb ! (pos - rs) \<noteq> r_copy r ! pos" "kg_match_site tp t r pos rs re newb first = None"
    | (some) seg where "pos < re" "newb ! (pos - rs) \<noteq> r_copy r ! pos" "kg_match_site tp t r pos rs re newb first = Some seg"
    by (metis leI option.exhaust)
  then show ?case
  proof cases
    case over
    with 1(3) show ?thesis by (simp add: loop)
  next
    case gap
    with 1(3) have vi: "vi = classify_loop tp t r rs re newb (pos + 1) first out" by (simp add: loop)
    from gap 1(1) [OF _ _ vi] show ?thesis
      by (simp add: not_le) (metis Suc_leI le_neq_implies_less)
  next
    case none
    then have vi: "vi = (if lone_breakpoint r rs re newb
        then out\<lparr>vi_v := max (vi_v out) KG_V_WATCH, vi_flags := vi_flags out OR KG_TEXTF_BREAKPOINT\<rparr>
        else out\<lparr>vi_v := KG_V_CRITICAL, vi_site := r_base r + of_nat pos, vi_wlen := re - pos\<rparr>)"
      using 1(3) by (simp add: loop lone_breakpoint_def)
    show ?thesis unfolding vi by (auto simp: explained_def)
  next
    case some
    define out2 where "out2 = (let out1 = (if vi_v out < sg_v seg
        then out\<lparr>vi_v := sg_v seg, vi_site := sg_site seg, vi_wlen := 5\<rparr> else out)
      in out1\<lparr>vi_flags := vi_flags out1 OR sg_flags seg\<rparr>)"
    have v2: "vi_v out2 = max (vi_v out) (sg_v seg)" by (auto simp: out2_def Let_def max_def)
    have e: "pos < sg_end seg" by (rule match_site_sound(1) [OF some(3)])
    then have vi: "vi = classify_loop tp t r rs re newb (sg_end seg) False out2"
      using 1(3) some by (simp add: loop out2_def Let_def)
    have ih: "vi_v out2 \<le> vi_v vi \<and> (vi_v vi \<noteq> KG_V_CRITICAL \<longrightarrow>
      (\<forall>p. sg_end seg \<le> p \<longrightarrow> p < re \<longrightarrow> newb ! (p - rs) \<noteq> r_copy r ! p \<longrightarrow> explained tp t r rs re newb (vi_v vi) p))"
      using 1(2) [OF _ _ some(3), where xa = out2] some e vi
      by (simp add: out2_def Let_def)
    have "explained tp t r rs re newb (vi_v vi) p"
      if "vi_v vi \<noteq> KG_V_CRITICAL" "pos \<le> p" "p < re" "newb ! (p - rs) \<noteq> r_copy r ! p" for p
    proof (cases "p < sg_end seg")
      case True
      have sv: "sg_v seg \<le> vi_v vi" using ih v2 by (metis max.bounded_iff)
      then have "sg_v seg \<noteq> KG_V_CRITICAL" using that(1) by (metis antisym verdict_le(2))
      with True that sv show ?thesis
        using match_site_sound(2) [OF some(3)] explained_mono by blast
    next
      case False
      with ih that show ?thesis by simp
    qed
    with ih v2 show ?thesis by (metis max.bounded_iff)
  qed
qed

lemma classify_sound:
  assumes "rs \<le> p" "p < re" "newb ! (p - rs) \<noteq> r_copy r ! p"
    and "vi_v (kg_classify tp t r rs re newb) \<noteq> KG_V_CRITICAL"
  shows "explained tp t r rs re newb (vi_v (kg_classify tp t r rs re newb)) p"
  using classify_loop_sound [OF refl] assms unfolding kg_classify_def by blast

section \<open>How a run is answered\<close>

text \<open>
  The answer to a run with a given verdict, in the state after it: a run that is not the kernel's own is
  on record as an alert for its address, and a critical one has put the driver in fail-safe.
\<close>

definition run_answered :: "text_par \<Rightarrow> kg_text \<Rightarrow> kg_region \<Rightarrow> nat \<Rightarrow> nat \<Rightarrow> bytes \<Rightarrow> kg_sys \<Rightarrow> bool" where
  "run_answered tp t r rs re newb s \<longleftrightarrow>
     (let vi = kg_classify tp t r rs re newb
      in (vi_v vi \<noteq> KG_V_BENIGN \<longrightarrow>
            (\<exists>res. Ev_notify KG_ALERT_TEXT_PATCH (if vi_v vi = KG_V_CRITICAL then KG_LEVEL_CRITICAL else KG_LEVEL_WATCH)
               (r_base r + of_nat rs) (push_bit 32 (ucast (vi_flags vi)) OR ucast (of_nat (re - rs) :: u32)) res
               \<in> set (s_trace s))) \<and>
         (vi_v vi = KG_V_CRITICAL \<longrightarrow> KG_POSTURE_FAILSAFE \<le> sys_posture s))"

lemma run_answered_later: "run_answered tp t r rs re newb s \<Longrightarrow> later s s' \<Longrightarrow> run_answered tp t r rs re newb s'"
  by (fastforce simp: run_answered_def later_def Let_def)

definition put_run :: "nat \<Rightarrow> nat \<Rightarrow> bytes \<Rightarrow> kg_region \<Rightarrow> kg_region" where
  "put_run rs re newb r = r\<lparr>r_copy := take rs (r_copy r) @ take (re - rs) newb @ drop re (r_copy r)\<rparr>"

lemma handle_run_region: "fst (kg_handle_run env tp t rs re newb (r, s)) = put_run rs re newb r"
  by (simp add: kg_handle_run_def Let_def put_run_def)

lemma handle_run_later: "later s (snd (kg_handle_run env tp t rs re newb (r, s)))"
  by (auto simp: kg_handle_run_def Let_def intro: later_trans [OF _ later_report])

lemma handle_run_answered:
  assumes "pos_ready (s_pos s)" and "posture_cap (e_par env) = KG_POSTURE_FAILSAFE"
  shows "run_answered tp t r rs re newb (snd (kg_handle_run env tp t rs re newb (r, s)))"
proof (cases "vi_v (kg_classify tp t r rs re newb) = KG_V_BENIGN")
  case True
  then show ?thesis by (simp add: run_answered_def)
next
  case False
  let ?vi = "kg_classify tp t r rs re newb"
  define level where "level = (if vi_v ?vi = KG_V_CRITICAL then KG_LEVEL_CRITICAL else KG_LEVEL_WATCH)"
  define p2 :: u64 where "p2 = push_bit 32 (ucast (vi_flags ?vi)) OR ucast (of_nat (re - rs) :: u32)"
  obtain s1 where h: "snd (kg_handle_run env tp t rs re newb (r, s)) =
      kg_report env KG_ALERT_TEXT_PATCH level (r_base r + of_nat rs) p2 s1"
    and s1: "pos_ready (s_pos s1)"
    using False assms(1) by (simp add: kg_handle_run_def Let_def level_def p2_def)
  have "\<exists>res. Ev_notify KG_ALERT_TEXT_PATCH level (r_base r + of_nat rs) p2 res
      \<in> set (s_trace (kg_report env KG_ALERT_TEXT_PATCH level (r_base r + of_nat rs) p2 s1))"
    using report_delivers_first [of env KG_ALERT_TEXT_PATCH level "r_base r + of_nat rs" p2 s1]
    by (metis in_set_conv_decomp)
  moreover have "vi_v ?vi = KG_V_CRITICAL \<longrightarrow> KG_POSTURE_FAILSAFE
      \<le> sys_posture (kg_report env KG_ALERT_TEXT_PATCH level (r_base r + of_nat rs) p2 s1)"
  proof
    assume "vi_v ?vi = KG_V_CRITICAL"
    then have "dispatch_target KG_ALERT_TEXT_PATCH level = Some KG_POSTURE_FAILSAFE"
      by (simp add: level_def dispatch_target_def kg_const)
    then show "KG_POSTURE_FAILSAFE
      \<le> sys_posture (kg_report env KG_ALERT_TEXT_PATCH level (r_base r + of_nat rs) p2 s1)"
      using s1 assms(2) by (simp add: report_posture_eq)
  qed
  ultimately show ?thesis
    unfolding run_answered_def h Let_def level_def [symmetric] p2_def [symmetric] by blast
qed

section \<open>The scan of a chunk\<close>

lemma skip_equal_spec:
  assumes "i \<le> n"
  shows "skip_equal cur old n i \<le> n"
    and "\<forall>k. i \<le> k \<longrightarrow> k < skip_equal cur old n i \<longrightarrow> cur ! k = old ! k"
    and "skip_equal cur old n i < n \<longrightarrow> cur ! skip_equal cur old n i \<noteq> old ! skip_equal cur old n i"
  using assms
proof (induction cur old n i rule: skip_equal.induct)
  case (1 cur old n i)
  case 1 then show ?case using "1.IH" by (subst skip_equal.simps) auto
next
  case (1 cur old n i)
  case 2
  show ?case
  proof (intro allI impI)
    fix k assume k: "i \<le> k" "k < skip_equal cur old n i"
    show "cur ! k = old ! k"
    proof (cases "i < n \<and> cur ! i = old ! i")
      case True
      then have "skip_equal cur old n i = skip_equal cur old n (i + 1)" by (subst skip_equal.simps) simp
      with k True "1.IH"(2) [OF True] show ?thesis by (cases "k = i") auto
    next
      case False
      then have "skip_equal cur old n i = i" by (subst skip_equal.simps) auto
      with k show ?thesis by simp
    qed
  qed
next
  case (1 cur old n i)
  case 3 then show ?case using "1.IH" by (subst (1 2 3) skip_equal.simps) auto
qed

lemma put_run_nth:
  assumes "rs \<le> re" "re \<le> length (r_copy r)" "re - rs \<le> length newb" "p < length (r_copy r)"
  shows "r_copy (put_run rs re newb r) ! p = (if rs \<le> p \<and> p < re then newb ! (p - rs) else r_copy r ! p)"
  using assms by (auto simp: put_run_def nth_append)

lemma put_run_frame [simp]:
  "r_base (put_run rs re newb r) = r_base r" "r_size (put_run rs re newb r) = r_size r"
  "r_kernel (put_run rs re newb r) = r_kernel r" "r_mod (put_run rs re newb r) = r_mod r"
  "r_name (put_run rs re newb r) = r_name r"
  by (simp_all add: put_run_def)

lemma put_run_length: "rs \<le> re \<Longrightarrow> re \<le> length (r_copy r) \<Longrightarrow> re - rs \<le> length newb \<Longrightarrow>
  length (r_copy (put_run rs re newb r)) = length (r_copy r)"
  by (simp add: put_run_def)

text \<open>
  \<open>toward f W r r'\<close>: only the copy of a region changed, no byte of it outside the window \<open>W\<close>, and inside a byte
  either kept its value or took the one \<open>f\<close> gives.
\<close>

definition toward :: "(nat \<Rightarrow> u8) \<Rightarrow> (nat \<Rightarrow> bool) \<Rightarrow> kg_region \<Rightarrow> kg_region \<Rightarrow> bool" where
  "toward f W r r' \<longleftrightarrow> (\<exists>c. r' = r\<lparr>r_copy := c\<rparr> \<and> length c = length (r_copy r) \<and>
     (\<forall>p<length c. c ! p = r_copy r ! p \<or> (W p \<and> c ! p = f p)))"

lemma toward_refl [simp]: "toward f W r r"
  unfolding toward_def by (rule exI [of _ "r_copy r"]) simp

lemma toward_trans: "toward f V r r' \<Longrightarrow> toward f W r' r'' \<Longrightarrow> (\<And>p. V p \<or> W p \<Longrightarrow> U p) \<Longrightarrow> toward f U r r''"
proof -
  assume rr: "toward f V r r'" and r'r'': "toward f W r' r''" and U: "\<And>p. V p \<or> W p \<Longrightarrow> U p"
  from rr obtain c where c: "r' = r\<lparr>r_copy := c\<rparr>" "length c = length (r_copy r)"
    "\<And>p. p < length c \<Longrightarrow> c ! p = r_copy r ! p \<or> (V p \<and> c ! p = f p)" by (auto simp: toward_def)
  from r'r'' c obtain d where d: "r'' = r\<lparr>r_copy := d\<rparr>" "length d = length (r_copy r)"
    "\<And>p. p < length d \<Longrightarrow> d ! p = c ! p \<or> (W p \<and> d ! p = f p)" by (auto simp: toward_def)
  show ?thesis unfolding toward_def by (rule exI [of _ d]) (use c(2,3) d U in \<open>metis\<close>)
qed

lemma toward_put:
  assumes "rs \<le> re" "re \<le> length (r_copy r)" "re - rs \<le> length newb"
    and "\<And>p. rs \<le> p \<Longrightarrow> p < re \<Longrightarrow> newb ! (p - rs) = f p"
  shows "toward f (\<lambda>p. rs \<le> p \<and> p < re) r (put_run rs re newb r)"
  unfolding toward_def
  by (rule exI [of _ "r_copy (put_run rs re newb r)"])
    (use assms in \<open>auto simp: put_run_def nth_append\<close>)

lemma toward_frame:
  "toward f W r r' \<Longrightarrow> r_base r' = r_base r \<and> r_size r' = r_size r \<and> length (r_copy r') = length (r_copy r)"
  by (auto simp: toward_def)

lemma toward_nth: "toward f W r r' \<Longrightarrow> p < length (r_copy r) \<Longrightarrow> \<not> W p \<Longrightarrow> r_copy r' ! p = r_copy r ! p"
  by (auto simp: toward_def)

lemma toward_eqI:
  assumes "toward f W r r'" "length (r_copy r) = n" "\<And>p. p < n \<Longrightarrow> r_copy r' ! p = f p"
  shows "r' = r\<lparr>r_copy := map f [0..<n]\<rparr>"
proof -
  from assms(1) obtain c where c: "r' = r\<lparr>r_copy := c\<rparr>" "length c = n" using assms(2) by (auto simp: toward_def)
  have "c = map f [0..<n]" by (rule nth_equalityI) (use c assms(3) in auto)
  with c show ?thesis by simp
qed

text \<open>
  Byte \<open>p\<close>, which differed from the copy of \<open>r\<close> and is now \<open>f p\<close>, was answered in \<open>s\<close>: it is part of a run that
  was classified against a copy between that of \<open>r\<close> and the live text.
\<close>

definition byte_answered :: "text_par \<Rightarrow> kg_text \<Rightarrow> (nat \<Rightarrow> u8) \<Rightarrow> kg_region \<Rightarrow> kg_sys \<Rightarrow> nat \<Rightarrow> bool" where
  "byte_answered tp t f r s p \<longleftrightarrow>
     (\<exists>r0 rs re newb. toward f (\<lambda>_. True) r r0 \<and> rs \<le> p \<and> p < re \<and> r_copy r0 ! p = r_copy r ! p \<and>
        newb ! (p - rs) = f p \<and> run_answered tp t r0 rs re newb s)"

lemma byte_answered_later: "byte_answered tp t f r s p \<Longrightarrow> later s s' \<Longrightarrow> byte_answered tp t f r s' p"
  unfolding byte_answered_def using run_answered_later by blast

lemma byte_answered_from:
  assumes "byte_answered tp t f r1 s p" "toward f W r r1" "r_copy r1 ! p = r_copy r ! p"
  shows "byte_answered tp t f r s p"
proof -
  from assms(1) obtain r0 rs re newb where
    0: "toward f (\<lambda>_. True) r1 r0" "rs \<le> p" "p < re" "r_copy r0 ! p = r_copy r1 ! p"
      "newb ! (p - rs) = f p" "run_answered tp t r0 rs re newb s"
    unfolding byte_answered_def by blast
  have "toward f (\<lambda>_. True) r r0" by (rule toward_trans [OF assms(2) 0(1)]) simp
  with 0 assms(3) show ?thesis unfolding byte_answered_def by (metis (no_types, lifting))
qed

text \<open>Every report of a pass can reach fail-safe.\<close>

abbreviation uncapped :: "(nat \<Rightarrow> kg_env) \<Rightarrow> bool" where
  "uncapped env \<equiv> \<forall>i. posture_cap (e_par (env i)) = KG_POSTURE_FAILSAFE"

lemma chunk_runs_spec:
  assumes "chunk_runs env tp t off n cur i (r, s) = (r', s')" and "off + n \<le> length (r_copy r)" and "length cur = n"
    and "i \<le> n" and "\<And>k. k < n \<Longrightarrow> cur ! k = f (off + k)" and "pos_ready (s_pos s)" and "uncapped env"
  shows "toward f (\<lambda>p. off + i \<le> p \<and> p < off + n) r r' \<and> later s s' \<and>
    (\<forall>k. i \<le> k \<longrightarrow> k < n \<longrightarrow>
       (k < KG_CHUNK \<or> unat (r_size r) \<le> off + n \<longrightarrow> r_copy r' ! (off + k) = f (off + k)) \<and>
       (r_copy r' ! (off + k) \<noteq> r_copy r ! (off + k) \<longrightarrow> byte_answered tp t f r s' (off + k)))"
  using assms
proof (induction env tp t off n cur i "(r, s)" arbitrary: r s rule: chunk_runs.induct)
  case (1 env tp t off n cur i r s)
  define old where "old = drop off (r_copy r)"
  define rs where "rs = skip_equal cur old n i"
  define re where "re = run_end cur old n (rs + 1) (rs + 1) 0"
  note sk = skip_equal_spec [OF 1(5), of cur old, folded rs_def]
  have irs: "i \<le> rs" unfolding rs_def by (rule skip_equal_ge)
  have old: "old ! k = r_copy r ! (off + k)" if "k < n" for k
    using that 1(3) by (simp add: old_def)
  have eq: "r_copy r ! (off + k) = f (off + k)" if "i \<le> k" "k < rs" for k
    using that sk old [of k] 1(6) [of k] by auto
  note loop = chunk_runs.simps [of env tp t off n cur i "(r, s)", unfolded fst_conv Let_def, folded old_def, folded rs_def,
      folded re_def]
  show ?case
  proof (cases "n \<le> rs")
    case True
    then have "r' = r" "s' = s" using 1(2) loop by auto
    with True eq show ?thesis by auto
  next
    case False
    then have rn: "rs < n" by simp
    have re: "rs < re" "re \<le> n"
      unfolding re_def using run_end_ge [of "rs + 1" "rs + 1" cur old n 0] run_end_le [of "rs + 1" n cur old "rs + 1" 0] rn
      by simp_all
    show ?thesis
    proof (cases "rs < KG_CHUNK \<or> unat (r_size r) \<le> off + n")
      case handled: True
      define newb where "newb = drop rs cur"
      define r1 where "r1 = put_run (off + rs) (off + re) newb r"
      obtain s1 where h: "kg_handle_run (env (off + rs)) tp t (off + rs) (off + re) newb (r, s) = (r1, s1)"
        using handle_run_region [of "env (off + rs)" tp t "off + rs" "off + re" newb r s] unfolding r1_def
        by (metis prod.collapse)
      have s1: "later s s1" "run_answered tp t r (off + rs) (off + re) newb s1"
        using handle_run_later [of s "env (off + rs)" tp t "off + rs" "off + re" newb r]
          handle_run_answered [OF 1(7), of "env (off + rs)" tp t r "off + rs" "off + re" newb] 1(8) h by auto
      have newb: "newb ! (p - (off + rs)) = f p" if "off + rs \<le> p" "p < off + re" for p
        using 1(4) 1(6) [of "p - off"] that re by (simp add: newb_def)
      have lens: "off + re \<le> length (r_copy r)" "off + re - (off + rs) \<le> length newb"
        using 1(3,4) re by (simp_all add: newb_def)
      have t1: "toward f (\<lambda>p. off + rs \<le> p \<and> p < off + re) r r1"
        unfolding r1_def by (rule toward_put) (use lens re newb in auto)
      note fr = toward_frame [OF t1]
      have c1: "chunk_runs env tp t off n cur re (r1, s1) = (r', s')"
        using 1(2) loop False handled h by (simp add: newb_def)
      have ih: "toward f (\<lambda>p. off + re \<le> p \<and> p < off + n) r1 r' \<and> later s1 s' \<and>
        (\<forall>k. re \<le> k \<longrightarrow> k < n \<longrightarrow>
           (k < KG_CHUNK \<or> unat (r_size r1) \<le> off + n \<longrightarrow> r_copy r' ! (off + k) = f (off + k)) \<and>
           (r_copy r' ! (off + k) \<noteq> r_copy r1 ! (off + k) \<longrightarrow> byte_answered tp t f r1 s' (off + k)))"
        using 1(1) [of old rs re r1 s1] False handled h c1 1(3-8) re s1 fr
        by (simp add: old_def rs_def re_def newb_def later_def)
      have tr: "toward f (\<lambda>p. off + i \<le> p \<and> p < off + n) r r'"
        by (rule toward_trans [OF t1]) (use ih irs re in auto)
      have lt: "later s s'" using s1 ih later_trans by blast
      have at: "(k < KG_CHUNK \<or> unat (r_size r) \<le> off + n \<longrightarrow> r_copy r' ! (off + k) = f (off + k)) \<and>
         (r_copy r' ! (off + k) \<noteq> r_copy r ! (off + k) \<longrightarrow> byte_answered tp t f r s' (off + k))"
        if k: "i \<le> k" "k < n" for k
      proof -
        have kl: "off + k < length (r_copy r)" using k 1(3) by simp
        consider "k < rs" | "rs \<le> k" "k < re" | "re \<le> k" by linarith
        then show ?thesis
        proof cases
          case 1
          have "r_copy r' ! (off + k) = r_copy r1 ! (off + k)"
            by (rule toward_nth [OF conjunct1 [OF ih]]) (use 1 re kl fr in auto)
          also have "\<dots> = r_copy r ! (off + k)" by (rule toward_nth [OF t1 kl]) (use 1 in auto)
          finally show ?thesis using eq [OF k(1) 1] by simp
        next
          case 2
          have "r_copy r' ! (off + k) = r_copy r1 ! (off + k)"
            by (rule toward_nth [OF conjunct1 [OF ih]]) (use 2 kl fr in auto)
          also have "\<dots> = newb ! (off + k - (off + rs))"
            unfolding r1_def by (subst put_run_nth) (use lens re kl 2 in auto)
          finally have "r_copy r' ! (off + k) = f (off + k)" using newb [of "off + k"] 2 by simp
          moreover have "byte_answered tp t f r s' (off + k)"
            unfolding byte_answered_def
            by (rule exI [of _ r], rule exI [of _ "off + rs"], rule exI [of _ "off + re"], rule exI [of _ newb])
              (use 2 newb [of "off + k"] run_answered_later [OF s1(2)] ih in auto)
          ultimately show ?thesis by simp
        next
          case 3
          have e: "r_copy r1 ! (off + k) = r_copy r ! (off + k)" by (rule toward_nth [OF t1 kl]) (use 3 in auto)
          with ih 3 k fr show ?thesis using byte_answered_from [OF _ t1 e] by auto
        qed
      qed
      from tr lt at show ?thesis by blast
    next
      case skipped: False
      then have c1: "chunk_runs env tp t off n cur re (r, s) = (r', s')"
        using 1(2) loop False by simp
      have ih: "toward f (\<lambda>p. off + re \<le> p \<and> p < off + n) r r' \<and> later s s' \<and>
        (\<forall>k. re \<le> k \<longrightarrow> k < n \<longrightarrow>
           (k < KG_CHUNK \<or> unat (r_size r) \<le> off + n \<longrightarrow> r_copy r' ! (off + k) = f (off + k)) \<and>
           (r_copy r' ! (off + k) \<noteq> r_copy r ! (off + k) \<longrightarrow> byte_answered tp t f r s' (off + k)))"
        using 1(1) [of old rs re r s] False skipped c1 1(3-8) re
        by (simp add: old_def rs_def re_def)
      have tr: "toward f (\<lambda>p. off + i \<le> p \<and> p < off + n) r r'"
        by (rule toward_trans [OF toward_refl [of f "\<lambda>_. False"] conjunct1 [OF ih]]) (use irs re in auto)
      have "(k < KG_CHUNK \<or> unat (r_size r) \<le> off + n \<longrightarrow> r_copy r' ! (off + k) = f (off + k)) \<and>
         (r_copy r' ! (off + k) \<noteq> r_copy r ! (off + k) \<longrightarrow> byte_answered tp t f r s' (off + k))"
        if k: "i \<le> k" "k < n" for k
      proof (cases "re \<le> k")
        case True
        with ih k show ?thesis by blast
      next
        case False
        then have "r_copy r' ! (off + k) = r_copy r ! (off + k)"
          by (intro toward_nth [OF conjunct1 [OF ih]]) (use k 1(3) in auto)
        then show ?thesis using eq [OF k(1)] skipped by auto
      qed
      with tr ih show ?thesis by auto
    qed
  qed
qed

section \<open>A whole pass\<close>

lemma length_sample_twice [simp]: "length (sample_twice m1 m2 live n old) = n"
  by (simp add: sample_twice_def Let_def)

lemma sample_twice_nth:
  "k < n \<Longrightarrow> sample_twice m1 m2 live n old ! k =
     (if m1 (live + of_nat k) = m2 (live + of_nat k) then m1 (live + of_nat k) else old ! k)"
  by (simp add: sample_twice_def Let_def)

text \<open>
  One chunk, for readings that agree on it with \<open>f\<close>: the first 64 KiB of it, or all of it at the end of
  the region, carry the live bytes afterwards, and every byte that differed has been answered.
\<close>

lemma chunk_step:
  assumes fits: "off + n \<le> length (r_copy r)"
    and rd: "\<And>k j. k < n \<Longrightarrow> rd j (r_base r + of_nat off + of_nat k) = f (off + k)"
    and ready: "pos_ready (s_pos s)" "uncapped env"
    and st: "(if mem_read (rd 0) (r_base r + of_nat off) n = take n (drop off (r_copy r)) then (r, s)
              else kg_chunk_check env tp t (rd (1 :: nat)) (rd 2) off n (r, s)) = (r', s')"
  shows "toward f (\<lambda>p. off \<le> p \<and> p < off + n) r r' \<and> later s s' \<and>
    (\<forall>k<n. (k < KG_CHUNK \<or> unat (r_size r) \<le> off + n \<longrightarrow> r_copy r' ! (off + k) = f (off + k)) \<and>
       (r_copy r' ! (off + k) \<noteq> r_copy r ! (off + k) \<longrightarrow> byte_answered tp t f r s' (off + k)))"
proof (cases "mem_read (rd 0) (r_base r + of_nat off) n = take n (drop off (r_copy r))")
  case True
  have "r_copy r ! (off + k) = f (off + k)" if "k < n" for k
    using arg_cong [OF True, of "\<lambda>xs. xs ! k"] that fits rd [of k 0] by simp
  with True st show ?thesis by auto
next
  case False
  define cur where "cur = sample_twice (rd 1) (rd 2) (r_base r + of_nat off) n (drop off (r_copy r))"
  have "chunk_runs env tp t off n cur 0 (r, s) = (r', s')"
    using st False by (simp add: kg_chunk_check_def cur_def Let_def)
  from chunk_runs_spec [OF this fits _ _ _ ready, of f] show ?thesis
    using rd by (simp add: cur_def sample_twice_nth)
qed

lemma region_loop_spec:
  assumes "region_loop env tp t rd sz off (r, s) = (r', s')" and "length (r_copy r) = sz" and "unat (r_size r) = sz"
    and "\<And>i j p. p < sz \<Longrightarrow> rd i j (r_base r + of_nat p) = f p"
    and "pos_ready (s_pos s)" and "uncapped env"
  shows "toward f (\<lambda>p. off \<le> p) r r' \<and> later s s' \<and> (\<forall>p < sz. off \<le> p \<longrightarrow> r_copy r' ! p = f p \<and>
    (f p \<noteq> r_copy r ! p \<longrightarrow> byte_answered tp t f r s' p))"
  using assms
proof (induction env tp t rd sz off "(r, s)" arbitrary: r s rule: region_loop.induct)
  case (1 env tp t rd sz off r s)
  show ?case
  proof (cases "off < sz")
    case True
    define n where "n = min (KG_CHUNK + KG_OVERLAP) (sz - off)"
    have n: "off + n \<le> sz" "KG_CHUNK \<le> n \<or> sz \<le> off + n" using True by (auto simp: n_def)
    obtain r1 s1 where st: "(if mem_read (rd off 0) (r_base r + of_nat off) n = take n (drop off (r_copy r)) then (r, s)
        else kg_chunk_check env tp t (rd off 1) (rd off 2) off n (r, s)) = (r1, s1)" by fastforce
    have "rd off j (r_base r + of_nat off + of_nat k) = f (off + k)" if "k < n" for k j
      using 1(5) [of "off + k" off j] that n by (simp add: algebra_simps)
    from chunk_step [OF _ this 1(6,7) st] n 1(3)
    have c: "toward f (\<lambda>p. off \<le> p \<and> p < off + n) r r1" "later s s1"
      "\<And>k. k < n \<Longrightarrow> (k < KG_CHUNK \<or> unat (r_size r) \<le> off + n \<longrightarrow> r_copy r1 ! (off + k) = f (off + k)) \<and>
         (r_copy r1 ! (off + k) \<noteq> r_copy r ! (off + k) \<longrightarrow> byte_answered tp t f r s1 (off + k))" by auto
    note fr = toward_frame [OF c(1)]
    have l: "region_loop env tp t rd sz (off + KG_CHUNK) (r1, s1) = (r', s')"
      using 1(2) True unfolding st [symmetric] n_def by (subst (asm) region_loop.simps) (simp add: Let_def)
    have ih: "toward f (\<lambda>p. off + KG_CHUNK \<le> p) r1 r' \<and> later s1 s' \<and>
      (\<forall>p < sz. off + KG_CHUNK \<le> p \<longrightarrow> r_copy r' ! p = f p \<and> (f p \<noteq> r_copy r1 ! p \<longrightarrow> byte_answered tp t f r1 s' p))"
      using 1(1) [OF True n_def refl, of r1 s1] st l 1(3-7) fr c(2) by (auto simp: later_def)
    have "toward f (\<lambda>p. off \<le> p) r r'" by (rule toward_trans [OF c(1) conjunct1 [OF ih]]) auto
    moreover have "later s s'" using c(2) ih later_trans by blast
    moreover have "r_copy r' ! p = f p \<and> (f p \<noteq> r_copy r ! p \<longrightarrow> byte_answered tp t f r s' p)"
      if p: "p < sz" "off \<le> p" for p
    proof (cases "p < off + KG_CHUNK")
      case early: True
      have k: "p - off < n" "p - off < KG_CHUNK" "off + (p - off) = p" using p early n by auto
      have "r_copy r' ! p = r_copy r1 ! p"
        by (rule toward_nth [OF conjunct1 [OF ih]]) (use early p fr 1(3) in auto)
      with c(3) [of "p - off"] k show ?thesis using byte_answered_later ih by auto
    next
      case False
      show ?thesis
      proof (cases "r_copy r1 ! p = r_copy r ! p")
        case True
        with ih False p show ?thesis using byte_answered_from [OF _ c(1) True] by auto
      next
        case moved: False
        then have w: "p < off + n" using toward_nth [OF c(1), of p] p 1(3) by auto
        then have "byte_answered tp t f r s1 p" using c(3) [of "p - off"] p moved by auto
        then have "byte_answered tp t f r s' p" using ih byte_answered_later by blast
        with ih False p show ?thesis by simp
      qed
    qed
    ultimately show ?thesis by blast
  next
    case False
    then have "r' = r" "s' = s" using 1(2) by (subst (asm) region_loop.simps, simp)+
    with False show ?thesis by auto
  qed
qed

text \<open>A pass over text nobody is writing: the copy becomes the live text, whatever it was.\<close>

lemma region_verify_spec:
  assumes "kg_region_verify env tp t rd (r, s) = (r', s')" and "length (r_copy r) = unat (r_size r)"
    and "\<And>i j p. p < unat (r_size r) \<Longrightarrow> rd i j (r_base r + of_nat p) = m (r_base r + of_nat p)"
    and "pos_ready (s_pos s)" and "uncapped env"
  shows "r' = r\<lparr>r_copy := mem_read m (r_base r) (unat (r_size r))\<rparr>" and "later s s'"
    and "\<forall>p<unat (r_size r). m (r_base r + of_nat p) \<noteq> r_copy r ! p \<longrightarrow>
           byte_answered tp t (\<lambda>p. m (r_base r + of_nat p)) r s' p"
proof -
  let ?f = "\<lambda>p. m (r_base r + of_nat p)"
  note l = region_loop_spec [OF assms(1) [unfolded kg_region_verify_def fst_conv] assms(2) refl, of ?f,
      OF assms(3-5)]
  show "later s s'" using l by blast
  show "\<forall>p<unat (r_size r). m (r_base r + of_nat p) \<noteq> r_copy r ! p \<longrightarrow> byte_answered tp t ?f r s' p"
    using l by blast
  show "r' = r\<lparr>r_copy := mem_read m (r_base r) (unat (r_size r))\<rparr>"
    unfolding mem_read_def by (rule toward_eqI [OF _ assms(2)]) (use l in auto)
qed

lemma region_loop_quiet:
  assumes "\<And>off. off < sz \<Longrightarrow> mem_read (rd off 0) (r_base r + of_nat off) (min (KG_CHUNK + KG_OVERLAP) (sz - off))
    = take (min (KG_CHUNK + KG_OVERLAP) (sz - off)) (drop off (r_copy r))"
  shows "region_loop env tp t rd sz off (r, s) = (r, s)"
  using assms
proof (induction env tp t rd sz off "(r, s)" rule: region_loop.induct)
  case (1 env tp t rd sz off)
  show ?case
  proof (cases "off < sz")
    case True
    from 1(2) [OF True] 1(1) [OF True refl refl] 1(2) show ?thesis
      by (subst region_loop.simps) (simp add: True Let_def)
  qed (simp add: region_loop.simps)
qed

text \<open>A pass over text that equals the copy changes nothing and reports nothing.\<close>

lemma region_verify_quiet:
  assumes "r_copy r = mem_read m (r_base r) (unat (r_size r))"
    and "\<And>i p. p < unat (r_size r) \<Longrightarrow> rd i 0 (r_base r + of_nat p) = m (r_base r + of_nat p)"
  shows "kg_region_verify env tp t rd (r, s) = (r, s)"
  unfolding kg_region_verify_def fst_conv
proof (rule region_loop_quiet)
  fix off assume off: "off < unat (r_size r)"
  let ?n = "min (KG_CHUNK + KG_OVERLAP) (unat (r_size r) - off)"
  show "mem_read (rd off 0) (r_base r + of_nat off) ?n = take ?n (drop off (r_copy r))"
  proof (rule nth_equalityI)
    fix k assume "k < length (mem_read (rd off 0) (r_base r + of_nat off) ?n)"
    then have "k < ?n" "off + k < unat (r_size r)" by auto
    then show "mem_read (rd off 0) (r_base r + of_nat off) ?n ! k = take ?n (drop off (r_copy r)) ! k"
      using assms(2) [of "off + k" off] by (simp add: assms(1) add.assoc)
  qed (simp add: assms(1))
qed

lemma verify_from_spec:
  assumes "\<And>r. r \<in> set (t_regions t) \<Longrightarrow> length (r_copy r) = unat (r_size r)"
    and "\<And>i j k r p. r \<in> set (t_regions t) \<Longrightarrow> p < unat (r_size r) \<Longrightarrow>
           rd i j k (r_base r + of_nat p) = m (r_base r + of_nat p)"
    and "pos_ready (s_pos s)" and "\<And>i. uncapped (env i)"
  shows "fst (verify_from env tp rd i (t, s)) = t\<lparr>t_regions := take i (t_regions t) @
      map (\<lambda>r. r\<lparr>r_copy := mem_read m (r_base r) (unat (r_size r))\<rparr>) (drop i (t_regions t))\<rparr> \<and>
    later s (snd (verify_from env tp rd i (t, s)))"
  using assms
proof (induction env tp rd i "(t, s)" arbitrary: t s rule: verify_from.induct)
  case (1 env tp rd i t s)
  let ?live = "\<lambda>r. r\<lparr>r_copy := mem_read m (r_base r) (unat (r_size r))\<rparr>"
  show ?case
  proof (cases "i < length (t_regions t)")
    case True
    obtain r s1 where v: "kg_region_verify (env i) tp t (rd i) (t_regions t ! i, s) = (r, s1)" by fastforce
    have in_set: "t_regions t ! i \<in> set (t_regions t)" using True by simp
    have r: "r = ?live (t_regions t ! i)" "later s s1"
      using region_verify_spec [OF v 1(2) [OF in_set], of m] 1(3) [OF in_set] 1(4,5) by auto
    define t1 where "t1 = t\<lparr>t_regions := (t_regions t)[i := r]\<rparr>"
    have l: "verify_from env tp rd i (t, s) = verify_from env tp rd (Suc i) (t1, s1)"
      using True v by (subst verify_from.simps) (simp add: t1_def)
    have mem: "\<exists>q\<in>set (t_regions t). r_base q = r_base x \<and> r_size q = r_size x \<and> length (r_copy x) = unat (r_size x)"
      if "x \<in> set (t_regions t1)" for x
      using that set_update_subset [of "t_regions t" i r] 1(2) in_set r(1) by (fastforce simp: t1_def)
    have ih: "fst (verify_from env tp rd (Suc i) (t1, s1)) = t1\<lparr>t_regions := take (Suc i) (t_regions t1) @
        map ?live (drop (Suc i) (t_regions t1))\<rparr> \<and> later s1 (snd (verify_from env tp rd (Suc i) (t1, s1)))"
    proof (rule 1(1) [OF refl True v [symmetric], folded t1_def])
      show "length (r_copy x) = unat (r_size x)" if "x \<in> set (t_regions t1)" for x using mem [OF that] by blast
      show "rd i j k (r_base x + of_nat p) = m (r_base x + of_nat p)"
        if "x \<in> set (t_regions t1)" "p < unat (r_size x)" for i j k x p
        using mem [OF that(1)] 1(3) that(2) by metis
      show "pos_ready (s_pos s1)" using r(2) 1(4) by (simp add: later_def)
    qed (rule 1(5))
    have "take (Suc i) (t_regions t1) @ map ?live (drop (Suc i) (t_regions t1))
      = take i (t_regions t) @ map ?live (drop i (t_regions t))"
      using True r(1) by (simp add: t1_def take_Suc_conv_app_nth Cons_nth_drop_Suc [symmetric])
    with ih l r(2) show ?thesis using later_trans by (auto simp: t1_def)
  next
    case False
    then show ?thesis by (subst (1 2) verify_from.simps) simp
  qed
qed

lemma verify_from_quiet:
  assumes "\<And>r. r \<in> set (t_regions t) \<Longrightarrow> r_copy r = mem_read m (r_base r) (unat (r_size r))"
    and "\<And>i j k r p. r \<in> set (t_regions t) \<Longrightarrow> p < unat (r_size r) \<Longrightarrow>
           rd i j k (r_base r + of_nat p) = m (r_base r + of_nat p)"
  shows "verify_from env tp rd i (t, s) = (t, s)"
  using assms
proof (induction env tp rd i "(t, s)" rule: verify_from.induct)
  case (1 env tp rd i)
  show ?case
  proof (cases "i < length (t_regions t)")
    case True
    then have in_set: "t_regions t ! i \<in> set (t_regions t)" by simp
    have v: "kg_region_verify (env i) tp t (rd i) (t_regions t ! i, s) = (t_regions t ! i, s)"
      by (rule region_verify_quiet [of _ m]) (use 1(2,3) in_set in auto)
    have t: "t\<lparr>t_regions := (t_regions t)[i := t_regions t ! i]\<rparr> = t" by simp
    from 1(1) [OF refl True v [symmetric]] t 1(2,3) have "verify_from env tp rd (Suc i) (t, s) = (t, s)" by simp
    with True v show ?thesis by (subst verify_from.simps) simp
  qed (simp add: verify_from.simps)
qed

section \<open>The books of the text monitor\<close>

text \<open>
  Every copy has the length of its region, the counters are the sums over the list, and the copies
  together stay within the cap the administrator gave.
\<close>

definition text_inv :: "text_par \<Rightarrow> kg_text \<Rightarrow> bool" where
  "text_inv tp t \<longleftrightarrow> (\<forall>r\<in>set (t_regions t). length (r_copy r) = unat (r_size r)) \<and>
     unat (t_copy_bytes t) = sum_list (map (\<lambda>r. unat (r_size r)) (t_regions t)) \<and>
     t_nregions t = of_nat (length (t_regions t)) \<and> t_copy_bytes t \<le> push_bit 20 (ucast (tp_text_max_mb tp))"

lemma cap_small: "unat (push_bit 20 (ucast (x :: u32)) :: u64) < 2 ^ 52"
proof -
  have "unat x * 2 ^ 20 < 2 ^ 32 * 2 ^ 20" using unat_bound [of x] by simp
  moreover have "unat (push_bit 20 (ucast x :: u64)) \<le> unat x * 2 ^ 20"
    by (simp add: unsigned_push_bit_eq unsigned_ucast_eq take_bit_nat_def push_bit_nat_def)
  ultimately show ?thesis by simp
qed

lemma text_inv_add:
  assumes "text_inv tp t" and "unat sz < 2 ^ 63"
  shows "text_inv tp (fst (kg_region_add tp rec_ok copy_ok rd name base sz is_kernel owner t))"
proof (cases "sz = 0 \<or> push_bit 20 (ucast (tp_text_max_mb tp)) < t_copy_bytes t + sz \<or> \<not> rec_ok \<or> \<not> copy_ok")
  case True
  then show ?thesis using assms by (auto simp: kg_region_add_def)
next
  case False
  have "unat (t_copy_bytes t) < 2 ^ 52"
    using assms(1) cap_small [of "tp_text_max_mb tp"] by (simp add: text_inv_def word_le_nat_alt)
  then have "unat (t_copy_bytes t + sz) = unat (t_copy_bytes t) + unat sz"
    using assms(2) by (subst unat_add_lem [symmetric]) simp
  with False assms show ?thesis
    by (auto simp: kg_region_add_def text_inv_def length_take_baseline not_less algebra_simps)
qed

lemma text_inv_del:
  assumes "text_inv tp t" and "i < length (t_regions t)"
  shows "text_inv tp (kg_region_del i t)"
proof -
  let ?rs = "t_regions t"
  have split: "?rs = take i ?rs @ ?rs ! i # drop (Suc i) ?rs" using assms(2) by (rule id_take_nth_drop)
  have sum: "unat (t_copy_bytes t) = sum_list (map (\<lambda>r. unat (r_size r)) (take i ?rs @ drop (Suc i) ?rs)) + unat (r_size (?rs ! i))"
    using assms(1) arg_cong [OF split, of "\<lambda>xs. sum_list (map (\<lambda>r. unat (r_size r)) xs)"] by (simp add: text_inv_def)
  then have le: "r_size (?rs ! i) \<le> t_copy_bytes t" by (simp add: word_le_nat_alt)
  have d: "unat (t_copy_bytes t - r_size (?rs ! i)) = unat (t_copy_bytes t) - unat (r_size (?rs ! i))"
    using le by (simp add: unat_sub)
  have "t_copy_bytes t - r_size (?rs ! i) \<le> t_copy_bytes t" using le by (simp add: word_le_nat_alt d)
  moreover have "set (take i ?rs @ drop (Suc i) ?rs) \<subseteq> set ?rs" by (auto dest: in_set_takeD in_set_dropD)
  moreover have "length (take i ?rs @ drop (Suc i) ?rs) = length ?rs - 1" using assms(2) by simp
  ultimately show ?thesis
    using assms sum d by (auto simp: text_inv_def kg_region_del_def of_nat_diff dest: order_trans)
qed

definition recopied :: "kg_region \<Rightarrow> kg_region \<Rightarrow> bool" where
  "recopied r r' \<longleftrightarrow> (\<exists>c. r' = r\<lparr>r_copy := c\<rparr> \<and> length c = length (r_copy r))"

lemma recopied_trans: "recopied r r' \<Longrightarrow> recopied r' r'' \<Longrightarrow> recopied r r''"
  by (auto simp: recopied_def)

lemma recopied_refl [simp]: "recopied r r"
  unfolding recopied_def by (rule exI [of _ "r_copy r"]) simp

lemma recopied_put: "rs \<le> re \<Longrightarrow> re \<le> length (r_copy r) \<Longrightarrow> re - rs \<le> length newb \<Longrightarrow> recopied r (put_run rs re newb r)"
  by (auto simp: recopied_def put_run_def)

lemma chunk_runs_recopied:
  assumes "off + n \<le> length (r_copy (fst st))" and "length cur = n"
  shows "recopied (fst st) (fst (chunk_runs env tp t off n cur i st))"
  using assms
proof (induction env tp t off n cur i st rule: chunk_runs.induct)
  case (1 env tp t off n cur i st)
  define old where "old = drop off (r_copy (fst st))"
  define rs where "rs = skip_equal cur old n i"
  define re where "re = run_end cur old n (rs + 1) (rs + 1) 0"
  define st1 where "st1 = (if rs < KG_CHUNK \<or> unat (r_size (fst st)) \<le> off + n
    then kg_handle_run (env (off + rs)) tp t (off + rs) (off + re) (drop rs cur) st else st)"
  note loop = chunk_runs.simps [of env tp t off n cur i st, unfolded Let_def, folded old_def, folded rs_def,
      folded re_def, folded st1_def]
  show ?case
  proof (cases "n \<le> rs")
    case True
    then show ?thesis by (simp add: loop)
  next
    case False
    have re: "rs < re" "re \<le> n"
      unfolding re_def using run_end_ge [of "rs + 1" "rs + 1" cur old n 0] run_end_le [of "rs + 1" n cur old "rs + 1" 0] False
      by simp_all
    have "recopied (fst st) (fst st1)"
      using 1(2,3) re unfolding st1_def
      by (cases st) (auto simp: handle_run_region intro!: recopied_put)
    moreover from this have "recopied (fst st1) (fst (chunk_runs env tp t off n cur re st1))"
      using 1(1) [OF old_def rs_def False re_def st1_def] 1(2,3) by (auto simp: recopied_def)
    ultimately show ?thesis using False by (simp add: loop) (rule recopied_trans)
  qed
qed

lemma region_loop_recopied:
  assumes "sz \<le> length (r_copy (fst st))"
  shows "recopied (fst st) (fst (region_loop env tp t rd sz off st))"
  using assms
proof (induction env tp t rd sz off st rule: region_loop.induct)
  case (1 env tp t rd sz off st)
  show ?case
  proof (cases "off < sz")
    case True
    define n where "n = min (KG_CHUNK + KG_OVERLAP) (sz - off)"
    define same where "same = (mem_read (rd off 0) (r_base (fst st) + of_nat off) n = take n (drop off (r_copy (fst st))))"
    define st1 where "st1 = (if same then st else kg_chunk_check env tp t (rd off 1) (rd off 2) off n st)"
    have "off + n \<le> length (r_copy (fst st))" using True 1(2) by (auto simp: n_def)
    then have s1: "recopied (fst st) (fst st1)"
      by (auto simp: st1_def kg_chunk_check_def Let_def intro: chunk_runs_recopied)
    then have "recopied (fst st1) (fst (region_loop env tp t rd sz (off + KG_CHUNK) st1))"
      using 1(1) [OF True n_def same_def st1_def] 1(2) by (auto simp: recopied_def)
    with s1 have "recopied (fst st) (fst (region_loop env tp t rd sz (off + KG_CHUNK) st1))" by (rule recopied_trans)
    moreover have "region_loop env tp t rd sz off st = region_loop env tp t rd sz (off + KG_CHUNK) st1"
      unfolding st1_def same_def n_def using True by (subst region_loop.simps) (simp add: Let_def)
    ultimately show ?thesis by simp
  qed (simp add: region_loop.simps)
qed

lemma text_inv_recopied:
  assumes "text_inv tp t" and "i < length (t_regions t)" and "recopied (t_regions t ! i) r"
  shows "text_inv tp (t\<lparr>t_regions := (t_regions t)[i := r]\<rparr>)"
proof -
  have r: "r_size r = r_size (t_regions t ! i)" "length (r_copy r) = length (r_copy (t_regions t ! i))"
    using assms(3) by (auto simp: recopied_def)
  have "map (\<lambda>r. unat (r_size r)) ((t_regions t)[i := r]) = map (\<lambda>r. unat (r_size r)) (t_regions t)"
    using r(1) assms(2) by (simp add: map_update list_update_same_conv)
  moreover have "\<forall>x\<in>set ((t_regions t)[i := r]). length (r_copy x) = unat (r_size x)"
    using assms(1,2) r set_update_subset [of "t_regions t" i r] by (fastforce simp: text_inv_def)
  ultimately show ?thesis using assms(1) by (simp add: text_inv_def)
qed

lemma text_inv_verify: "text_inv tp (fst ts) \<Longrightarrow> text_inv tp (fst (verify_from env tp rd i ts))"
proof (induction env tp rd i ts rule: verify_from.induct)
  case (1 env tp rd i ts)
  obtain t s where ts: "ts = (t, s)" by fastforce
  show ?case
  proof (cases "i < length (t_regions t)")
    case True
    obtain r s1 where v: "kg_region_verify (env i) tp t (rd i) (t_regions t ! i, s) = (r, s1)" by fastforce
    have "length (r_copy (t_regions t ! i)) = unat (r_size (t_regions t ! i))"
      using 1(2) True by (simp add: ts text_inv_def)
    then have "recopied (t_regions t ! i) r"
      using region_loop_recopied [of "unat (r_size (t_regions t ! i))" "(t_regions t ! i, s)" "env i" tp t "rd i" 0] v
      by (simp add: kg_region_verify_def)
    then have "text_inv tp (t\<lparr>t_regions := (t_regions t)[i := r]\<rparr>)"
      using text_inv_recopied 1(2) True by (simp add: ts)
    with 1(1) [OF ts [symmetric] True v [symmetric]] True v show ?thesis by (simp add: ts verify_from.simps [of env tp rd i])
  next
    case False
    with 1(2) show ?thesis by (simp add: ts verify_from.simps [of env tp rd i])
  qed
qed

lemma text_inv_verify_all: "text_inv tp t \<Longrightarrow> text_inv tp (fst (kg_text_verify_all env tp rd (t, s)))"
  by (simp add: kg_text_verify_all_def text_inv_verify)

section \<open>The baseline\<close>

lemma take_baseline_cases:
  "(\<exists>k. a \<le> k \<and> k < a + Suc n \<and> take_baseline rd b l a (Suc n) c = mem_read (rd (2 * k)) b l \<and>
       mem_read (rd (2 * k + 1)) b l = mem_read (rd (2 * k)) b l) \<or>
   ((\<forall>k. a \<le> k \<longrightarrow> k < a + Suc n \<longrightarrow> mem_read (rd (2 * k)) b l \<noteq> mem_read (rd (2 * k + 1)) b l) \<and>
       take_baseline rd b l a (Suc n) c = mem_read (rd (2 * (a + n))) b l)"
proof (induction n arbitrary: a c)
  case 0
  have eq: "k = a" if "a \<le> k" "k < a + Suc 0" for k using that by simp
  show ?case
  proof (cases "mem_read (rd (2 * a)) b l = mem_read (rd (2 * a + 1)) b l")
    case True
    then show ?thesis by (intro disjI1 exI [of _ a]) (simp add: stream_equal Let_def)
  next
    case False
    then show ?thesis by (intro disjI2 conjI allI impI) (auto dest!: eq simp: stream_equal Let_def)
  qed
next
  case (Suc n)
  show ?case
  proof (cases "mem_read (rd (2 * a)) b l = mem_read (rd (2 * a + 1)) b l")
    case True
    then show ?thesis by (intro disjI1 exI [of _ a]) (simp add: stream_equal Let_def)
  next
    case False
    then have tb: "take_baseline rd b l a (Suc (Suc n)) c = take_baseline rd b l (Suc a) (Suc n) (mem_read (rd (2 * a)) b l)"
      by (subst take_baseline.simps) (simp add: stream_equal Let_def)
    have ran: "(\<forall>k. a \<le> k \<longrightarrow> k < a + Suc (Suc n) \<longrightarrow> P k) \<longleftrightarrow> P a \<and> (\<forall>k. Suc a \<le> k \<longrightarrow> k < Suc a + Suc n \<longrightarrow> P k)" for P
      by (metis Suc_le_eq add_Suc add_Suc_right le_less less_add_Suc1)
    show ?thesis
      using Suc [of "Suc a" "mem_read (rd (2 * a)) b l"] False unfolding tb ran
      by (elim disjE exE) (auto intro: exI [of _ "_ :: nat"])
  qed
qed

section \<open>Properties\<close>

definition example_region :: kg_region where
  "example_region = \<lparr>r_name = ''demo'', r_base = 0x1000, r_size = 8, r_copy = [0x0f, 0x1f, 0x44, 0, 0, 0x55, 0x90, 0xc3],
     r_kernel = False, r_mod = Some 0x9000\<rparr>"

definition example_monitored :: kg_text where
  "example_monitored = \<lparr>t_start = 0x200000, t_end = 0x400000, t_regions = [example_region], t_copy_bytes = 8, t_nregions = 1,
     t_enabled = True\<rparr>"

definition example_tp :: text_par where
  "example_tp = \<lparr>tp_text = True, tp_text_modules = True, tp_text_max_mb = 128, tp_modules_vaddr = 0x1000,
     tp_modules_end = 0x8000\<rparr>"

text \<open>Live memory in which the return at the end of the region was overwritten.\<close>

definition example_mem :: snapshot where
  "example_mem a = (if a = 0x1007 then 0x90 else r_copy example_region ! unat (a - 0x1000))"


lemma example_uncapped: "posture_cap (e_par (example_env now)) = KG_POSTURE_FAILSAFE"
  by (simp add: posture_cap_def example_par_def kg_const)

lemma example_region_len: "length (r_copy example_region) = unat (r_size example_region)"
  by (simp add: example_region_def)


text \<open>C11. A pass over text that nobody rewrites meanwhile leaves every baseline copy equal to the live text and
  changes nothing else of the monitor; a second pass over the same text then finds nothing, so one modification
  is reported once and not once per pass.\<close>

theorem text_pass_settles:
  assumes "t_enabled t"
    and "\<And>r. r \<in> set (t_regions t) \<Longrightarrow> length (r_copy r) = unat (r_size r)"
    and "\<And>i j k r p. r \<in> set (t_regions t) \<Longrightarrow> p < unat (r_size r) \<Longrightarrow>
           rd i j k (r_base r + of_nat p) = m (r_base r + of_nat p) \<and> rd' i j k (r_base r + of_nat p) = m (r_base r + of_nat p)"
    and "pos_ready (s_pos s)" and "\<And>i j. posture_cap (e_par (env i j)) = KG_POSTURE_FAILSAFE"
  shows "fst (kg_text_verify_all env tp rd (t, s)) =
      t\<lparr>t_regions := map (\<lambda>r. r\<lparr>r_copy := mem_read m (r_base r) (unat (r_size r))\<rparr>) (t_regions t)\<rparr> \<and>
    kg_text_verify_all env' tp rd' (kg_text_verify_all env tp rd (t, s)) = kg_text_verify_all env tp rd (t, s)"
proof -
  let ?live = "\<lambda>r. r\<lparr>r_copy := mem_read m (r_base r) (unat (r_size r))\<rparr>"
  obtain t' s' where v: "kg_text_verify_all env tp rd (t, s) = (t', s')" by fastforce
  have t': "t' = t\<lparr>t_regions := map ?live (t_regions t)\<rparr>"
    using verify_from_spec [of t rd m s env tp 0] assms v by (simp add: kg_text_verify_all_def)
  have "verify_from env' tp rd' 0 (t', s') = (t', s')"
    by (rule verify_from_quiet [of _ m]) (use assms(3) t' in auto)
  then have "kg_text_verify_all env' tp rd' (t', s') = (t', s')"
    using assms(1) t' by (simp add: kg_text_verify_all_def)
  with t' show ?thesis unfolding v by simp
qed

theorem text_pass_settles_witness:
  "r_copy (t_regions (fst (kg_text_verify_all (\<lambda>_ _. example_env 1) example_tp (\<lambda>_ _ _. example_mem)
      (example_monitored, example_sys))) ! 0) = [0x0f, 0x1f, 0x44, 0, 0, 0x55, 0x90, 0x90] \<and>
   kg_text_verify_all (\<lambda>_ _. example_env 2) example_tp (\<lambda>_ _ _. example_mem)
      (kg_text_verify_all (\<lambda>_ _. example_env 1) example_tp (\<lambda>_ _ _. example_mem) (example_monitored, example_sys)) =
   kg_text_verify_all (\<lambda>_ _. example_env 1) example_tp (\<lambda>_ _ _. example_mem) (example_monitored, example_sys)"
proof -
  have e: "t_enabled example_monitored" "t_regions example_monitored = [example_region]" by (simp_all add: example_monitored_def)
  have l: "mem_read example_mem (r_base example_region) (unat (r_size example_region)) =
    [0x0f, 0x1f, 0x44, 0, 0, 0x55, 0x90, 0x90]"
    by (simp add: mem_read_def example_mem_def example_region_def upt_rec)
  note p = text_pass_settles [OF e(1), of "\<lambda>_ _ _. example_mem" example_mem "\<lambda>_ _ _. example_mem" example_sys
      "\<lambda>_ _. example_env 1", where tp = example_tp]
  show ?thesis
    using p [of "\<lambda>_ _. example_env 2"] example_uncapped example_region_len by (simp add: e(2) l)
qed

text \<open>The text bounds found in the page tables are exactly the contiguous run of present, executable and
  read-only pages around the anchor function: every page of it qualifies, the pages next to its two ends do not,
  and its size is at least 1 MiB and below 256 MiB.  Otherwise the search reports that the anchor itself is
  not such a page, or that the extent is implausible.\<close>

theorem text_bounds_exact:
  "case kg_find_text_bounds pt printk of
     Inl e \<Rightarrow> e = (if kg_va_is_rx pt (printk AND NOT (PAGE_SIZE - 1)) then ERANGE else ENODATA)
   | Inr (lo, hi) \<Rightarrow>
       \<exists>a b anchor. anchor = printk AND NOT (PAGE_SIZE - 1) \<and>
         lo = anchor - of_nat a * PAGE_SIZE \<and> hi = anchor + of_nat b * PAGE_SIZE \<and> 0 < b \<and> 256 \<le> a + b \<and> a + b < 65536 \<and>
         (\<lambda>i. anchor - of_nat i * PAGE_SIZE) ` {..a} \<subseteq> {va. kg_va_is_rx pt va} \<and>
         (\<lambda>i. anchor + of_nat i * PAGE_SIZE) ` {..<b} \<subseteq> {va. kg_va_is_rx pt va} \<and>
         {lo - PAGE_SIZE, hi} \<subseteq> {va. \<not> kg_va_is_rx pt va}"
proof (cases "kg_find_text_bounds pt printk")
  case (Inl e)
  then show ?thesis by (auto simp: kg_find_text_bounds_def Let_def split: if_splits)
next
  case (Inr x)
  obtain lo hi where x: "x = (lo, hi)" by fastforce
  from find_text_bounds_run [OF Inr [unfolded x] refl] obtain a b where
    ab: "lo = (printk AND NOT (PAGE_SIZE - 1)) - of_nat a * PAGE_SIZE"
      "hi = (printk AND NOT (PAGE_SIZE - 1)) + of_nat b * PAGE_SIZE" "0 < b" "256 \<le> a + b" "a + b < 65536"
      "\<forall>i\<le>a. kg_va_is_rx pt ((printk AND NOT (PAGE_SIZE - 1)) - of_nat i * PAGE_SIZE)"
      "\<forall>i<b. kg_va_is_rx pt ((printk AND NOT (PAGE_SIZE - 1)) + of_nat i * PAGE_SIZE)"
      "\<not> kg_va_is_rx pt (lo - PAGE_SIZE)" "\<not> kg_va_is_rx pt hi" by blast
  show ?thesis
    unfolding Inr x sum.case prod.case
    by (rule exI [of _ a], rule exI [of _ b], rule exI [of _ "printk AND NOT (PAGE_SIZE - 1)"])
      (use ab in auto)
qed

text \<open>A region whose text kept changing through all four attempts to copy it is monitored all the same, with
  the last copy as its baseline although the comparison that followed had just shown it to be stale; the comment
  of \<open>kg_region_add\<close> says the copy is only kept if stable.\<close>

theorem unstable_baseline_kept:
  assumes "sz \<noteq> 0" and "t_copy_bytes t + sz \<le> push_bit 20 (ucast (tp_text_max_mb tp))"
    and "\<And>k. k < 4 \<Longrightarrow> mem_read (rd (2 * k)) base (unat sz) \<noteq> mem_read (rd (2 * k + 1)) base (unat sz)"
  shows "snd (kg_region_add tp True True rd name base sz is_kernel owner t) = None \<and>
    (\<exists>r. t_regions (fst (kg_region_add tp True True rd name base sz is_kernel owner t)) = t_regions t @ [r] \<and>
       r_base r = base \<and> r_copy r = mem_read (rd 6) base (unat sz) \<and> r_copy r \<noteq> mem_read (rd 7) base (unat sz))"
proof -
  have "take_baseline rd base (unat sz) 0 (Suc 3) [] = mem_read (rd (2 * (0 + 3))) base (unat sz)"
    using take_baseline_cases [of 0 3 rd base "unat sz" "[]"] assms(3) by fastforce
  then have b: "take_baseline rd base (unat sz) 0 4 [] = mem_read (rd 6) base (unat sz)"
    by (simp del: take_baseline.simps)
  show ?thesis using assms(1,2) assms(3) [of 3] by (auto simp: kg_region_add_def not_less b)
qed

theorem unstable_baseline_kept_witness:
  "\<exists>r. t_regions (fst (kg_region_add example_tp True True (\<lambda>i _. of_nat i) ''demo'' 0x5000 2 False None
      (example_monitored\<lparr>t_regions := [], t_copy_bytes := 0\<rparr>))) = [r] \<and> r_copy r = [6, 6] \<and> r_copy r \<noteq> [7, 7]"
proof -
  have two: "[0..<2] = [0 :: nat, 1]" by (simp add: upt_rec)
  have "of_nat (2 * k) \<noteq> (of_nat (2 * k + 1) :: u8)" for k by simp
  then have u: "mem_read (\<lambda>_. of_nat (2 * k)) 0x5000 (unat (2 :: u64)) \<noteq> mem_read (\<lambda>_. of_nat (2 * k + 1)) 0x5000 (unat (2 :: u64))"
    for k by (simp add: mem_read_def two)
  show ?thesis
    using unstable_baseline_kept [where sz = 2 and t = "example_monitored\<lparr>t_regions := [], t_copy_bytes := 0\<rparr>" and
        tp = example_tp and rd = "\<lambda>i _. of_nat i" and base = "0x5000" and name = "''demo''" and is_kernel = False and owner = None] u
    by (auto simp: example_tp_def mem_read_def two)
qed

end
