(* ===== verification/KG_Integrity.thy ===== *)
theory KG_Integrity
  imports KG_Textscan
begin

text \<open>
  The rest of \<^verbatim>\<open>src/linux/module/kg_integrity.c\<close>: the CPU control state and the interrupt
  table with their baselines, the module notifier that keeps the text regions in step with the
  module list, the periodic worker, and start and stop.  The registers a CPU shows, the gates found at
  an address, the answers of the allocator and of the notifier chain, and the modules are arguments.
\<close>

unbundle bit_operations_syntax

section \<open>CPU control state\<close>

record kg_cpust =
  cs_valid :: bool
  cs_idt_limit :: u16
  cs_idt_base :: u64
  cs_lstar :: u64
  cs_cstar :: u64
  cs_star :: u64
  cs_smask :: u64
  cs_sysenter :: u64
  cs_cr0 :: u64
  cs_cr4 :: u64
  cs_ibrs :: u64

definition zero_cpust :: kg_cpust where
  "zero_cpust = \<lparr>cs_valid = False, cs_idt_limit = 0, cs_idt_base = 0, cs_lstar = 0, cs_cstar = 0, cs_star = 0,
     cs_smask = 0, cs_sysenter = 0, cs_cr0 = 0, cs_cr4 = 0, cs_ibrs = 0\<rparr>"

definition MSR_STAR :: u32 where [kg_const]: "MSR_STAR = 0xc0000081"
definition MSR_LSTAR :: u32 where [kg_const]: "MSR_LSTAR = 0xc0000082"
definition MSR_CSTAR :: u32 where [kg_const]: "MSR_CSTAR = 0xc0000083"
definition MSR_SYSCALL_MASK :: u32 where [kg_const]: "MSR_SYSCALL_MASK = 0xc0000084"
definition MSR_IA32_SYSENTER_EIP :: u32 where [kg_const]: "MSR_IA32_SYSENTER_EIP = 0x176"
definition MSR_IA32_SPEC_CTRL :: u32 where [kg_const]: "MSR_IA32_SPEC_CTRL = 0x48"
definition SPEC_CTRL_IBRS :: u64 where [kg_const]: "SPEC_CTRL_IBRS = 1"
definition X86_CR0_WP :: u64 where [kg_const]: "X86_CR0_WP = 0x10000"
definition KG_CR4_PINS :: u64 where [kg_const]: "KG_CR4_PINS = 0x100000 OR 0x200000 OR 0x800 OR 0x10000"
definition KG_REG_CR0 :: u32 where [kg_const]: "KG_REG_CR0 = 0x10000000"
definition KG_REG_CR4 :: u32 where [kg_const]: "KG_REG_CR4 = 0x10000004"

text \<open>The registers of one CPU; reading a model-specific register may fault.\<close>

record cpu_regs =
  cr_idt_base :: u64
  cr_idt_limit :: u16
  cr_msr :: "u32 \<Rightarrow> u64 option"
  cr_cr0 :: u64
  cr_cr4 :: u64

text \<open>An interrupt gate, field by field.\<close>

record gate_desc =
  gd_offset_low :: u16
  gd_segment :: u16
  gd_bits :: u16
  gd_offset_middle :: u16
  gd_offset_high :: u32
  gd_reserved :: u32

definition gate_offset :: "gate_desc \<Rightarrow> u64" where
  "gate_offset g = ucast (gd_offset_low g) OR push_bit 16 (ucast (gd_offset_middle g)) OR push_bit 32 (ucast (gd_offset_high g))"

definition gate_present :: "gate_desc \<Rightarrow> bool" where
  "gate_present g = bit (gd_bits g) 15"

text \<open>
  What the checks ask the machine for.  A CPU that is online in the walk but did not run the collector
  has no registers to show.
\<close>

record cpu_env =
  ce_alloc_ok :: bool
  ce_sep :: bool
  ce_eibrs :: bool
  ce_regs :: "nat \<Rightarrow> cpu_regs option"
  ce_idt :: "u64 \<Rightarrow> nat \<Rightarrow> gate_desc"

definition rd_msr :: "cpu_regs \<Rightarrow> u32 \<Rightarrow> u64" where
  "rd_msr c msr = (case cr_msr c msr of Some v \<Rightarrow> v | None \<Rightarrow> 0)"

definition kg_cpust_collect :: "cpu_env \<Rightarrow> cpu_regs \<Rightarrow> kg_cpust" where
  "kg_cpust_collect ce c =
     \<lparr>cs_valid = True, cs_idt_limit = cr_idt_limit c, cs_idt_base = cr_idt_base c,
      cs_lstar = rd_msr c MSR_LSTAR, cs_cstar = rd_msr c MSR_CSTAR, cs_star = rd_msr c MSR_STAR,
      cs_smask = rd_msr c MSR_SYSCALL_MASK,
      cs_sysenter = (if ce_sep ce then rd_msr c MSR_IA32_SYSENTER_EIP else 0),
      cs_cr0 = cr_cr0 c, cs_cr4 = cr_cr4 c,
      cs_ibrs = (if ce_eibrs ce then (case cr_msr c MSR_IA32_SPEC_CTRL of Some v \<Rightarrow> v AND SPEC_CTRL_IBRS | None \<Rightarrow> 0) else 0)\<rparr>"

text \<open>\<open>on_each_cpu (kg_cpust_collect, now, 1)\<close> into a cleared array.\<close>

definition collect_all :: "cpu_env \<Rightarrow> nat \<Rightarrow> kg_cpust list" where
  "collect_all ce nr = map (\<lambda>cpu. case ce_regs ce cpu of Some c \<Rightarrow> kg_cpust_collect ce c | None \<Rightarrow> zero_cpust) [0..<nr]"

definition idt_count :: "kg_sys \<Rightarrow> kg_sys" where
  "idt_count s = s\<lparr>s_stats := (s_stats s)\<lparr>idt_hook_detected := idt_hook_detected (s_stats s) + 1\<rparr>\<rparr>"

definition kg_reg_alert :: "kg_env \<Rightarrow> nat \<Rightarrow> u32 \<Rightarrow> u64 \<Rightarrow> kg_sys \<Rightarrow> kg_sys" where
  "kg_reg_alert env cpu reg newv s =
     kg_report env KG_ALERT_CTRL_REG_TAMPER KG_LEVEL_CRITICAL (push_bit 32 (of_nat cpu) OR ucast reg) newv (idt_count s)"

text \<open>One comparison: the alert, and the field of the baseline that follows the register.\<close>

definition check_reg ::
  "kg_env \<Rightarrow> nat \<Rightarrow> u32 \<Rightarrow> u64 \<Rightarrow> (kg_cpust \<Rightarrow> bool) \<Rightarrow> (kg_cpust \<Rightarrow> kg_cpust) \<Rightarrow> kg_cpust \<times> kg_sys \<Rightarrow> kg_cpust \<times> kg_sys" where
  "check_reg env cpu reg newv differs follow bs =
     (case bs of (b, s) \<Rightarrow> if differs b then (follow b, kg_reg_alert env cpu reg newv s) else (b, s))"

definition check_idtr :: "kg_env \<Rightarrow> bool \<Rightarrow> kg_cpust \<Rightarrow> kg_cpust \<times> kg_sys \<Rightarrow> kg_cpust \<times> kg_sys" where
  "check_idtr env idt_on c bs =
     (case bs of (b, s) \<Rightarrow>
        if idt_on \<and> cs_idt_base b \<noteq> cs_idt_base c
        then (b\<lparr>cs_idt_base := cs_idt_base c\<rparr>,
              kg_report env KG_ALERT_IDT_HOOK KG_LEVEL_CRITICAL (cs_idt_base c) 0x100 (idt_count s))
        else (b, s))"

definition kg_cpust_compare :: "kg_env \<Rightarrow> bool \<Rightarrow> nat \<Rightarrow> kg_cpust \<Rightarrow> kg_cpust \<times> kg_sys \<Rightarrow> kg_cpust \<times> kg_sys" where
  "kg_cpust_compare env idt_on cpu c bs0 =
     (let bs1 = check_reg env cpu MSR_LSTAR (cs_lstar c) (\<lambda>b. cs_lstar b \<noteq> cs_lstar c) (\<lambda>b. b\<lparr>cs_lstar := cs_lstar c\<rparr>) bs0;
          bs2 = check_reg env cpu MSR_CSTAR (cs_cstar c) (\<lambda>b. cs_cstar b \<noteq> cs_cstar c) (\<lambda>b. b\<lparr>cs_cstar := cs_cstar c\<rparr>) bs1;
          bs3 = check_reg env cpu MSR_STAR (cs_star c) (\<lambda>b. cs_star b \<noteq> cs_star c) (\<lambda>b. b\<lparr>cs_star := cs_star c\<rparr>) bs2;
          bs4 = check_reg env cpu MSR_SYSCALL_MASK (cs_smask c) (\<lambda>b. cs_smask b \<noteq> cs_smask c) (\<lambda>b. b\<lparr>cs_smask := cs_smask c\<rparr>) bs3;
          bs5 = check_reg env cpu MSR_IA32_SYSENTER_EIP (cs_sysenter c) (\<lambda>b. cs_sysenter b \<noteq> cs_sysenter c)
                  (\<lambda>b. b\<lparr>cs_sysenter := cs_sysenter c\<rparr>) bs4;
          bs6 = check_reg env cpu MSR_IA32_SPEC_CTRL (cs_ibrs c) (\<lambda>b. cs_ibrs b \<noteq> cs_ibrs c) (\<lambda>b. b\<lparr>cs_ibrs := cs_ibrs c\<rparr>) bs5;
          bs7 = check_reg env cpu KG_REG_CR0 (cs_cr0 c) (\<lambda>b. cs_cr0 b AND X86_CR0_WP \<noteq> cs_cr0 c AND X86_CR0_WP)
                  (\<lambda>b. b\<lparr>cs_cr0 := cs_cr0 c\<rparr>) bs6;
          bs8 = check_reg env cpu KG_REG_CR4 (cs_cr4 c) (\<lambda>b. cs_cr4 b AND KG_CR4_PINS \<noteq> cs_cr4 c AND KG_CR4_PINS)
                  (\<lambda>b. b\<lparr>cs_cr4 := cs_cr4 c\<rparr>) bs7
      in check_idtr env idt_on c bs8)"

section \<open>The interrupt table\<close>

definition idt_entries :: "u16 \<Rightarrow> nat" where
  "idt_entries limit = min 256 ((unat limit + 1) div 16)"

text \<open>One gate of \<open>kg_idt_verify\<close>; \<open>base\<close> is the baseline copy of the table.\<close>

definition idt_gate ::
  "kg_env \<Rightarrow> kg_text \<Rightarrow> bool \<Rightarrow> (nat \<Rightarrow> gate_desc) \<Rightarrow> nat \<Rightarrow> gate_desc list \<times> kg_sys \<Rightarrow> gate_desc list \<times> kg_sys" where
  "idt_gate env t baseline_pass cur v bs =
     (case bs of (base, s) \<Rightarrow>
        let changed = (\<not> baseline_pass \<and> cur v \<noteq> base ! v)
        in if \<not> gate_present (cur v) \<and> \<not> changed then (base, s)
           else if changed \<or> (baseline_pass \<and> t_end t \<noteq> 0 \<and> \<not> kg_addr_in_kernel_text t (gate_offset (cur v)))
           then (base[v := cur v],
                 kg_report env KG_ALERT_IDT_HOOK KG_LEVEL_CRITICAL (gate_offset (cur v)) (of_nat v) (idt_count s))
           else (base, s))"

definition kg_idt_verify ::
  "kg_env \<Rightarrow> kg_text \<Rightarrow> cpu_env \<Rightarrow> kg_cpust \<Rightarrow> bool \<Rightarrow> gate_desc list \<times> kg_sys \<Rightarrow> gate_desc list \<times> kg_sys" where
  "kg_idt_verify env t ce c baseline_pass bs =
     fold (idt_gate env t baseline_pass (ce_idt ce (cs_idt_base c))) [0..<idt_entries (cs_idt_limit c)] bs"

section \<open>State\<close>

record kg_integ =
  ig_text :: kg_text
  ig_tmp :: bool
  ig_baseline_done :: bool
  ig_cpu_base :: "kg_cpust list option"
  ig_idt_base :: "gate_desc list"
  ig_idt_enabled :: bool
  ig_nb_registered :: bool
  ig_stop :: bool
  ig_corrupt_reported :: bool
  ig_queued :: "u32 option"

type_synonym integ_sys = "kg_integ \<times> kg_sys"

text \<open>The turn of one online CPU in the walk of \<open>kg_cpu_state_check\<close>; \<open>first\<close> is the first CPU compared.\<close>

definition check_cpu ::
  "kg_env \<Rightarrow> bool \<Rightarrow> kg_cpust list \<Rightarrow> nat \<Rightarrow> kg_cpust list \<times> nat option \<times> kg_sys \<Rightarrow> kg_cpust list \<times> nat option \<times> kg_sys" where
  "check_cpu env idt_on now cpu acc =
     (case acc of (base, first, s) \<Rightarrow>
        if \<not> cs_valid (now ! cpu) then (base, first, s)
        else if \<not> cs_valid (base ! cpu) then (base[cpu := now ! cpu], first, s)
        else (case kg_cpust_compare env idt_on cpu (now ! cpu) (base ! cpu, s) of
                (b, s1) \<Rightarrow> (base[cpu := b], (case first of None \<Rightarrow> Some cpu | Some f \<Rightarrow> Some f), s1)))"

definition kg_cpu_state_check :: "kg_env \<Rightarrow> cpu_env \<Rightarrow> integ_sys \<Rightarrow> integ_sys" where
  "kg_cpu_state_check env ce xs =
     (case xs of (x, s) \<Rightarrow>
        case ig_cpu_base x of
          None \<Rightarrow> (x, s)
        | Some base \<Rightarrow>
            if \<not> ce_alloc_ok ce then (x, s)
            else
              let now = collect_all ce (tp_nr (e_topo env))
              in case fold (check_cpu env (ig_idt_enabled x) now) (tp_online (e_topo env)) (base, None, s) of
                   (base', first, s1) \<Rightarrow>
                     let x1 = x\<lparr>ig_cpu_base := Some base'\<rparr>
                     in case first of
                          None \<Rightarrow> (x1, s1)
                        | Some f \<Rightarrow>
                            if ig_idt_enabled x
                            then (case kg_idt_verify env (ig_text x) ce (now ! f) False (ig_idt_base x, s1) of
                                    (idt, s2) \<Rightarrow> (x1\<lparr>ig_idt_base := idt\<rparr>, s2))
                            else (x1, s1))"

text \<open>
  The baseline; \<open>base_ok\<close> and \<open>dup_ok\<close> are the other allocations, \<open>fred\<close> says the CPU does not use the
  interrupt table at all.
\<close>

definition kg_cpu_state_baseline :: "kg_env \<Rightarrow> cpu_env \<Rightarrow> bool \<Rightarrow> bool \<Rightarrow> bool \<Rightarrow> integ_sys \<Rightarrow> integ_sys \<times> errno option" where
  "kg_cpu_state_baseline env ce base_ok dup_ok fred xs =
     (case xs of (x, s) \<Rightarrow>
        if \<not> base_ok \<or> \<not> ce_alloc_ok ce then ((x\<lparr>ig_cpu_base := None\<rparr>, s), Some ENOMEM)
        else
          let nr = tp_nr (e_topo env); online = tp_online (e_topo env);
              now = collect_all ce nr;
              base = fold (\<lambda>cpu b. b[cpu := now ! cpu]) online (replicate nr zero_cpust);
              first = List.find (\<lambda>cpu. cs_valid (now ! cpu)) online;
              x1 = x\<lparr>ig_cpu_base := Some base, ig_idt_enabled := \<not> fred\<rparr>
          in case first of
               None \<Rightarrow> ((x1, s), None)
             | Some f \<Rightarrow>
                 if \<not> fred
                 then (if dup_ok
                       then (case kg_idt_verify env (ig_text x) ce (now ! f) True
                                    (map (ce_idt ce (cs_idt_base (now ! f))) [0..<256], s) of
                               (idt, s1) \<Rightarrow> ((x1\<lparr>ig_idt_base := idt\<rparr>, s1), None))
                       else ((x1\<lparr>ig_idt_base := [], ig_idt_enabled := False\<rparr>, s), None))
                 else ((x1, s), None))"

section \<open>Module lifecycle\<close>

text \<open>What the notifier reads of a module; its address is its identity.\<close>

record live_module = kg_module +
  lm_addr :: u64
  lm_text_base :: u64
  lm_text_size :: u32
  lm_sig_ok :: bool
  lm_taints :: u64

text \<open>The allocator's answers and the readings while a region is added.\<close>

record add_env =
  ae_rec_ok :: bool
  ae_copy_ok :: bool
  ae_rd :: "nat \<Rightarrow> snapshot"

definition TAINT_FORCED_MODULE :: nat where [kg_const]: "TAINT_FORCED_MODULE = 1"
definition TAINT_UNSIGNED_MODULE :: nat where [kg_const]: "TAINT_UNSIGNED_MODULE = 13"
definition KG_TAINT_SUSPECT :: u64 where
  "KG_TAINT_SUSPECT = push_bit TAINT_UNSIGNED_MODULE 1 OR push_bit TAINT_FORCED_MODULE 1"

definition kg_module_add :: "text_par \<Rightarrow> add_env \<Rightarrow> bool \<Rightarrow> live_module \<Rightarrow> kg_text \<Rightarrow> kg_text" where
  "kg_module_add tp ae this m t =
     (if \<not> t_enabled t \<or> lm_text_size m = 0 then t
      else if \<not> tp_text_modules tp \<and> \<not> this then t
      else fst (kg_region_add tp (ae_rec_ok ae) (ae_copy_ok ae) (ae_rd ae) (mod_name m) (lm_text_base m)
                  (ucast (lm_text_size m)) False (Some (lm_addr m)) t))"

definition kg_module_remove :: "live_module \<Rightarrow> kg_text \<Rightarrow> kg_text" where
  "kg_module_remove m t =
     (let i = length (takeWhile (\<lambda>r. r_mod r \<noteq> Some (lm_addr m)) (t_regions t))
      in if i < length (t_regions t) then kg_region_del i t else t)"

definition kg_module_notify ::
  "kg_env \<Rightarrow> text_par \<Rightarrow> add_env \<Rightarrow> module_state \<Rightarrow> bool \<Rightarrow> live_module \<Rightarrow> integ_sys \<Rightarrow> integ_sys" where
  "kg_module_notify env tp ae action this m xs =
     (case xs of (x, s) \<Rightarrow>
        if this then (x, s)
        else if action = MODULE_STATE_LIVE
        then
          let x1 = x\<lparr>ig_text := kg_module_add tp ae False m (ig_text x)\<rparr>
          in if ig_baseline_done x
             then
               let suspect = (\<not> lm_sig_ok m \<or> lm_taints m AND KG_TAINT_SUSPECT \<noteq> 0);
                   (n0, n1) = kg_pack_name (mod_name m)
               in (x1, kg_report env KG_ALERT_MODULE_LOADED (if suspect then KG_LEVEL_WATCH else KG_LEVEL_INFO) n0 n1 s)
             else (x1, s)
        else if action = MODULE_STATE_GOING
        then (x\<lparr>ig_text := kg_module_remove m (ig_text x)\<rparr>, s)
        else (x, s))"

definition kg_enumerate_modules ::
  "text_par \<Rightarrow> (live_module \<Rightarrow> add_env) \<Rightarrow> bool \<Rightarrow> live_module mod_entry list \<Rightarrow> kg_text \<Rightarrow> kg_text" where
  "kg_enumerate_modules tp ae held_ok entries t =
     (case kg_for_each_live_module held_ok entries of
        Inl _ \<Rightarrow> t
      | Inr ms \<Rightarrow> fold (\<lambda>m. kg_module_add tp (ae m) False m) ms t)"

section \<open>The worker\<close>

text \<open>What one run of the worker finds: the clocks of its three steps, the machine, and the readings of the text.\<close>

record work_env =
  we_cpu_env :: kg_env
  we_text_env :: "nat \<Rightarrow> nat \<Rightarrow> kg_env"
  we_end_env :: kg_env
  we_cpu :: cpu_env
  we_rd :: "nat \<Rightarrow> readings"

definition integ_delay :: "kg_env \<Rightarrow> kg_sys \<Rightarrow> u32" where
  "integ_delay env s = kg_scan_ms (s_guard s) (par_integ_interval_ms (e_par env))"

definition text_step :: "work_env \<Rightarrow> text_par \<Rightarrow> integ_sys \<Rightarrow> integ_sys" where
  "text_step we tp xs =
     (case xs of (x, s) \<Rightarrow>
        case kg_text_verify_all (we_text_env we) tp (we_rd we) (ig_text x, s) of (t, s1) \<Rightarrow> (x\<lparr>ig_text := t\<rparr>, s1))"

definition guard_step_integ :: "kg_env \<Rightarrow> integ_sys \<Rightarrow> integ_sys" where
  "guard_step_integ env xs =
     (case xs of (x, s) \<Rightarrow>
        if kg_guard_verify (e_sha env) (s_guard s) then (x\<lparr>ig_corrupt_reported := False\<rparr>, s)
        else if \<not> ig_corrupt_reported x
        then (x\<lparr>ig_corrupt_reported := True\<rparr>, kg_report env KG_ALERT_SHARED_STATE_CORRUPT KG_LEVEL_CRITICAL 0 0 s)
        else (x, s))"

definition kg_integrity_kick :: "kg_integ \<Rightarrow> kg_integ" where
  "kg_integrity_kick x = (if \<not> ig_stop x then x\<lparr>ig_queued := Some 0\<rparr> else x)"

text \<open>
  The router records a kick as an event.  A kick that comes while the worker runs leaves the work pending at
  once, and queueing pending work again does nothing.
\<close>

definition kicked :: "kg_sys \<Rightarrow> kg_sys \<Rightarrow> bool" where
  "kicked s s' = (Ev_integrity_kick \<in> set (drop (length (s_trace s)) (s_trace s')))"

definition requeue :: "u32 \<Rightarrow> kg_integ \<Rightarrow> kg_integ" where
  "requeue delay x = (if \<not> ig_stop x \<and> ig_queued x = None then x\<lparr>ig_queued := Some delay\<rparr> else x)"

definition kg_integ_workfn :: "work_env \<Rightarrow> text_par \<Rightarrow> integ_sys \<Rightarrow> integ_sys" where
  "kg_integ_workfn we tp xs0 =
     (case xs0 of (x0, s0) \<Rightarrow>
        case guard_step_integ (we_end_env we)
               (text_step we tp (kg_cpu_state_check (we_cpu_env we) (we_cpu we) (x0\<lparr>ig_queued := None\<rparr>, s0))) of
          (x, s) \<Rightarrow> (requeue (integ_delay (we_end_env we) s) (if kicked s0 s then kg_integrity_kick x else x), s))"

section \<open>Start and stop\<close>

definition integ_loaded :: kg_integ where
  "integ_loaded = \<lparr>ig_text = \<lparr>t_start = 0, t_end = 0, t_regions = [], t_copy_bytes = 0, t_nregions = 0, t_enabled = False\<rparr>,
     ig_tmp = False, ig_baseline_done = False, ig_cpu_base = None, ig_idt_base = [], ig_idt_enabled = False,
     ig_nb_registered = False, ig_stop = True, ig_corrupt_reported = False, ig_queued = None\<rparr>"

record init_env =
  ie_cpu :: cpu_env
  ie_base_ok :: bool
  ie_dup_ok :: bool
  ie_fred :: bool
  ie_pt :: page_tables
  ie_printk :: u64
  ie_tmp_ok :: bool
  ie_kernel_add :: add_env
  ie_this :: live_module
  ie_add :: "live_module \<Rightarrow> add_env"
  ie_held_ok :: bool
  ie_modules :: "live_module mod_entry list"
  ie_register_ok :: bool

text \<open>The kernel image: bounds, scratch buffer, baseline copy.\<close>

definition init_kernel_text :: "text_par \<Rightarrow> init_env \<Rightarrow> kg_integ \<Rightarrow> kg_integ" where
  "init_kernel_text tp ie x =
     (if \<not> tp_text tp then x
      else (case kg_find_text_bounds (ie_pt ie) (ie_printk ie) of
              Inl _ \<Rightarrow> x
            | Inr (lo, hi) \<Rightarrow>
                let t = (ig_text x)\<lparr>t_start := lo, t_end := hi\<rparr>
                in if \<not> ie_tmp_ok ie then x\<lparr>ig_text := t\<rparr>
                   else
                     let ae = ie_kernel_add ie;
                         (t1, r) = kg_region_add tp (ae_rec_ok ae) (ae_copy_ok ae) (ae_rd ae) ''vmlinux'' lo (hi - lo) True None t
                     in x\<lparr>ig_tmp := True, ig_text := (if r = None then t1\<lparr>t_enabled := True\<rparr> else t1)\<rparr>))"

definition init_modules :: "text_par \<Rightarrow> init_env \<Rightarrow> kg_text \<Rightarrow> kg_text" where
  "init_modules tp ie t =
     (if t_enabled t
      then kg_enumerate_modules tp (ie_add ie) (ie_held_ok ie) (ie_modules ie)
             (kg_module_add tp (ie_add ie (ie_this ie)) True (ie_this ie) t)
      else t)"

definition kg_integrity_init :: "kg_env \<Rightarrow> text_par \<Rightarrow> init_env \<Rightarrow> integ_sys \<Rightarrow> integ_sys \<times> errno option" where
  "kg_integrity_init env tp ie xs =
     (case kg_cpu_state_baseline env (ie_cpu ie) (ie_base_ok ie) (ie_dup_ok ie) (ie_fred ie) xs of
        ((x, s), Some e) \<Rightarrow> ((x, s), Some e)
      | ((x, s), None) \<Rightarrow>
          let x1 = init_kernel_text tp ie x;
              x2 = x1\<lparr>ig_text := init_modules tp ie (ig_text x1)\<rparr>;
              x3 = (if ie_register_ok ie then x2\<lparr>ig_nb_registered := True\<rparr> else x2)
          in ((x3\<lparr>ig_baseline_done := True, ig_stop := False, ig_queued := Some (integ_delay env s)\<rparr>, s), None))"

definition kg_integrity_exit :: "kg_integ \<Rightarrow> kg_integ" where
  "kg_integrity_exit x =
     (case ig_cpu_base x of
        None \<Rightarrow> x
      | Some _ \<Rightarrow>
          let t = fold (\<lambda>_. kg_region_del 0) (t_regions (ig_text x)) (ig_text x)
          in x\<lparr>ig_stop := True, ig_queued := None, ig_text := t\<lparr>t_enabled := False\<rparr>, ig_tmp := False,
               ig_idt_base := [], ig_cpu_base := None\<rparr>)"

section \<open>What the CPU checks put on record\<close>

abbreviation ctl :: "u32 set" where
  "ctl \<equiv> {KG_ALERT_CTRL_REG_TAMPER, KG_ALERT_IDT_HOOK}"

text \<open>
  From \<open>s\<close> to \<open>s'\<close> exactly the alerts \<open>L\<close> on the control state were reported, and if there were any the posture is
  high, as far as the administrator's cap allows.
\<close>

definition logged :: "kg_env \<Rightarrow> (u32 \<times> u32 \<times> u64 \<times> u64) list \<Rightarrow> kg_sys \<Rightarrow> kg_sys \<Rightarrow> bool" where
  "logged env L s s' \<longleftrightarrow> notes_of ctl s' = notes_of ctl s @ L \<and> later s s' \<and>
     (L \<noteq> [] \<and> pos_ready (s_pos s) \<longrightarrow> min KG_POSTURE_HIGH (posture_cap (e_par env)) \<le> sys_posture s')"

lemma logged_nil [simp]: "logged env [] s s"
  by (simp add: logged_def)

lemma logged_append: "logged env L s s' \<Longrightarrow> logged env L' s' s'' \<Longrightarrow> logged env (L @ L') s s''"
  by (auto simp: logged_def later_def)

lemma ctl_failsafe: "KG_ALERT_FAIL_SAFE_ENTERED \<notin> ctl"
  by (simp add: kg_const)

lemma idt_count_frame [simp]:
  "notes_of T (idt_count s) = notes_of T s" "later s (idt_count s')  = later s s'" "later (idt_count s) s' = later s s'"
  "s_pos (idt_count s) = s_pos s" "s_guard (idt_count s) = s_guard s"
  by (simp_all add: idt_count_def)

lemma logged_report:
  assumes "type \<in> ctl"
  shows "logged env [(type, KG_LEVEL_CRITICAL, p1, p2)] s (kg_report env type KG_LEVEL_CRITICAL p1 p2 (idt_count s))"
proof -
  have "dispatch_target type KG_LEVEL_CRITICAL = Some KG_POSTURE_HIGH"
    using assms by (auto simp: dispatch_target_def kg_const)
  moreover have "later s (kg_report env type KG_LEVEL_CRITICAL p1 p2 (idt_count s))"
    by (rule later_trans [OF _ later_report]) simp
  ultimately show ?thesis
    using assms by (auto simp: logged_def notes_of_report [OF ctl_failsafe] report_posture_eq)
qed

text \<open>The registers that changed, as the alerts for them: the register, what is compared, and the new value.\<close>

definition reg_list :: "kg_cpust \<Rightarrow> kg_cpust \<Rightarrow> (u32 \<times> bool \<times> u64) list" where
  "reg_list b c =
     [(MSR_LSTAR, cs_lstar b \<noteq> cs_lstar c, cs_lstar c), (MSR_CSTAR, cs_cstar b \<noteq> cs_cstar c, cs_cstar c),
      (MSR_STAR, cs_star b \<noteq> cs_star c, cs_star c), (MSR_SYSCALL_MASK, cs_smask b \<noteq> cs_smask c, cs_smask c),
      (MSR_IA32_SYSENTER_EIP, cs_sysenter b \<noteq> cs_sysenter c, cs_sysenter c),
      (MSR_IA32_SPEC_CTRL, cs_ibrs b \<noteq> cs_ibrs c, cs_ibrs c),
      (KG_REG_CR0, cs_cr0 b AND X86_CR0_WP \<noteq> cs_cr0 c AND X86_CR0_WP, cs_cr0 c),
      (KG_REG_CR4, cs_cr4 b AND KG_CR4_PINS \<noteq> cs_cr4 c AND KG_CR4_PINS, cs_cr4 c)]"

definition reg_entry :: "nat \<Rightarrow> u32 \<times> bool \<times> u64 \<Rightarrow> (u32 \<times> u32 \<times> u64 \<times> u64) list" where
  "reg_entry cpu x = (case x of (reg, differs, v) \<Rightarrow>
     if differs then [(KG_ALERT_CTRL_REG_TAMPER, KG_LEVEL_CRITICAL, push_bit 32 (of_nat cpu) OR ucast reg, v)] else [])"

definition idtr_entry :: "bool \<Rightarrow> kg_cpust \<Rightarrow> kg_cpust \<Rightarrow> (u32 \<times> u32 \<times> u64 \<times> u64) list" where
  "idtr_entry idt_on b c = (if idt_on \<and> cs_idt_base b \<noteq> cs_idt_base c
     then [(KG_ALERT_IDT_HOOK, KG_LEVEL_CRITICAL, cs_idt_base c, 0x100)] else [])"

definition reg_changes :: "bool \<Rightarrow> nat \<Rightarrow> kg_cpust \<Rightarrow> kg_cpust \<Rightarrow> (u32 \<times> u32 \<times> u64 \<times> u64) list" where
  "reg_changes idt_on cpu b c = concat (map (reg_entry cpu) (reg_list b c)) @ idtr_entry idt_on b c"

lemma check_reg_logged:
  assumes "check_reg env cpu reg v differs follow (b, s) = (b', s')"
  shows "b' = (if differs b then follow b else b)" and "logged env (reg_entry cpu (reg, differs b, v)) s s'"
  using assms logged_report [of KG_ALERT_CTRL_REG_TAMPER env "push_bit 32 (of_nat cpu) OR ucast reg" v s]
  by (auto simp: check_reg_def kg_reg_alert_def reg_entry_def split: if_splits)

lemma check_idtr_logged:
  assumes "check_idtr env idt_on c (b, s) = (b', s')"
  shows "b' = (if idt_on then b\<lparr>cs_idt_base := cs_idt_base c\<rparr> else b)" and "logged env (idtr_entry idt_on b c) s s'"
  using assms logged_report [of KG_ALERT_IDT_HOOK env "cs_idt_base c" "0x100" s]
  by (auto simp: check_idtr_def idtr_entry_def split: if_splits)

text \<open>The baseline after a comparison: every field that differed now follows the register.\<close>

definition followed :: "bool \<Rightarrow> kg_cpust \<Rightarrow> kg_cpust \<Rightarrow> kg_cpust" where
  "followed idt_on b c =
     (let b6 = b\<lparr>cs_lstar := cs_lstar c, cs_cstar := cs_cstar c, cs_star := cs_star c, cs_smask := cs_smask c,
                 cs_sysenter := cs_sysenter c, cs_ibrs := cs_ibrs c\<rparr>;
          b7 = (if cs_cr0 b AND X86_CR0_WP \<noteq> cs_cr0 c AND X86_CR0_WP then b6\<lparr>cs_cr0 := cs_cr0 c\<rparr> else b6);
          b8 = (if cs_cr4 b AND KG_CR4_PINS \<noteq> cs_cr4 c AND KG_CR4_PINS then b7\<lparr>cs_cr4 := cs_cr4 c\<rparr> else b7)
      in if idt_on then b8\<lparr>cs_idt_base := cs_idt_base c\<rparr> else b8)"

lemma compare_logged:
  assumes "kg_cpust_compare env idt_on cpu c (b, s) = (b', s')"
  shows "b' = followed idt_on b c" and "logged env (reg_changes idt_on cpu b c) s s'"
proof -
  note cmp = assms [unfolded kg_cpust_compare_def Let_def]
  obtain b1 s1 where 1: "check_reg env cpu MSR_LSTAR (cs_lstar c) (\<lambda>b. cs_lstar b \<noteq> cs_lstar c) (\<lambda>b. b\<lparr>cs_lstar := cs_lstar c\<rparr>) (b, s) = (b1, s1)" by (rule prod.exhaust)
  obtain b2 s2 where 2: "check_reg env cpu MSR_CSTAR (cs_cstar c) (\<lambda>b. cs_cstar b \<noteq> cs_cstar c) (\<lambda>b. b\<lparr>cs_cstar := cs_cstar c\<rparr>) (b1, s1) = (b2, s2)" by (rule prod.exhaust)
  obtain b3 s3 where 3: "check_reg env cpu MSR_STAR (cs_star c) (\<lambda>b. cs_star b \<noteq> cs_star c) (\<lambda>b. b\<lparr>cs_star := cs_star c\<rparr>) (b2, s2) = (b3, s3)" by (rule prod.exhaust)
  obtain b4 s4 where 4: "check_reg env cpu MSR_SYSCALL_MASK (cs_smask c) (\<lambda>b. cs_smask b \<noteq> cs_smask c) (\<lambda>b. b\<lparr>cs_smask := cs_smask c\<rparr>) (b3, s3) = (b4, s4)" by (rule prod.exhaust)
  obtain b5 s5 where 5: "check_reg env cpu MSR_IA32_SYSENTER_EIP (cs_sysenter c) (\<lambda>b. cs_sysenter b \<noteq> cs_sysenter c)
    (\<lambda>b. b\<lparr>cs_sysenter := cs_sysenter c\<rparr>) (b4, s4) = (b5, s5)" by (rule prod.exhaust)
  obtain b6 s6 where 6: "check_reg env cpu MSR_IA32_SPEC_CTRL (cs_ibrs c) (\<lambda>b. cs_ibrs b \<noteq> cs_ibrs c) (\<lambda>b. b\<lparr>cs_ibrs := cs_ibrs c\<rparr>) (b5, s5) = (b6, s6)" by (rule prod.exhaust)
  obtain b7 s7 where 7: "check_reg env cpu KG_REG_CR0 (cs_cr0 c) (\<lambda>b. cs_cr0 b AND X86_CR0_WP \<noteq> cs_cr0 c AND X86_CR0_WP)
    (\<lambda>b. b\<lparr>cs_cr0 := cs_cr0 c\<rparr>) (b6, s6) = (b7, s7)" by (rule prod.exhaust)
  obtain b8 s8 where 8: "check_reg env cpu KG_REG_CR4 (cs_cr4 c) (\<lambda>b. cs_cr4 b AND KG_CR4_PINS \<noteq> cs_cr4 c AND KG_CR4_PINS)
    (\<lambda>b. b\<lparr>cs_cr4 := cs_cr4 c\<rparr>) (b7, s7) = (b8, s8)" by (rule prod.exhaust)
  have 9: "check_idtr env idt_on c (b8, s8) = (b', s')" using cmp by (simp only: 1 2 3 4 5 6 7 8)
  have b1: "b1 = b\<lparr>cs_lstar := cs_lstar c\<rparr>" using check_reg_logged(1) [OF 1] by (cases b) auto
  have b2: "b2 = b1\<lparr>cs_cstar := cs_cstar c\<rparr>" using check_reg_logged(1) [OF 2] by (cases b1) auto
  have b3: "b3 = b2\<lparr>cs_star := cs_star c\<rparr>" using check_reg_logged(1) [OF 3] by (cases b2) auto
  have b4: "b4 = b3\<lparr>cs_smask := cs_smask c\<rparr>" using check_reg_logged(1) [OF 4] by (cases b3) auto
  have b5: "b5 = b4\<lparr>cs_sysenter := cs_sysenter c\<rparr>" using check_reg_logged(1) [OF 5] by (cases b4) auto
  have b6: "b6 = b5\<lparr>cs_ibrs := cs_ibrs c\<rparr>" using check_reg_logged(1) [OF 6] by (cases b5) auto
  note b16 = b1 b2 b3 b4 b5 b6
  have c0: "cs_cr0 b6 = cs_cr0 b" "cs_cr4 b6 = cs_cr4 b" "cs_idt_base b6 = cs_idt_base b" by (simp_all add: b16)
  note b7 = check_reg_logged(1) [OF 7, unfolded c0]
  have c7: "cs_cr4 b7 = cs_cr4 b" "cs_idt_base b7 = cs_idt_base b" using c0 by (simp_all add: b7)
  note b8 = check_reg_logged(1) [OF 8, unfolded c7]
  have c8: "cs_idt_base b8 = cs_idt_base b" using c7 by (simp add: b8)
  show "b' = followed idt_on b c"
    unfolding check_idtr_logged(1) [OF 9] b8 b7 followed_def Let_def b16 ..
  have f: "cs_cstar b1 = cs_cstar b" "cs_star b2 = cs_star b" "cs_smask b3 = cs_smask b" "cs_sysenter b4 = cs_sysenter b"
    "cs_ibrs b5 = cs_ibrs b" by (simp_all add: b16)
  note steps = 1 [THEN check_reg_logged(2)] 2 [THEN check_reg_logged(2), unfolded f] 3 [THEN check_reg_logged(2), unfolded f]
    4 [THEN check_reg_logged(2), unfolded f] 5 [THEN check_reg_logged(2), unfolded f] 6 [THEN check_reg_logged(2), unfolded f]
    7 [THEN check_reg_logged(2), unfolded c0] 8 [THEN check_reg_logged(2), unfolded c7] 9 [THEN check_idtr_logged(2)]
  have "idtr_entry idt_on b8 c = idtr_entry idt_on b c" by (simp add: idtr_entry_def c8)
  then have "logged env (idtr_entry idt_on b c) s8 s'" using steps(9) by simp
  note chain = logged_append [OF steps(1) logged_append [OF steps(2) logged_append [OF steps(3) logged_append [OF steps(4)
    logged_append [OF steps(5) logged_append [OF steps(6) logged_append [OF steps(7) logged_append [OF steps(8) this]]]]]]]]
  show "logged env (reg_changes idt_on cpu b c) s s'"
    unfolding reg_changes_def reg_list_def list.map concat.simps append_Nil2 append_assoc by (rule chain)
qed

lemma reg_changes_followed [simp]: "reg_changes idt_on cpu (followed idt_on b c) c = []"
  by (simp add: reg_changes_def reg_list_def reg_entry_def idtr_entry_def followed_def Let_def)

lemma followed_valid [simp]: "cs_valid (followed idt_on b c) = cs_valid b"
  by (simp add: followed_def Let_def)

lemma compare_quiet:
  assumes "reg_changes idt_on cpu b c = []"
  shows "kg_cpust_compare env idt_on cpu c (b, s) = (b, s)"
proof -
  have "\<not> (idt_on \<and> cs_idt_base b \<noteq> cs_idt_base c)" "cs_lstar b = cs_lstar c" "cs_cstar b = cs_cstar c" "cs_star b = cs_star c"
    "cs_smask b = cs_smask c" "cs_sysenter b = cs_sysenter c" "cs_ibrs b = cs_ibrs c"
    "cs_cr0 b AND X86_CR0_WP = cs_cr0 c AND X86_CR0_WP" "cs_cr4 b AND KG_CR4_PINS = cs_cr4 c AND KG_CR4_PINS"
    using assms by (auto simp: reg_changes_def reg_list_def reg_entry_def idtr_entry_def split: if_splits)
  then show ?thesis by (auto simp: kg_cpust_compare_def Let_def check_reg_def check_idtr_def)
qed

section \<open>The walk over the CPUs\<close>

text \<open>The alerts of the walk: one group per CPU that is compared.\<close>

definition cpu_changes :: "bool \<Rightarrow> kg_cpust list \<Rightarrow> kg_cpust list \<Rightarrow> nat \<Rightarrow> (u32 \<times> u32 \<times> u64 \<times> u64) list" where
  "cpu_changes idt_on base now cpu =
     (if cs_valid (now ! cpu) \<and> cs_valid (base ! cpu) then reg_changes idt_on cpu (base ! cpu) (now ! cpu) else [])"

definition next_base :: "bool \<Rightarrow> kg_cpust list \<Rightarrow> kg_cpust list \<Rightarrow> nat \<Rightarrow> kg_cpust" where
  "next_base idt_on base now cpu =
     (if \<not> cs_valid (now ! cpu) then base ! cpu else if \<not> cs_valid (base ! cpu) then now ! cpu
      else followed idt_on (base ! cpu) (now ! cpu))"

definition first_compared :: "kg_cpust list \<Rightarrow> kg_cpust list \<Rightarrow> nat list \<Rightarrow> nat option" where
  "first_compared base now cpus = List.find (\<lambda>cpu. cs_valid (now ! cpu) \<and> cs_valid (base ! cpu)) cpus"

lemma check_cpu_step:
  assumes "cpu < length base" and "check_cpu env idt_on now cpu (base, first, s) = (base', first', s')"
  shows "base' = base[cpu := next_base idt_on base now cpu]"
    and "first' = (case first of Some f \<Rightarrow> Some f | None \<Rightarrow> first_compared base now [cpu])"
    and "logged env (cpu_changes idt_on base now cpu) s s'"
proof -
  obtain b s1 where c: "kg_cpust_compare env idt_on cpu (now ! cpu) (base ! cpu, s) = (b, s1)" by (rule prod.exhaust)
  note l = compare_logged [OF c]
  show "base' = base[cpu := next_base idt_on base now cpu]"
    using assms c l(1) by (auto simp: check_cpu_def next_base_def split: if_splits)
  show "first' = (case first of Some f \<Rightarrow> Some f | None \<Rightarrow> first_compared base now [cpu])"
    using assms c by (auto simp: check_cpu_def first_compared_def split: if_splits option.splits)
  show "logged env (cpu_changes idt_on base now cpu) s s'"
    using assms c l(2) by (auto simp: check_cpu_def cpu_changes_def split: if_splits)
qed

lemma cpu_changes_other: "cpu' \<noteq> cpu \<Longrightarrow> cpu_changes idt_on (base[cpu := b]) now cpu' = cpu_changes idt_on base now cpu'"
  by (simp add: cpu_changes_def)

lemma check_cpus:
  assumes "fold (check_cpu env idt_on now) cpus (base, first, s) = (base', first', s')"
    and "distinct cpus" and "\<forall>cpu\<in>set cpus. cpu < length base"
  shows "length base' = length base \<and>
    (\<forall>cpu. base' ! cpu = (if cpu \<in> set cpus then next_base idt_on base now cpu else base ! cpu)) \<and>
    first' = (case first of Some f \<Rightarrow> Some f | None \<Rightarrow> first_compared base now cpus) \<and>
    logged env (concat (map (cpu_changes idt_on base now) cpus)) s s'"
  using assms
proof (induction cpus arbitrary: base first s)
  case Nil
  then show ?case by (auto simp: first_compared_def split: option.split)
next
  case (Cons cpu cpus)
  obtain base1 first1 s1 where c: "check_cpu env idt_on now cpu (base, first, s) = (base1, first1, s1)"
    by (metis prod.exhaust)
  have len: "cpu < length base" using Cons.prems(3) by simp
  note st = check_cpu_step [OF len c]
  have ih: "length base' = length base1 \<and>
    (\<forall>q. base' ! q = (if q \<in> set cpus then next_base idt_on base1 now q else base1 ! q)) \<and>
    first' = (case first1 of Some f \<Rightarrow> Some f | None \<Rightarrow> first_compared base1 now cpus) \<and>
    logged env (concat (map (cpu_changes idt_on base1 now) cpus)) s1 s'"
    by (rule Cons.IH) (use Cons.prems c st(1) in auto)
  have eq: "base1 ! q = base ! q" if "q \<in> set cpus" for q
    using that Cons.prems(2) st(1) by (metis distinct.simps(2) nth_list_update_neq)
  have m: "map (cpu_changes idt_on base1 now) cpus = map (cpu_changes idt_on base now) cpus"
    by (rule map_cong) (simp_all add: cpu_changes_def eq)
  have f: "first_compared base1 now cpus = first_compared base now cpus"
    unfolding first_compared_def by (rule find_cong) (simp_all add: eq)
  have b: "base' ! q = (if q \<in> set (cpu # cpus) then next_base idt_on base now q else base ! q)" for q
    using ih st(1) eq [of q] len Cons.prems(2) by (auto simp: next_base_def nth_list_update)
  have "logged env (cpu_changes idt_on base now cpu @ concat (map (cpu_changes idt_on base now) cpus)) s s'"
    by (rule logged_append [OF st(3)]) (use ih m in simp)
  moreover have "first' = (case first of Some f \<Rightarrow> Some f | None \<Rightarrow> first_compared base now (cpu # cpus))"
    using ih st(2) f by (auto simp: first_compared_def split: option.split if_splits)
  ultimately show ?case using ih st(1) b by simp
qed

lemma check_cpus_quiet:
  assumes "\<forall>cpu\<in>set cpus. cs_valid (now ! cpu) \<longrightarrow> cs_valid (base ! cpu) \<and> reg_changes idt_on cpu (base ! cpu) (now ! cpu) = []"
  shows "\<exists>first'. fold (check_cpu env idt_on now) cpus (base, first, s) = (base, first', s)"
  using assms
proof (induction cpus arbitrary: first)
  case (Cons cpu cpus)
  have "check_cpu env idt_on now cpu (base, first, s) = (base, (if cs_valid (now ! cpu)
      then (case first of None \<Rightarrow> Some cpu | Some f \<Rightarrow> Some f) else first), s)"
    using Cons.prems compare_quiet [of idt_on cpu "base ! cpu" "now ! cpu" env s] by (simp add: check_cpu_def)
  then show ?case using Cons by simp
qed simp

section \<open>The interrupt table\<close>

definition gate_alert :: "(nat \<Rightarrow> gate_desc) \<Rightarrow> nat \<Rightarrow> u32 \<times> u32 \<times> u64 \<times> u64" where
  "gate_alert cur v = (KG_ALERT_IDT_HOOK, KG_LEVEL_CRITICAL, gate_offset (cur v), of_nat v)"

definition idt_changes :: "gate_desc list \<Rightarrow> (nat \<Rightarrow> gate_desc) \<Rightarrow> nat list \<Rightarrow> (u32 \<times> u32 \<times> u64 \<times> u64) list" where
  "idt_changes base cur vs = map (gate_alert cur) (filter (\<lambda>v. cur v \<noteq> base ! v) vs)"

lemma idt_gates:
  assumes "fold (idt_gate env t False cur) vs (base, s) = (base', s')" and "distinct vs" and "\<forall>v\<in>set vs. v < length base"
  shows "length base' = length base \<and> (\<forall>v. base' ! v = (if v \<in> set vs then cur v else base ! v)) \<and>
    logged env (idt_changes base cur vs) s s'"
  using assms
proof (induction vs arbitrary: base s)
  case Nil
  then show ?case by (simp add: idt_changes_def)
next
  case (Cons v vs)
  obtain base1 s1 where c: "idt_gate env t False cur v (base, s) = (base1, s1)" by (rule prod.exhaust)
  have v: "v < length base" using Cons.prems(3) by simp
  have b1: "base1 = base[v := cur v]" and l: "logged env (idt_changes base cur [v]) s s1"
    using c logged_report [of KG_ALERT_IDT_HOOK env "gate_offset (cur v)" "of_nat v" s]
    by (auto simp: idt_gate_def idt_changes_def gate_alert_def Let_def split: if_splits)
  have ih: "length base' = length base1 \<and> (\<forall>q. base' ! q = (if q \<in> set vs then cur q else base1 ! q)) \<and>
    logged env (idt_changes base1 cur vs) s1 s'"
    by (rule Cons.IH) (use Cons.prems c b1 in auto)
  have eq: "base1 ! q = base ! q" if "q \<in> set vs" for q
    using that Cons.prems(2) b1 by (metis distinct.simps(2) nth_list_update_neq)
  have "idt_changes base1 cur vs = idt_changes base cur vs"
    unfolding idt_changes_def by (metis (mono_tags, lifting) eq filter_cong)
  then have "logged env (idt_changes base cur (v # vs)) s s'"
    using logged_append [OF l, of "idt_changes base cur vs" s'] ih by (simp add: idt_changes_def split: if_splits)
  with ih b1 v eq show ?case by (auto simp: nth_list_update)
qed

lemma idt_gates_quiet: "\<forall>v\<in>set vs. cur v = base ! v \<Longrightarrow> fold (idt_gate env t False cur) vs (base, s) = (base, s)"
  by (induction vs) (simp_all add: idt_gate_def)

section \<open>The whole CPU check\<close>

text \<open>The alerts a check owes: the changed registers of every CPU, then the changed gates of the table of the first.\<close>

definition check_changes :: "cpu_env \<Rightarrow> nat \<Rightarrow> nat list \<Rightarrow> kg_integ \<Rightarrow> kg_cpust list \<Rightarrow> (u32 \<times> u32 \<times> u64 \<times> u64) list" where
  "check_changes ce nr online x base =
     (let now = collect_all ce nr
      in concat (map (cpu_changes (ig_idt_enabled x) base now) online) @
         (case first_compared base now online of
            None \<Rightarrow> []
          | Some f \<Rightarrow>
              if ig_idt_enabled x
              then idt_changes (ig_idt_base x) (ce_idt ce (cs_idt_base (now ! f))) [0..<idt_entries (cs_idt_limit (now ! f))]
              else []))"

lemma idt_entries_le: "idt_entries l \<le> 256"
  by (simp add: idt_entries_def)

lemma cpu_state_check_cases:
  assumes "ig_cpu_base x = Some base" and "ce_alloc_ok ce" and "distinct (tp_online (e_topo env))"
    and "\<forall>cpu\<in>set (tp_online (e_topo env)). cpu < tp_nr (e_topo env)" and "length base = tp_nr (e_topo env)"
    and "ig_idt_enabled x \<longrightarrow> length (ig_idt_base x) = 256"
    and now: "now = collect_all ce (tp_nr (e_topo env))"
  obtains base' idt s' where "kg_cpu_state_check env ce (x, s) = (x\<lparr>ig_cpu_base := Some base', ig_idt_base := idt\<rparr>, s')"
    and "logged env (check_changes ce (tp_nr (e_topo env)) (tp_online (e_topo env)) x base) s s'"
    and "\<And>cpu. cpu \<in> set (tp_online (e_topo env)) \<Longrightarrow> base' ! cpu = next_base (ig_idt_enabled x) base now cpu"
    and "length base' = length base" and "length idt = length (ig_idt_base x)"
    and "\<And>f v. first_compared base now (tp_online (e_topo env)) = Some f \<Longrightarrow> ig_idt_enabled x \<Longrightarrow>
           v < idt_entries (cs_idt_limit (now ! f)) \<Longrightarrow> idt ! v = ce_idt ce (cs_idt_base (now ! f)) v"
proof -
  let ?on = "tp_online (e_topo env)"
  obtain base' first s1 where f: "fold (check_cpu env (ig_idt_enabled x) now) ?on (base, None, s) = (base', first, s1)"
    by (metis prod.exhaust)
  have c: "length base' = length base" "\<And>cpu. cpu \<in> set ?on \<Longrightarrow> base' ! cpu = next_base (ig_idt_enabled x) base now cpu"
    "first = first_compared base now ?on"
    "logged env (concat (map (cpu_changes (ig_idt_enabled x) base now) ?on)) s s1"
    using check_cpus [OF f assms(3)] assms(4,5) by auto
  show thesis
  proof (cases "first \<noteq> None \<and> ig_idt_enabled x")
    case True
    then obtain fc where fc: "first = Some fc" by auto
    have fc': "first_compared base now ?on = Some fc" using c(3) fc by simp
    let ?cur = "ce_idt ce (cs_idt_base (now ! fc))" and ?vs = "[0..<idt_entries (cs_idt_limit (now ! fc))]"
    obtain idt s2 where i: "fold (idt_gate env (ig_text x) False ?cur) ?vs (ig_idt_base x, s1) = (idt, s2)" by (rule prod.exhaust)
    have g: "length idt = length (ig_idt_base x)" "\<And>v. v \<in> set ?vs \<Longrightarrow> idt ! v = ?cur v"
      "logged env (idt_changes (ig_idt_base x) ?cur ?vs) s1 s2"
      using idt_gates [OF i] assms(6) True idt_entries_le [of "cs_idt_limit (now ! fc)"] by auto
    show ?thesis
    proof (rule that)
      show "kg_cpu_state_check env ce (x, s) = (x\<lparr>ig_cpu_base := Some base', ig_idt_base := idt\<rparr>, s2)"
        using assms(1,2) f i True fc by (simp add: kg_cpu_state_check_def kg_idt_verify_def Let_def now)
      show "logged env (check_changes ce (tp_nr (e_topo env)) ?on x base) s s2"
        unfolding check_changes_def Let_def using logged_append [OF c(4) g(3)] fc' True by (simp add: now [symmetric])
    qed (use c g fc' in auto)
  next
    case False
    show ?thesis
    proof (rule that)
      show "kg_cpu_state_check env ce (x, s) = (x\<lparr>ig_cpu_base := Some base', ig_idt_base := ig_idt_base x\<rparr>, s1)"
        using assms(1,2) f False by (auto simp: kg_cpu_state_check_def Let_def now split: option.split)
      show "logged env (check_changes ce (tp_nr (e_topo env)) ?on x base) s s1"
        unfolding check_changes_def Let_def using c(4) c(3) False now by (auto split: option.split)
    qed (use c False in auto)
  qed
qed

lemma next_base_settled:
  assumes "cs_valid (now ! cpu)" "cs_valid (base ! cpu)"
  shows "cs_valid (next_base idt_on base now cpu) \<and> reg_changes idt_on cpu (next_base idt_on base now cpu) (now ! cpu) = []"
  using assms by (simp add: next_base_def)

lemma cpu_state_check_again:
  assumes "ig_cpu_base x = Some base" and "ce_alloc_ok ce" and "distinct (tp_online (e_topo env))"
    and "\<forall>cpu\<in>set (tp_online (e_topo env)). cpu < tp_nr (e_topo env)" and "length base = tp_nr (e_topo env)"
    and "ig_idt_enabled x \<longrightarrow> length (ig_idt_base x) = 256"
    and now: "now = collect_all ce (tp_nr (e_topo env))"
    and known: "\<forall>cpu\<in>set (tp_online (e_topo env)). cs_valid (now ! cpu) \<longrightarrow> cs_valid (base ! cpu)"
    and topo: "e_topo env' = e_topo env"
  shows "kg_cpu_state_check env' ce (kg_cpu_state_check env ce (x, s)) = kg_cpu_state_check env ce (x, s)"
proof -
  let ?on = "tp_online (e_topo env)"
  obtain base' idt s' where k: "kg_cpu_state_check env ce (x, s) = (x\<lparr>ig_cpu_base := Some base', ig_idt_base := idt\<rparr>, s')"
    and b: "\<And>cpu. cpu \<in> set ?on \<Longrightarrow> base' ! cpu = next_base (ig_idt_enabled x) base now cpu"
    and len: "length base' = length base"
    and i: "\<And>f v. first_compared base now ?on = Some f \<Longrightarrow> ig_idt_enabled x \<Longrightarrow>
           v < idt_entries (cs_idt_limit (now ! f)) \<Longrightarrow> idt ! v = ce_idt ce (cs_idt_base (now ! f)) v"
    by (rule cpu_state_check_cases [OF assms(1-7), of s]) blast
  have q: "\<forall>cpu\<in>set ?on. cs_valid (now ! cpu) \<longrightarrow> cs_valid (base' ! cpu) \<and>
      reg_changes (ig_idt_enabled x) cpu (base' ! cpu) (now ! cpu) = []"
    using known b next_base_settled by simp
  then obtain first where f: "fold (check_cpu env' (ig_idt_enabled x) now) ?on (base', None, s') = (base', first, s')"
    using check_cpus_quiet [OF q, of env' None s'] by blast
  have "first = first_compared base' now ?on"
    using check_cpus [OF f assms(3)] assms(4,5) len by auto
  moreover have "first_compared base' now ?on = first_compared base now ?on"
    unfolding first_compared_def by (rule find_cong) (use q known in auto)
  ultimately have first: "first = first_compared base now ?on" by simp
  have g: "kg_idt_verify env' (ig_text x) ce (now ! fc) False (idt, s') = (idt, s')"
    if "first = Some fc" "ig_idt_enabled x" for fc
    unfolding kg_idt_verify_def by (rule idt_gates_quiet) (use i [of fc] first that in auto)
  show ?thesis
    unfolding k using assms(2) f g topo
    by (auto simp: kg_cpu_state_check_def Let_def now split: option.split)
qed

section \<open>Types of alerts a step cannot raise\<close>

lemma report_silent:
  "KG_ALERT_FAIL_SAFE_ENTERED \<notin> T \<Longrightarrow> type \<notin> T \<Longrightarrow> notes_of T (kg_report env type level p1 p2 s) = notes_of T s"
  by (simp add: notes_of_report)

lemma check_reg_silent:
  assumes "KG_ALERT_FAIL_SAFE_ENTERED \<notin> T" "KG_ALERT_CTRL_REG_TAMPER \<notin> T"
  shows "notes_of T (snd (check_reg env cpu reg v differs follow bs)) = notes_of T (snd bs)"
  using assms by (auto simp: check_reg_def kg_reg_alert_def report_silent split: prod.split)

lemma check_idtr_silent:
  assumes "KG_ALERT_FAIL_SAFE_ENTERED \<notin> T" "KG_ALERT_IDT_HOOK \<notin> T"
  shows "notes_of T (snd (check_idtr env idt_on c bs)) = notes_of T (snd bs)"
  using assms by (auto simp: check_idtr_def report_silent split: prod.split)

lemma fold_silent:
  assumes "\<And>x a. notes_of T (g (f x a)) = notes_of T (g a)"
  shows "notes_of T (g (fold f xs a)) = notes_of T (g a)"
  using assms by (induction xs arbitrary: a) simp_all

lemma cpu_state_check_silent:
  assumes "KG_ALERT_FAIL_SAFE_ENTERED \<notin> T" "KG_ALERT_CTRL_REG_TAMPER \<notin> T" "KG_ALERT_IDT_HOOK \<notin> T"
  shows "notes_of T (snd (kg_cpu_state_check env ce xs)) = notes_of T (snd xs)"
proof -
  have cmp: "notes_of T (snd (kg_cpust_compare env idt_on cpu c bs)) = notes_of T (snd bs)" for idt_on cpu c bs
    by (simp add: kg_cpust_compare_def Let_def check_reg_silent check_idtr_silent assms)
  have cpu: "notes_of T (snd (snd (check_cpu env idt_on now cpu acc))) = notes_of T (snd (snd acc))" for idt_on now cpu acc
  proof -
    obtain base first s where acc: "acc = (base, first, s)" by (metis prod.exhaust)
    show ?thesis using cmp [of idt_on cpu "now ! cpu" "(base ! cpu, s)"] by (auto simp: acc check_cpu_def split: prod.split)
  qed
  have gate: "notes_of T (snd (idt_gate env t bp cur v bs)) = notes_of T (snd bs)" for t bp cur v bs
    by (auto simp: idt_gate_def Let_def report_silent assms split: prod.split)
  obtain x s where xs: "xs = (x, s)" by (rule prod.exhaust)
  show ?thesis
  proof (cases "ig_cpu_base x")
    case None
    then show ?thesis by (simp add: kg_cpu_state_check_def xs)
  next
    case (Some base)
    let ?now = "collect_all ce (tp_nr (e_topo env))"
    obtain base' first s1 where f: "fold (check_cpu env (ig_idt_enabled x) ?now) (tp_online (e_topo env)) (base, None, s) = (base', first, s1)"
      by (metis prod.exhaust)
    have s1: "notes_of T s1 = notes_of T s"
      using fold_silent [where g = "\<lambda>a. snd (snd a)" and f = "check_cpu env (ig_idt_enabled x) ?now" and T = T, OF cpu,
          of "tp_online (e_topo env)" "(base, None, s)"] f by simp
    have "notes_of T (snd (kg_idt_verify env (ig_text x) ce c False (ig_idt_base x, s1))) = notes_of T s1" for c
      unfolding kg_idt_verify_def
      using fold_silent [where g = snd and f = "idt_gate env (ig_text x) False (ce_idt ce (cs_idt_base c))" and T = T, OF gate,
          of "[0..<idt_entries (cs_idt_limit c)]" "(ig_idt_base x, s1)"] by simp
    with Some f s1 show ?thesis
      by (auto simp: kg_cpu_state_check_def xs Let_def split: option.split prod.split) (metis snd_conv)+
  qed
qed

lemma handle_run_silent:
  assumes "KG_ALERT_FAIL_SAFE_ENTERED \<notin> T" "KG_ALERT_TEXT_PATCH \<notin> T"
  shows "notes_of T (snd (kg_handle_run env tp t rs re newb st)) = notes_of T (snd st)"
  using assms by (auto simp: kg_handle_run_def Let_def report_silent split: prod.split)

lemma chunk_runs_silent:
  assumes "KG_ALERT_FAIL_SAFE_ENTERED \<notin> T" "KG_ALERT_TEXT_PATCH \<notin> T"
  shows "notes_of T (snd (chunk_runs env tp t off n cur i st)) = notes_of T (snd st)"
proof (induction env tp t off n cur i st rule: chunk_runs.induct)
  case (1 env tp t off n cur i st)
  then show ?case by (subst chunk_runs.simps) (simp add: Let_def handle_run_silent [OF assms])
qed

lemma region_loop_silent:
  assumes "KG_ALERT_FAIL_SAFE_ENTERED \<notin> T" "KG_ALERT_TEXT_PATCH \<notin> T"
  shows "notes_of T (snd (region_loop env tp t rd sz off st)) = notes_of T (snd st)"
proof (induction env tp t rd sz off st rule: region_loop.induct)
  case (1 env tp t rd sz off st)
  then show ?case
    by (subst region_loop.simps) (simp add: Let_def kg_chunk_check_def chunk_runs_silent [OF assms])
qed

lemma verify_silent:
  assumes "KG_ALERT_FAIL_SAFE_ENTERED \<notin> T" "KG_ALERT_TEXT_PATCH \<notin> T"
  shows "notes_of T (snd (verify_from env tp rd i ts)) = notes_of T (snd ts)"
proof (induction env tp rd i ts rule: verify_from.induct)
  case (1 env tp rd i ts)
  obtain t s where ts: "ts = (t, s)" by (rule prod.exhaust)
  show ?case
  proof (cases "i < length (t_regions t)")
    case True
    obtain r s1 where v: "kg_region_verify (env i) tp t (rd i) (t_regions t ! i, s) = (r, s1)" by (rule prod.exhaust)
    have "notes_of T s1 = notes_of T s"
      using region_loop_silent [OF assms, of "env i" tp t "rd i" "unat (r_size (t_regions t ! i))" 0 "(t_regions t ! i, s)"] v
      by (simp add: kg_region_verify_def)
    with 1 [OF ts [symmetric] True v [symmetric]] True v show ?thesis by (simp add: ts verify_from.simps [of env tp rd i])
  qed (simp add: ts verify_from.simps [of env tp rd i])
qed

lemma text_step_silent:
  assumes "KG_ALERT_FAIL_SAFE_ENTERED \<notin> T" "KG_ALERT_TEXT_PATCH \<notin> T"
  shows "notes_of T (snd (text_step we tp xs)) = notes_of T (snd xs)"
proof -
  obtain x s where xs: "xs = (x, s)" by (rule prod.exhaust)
  show ?thesis
    using verify_silent [OF assms, of "we_text_env we" tp "we_rd we" 0 "(ig_text x, s)"]
    by (auto simp: xs text_step_def kg_text_verify_all_def split: prod.split if_splits)
qed

section \<open>Frames of the steps\<close>

lemma cpu_state_check_frame:
  "ig_text (fst (kg_cpu_state_check env ce (x, s))) = ig_text x"
  "ig_corrupt_reported (fst (kg_cpu_state_check env ce (x, s))) = ig_corrupt_reported x"
  "ig_stop (fst (kg_cpu_state_check env ce (x, s))) = ig_stop x"
  "ig_queued (fst (kg_cpu_state_check env ce (x, s))) = ig_queued x"
  "ig_cpu_base (fst (kg_cpu_state_check env ce (x, s))) = None \<longleftrightarrow> ig_cpu_base x = None"
  by (auto simp: kg_cpu_state_check_def Let_def split: option.split prod.split)

lemma requeue_frame [simp]:
  "ig_text (requeue d x) = ig_text x" "ig_corrupt_reported (requeue d x) = ig_corrupt_reported x" "ig_stop (requeue d x) = ig_stop x"
  "ig_text (kg_integrity_kick x) = ig_text x" "ig_corrupt_reported (kg_integrity_kick x) = ig_corrupt_reported x"
  "ig_stop (kg_integrity_kick x) = ig_stop x"
  by (simp_all add: requeue_def kg_integrity_kick_def)

lemma requeue_stopped: "ig_stop x \<Longrightarrow> requeue d x = x" "ig_stop x \<Longrightarrow> kg_integrity_kick x = x"
  by (simp_all add: requeue_def kg_integrity_kick_def)

lemma text_step_frame: "\<exists>t s'. text_step we tp (x, s) = (x\<lparr>ig_text := t\<rparr>, s') \<and> (text_inv tp (ig_text x) \<longrightarrow> text_inv tp t)"
  using text_inv_verify_all [of tp "ig_text x" "we_text_env we" "we_rd we" s]
  by (auto simp: text_step_def split: prod.split)

section \<open>The books through every operation\<close>

datatype integ_act =
    Act_init kg_env init_env
  | Act_notify kg_env add_env module_state bool live_module
  | Act_work work_env
  | Act_kick
  | Act_exit

fun integ_do :: "text_par \<Rightarrow> integ_act \<Rightarrow> integ_sys \<Rightarrow> integ_sys" where
  "integ_do tp (Act_init env ie) xs = fst (kg_integrity_init env tp ie xs)"
| "integ_do tp (Act_notify env ae action this m) xs = kg_module_notify env tp ae action this m xs"
| "integ_do tp (Act_work we) xs = kg_integ_workfn we tp xs"
| "integ_do tp Act_kick xs = (kg_integrity_kick (fst xs), snd xs)"
| "integ_do tp Act_exit xs = (kg_integrity_exit (fst xs), snd xs)"

text \<open>The text monitor's books are right, and work is queued only while the checks are not stopped.\<close>

definition integ_inv :: "text_par \<Rightarrow> kg_integ \<Rightarrow> bool" where
  "integ_inv tp x \<longleftrightarrow> text_inv tp (ig_text x) \<and> (ig_stop x \<longrightarrow> ig_queued x = None)"

lemma text_inv_frame [simp]:
  "text_inv tp (t\<lparr>t_start := a, t_end := b\<rparr>) = text_inv tp t" "text_inv tp (t\<lparr>t_enabled := e\<rparr>) = text_inv tp t"
  by (simp_all add: text_inv_def)

lemma size32: "unat (ucast (x :: u32) :: u64) < 2 ^ 63"
  using unat_bound [of x] by (simp add: unat_ucast_up)

lemma text_inv_module_add: "text_inv tp t \<Longrightarrow> text_inv tp (kg_module_add tp ae this m t)"
  by (auto simp: kg_module_add_def intro!: text_inv_add size32)

lemma text_inv_module_remove: "text_inv tp t \<Longrightarrow> text_inv tp (kg_module_remove m t)"
  by (simp add: kg_module_remove_def Let_def text_inv_del)

lemma text_inv_enumerate: "text_inv tp t \<Longrightarrow> text_inv tp (kg_enumerate_modules tp ae held entries t)"
proof -
  have "text_inv tp t \<Longrightarrow> text_inv tp (fold (\<lambda>m. kg_module_add tp (ae m) False m) ms t)" for ms t
    by (induction ms arbitrary: t) (simp_all add: text_inv_module_add)
  then show "text_inv tp t \<Longrightarrow> ?thesis" by (simp add: kg_enumerate_modules_def split: sum.split)
qed

lemma bounds_size:
  assumes "kg_find_text_bounds pt a = Inr (lo, hi)"
  shows "unat (hi - lo) < 2 ^ 63"
proof -
  have "hi - lo < TEXT_LIMIT" using assms by (auto simp: kg_find_text_bounds_def Let_def split: if_splits)
  then show ?thesis by (simp add: kg_const word_less_nat_alt)
qed

lemma text_inv_kernel:
  assumes "text_inv tp (ig_text x)"
  shows "text_inv tp (ig_text (init_kernel_text tp ie x))"
proof (cases "kg_find_text_bounds (ie_pt ie) (ie_printk ie)")
  case (Inl e)
  then show ?thesis using assms by (simp add: init_kernel_text_def)
next
  case (Inr p)
  obtain lo hi where p: "p = (lo, hi)" by (rule prod.exhaust)
  let ?t = "(ig_text x)\<lparr>t_start := lo, t_end := hi\<rparr>" and ?ae = "ie_kernel_add ie"
  have "text_inv tp (fst (kg_region_add tp (ae_rec_ok ?ae) (ae_copy_ok ?ae) (ae_rd ?ae) ''vmlinux'' lo (hi - lo) True None ?t))"
    by (rule text_inv_add) (use assms bounds_size [OF Inr [unfolded p]] in simp_all)
  then show ?thesis
    using assms by (auto simp: init_kernel_text_def Inr p Let_def split: prod.split)
qed

lemma init_kernel_frame: "ig_stop (init_kernel_text tp ie x) = ig_stop x" "ig_queued (init_kernel_text tp ie x) = ig_queued x"
  by (auto simp: init_kernel_text_def Let_def split: sum.split prod.split)

lemma baseline_frame:
  "ig_text (fst (fst (kg_cpu_state_baseline env ce a b c (x, s)))) = ig_text x"
  "ig_stop (fst (fst (kg_cpu_state_baseline env ce a b c (x, s)))) = ig_stop x"
  "ig_queued (fst (fst (kg_cpu_state_baseline env ce a b c (x, s)))) = ig_queued x"
  by (auto simp: kg_cpu_state_baseline_def Let_def split: option.split prod.split)

lemma del_all:
  assumes "n \<le> length (t_regions t)" "text_inv tp t"
  shows "text_inv tp ((kg_region_del 0 ^^ n) t) \<and> t_regions ((kg_region_del 0 ^^ n) t) = drop n (t_regions t)"
  using assms
proof (induction n)
  case (Suc n)
  let ?t = "(kg_region_del 0 ^^ n) t"
  have t: "text_inv tp ?t" "t_regions ?t = drop n (t_regions t)" using Suc by simp_all
  have "text_inv tp (kg_region_del 0 ?t)" by (rule text_inv_del [OF t(1)]) (use t(2) Suc.prems in simp)
  moreover have "t_regions (kg_region_del 0 ?t) = drop (Suc n) (t_regions t)"
    using t(2) by (simp add: kg_region_del_def drop_Suc tl_drop)
  ultimately show ?case by simp
qed simp

lemma exit_text:
  assumes "text_inv tp (ig_text x)"
  shows "text_inv tp (ig_text (kg_integrity_exit x))"
    and "ig_cpu_base x \<noteq> None \<Longrightarrow> t_regions (ig_text (kg_integrity_exit x)) = []"
proof -
  have f: "fold (\<lambda>_. kg_region_del 0) rs t = (kg_region_del 0 ^^ length rs) t" for rs :: "kg_region list" and t
    by (induction rs arbitrary: t) (simp_all add: funpow_swap1)
  have "text_inv tp ((kg_region_del 0 ^^ length (t_regions (ig_text x))) (ig_text x)) \<and>
    t_regions ((kg_region_del 0 ^^ length (t_regions (ig_text x))) (ig_text x)) = []"
    using del_all [OF order_refl assms] by simp
  then show "text_inv tp (ig_text (kg_integrity_exit x))"
    and "ig_cpu_base x \<noteq> None \<Longrightarrow> t_regions (ig_text (kg_integrity_exit x)) = []"
    using assms by (auto simp: kg_integrity_exit_def Let_def f split: option.split)
qed

lemma integ_inv_init: "integ_inv tp (fst xs) \<Longrightarrow> integ_inv tp (fst (fst (kg_integrity_init env tp ie xs)))"
proof -
  assume inv: "integ_inv tp (fst xs)"
  obtain x s where xs: "xs = (x, s)" by (rule prod.exhaust)
  obtain x1 s1 r where b: "kg_cpu_state_baseline env (ie_cpu ie) (ie_base_ok ie) (ie_dup_ok ie) (ie_fred ie) (x, s) = ((x1, s1), r)"
    by (metis prod.exhaust)
  have x1: "text_inv tp (ig_text x1)" "ig_stop x1 \<longrightarrow> ig_queued x1 = None"
    using baseline_frame [of env "ie_cpu ie" "ie_base_ok ie" "ie_dup_ok ie" "ie_fred ie" x s] inv b
    by (simp_all add: integ_inv_def xs)
  show ?thesis
    using x1 text_inv_kernel [OF x1(1), of ie]
    by (cases r) (simp_all add: kg_integrity_init_def xs b Let_def integ_inv_def init_modules_def text_inv_enumerate text_inv_module_add)
qed

lemma integ_inv_work: "integ_inv tp (fst xs) \<Longrightarrow> integ_inv tp (fst (kg_integ_workfn we tp xs))"
proof -
  assume inv: "integ_inv tp (fst xs)"
  obtain x s where xs: "xs = (x, s)" by (rule prod.exhaust)
  let ?x = "x\<lparr>ig_queued := None\<rparr>"
  obtain x1 s1 where c: "kg_cpu_state_check (we_cpu_env we) (we_cpu we) (?x, s) = (x1, s1)" by (rule prod.exhaust)
  have x1: "text_inv tp (ig_text x1)" "ig_queued x1 = None"
    using cpu_state_check_frame [of "we_cpu_env we" "we_cpu we" ?x s] inv c by (simp_all add: integ_inv_def xs)
  then obtain t s2 where t: "text_step we tp (x1, s1) = (x1\<lparr>ig_text := t\<rparr>, s2)" "text_inv tp t"
    using text_step_frame [of we tp x1 s1] by blast
  obtain x3 s3 where g: "guard_step_integ (we_end_env we) (x1\<lparr>ig_text := t\<rparr>, s2) = (x3, s3)" by (rule prod.exhaust)
  have x3: "ig_text x3 = t" "ig_queued x3 = None"
    using g x1(2) by (auto simp: guard_step_integ_def split: if_splits)
  show ?thesis
    using t(2) x3 by (simp add: kg_integ_workfn_def xs c t g integ_inv_def requeue_stopped)
qed

lemma integ_inv_notify: "integ_inv tp (fst xs) \<Longrightarrow> integ_inv tp (fst (kg_module_notify env tp ae action this m xs))"
  by (auto simp: kg_module_notify_def integ_inv_def Let_def text_inv_module_add text_inv_module_remove split: prod.split)

lemma integ_inv_exit: "integ_inv tp x \<Longrightarrow> integ_inv tp (kg_integrity_exit x)"
  using exit_text(1) [of tp x]
  by (cases "ig_cpu_base x") (auto simp: integ_inv_def kg_integrity_exit_def Let_def)

lemma integ_inv_do: "integ_inv tp (fst xs) \<Longrightarrow> integ_inv tp (fst (integ_do tp a xs))"
  by (cases a) (simp_all add: integ_inv_init integ_inv_work integ_inv_notify integ_inv_exit,
      simp add: integ_inv_def kg_integrity_kick_def)

lemma integ_inv_run: "integ_inv tp (fst xs) \<Longrightarrow> integ_inv tp (fst (fold (integ_do tp) acts xs))"
  by (induction acts arbitrary: xs) (simp_all add: integ_inv_do)

lemma integ_inv_loaded: "integ_inv tp integ_loaded"
  by (simp add: integ_inv_def integ_loaded_def text_inv_def)

section \<open>Start\<close>

lemma idt_baseline_quiet: "t_end t = 0 \<Longrightarrow> kg_idt_verify env t ce c True (base, s) = (base, s)"
proof -
  assume "t_end t = 0"
  then have "idt_gate env t True cur v (base, s) = (base, s)" for cur v
    by (simp add: idt_gate_def)
  then have "fold (idt_gate env t True cur) vs (base, s) = (base, s)" for cur vs by (induction vs) simp_all
  then show ?thesis by (simp add: kg_idt_verify_def)
qed

section \<open>Properties of the checks\<close>

text \<open>C12. A check of the CPU control state reports every register of every online CPU that differs from its baseline
  (for CR0 and CR4 in the protected bits), and every changed gate of the interrupt table, once each, in order and
  nothing else; if it reports anything the posture is at least high, as far as it is not capped; and since the
  baseline follows what was reported, a second check of the same machine changes nothing.\<close>

theorem cpu_check_exact:
  assumes "ig_cpu_base x = Some base" and "ce_alloc_ok ce" and "distinct (tp_online (e_topo env))"
    and "\<forall>cpu\<in>set (tp_online (e_topo env)). cpu < tp_nr (e_topo env)" and "length base = tp_nr (e_topo env)"
    and "ig_idt_enabled x \<longrightarrow> length (ig_idt_base x) = 256"
    and "\<forall>cpu\<in>set (tp_online (e_topo env)). cs_valid (collect_all ce (tp_nr (e_topo env)) ! cpu) \<longrightarrow> cs_valid (base ! cpu)"
    and "e_topo env' = e_topo env"
  shows "logged env (check_changes ce (tp_nr (e_topo env)) (tp_online (e_topo env)) x base) s
      (snd (kg_cpu_state_check env ce (x, s))) \<and>
    kg_cpu_state_check env' ce (kg_cpu_state_check env ce (x, s)) = kg_cpu_state_check env ce (x, s)"
proof
  show "logged env (check_changes ce (tp_nr (e_topo env)) (tp_online (e_topo env)) x base) s
      (snd (kg_cpu_state_check env ce (x, s)))"
    by (rule cpu_state_check_cases [OF assms(1-6) refl, of s]) simp
  show "kg_cpu_state_check env' ce (kg_cpu_state_check env ce (x, s)) = kg_cpu_state_check env ce (x, s)"
    by (rule cpu_state_check_again [OF assms(1-6) refl assms(7,8)])
qed

text \<open>Two CPUs with the same registers, and a machine on which the syscall entry of the second was redirected.\<close>

definition example_regs :: "u64 \<Rightarrow> cpu_regs" where
  "example_regs lstar = \<lparr>cr_idt_base = 0xfe00, cr_idt_limit = 31, cr_msr = (\<lambda>m. if m = MSR_LSTAR then Some lstar else Some 0),
     cr_cr0 = 0x10000, cr_cr4 = 0x100000\<rparr>"

definition example_idt_gate :: gate_desc where
  "example_idt_gate = \<lparr>gd_offset_low = 0x10, gd_segment = 0x10, gd_bits = 0x8e00, gd_offset_middle = 0x20, gd_offset_high = 0,
     gd_reserved = 0\<rparr>"

definition example_ce :: "u64 \<Rightarrow> cpu_env" where
  "example_ce lstar1 = \<lparr>ce_alloc_ok = True, ce_sep = False, ce_eibrs = False,
     ce_regs = (\<lambda>cpu. Some (example_regs (if cpu = 1 then lstar1 else 0x8000))), ce_idt = (\<lambda>_ _. example_idt_gate)\<rparr>"

definition example_cpus :: "kg_cpust list" where
  "example_cpus = replicate 2 (kg_cpust_collect (example_ce 0) (example_regs 0x8000))"

definition example_integ :: kg_integ where
  "example_integ = integ_loaded\<lparr>ig_cpu_base := Some example_cpus, ig_idt_enabled := True,
     ig_idt_base := replicate 256 example_idt_gate\<rparr>"

theorem cpu_check_exact_witness:
  "notes_of ctl (snd (kg_cpu_state_check (example_env 5) (example_ce 0x6666) (example_integ, example_sys))) =
     [(KG_ALERT_CTRL_REG_TAMPER, KG_LEVEL_CRITICAL, 0x1c0000082, 0x6666)] \<and>
   KG_POSTURE_HIGH \<le> sys_posture (snd (kg_cpu_state_check (example_env 5) (example_ce 0x6666) (example_integ, example_sys))) \<and>
   kg_cpu_state_check (example_env 6) (example_ce 0x6666)
     (kg_cpu_state_check (example_env 5) (example_ce 0x6666) (example_integ, example_sys)) =
   kg_cpu_state_check (example_env 5) (example_ce 0x6666) (example_integ, example_sys)"
proof -
  have now: "collect_all (example_ce 0x6666) 2 = [kg_cpust_collect (example_ce 0) (example_regs 0x8000),
      kg_cpust_collect (example_ce 0) (example_regs 0x6666)]"
    by (simp add: collect_all_def upt_rec example_ce_def kg_cpust_collect_def rd_msr_def numeral_2_eq_2)
  have g: "idt_changes (replicate 256 example_idt_gate) (\<lambda>_. example_idt_gate) [0..<idt_entries l] = []" for l
    using idt_entries_le [of l] by (auto simp: idt_changes_def filter_empty_conv)
  have b: "example_cpus = [kg_cpust_collect (example_ce 0) (example_regs 0x8000), kg_cpust_collect (example_ce 0) (example_regs 0x8000)]"
    by (simp add: example_cpus_def numeral_2_eq_2)
  have r: "reg_changes True 0 (kg_cpust_collect (example_ce 0) (example_regs 0x8000)) (kg_cpust_collect (example_ce 0) (example_regs 0x8000)) = []"
    "reg_changes True (Suc 0) (kg_cpust_collect (example_ce 0) (example_regs 0x8000)) (kg_cpust_collect (example_ce 0) (example_regs 0x6666)) =
      [(KG_ALERT_CTRL_REG_TAMPER, KG_LEVEL_CRITICAL, 0x1c0000082, 0x6666)]"
    by (simp_all add: reg_changes_def reg_list_def reg_entry_def idtr_entry_def kg_cpust_collect_def rd_msr_def example_regs_def
        example_ce_def kg_const)
  have v: "cs_valid (kg_cpust_collect ce c)" for ce c by (simp add: kg_cpust_collect_def)
  have x: "ig_cpu_base example_integ = Some example_cpus" "ig_idt_enabled example_integ = True"
    "ig_idt_base example_integ = replicate 256 example_idt_gate" by (simp_all add: example_integ_def)
  have idt: "ce_idt (example_ce l) = (\<lambda>_ _. example_idt_gate)" "ce_alloc_ok (example_ce l)" for l by (simp_all add: example_ce_def)
  have ch: "check_changes (example_ce 0x6666) 2 [0, 1] example_integ example_cpus =
      [(KG_ALERT_CTRL_REG_TAMPER, KG_LEVEL_CRITICAL, 0x1c0000082, 0x6666)]"
    unfolding check_changes_def Let_def now b x idt
    by (simp add: cpu_changes_def first_compared_def v r g x(2) del: replicate.simps)
  have "logged (example_env 5) [(KG_ALERT_CTRL_REG_TAMPER, KG_LEVEL_CRITICAL, 0x1c0000082, 0x6666)] example_sys
      (snd (kg_cpu_state_check (example_env 5) (example_ce 0x6666) (example_integ, example_sys))) \<and>
    kg_cpu_state_check (example_env 6) (example_ce 0x6666)
      (kg_cpu_state_check (example_env 5) (example_ce 0x6666) (example_integ, example_sys)) =
    kg_cpu_state_check (example_env 5) (example_ce 0x6666) (example_integ, example_sys)"
    using cpu_check_exact [where x = example_integ and ce = "example_ce 0x6666" and env = "example_env 5" and
        env' = "example_env 6" and s = example_sys, OF x(1) idt(2)] ch
    by (simp add: x(3) now b v)
  then show ?thesis
    using example_uncapped [of 5] by (simp add: logged_def notes_of_def map_filter_def kg_const)
qed

text \<open>C19. A run of the worker reports a corrupted policy state exactly when the guard fails its check after the CPU and
  text checks and no earlier run has already reported it since the guard last passed; the report raises the posture
  to fail-safe, as far as it is not capped, and marks the policy untrusted, and the flag afterwards says whether
  the guard failed.\<close>

theorem corruption_reported_once:
  "case text_step we tp (kg_cpu_state_check (we_cpu_env we) (we_cpu we) (x\<lparr>ig_queued := None\<rparr>, s)) of (x1, s1) \<Rightarrow>
   case kg_integ_workfn we tp (x, s) of (x', s') \<Rightarrow>
     let failed = (\<not> kg_guard_verify (e_sha (we_end_env we)) (s_guard s1)); fresh = (failed \<and> \<not> ig_corrupt_reported x)
     in notes_of {KG_ALERT_SHARED_STATE_CORRUPT} s' = notes_of {KG_ALERT_SHARED_STATE_CORRUPT} s @
          (if fresh then [(KG_ALERT_SHARED_STATE_CORRUPT, KG_LEVEL_CRITICAL, 0, 0)] else []) \<and>
        ig_corrupt_reported x' = failed \<and>
        sys_posture s' = (if fresh \<and> pos_ready (s_pos s1)
          then max (sys_posture s1) (posture_cap (e_par (we_end_env we))) else sys_posture s1) \<and>
        pos_untrusted (s_pos s') = (pos_untrusted (s_pos s1) \<or> (fresh \<and> pos_ready (s_pos s1)))"
proof -
  let ?T = "{KG_ALERT_SHARED_STATE_CORRUPT}"
  let ?x = "x\<lparr>ig_queued := None\<rparr>"
  obtain x0 s0 where c: "kg_cpu_state_check (we_cpu_env we) (we_cpu we) (?x, s) = (x0, s0)" by (rule prod.exhaust)
  obtain t s1 where t: "text_step we tp (x0, s0) = (x0\<lparr>ig_text := t\<rparr>, s1)" using text_step_frame by blast
  have f: "ig_corrupt_reported x0 = ig_corrupt_reported x"
    using cpu_state_check_frame(2) [of "we_cpu_env we" "we_cpu we" ?x s] c by simp
  have a: "notes_of ?T s1 = notes_of ?T s"
    using cpu_state_check_silent [of ?T "we_cpu_env we" "we_cpu we" "(?x, s)"] text_step_silent [of ?T we tp "(x0, s0)"] c t
    by (simp add: kg_const)
  have cap: "min KG_POSTURE_FAILSAFE (posture_cap par) = posture_cap par" for par
    by (simp add: posture_cap_def min.commute)
  have tgt: "dispatch_target KG_ALERT_SHARED_STATE_CORRUPT KG_LEVEL_CRITICAL = Some KG_POSTURE_FAILSAFE"
    by (simp add: dispatch_target_def kg_const)
  let ?env = "we_end_env we"
  let ?d = "dispatch_actions ?env KG_ALERT_SHARED_STATE_CORRUPT KG_LEVEL_CRITICAL 0
    (deliver ?env KG_ALERT_SHARED_STATE_CORRUPT KG_LEVEL_CRITICAL 0 0 s1)"
  have d: "s_pos ?d = s_pos s1" using report_ready_frame [of ?env s1] by (simp add: quiet_def)
  have u: "pos_untrusted (s_pos (kg_report ?env KG_ALERT_SHARED_STATE_CORRUPT KG_LEVEL_CRITICAL 0 0 s1)) =
      (pos_untrusted (s_pos s1) \<or> pos_ready (s_pos s1))"
    by (cases "pos_ready (s_pos s1)")
      (simp_all add: kg_report.simps kg_dispatch.simps tgt raise_effect(3) [OF _ refl] raise_not_ready d)
  have r: "notes_of ?T (kg_report ?env KG_ALERT_SHARED_STATE_CORRUPT KG_LEVEL_CRITICAL 0 0 s1) =
      notes_of ?T s1 @ [(KG_ALERT_SHARED_STATE_CORRUPT, KG_LEVEL_CRITICAL, 0, 0)]"
    by (subst notes_of_report) (simp_all add: kg_const)
  show ?thesis
    using a f u by (simp add: kg_integ_workfn_def c t guard_step_integ_def r report_posture_eq tgt cap)
qed

text \<open>C20. Whatever the order of start, module events, worker runs, kicks and stop, the books of the text monitor are
  right: every copy has the size of its region, the two counters are the number of regions and their total
  size, the total stays within \<open>text_max_mb\<close>, and work is queued only while the checks run.  Stopping then releases
  every region, the counters read zero and nothing is queued.\<close>

theorem integrity_books:
  "case fold (integ_do tp) acts (integ_loaded, s) of (x, s') \<Rightarrow>
     integ_inv tp x \<and>
     (case ig_cpu_base x of
        None \<Rightarrow> kg_integrity_exit x = x
      | Some _ \<Rightarrow> t_regions (ig_text (kg_integrity_exit x)) = [] \<and> kg_text_stats (ig_text (kg_integrity_exit x)) = (0, 0) \<and>
          ig_queued (kg_integrity_exit x) = None \<and> ig_stop (kg_integrity_exit x))"
proof -
  obtain x s' where r: "fold (integ_do tp) acts (integ_loaded, s) = (x, s')" by (rule prod.exhaust)
  have inv: "integ_inv tp x" using integ_inv_run [of tp "(integ_loaded, s)" acts] integ_inv_loaded r by simp
  show ?thesis
  proof (cases "ig_cpu_base x")
    case None
    then show ?thesis using inv by (simp add: r kg_integrity_exit_def)
  next
    case (Some b)
    have "t_regions (ig_text (kg_integrity_exit x)) = []" "text_inv tp (ig_text (kg_integrity_exit x))"
      using exit_text [of tp x] inv Some by (simp_all add: integ_inv_def)
    moreover from this have "t_copy_bytes (ig_text (kg_integrity_exit x)) = 0" "t_nregions (ig_text (kg_integrity_exit x)) = 0"
      by (simp_all add: text_inv_def unat_eq_0)
    ultimately show ?thesis
      using inv Some by (simp add: r kg_text_stats_def) (simp add: kg_integrity_exit_def Let_def)
  qed
qed

text \<open>Loading a module and unloading it again leaves the text monitor exactly as it was, whether or not its text
  could be added, provided no region was already recorded for it.\<close>

theorem module_live_going:
  assumes "\<forall>r\<in>set (t_regions (ig_text x)). r_mod r \<noteq> Some (lm_addr m)"
  shows "fst (kg_module_notify env' tp ae' MODULE_STATE_GOING False m
           (kg_module_notify env tp ae MODULE_STATE_LIVE False m (x, s))) = x"
proof -
  let ?t = "ig_text x"
  have tw: "takeWhile (\<lambda>r. r_mod r \<noteq> Some (lm_addr m)) (t_regions ?t) = t_regions ?t"
    using assms by (simp add: takeWhile_eq_all_conv)
  have same: "kg_module_remove m ?t = ?t" by (simp add: kg_module_remove_def tw)
  have undo: "kg_module_remove m (kg_module_add tp ae False m ?t) = ?t"
    using assms same
    by (auto simp: kg_module_add_def kg_region_add_def kg_module_remove_def kg_region_del_def Let_def takeWhile_tail nth_append tw
        takeWhile_append2)
  show ?thesis
    by (auto simp: kg_module_notify_def Let_def undo split: prod.split)
qed

definition example_module :: live_module where
  "example_module = \<lparr>mod_name = ''probe'', mod_srcversion = None, lm_addr = 0x7000, lm_text_base = 0x5000, lm_text_size = 16,
     lm_sig_ok = False, lm_taints = 0x2000\<rparr>"

theorem module_live_going_witness:
  "fst (kg_module_notify (example_env 2) example_tp \<lparr>ae_rec_ok = True, ae_copy_ok = True, ae_rd = (\<lambda>_ _. 0x90)\<rparr>
      MODULE_STATE_GOING False example_module
      (kg_module_notify (example_env 1) example_tp \<lparr>ae_rec_ok = True, ae_copy_ok = True, ae_rd = (\<lambda>_ _. 0x90)\<rparr>
        MODULE_STATE_LIVE False example_module (example_integ\<lparr>ig_text := example_monitored\<rparr>, example_sys))) =
   example_integ\<lparr>ig_text := example_monitored\<rparr>"
  by (rule module_live_going) (simp add: example_monitored_def example_region_def example_module_def)

text \<open>C21. Starting the checks on a freshly loaded driver never reports anything, whatever the interrupt table holds: the
  test that a handler lies in the kernel text needs the bounds of the text, and the CPU baseline is taken before
  they are looked up.\<close>

theorem idt_baseline_unchecked: "snd (fst (kg_integrity_init env tp ie (integ_loaded, s))) = s"
proof -
  have e: "t_end (ig_text integ_loaded) = 0" by (simp add: integ_loaded_def)
  have "snd (fst (kg_cpu_state_baseline env ce a b c (integ_loaded, s))) = s" for ce a b c
    by (auto simp: kg_cpu_state_baseline_def Let_def idt_baseline_quiet [OF e] split: option.split)
  then show ?thesis
    by (auto simp: kg_integrity_init_def Let_def split: prod.split option.split) (metis fst_conv snd_conv)+
qed

end
