(* ===== verification/KG_Hw.thy ===== *)
theory KG_Hw
  imports KG_State
begin

text \<open>
  \<^verbatim>\<open>src/linux/module/kg_hw.c\<close>: discovery of the PCI functions through the memory-mapped
  configuration space, the cross-check of that view with the one of the PCI core, the audit of bus
  masters, the periodic worker, and start and stop.  The configuration space is a memory of bytes that
  one pass reads; the answers of \<open>ioremap\<close>, of the ACPI tables, of the PCI core and of the IOMMU layer
  are arguments, and so is what a write to a command register does to the hardware.  Within one pass
  the clocks are read once.  Kernel log lines are not part of the state.
\<close>

unbundle bit_operations_syntax

section \<open>Data\<close>

definition KG_MAX_ECAM :: nat where [kg_const]: "KG_MAX_ECAM = 16"
definition KG_MAX_PCI :: nat where [kg_const]: "KG_MAX_PCI = 1024"
definition KG_MAX_SUSPECT :: nat where [kg_const]: "KG_MAX_SUSPECT = 64"
definition KG_PCI_HIDDEN_FROM_OS :: u8 where [kg_const]: "KG_PCI_HIDDEN_FROM_OS = 1"
definition KG_PCI_MISSING_IN_HW :: u8 where [kg_const]: "KG_PCI_MISSING_IN_HW = 2"
definition KG_PCI_IDENTITY_MISMATCH :: u8 where [kg_const]: "KG_PCI_IDENTITY_MISMATCH = 3"
definition PCI_VENDOR_ID :: u64 where [kg_const]: "PCI_VENDOR_ID = 0"
definition PCI_COMMAND :: u64 where [kg_const]: "PCI_COMMAND = 4"
definition PCI_CLASS_REVISION :: u64 where [kg_const]: "PCI_CLASS_REVISION = 8"
definition PCI_HEADER_TYPE :: u64 where [kg_const]: "PCI_HEADER_TYPE = 0x0e"
definition PCI_SECONDARY_BUS :: u64 where [kg_const]: "PCI_SECONDARY_BUS = 0x19"
definition PCI_HEADER_TYPE_NORMAL :: u8 where [kg_const]: "PCI_HEADER_TYPE_NORMAL = 0"
definition PCI_HEADER_TYPE_BRIDGE :: u8 where [kg_const]: "PCI_HEADER_TYPE_BRIDGE = 1"
definition PCI_COMMAND_MASTER :: u16 where [kg_const]: "PCI_COMMAND_MASTER = 4"
definition PCI_D3cold :: u32 where [kg_const]: "PCI_D3cold = 4"
definition IOMMU_DOMAIN_IDENTITY :: u32 where [kg_const]: "IOMMU_DOMAIN_IDENTITY = 4"

record kg_ecam_seg =
  es_base :: u64
  es_seg :: u16
  es_bus_start :: u8
  es_bus_end :: u8

record kg_pci_ent =
  pe_seg :: u16
  pe_bus :: u8
  pe_dev :: u8
  pe_fn :: u8
  pe_vid :: u16
  pe_did :: u16
  pe_class_rev :: u32
  pe_cmd :: u16
  pe_hdr :: u8
  pe_from_ecam :: bool

definition zero_ent :: kg_pci_ent where
  "zero_ent = \<lparr>pe_seg = 0, pe_bus = 0, pe_dev = 0, pe_fn = 0, pe_vid = 0, pe_did = 0, pe_class_rev = 0,
     pe_cmd = 0, pe_hdr = 0, pe_from_ecam = False\<rparr>"

record kg_suspect =
  su_e :: kg_pci_ent
  su_kind :: u8
  su_seen :: u8
  su_reported :: bool

definition zero_suspect :: kg_suspect where
  "zero_suspect = \<lparr>su_e = zero_ent, su_kind = 0, su_seen = 0, su_reported = False\<rparr>"

record kg_dma_rec =
  dr_e :: kg_pci_ent
  dr_alerted :: bool
  dr_cleared :: bool

text \<open>
  What the code reads of a device of the PCI core: its address, identity and power state, those of the
  bridges above it, the configuration words the core returns, its IOMMU domain, and how it is attached.
\<close>

record pci_dev =
  pd_domain :: u32
  pd_bus :: u8
  pd_devfn :: u32
  pd_vendor :: u16
  pd_device :: u16
  pd_class :: u32
  pd_revision :: u8
  pd_is_virtfn :: bool
  pd_state :: u32
  pd_offline :: bool
  pd_bridge_states :: "u32 list"
  pd_cmd :: u16
  pd_hdr :: u8
  pd_iommu_domain :: "u32 option"
  pd_untrusted :: bool
  pd_external_facing :: bool
  pd_thunderbolt :: bool

record pci_bus =
  pb_parent :: bool
  pb_domain :: u32
  pb_number :: u8

definition PCI_SLOT :: "u32 \<Rightarrow> u8" where "PCI_SLOT devfn = ucast (drop_bit 3 devfn AND 0x1f)"
definition PCI_FUNC :: "u32 \<Rightarrow> u8" where "PCI_FUNC devfn = ucast (devfn AND 7)"
definition PCI_DEVFN :: "u8 \<Rightarrow> u8 \<Rightarrow> u32" where
  "PCI_DEVFN slot func = push_bit 3 (ucast slot AND 0x1f) OR (ucast func AND 7)"

text \<open>The configuration space as bytes, and what a pass finds around it.\<close>

type_synonym pci_mem = "u64 \<Rightarrow> u8"

record hw_env =
  he_env :: kg_env
  he_devs :: "pci_dev list"
  he_buses :: "pci_bus list"
  he_map :: "u64 \<Rightarrow> bool"
  he_writew :: "u64 \<Rightarrow> u16 \<Rightarrow> pci_mem \<Rightarrow> pci_mem"
  he_clear_master :: "pci_dev \<Rightarrow> pci_mem \<Rightarrow> pci_mem"
  he_dma_allow :: string

definition readb :: "pci_mem \<Rightarrow> u64 \<Rightarrow> u8" where
  "readb m a = m a"

definition readw :: "pci_mem \<Rightarrow> u64 \<Rightarrow> u16" where
  "readw m a = ucast (m a) OR push_bit 8 (ucast (m (a + 1)))"

definition readl :: "pci_mem \<Rightarrow> u64 \<Rightarrow> u32" where
  "readl m a = ucast (readw m a) OR push_bit 16 (ucast (readw m (a + 2)))"

text \<open>
  The state of the monitor: \<open>hw_cur\<close> and \<open>hw_base\<close> are the first \<open>kg_ncur\<close> and \<open>kg_nbase\<close> elements of the two
  buffers, which exist when \<open>hw_bufs\<close> holds, \<open>hw_ecam\<close> and \<open>hw_dma\<close> the used parts of their arrays, \<open>hw_susp\<close> the whole
  array of suspects, and \<open>hw_queued\<close> the delay the work item was last queued with, while it is pending.
\<close>

record kg_hw =
  hw_ecam :: "kg_ecam_seg list"
  hw_bufs :: bool
  hw_cur :: "kg_pci_ent list"
  hw_base :: "kg_pci_ent list"
  hw_susp :: "kg_suspect list"
  hw_dma :: "kg_dma_rec list"
  hw_stop :: bool
  hw_running :: bool
  hw_nb_registered :: bool
  hw_queued :: "u32 option"

definition hw_loaded :: kg_hw where
  "hw_loaded = \<lparr>hw_ecam = [], hw_bufs = False, hw_cur = [], hw_base = [],
     hw_susp = replicate KG_MAX_SUSPECT zero_suspect, hw_dma = [], hw_stop = True, hw_running = False,
     hw_nb_registered = False, hw_queued = None\<rparr>"

definition kg_hw_ecam_active :: "kg_hw \<Rightarrow> bool" where
  "kg_hw_ecam_active x \<longleftrightarrow> hw_running x \<and> 0 < length (hw_ecam x)"

definition kg_hw_device_count :: "kg_hw \<Rightarrow> nat" where
  "kg_hw_device_count x = length (hw_cur x)"

definition kg_bdf :: "kg_pci_ent \<Rightarrow> u32" where
  "kg_bdf e = push_bit 24 (ucast (pe_seg e)) OR push_bit 16 (ucast (pe_bus e)) OR push_bit 8 (ucast (pe_dev e))
     OR ucast (pe_fn e)"

definition kg_same_dev :: "kg_pci_ent \<Rightarrow> kg_pci_ent \<Rightarrow> bool" where
  "kg_same_dev a b \<longleftrightarrow> pe_seg a = pe_seg b \<and> pe_bus a = pe_bus b \<and> pe_dev a = pe_dev b \<and> pe_fn a = pe_fn b"

definition kg_same_identity :: "kg_pci_ent \<Rightarrow> kg_pci_ent \<Rightarrow> bool" where
  "kg_same_identity a b \<longleftrightarrow> kg_same_dev a b \<and> pe_vid a = pe_vid b \<and> pe_did a = pe_did b"

section \<open>Location of the configuration space\<close>

text \<open>
  The MCFG table: its length field, and the allocation found at each index behind the table's header.  The
  count of allocations is an unsigned 64-bit division whose result is truncated to a signed 32-bit integer.
\<close>

record mcfg_alloc =
  ma_address :: u64
  ma_segment :: u16
  ma_start_bus :: u8
  ma_end_bus :: u8

record mcfg_table =
  mt_length :: u32
  mt_alloc :: "nat \<Rightarrow> mcfg_alloc"

definition SIZEOF_MCFG :: u64 where [kg_const]: "SIZEOF_MCFG = 44"
definition SIZEOF_MCFG_ALLOC :: u64 where [kg_const]: "SIZEOF_MCFG_ALLOC = 16"

definition mcfg_count :: "mcfg_table \<Rightarrow> int" where
  "mcfg_count t = sint (ucast ((ucast (mt_length t) - SIZEOF_MCFG) div SIZEOF_MCFG_ALLOC :: u64) :: u32)"

fun ecam_collect :: "mcfg_table \<Rightarrow> nat list \<Rightarrow> kg_ecam_seg list \<Rightarrow> kg_ecam_seg list" where
  "ecam_collect t [] acc = acc"
| "ecam_collect t (i # is) acc =
     (if length acc < KG_MAX_ECAM
      then let a = mt_alloc t i
           in if ma_address a = 0 \<or> ma_end_bus a < ma_start_bus a then ecam_collect t is acc
              else ecam_collect t is (acc @ [\<lparr>es_base = ma_address a, es_seg = ma_segment a,
                     es_bus_start = ma_start_bus a, es_bus_end = ma_end_bus a\<rparr>])
      else acc)"

text \<open>\<open>None\<close> for the table when ACPI is off or has no such table.\<close>

definition kg_ecam_init :: "mcfg_table option \<Rightarrow> kg_ecam_seg list \<Rightarrow> kg_ecam_seg list \<times> errno option" where
  "kg_ecam_init mcfg ecam =
     (case mcfg of
        None \<Rightarrow> (ecam, Some ENODEV)
      | Some t \<Rightarrow>
          let ecam' = ecam_collect t [0..<nat (mcfg_count t)] ecam
          in (ecam', if ecam' \<noteq> [] then None else Some ENODEV))"

definition kg_ecam_find :: "kg_ecam_seg list \<Rightarrow> u16 \<Rightarrow> u8 \<Rightarrow> kg_ecam_seg option" where
  "kg_ecam_find ecam seg bus = List.find (\<lambda>e. es_seg e = seg \<and> es_bus_start e \<le> bus \<and> bus \<le> es_bus_end e) ecam"

definition ecam_window :: "kg_ecam_seg \<Rightarrow> u8 \<Rightarrow> u64" where
  "ecam_window e bus = es_base e + push_bit 20 (ucast bus - ucast (es_bus_start e))"

definition kg_ecam_map :: "hw_env \<Rightarrow> kg_ecam_seg \<Rightarrow> u8 \<Rightarrow> u64 option" where
  "kg_ecam_map he e bus = (if he_map he (ecam_window e bus) then Some (ecam_window e bus) else None)"

definition cfg_addr :: "u64 \<Rightarrow> u8 \<Rightarrow> u8 \<Rightarrow> u64" where
  "cfg_addr m dev fn = m + push_bit 15 (ucast dev) + push_bit 12 (ucast fn)"

section \<open>Tree walk\<close>

definition no_function :: "u32 \<Rightarrow> bool" where
  "no_function idv \<longleftrightarrow> idv AND 0xffff = 0xffff \<or> idv AND 0xffff = 0 \<or> idv = 0xffffffff"

definition ecam_ent :: "pci_mem \<Rightarrow> u16 \<Rightarrow> u8 \<Rightarrow> u8 \<Rightarrow> u8 \<Rightarrow> u64 \<Rightarrow> kg_pci_ent" where
  "ecam_ent mem seg bus dev fn cfg =
     (let idv = readl mem (cfg + PCI_VENDOR_ID)
      in \<lparr>pe_seg = seg, pe_bus = bus, pe_dev = dev, pe_fn = fn, pe_vid = ucast (idv AND 0xffff), pe_did = ucast (drop_bit 16 idv),
          pe_class_rev = readl mem (cfg + PCI_CLASS_REVISION), pe_cmd = readw mem (cfg + PCI_COMMAND),
          pe_hdr = readb mem (cfg + PCI_HEADER_TYPE), pe_from_ecam = True\<rparr>)"

text \<open>The functions of one device: the entries so far, and the secondary buses found.\<close>

fun walk_fns ::
  "pci_mem \<Rightarrow> kg_ecam_seg \<Rightarrow> u8 \<Rightarrow> u64 \<Rightarrow> u8 \<Rightarrow> nat list \<Rightarrow> bool \<Rightarrow> kg_pci_ent list \<times> u8 list \<Rightarrow> kg_pci_ent list \<times> u8 list" where
  "walk_fns mem e bus m dev [] multifn acc = acc"
| "walk_fns mem e bus m dev (fn # fns) multifn acc =
     (case acc of (cur, secs) \<Rightarrow>
        let cfg = cfg_addr m dev (of_nat fn); idv = readl mem (cfg + PCI_VENDOR_ID)
        in if no_function idv
           then (if fn = 0 then acc else walk_fns mem e bus m dev fns multifn acc)
           else
             let hdr = readb mem (cfg + PCI_HEADER_TYPE);
                 multi = (if fn = 0 then hdr AND 0x80 \<noteq> 0 else multifn);
                 cur1 = (if length cur < KG_MAX_PCI
                         then cur @ [ecam_ent mem (es_seg e) bus dev (of_nat fn) cfg] else cur);
                 secs1 = (if hdr AND 0x7f = PCI_HEADER_TYPE_BRIDGE \<and> length secs < 32
                          then let sec = readb mem (cfg + PCI_SECONDARY_BUS)
                               in if bus < sec \<and> sec \<le> es_bus_end e then secs @ [sec] else secs
                          else secs)
             in if fn = 0 \<and> \<not> multi then (cur1, secs1)
                else walk_fns mem e bus m dev fns multi (cur1, secs1))"

definition walk_devs :: "pci_mem \<Rightarrow> kg_ecam_seg \<Rightarrow> u8 \<Rightarrow> u64 \<Rightarrow> kg_pci_ent list \<Rightarrow> kg_pci_ent list \<times> u8 list" where
  "walk_devs mem e bus m cur =
     fold (\<lambda>dev. walk_fns mem e bus m (of_nat dev) [0..<8] False) [0..<32] (cur, [])"

function kg_walk_bus ::
  "hw_env \<Rightarrow> pci_mem \<Rightarrow> kg_ecam_seg \<Rightarrow> u8 \<Rightarrow> nat \<Rightarrow> kg_pci_ent list \<times> u8 set \<Rightarrow> kg_pci_ent list \<times> u8 set" where
  "kg_walk_bus he mem e bus depth (cur, visited) =
     (if 8 < depth \<or> bus \<in> visited then (cur, visited)
      else case kg_ecam_map he e bus of
             None \<Rightarrow> (cur, insert bus visited)
           | Some m \<Rightarrow>
               (case walk_devs mem e bus m cur of
                  (cur1, secs) \<Rightarrow>
                    fold (\<lambda>sec st. kg_walk_bus he mem e sec (depth + 1) st) secs (cur1, insert bus visited)))"
  by pat_completeness auto
termination
  by (relation "measure (\<lambda>(he, mem, e, bus, depth, st). 9 - depth)") auto

declare kg_walk_bus.simps [simp del]

definition scan_seg :: "hw_env \<Rightarrow> pci_mem \<Rightarrow> kg_ecam_seg \<Rightarrow> kg_pci_ent list \<Rightarrow> kg_pci_ent list" where
  "scan_seg he mem e cur =
     fst (fold (\<lambda>pb st.
            if pb_parent pb \<or> pb_domain pb \<noteq> ucast (es_seg e) then st
            else if es_bus_start e \<le> pb_number pb \<and> pb_number pb \<le> es_bus_end e
            then kg_walk_bus he mem e (pb_number pb) 0 st else st)
          (he_buses he) (kg_walk_bus he mem e (es_bus_start e) 0 (cur, {})))"

definition kg_scan_ecam :: "hw_env \<Rightarrow> pci_mem \<Rightarrow> kg_hw \<Rightarrow> kg_hw" where
  "kg_scan_ecam he mem x = x\<lparr>hw_cur := fold (scan_seg he mem) (hw_ecam x) []\<rparr>"

definition os_ent :: "pci_dev \<Rightarrow> kg_pci_ent" where
  "os_ent pdev =
     \<lparr>pe_seg = ucast (pd_domain pdev), pe_bus = pd_bus pdev, pe_dev = PCI_SLOT (pd_devfn pdev),
      pe_fn = PCI_FUNC (pd_devfn pdev), pe_vid = pd_vendor pdev, pe_did = pd_device pdev,
      pe_class_rev = push_bit 8 (pd_class pdev) OR ucast (pd_revision pdev), pe_cmd = pd_cmd pdev,
      pe_hdr = pd_hdr pdev, pe_from_ecam = False\<rparr>"

definition kg_scan_os :: "hw_env \<Rightarrow> kg_hw \<Rightarrow> kg_hw" where
  "kg_scan_os he x =
     x\<lparr>hw_cur := fold (\<lambda>pdev cur. if pd_is_virtfn pdev \<or> KG_MAX_PCI \<le> length cur then cur else cur @ [os_ent pdev])
                   (he_devs he) []\<rparr>"

section \<open>Cross-check\<close>

definition kg_pdev_powered_off :: "pci_dev \<Rightarrow> bool" where
  "kg_pdev_powered_off pdev \<longleftrightarrow>
     pd_state pdev = PCI_D3cold \<or> pd_offline pdev \<or> list_ex (\<lambda>st. st = PCI_D3cold) (pd_bridge_states pdev)"

definition disc_count :: "kg_sys \<Rightarrow> kg_sys" where
  "disc_count s = s\<lparr>s_stats := (s_stats s)\<lparr>hw_discrepancy_count := hw_discrepancy_count (s_stats s) + 1\<rparr>\<rparr>"

definition suspect_p2 :: "u8 \<Rightarrow> kg_pci_ent \<Rightarrow> u64" where
  "suspect_p2 kind e =
     push_bit 32 (ucast kind) OR ucast (push_bit 16 (ucast (pe_vid e)) :: u32) OR ucast (pe_did e)"

definition kg_suspect_report :: "kg_env \<Rightarrow> kg_suspect \<Rightarrow> kg_sys \<Rightarrow> kg_suspect \<times> kg_sys" where
  "kg_suspect_report env su s =
     (su\<lparr>su_reported := True\<rparr>,
      kg_report env KG_ALERT_PCI_DISCREPANCY
        (if su_kind su = KG_PCI_IDENTITY_MISMATCH then KG_LEVEL_CRITICAL else KG_LEVEL_WATCH)
        (ucast (kg_bdf (su_e su))) (suspect_p2 (su_kind su) (su_e su)) (disc_count s))"

type_synonym susp_st = "kg_suspect list \<times> bool list \<times> kg_sys"

definition kg_note_suspect :: "kg_env \<Rightarrow> u8 \<Rightarrow> kg_pci_ent \<Rightarrow> susp_st \<Rightarrow> susp_st" where
  "kg_note_suspect env kind e st =
     (case st of (susp, touched, s) \<Rightarrow>
        case List.find (\<lambda>i. su_seen (susp ! i) \<noteq> 0 \<and> su_kind (susp ! i) = kind \<and> kg_same_dev (su_e (susp ! i)) e)
               [0..<KG_MAX_SUSPECT] of
          Some i \<Rightarrow>
            let su = susp ! i;
                su1 = (if su_seen su < 255 then su\<lparr>su_seen := su_seen su + 1\<rparr> else su)
            in if 2 \<le> su_seen su1 \<and> \<not> su_reported su1
               then (case kg_suspect_report env su1 s of (su2, s2) \<Rightarrow> (susp[i := su2], touched[i := True], s2))
               else (susp[i := su1], touched[i := True], s)
        | None \<Rightarrow>
            (case List.find (\<lambda>i. su_seen (susp ! i) = 0) [0..<KG_MAX_SUSPECT] of
               Some i \<Rightarrow>
                 (susp[i := \<lparr>su_e = e, su_kind = kind, su_seen = 1, su_reported = False\<rparr>], touched[i := True], s)
             | None \<Rightarrow> (susp, touched, s)))"

text \<open>\<open>pci_get_domain_bus_and_slot\<close>: the first device of the PCI core at an address.\<close>

definition pci_get :: "pci_dev list \<Rightarrow> u32 \<Rightarrow> u8 \<Rightarrow> u32 \<Rightarrow> pci_dev option" where
  "pci_get devs domain bus devfn = List.find (\<lambda>d. pd_domain d = domain \<and> pd_bus d = bus \<and> pd_devfn d = devfn) devs"

definition os_dev :: "hw_env \<Rightarrow> kg_pci_ent \<Rightarrow> pci_dev option" where
  "os_dev he e = pci_get (he_devs he) (ucast (pe_seg e)) (pe_bus e) (PCI_DEVFN (pe_dev e) (pe_fn e))"

definition check_hw :: "hw_env \<Rightarrow> kg_pci_ent \<Rightarrow> susp_st \<Rightarrow> susp_st" where
  "check_hw he e st =
     (case os_dev he e of
        None \<Rightarrow> kg_note_suspect (he_env he) KG_PCI_HIDDEN_FROM_OS e st
      | Some pdev \<Rightarrow>
          if pd_vendor pdev \<noteq> pe_vid e \<or> pd_device pdev \<noteq> pe_did e \<or>
             drop_bit 8 (pd_class pdev) \<noteq> drop_bit 16 (pe_class_rev e)
          then kg_note_suspect (he_env he) KG_PCI_IDENTITY_MISMATCH e st else st)"

definition os_probe :: "pci_dev \<Rightarrow> kg_pci_ent" where
  "os_probe pdev = zero_ent\<lparr>pe_seg := ucast (pd_domain pdev), pe_bus := pd_bus pdev,
     pe_dev := PCI_SLOT (pd_devfn pdev), pe_fn := PCI_FUNC (pd_devfn pdev), pe_vid := pd_vendor pdev,
     pe_did := pd_device pdev\<rparr>"

definition check_os :: "hw_env \<Rightarrow> kg_hw \<Rightarrow> pci_dev \<Rightarrow> susp_st \<Rightarrow> susp_st" where
  "check_os he x pdev st =
     (if pd_is_virtfn pdev \<or> kg_pdev_powered_off pdev then st
      else
        let probe = os_probe pdev
        in if kg_ecam_find (hw_ecam x) (pe_seg probe) (pe_bus probe) = None then st
           else if list_ex (\<lambda>c. kg_same_dev c probe) (hw_cur x) then st
           else kg_note_suspect (he_env he) KG_PCI_MISSING_IN_HW probe st)"

definition kg_cross_check :: "hw_env \<Rightarrow> kg_hw \<times> kg_sys \<Rightarrow> kg_hw \<times> kg_sys" where
  "kg_cross_check he xs =
     (case xs of (x, s) \<Rightarrow>
        case fold (check_os he x) (he_devs he)
               (fold (check_hw he) (hw_cur x) (hw_susp x, replicate KG_MAX_SUSPECT False, s)) of
          (susp, touched, s1) \<Rightarrow>
            (x\<lparr>hw_susp := map (\<lambda>i. if su_seen (susp ! i) \<noteq> 0 \<and> \<not> touched ! i then zero_suspect else susp ! i)
                 [0..<KG_MAX_SUSPECT]\<rparr>, s1))"

section \<open>Audit of bus masters\<close>

definition kg_dma_authorized :: "hw_env \<Rightarrow> kg_hw \<Rightarrow> kg_pci_ent \<Rightarrow> bool" where
  "kg_dma_authorized he x e \<longleftrightarrow>
     list_ex (\<lambda>b. kg_same_identity b e) (hw_base x) \<or>
     kg_list_contains (he_dma_allow he)
       (snprintf 16 (fmt_x 4 (unat (pe_seg e)) @ '':'' @ fmt_x 2 (unat (pe_bus e)) @ '':'' @ fmt_x 2 (unat (pe_dev e)) @
          ''.'' @ fmt_x 0 (unat (pe_fn e)))) \<or>
     kg_list_contains (he_dma_allow he)
       (snprintf 12 (fmt_x 4 (unat (pe_vid e)) @ '':'' @ fmt_x 4 (unat (pe_did e))))"

definition kg_iommu_protected :: "pci_dev \<Rightarrow> bool" where
  "kg_iommu_protected pdev =
     (case pd_iommu_domain pdev of None \<Rightarrow> False | Some ty \<Rightarrow> ty \<noteq> IOMMU_DOMAIN_IDENTITY)"

definition cmd_reg :: "hw_env \<Rightarrow> kg_hw \<Rightarrow> kg_pci_ent \<Rightarrow> u64 option" where
  "cmd_reg he x e =
     (case kg_ecam_find (hw_ecam x) (pe_seg e) (pe_bus e) of
        None \<Rightarrow> None
      | Some seg \<Rightarrow> map_option (\<lambda>m. cfg_addr m (pe_dev e) (pe_fn e) + PCI_COMMAND) (kg_ecam_map he seg (pe_bus e)))"

definition kg_bme_now :: "hw_env \<Rightarrow> kg_hw \<Rightarrow> kg_pci_ent \<Rightarrow> pci_mem \<Rightarrow> bool" where
  "kg_bme_now he x e mem =
     (case cmd_reg he x e of None \<Rightarrow> False | Some reg \<Rightarrow> readw mem reg AND PCI_COMMAND_MASTER \<noteq> 0)"

definition kg_ecam_clear_master :: "hw_env \<Rightarrow> kg_hw \<Rightarrow> kg_pci_ent \<Rightarrow> pci_mem \<Rightarrow> pci_mem \<times> bool" where
  "kg_ecam_clear_master he x e mem =
     (case cmd_reg he x e of
        None \<Rightarrow> (mem, False)
      | Some reg \<Rightarrow>
          let mem1 = he_writew he reg (readw mem reg AND NOT PCI_COMMAND_MASTER) mem
          in (mem1, \<not> kg_bme_now he x e mem1))"

definition kg_disable_bme :: "hw_env \<Rightarrow> kg_hw \<Rightarrow> kg_pci_ent \<Rightarrow> pci_dev option \<Rightarrow> pci_mem \<Rightarrow> pci_mem \<times> bool" where
  "kg_disable_bme he x e pdev mem =
     (let mem1 = (case pdev of Some d \<Rightarrow> he_clear_master he d mem | None \<Rightarrow> mem)
      in if hw_ecam x = [] then (mem1, pdev \<noteq> None)
         else if \<not> kg_bme_now he x e mem1 then (mem1, True)
         else kg_ecam_clear_master he x e mem1)"

text \<open>The index of the record of a device, which is made when there is none and there is room.\<close>

definition kg_dma_rec_get :: "kg_pci_ent \<Rightarrow> kg_dma_rec list \<Rightarrow> kg_dma_rec list \<times> nat option" where
  "kg_dma_rec_get e recs =
     (case List.find (\<lambda>i. kg_same_identity (dr_e (recs ! i)) e) [0..<length recs] of
        Some i \<Rightarrow> (recs, Some i)
      | None \<Rightarrow>
          if KG_MAX_SUSPECT \<le> length recs then (recs, None)
          else (recs @ [\<lparr>dr_e = e, dr_alerted = False, dr_cleared = False\<rparr>], Some (length recs)))"

definition kg_dma_rec_prune :: "kg_pci_ent list \<Rightarrow> kg_dma_rec list \<Rightarrow> kg_dma_rec list" where
  "kg_dma_rec_prune cur recs = filter (\<lambda>r. list_ex (\<lambda>c. kg_same_identity c (dr_e r)) cur) recs"

definition dma_count :: "kg_sys \<Rightarrow> kg_sys" where
  "dma_count s = s\<lparr>s_stats := (s_stats s)\<lparr>hw_dma_violation_count := hw_dma_violation_count (s_stats s) + 1\<rparr>\<rparr>"

definition dma_p2 :: "kg_pci_ent \<Rightarrow> u64" where
  "dma_p2 e = ucast (push_bit 16 (ucast (pe_vid e)) OR ucast (pe_did e) :: u32)"

definition dma_level :: "pci_dev option \<Rightarrow> u32" where
  "dma_level pdev =
     (let open_dma = (case pdev of None \<Rightarrow> True | Some d \<Rightarrow> \<not> kg_iommu_protected d);
          exposed = (case pdev of None \<Rightarrow> False | Some d \<Rightarrow> pd_untrusted d \<or> pd_external_facing d \<or> pd_thunderbolt d)
      in if exposed \<and> open_dma then KG_LEVEL_CRITICAL else KG_LEVEL_WATCH)"

text \<open>Endpoints that are bus masters and not authorised.\<close>

definition dma_offender :: "hw_env \<Rightarrow> kg_hw \<Rightarrow> kg_pci_ent \<Rightarrow> bool" where
  "dma_offender he x e \<longleftrightarrow>
     pe_hdr e AND 0x7f = PCI_HEADER_TYPE_NORMAL \<and> pe_cmd e AND PCI_COMMAND_MASTER \<noteq> 0 \<and> \<not> kg_dma_authorized he x e"

type_synonym dma_st = "kg_dma_rec list \<times> pci_mem \<times> kg_sys"

definition dma_alert :: "hw_env \<Rightarrow> kg_pci_ent \<Rightarrow> nat option \<Rightarrow> kg_dma_rec list \<times> kg_sys \<Rightarrow> kg_dma_rec list \<times> kg_sys" where
  "dma_alert he e ri rs =
     (case rs of (recs, s) \<Rightarrow>
        case ri of
          None \<Rightarrow> (recs, s)
        | Some i \<Rightarrow>
            if \<not> dr_alerted (recs ! i)
            then (recs[i := (recs ! i)\<lparr>dr_alerted := True\<rparr>],
                  kg_report (he_env he) KG_ALERT_UNAUTHORIZED_DMA (dma_level (os_dev he e)) (ucast (kg_bdf e)) (dma_p2 e)
                    (dma_count s))
            else (recs, s))"

definition dma_enforce :: "hw_env \<Rightarrow> kg_hw \<Rightarrow> kg_pci_ent \<Rightarrow> nat option \<Rightarrow> dma_st \<Rightarrow> dma_st" where
  "dma_enforce he x e ri st =
     (case st of (recs, mem, s) \<Rightarrow>
        if kg_enforcing (e_par (he_env he)) (s_guard s)
        then (case kg_disable_bme he x e (os_dev he e) mem of
                (mem1, ok) \<Rightarrow>
                  (case ri of
                     None \<Rightarrow> (recs, mem1, s)
                   | Some i \<Rightarrow>
                       if ok \<and> \<not> dr_cleared (recs ! i)
                       then (recs[i := (recs ! i)\<lparr>dr_cleared := True\<rparr>], mem1,
                             kg_report (he_env he) KG_ALERT_DEVICE_BME_DISABLED KG_LEVEL_CRITICAL (ucast (kg_bdf e)) (dma_p2 e) s)
                       else (recs, mem1, s)))
        else (recs, mem, s))"

definition dma_one :: "hw_env \<Rightarrow> kg_hw \<Rightarrow> kg_pci_ent \<Rightarrow> dma_st \<Rightarrow> dma_st" where
  "dma_one he x e st =
     (if \<not> dma_offender he x e then st
      else case st of (recs, mem, s) \<Rightarrow>
             case kg_dma_rec_get e recs of (recs1, ri) \<Rightarrow>
               case dma_alert he e ri (recs1, s) of (recs2, s2) \<Rightarrow> dma_enforce he x e ri (recs2, mem, s2))"

type_synonym hw_st = "kg_hw \<times> pci_mem \<times> kg_sys"

definition kg_dma_audit :: "hw_env \<Rightarrow> hw_st \<Rightarrow> hw_st" where
  "kg_dma_audit he st =
     (case st of (x, mem, s) \<Rightarrow>
        case fold (dma_one he x) (hw_cur x) (hw_dma x, mem, s) of
          (recs, mem1, s1) \<Rightarrow> (x\<lparr>hw_dma := kg_dma_rec_prune (hw_cur x) recs\<rparr>, mem1, s1))"

definition kg_baseline_add_os_view :: "hw_env \<Rightarrow> kg_hw \<Rightarrow> kg_hw" where
  "kg_baseline_add_os_view he x =
     x\<lparr>hw_base := fold (\<lambda>pdev base.
          if pd_is_virtfn pdev then base
          else if \<not> list_ex (\<lambda>b. kg_same_identity b (os_probe pdev)) base \<and> length base < KG_MAX_PCI
          then base @ [os_probe pdev] else base) (he_devs he) (hw_base x)\<rparr>"

section \<open>Worker\<close>

definition kg_hw_scan :: "hw_env \<Rightarrow> hw_st \<Rightarrow> hw_st" where
  "kg_hw_scan he st =
     (case st of (x, mem, s) \<Rightarrow>
        if hw_ecam x \<noteq> []
        then (case kg_cross_check he (kg_scan_ecam he mem x, s) of (x1, s1) \<Rightarrow> kg_dma_audit he (x1, mem, s1))
        else kg_dma_audit he (kg_scan_os he x, mem, s))"

definition hw_delay :: "kg_env \<Rightarrow> kg_sys \<Rightarrow> u32" where
  "hw_delay env s = kg_scan_ms (s_guard s) (par_hw_interval_ms (e_par env))"

definition kg_hw_kick :: "kg_hw \<Rightarrow> kg_hw" where
  "kg_hw_kick x = (if \<not> hw_stop x then x\<lparr>hw_queued := Some 0\<rparr> else x)"

text \<open>
  The router records a kick as an event.  A kick that comes while the worker runs leaves the work pending at
  once, and queueing pending work again does nothing.
\<close>

definition hw_kicked :: "kg_sys \<Rightarrow> kg_sys \<Rightarrow> bool" where
  "hw_kicked s s' = (Ev_hw_kick \<in> set (drop (length (s_trace s)) (s_trace s')))"

definition hw_requeue :: "u32 \<Rightarrow> kg_hw \<Rightarrow> kg_hw" where
  "hw_requeue delay x = (if \<not> hw_stop x \<and> hw_queued x = None then x\<lparr>hw_queued := Some delay\<rparr> else x)"

definition kg_hw_workfn :: "hw_env \<Rightarrow> hw_st \<Rightarrow> hw_st" where
  "kg_hw_workfn he st =
     (case st of (x0, mem0, s0) \<Rightarrow>
        case kg_hw_scan he (x0\<lparr>hw_queued := None\<rparr>, mem0, s0) of
          (x, mem, s) \<Rightarrow> (hw_requeue (hw_delay (he_env he) s) (if hw_kicked s0 s then kg_hw_kick x else x), mem, s))"

datatype bus_action = BUS_NOTIFY_ADD_DEVICE | BUS_NOTIFY_BOUND_DRIVER | BUS_NOTIFY_OTHER

definition kg_pci_notify :: "bus_action \<Rightarrow> kg_hw \<Rightarrow> kg_hw" where
  "kg_pci_notify action x =
     (if (action = BUS_NOTIFY_ADD_DEVICE \<or> action = BUS_NOTIFY_BOUND_DRIVER) \<and> \<not> hw_stop x
      then x\<lparr>hw_queued := Some 300\<rparr> else x)"

section \<open>Start and stop\<close>

record hw_init_env =
  hi_cur_ok :: bool
  hi_base_ok :: bool
  hi_mcfg :: "mcfg_table option"
  hi_register_ok :: bool

definition kg_hw_init :: "hw_env \<Rightarrow> hw_init_env \<Rightarrow> hw_st \<Rightarrow> hw_st \<times> errno option" where
  "kg_hw_init he hi st =
     (case st of (x, mem, s) \<Rightarrow>
        if \<not> hi_cur_ok hi \<or> \<not> hi_base_ok hi then ((x\<lparr>hw_bufs := False\<rparr>, mem, s), Some ENOMEM)
        else
          let (ecam, ret) = kg_ecam_init (hi_mcfg hi) (hw_ecam x);
              x1 = x\<lparr>hw_bufs := True, hw_ecam := (if ret = None then ecam else [])\<rparr>;
              x2 = (if hw_ecam x1 \<noteq> [] then kg_scan_ecam he mem x1 else kg_scan_os he x1);
              x3 = x2\<lparr>hw_base := hw_cur x2\<rparr>;
              x4 = (if hw_ecam x3 \<noteq> [] then kg_baseline_add_os_view he x3 else x3);
              x5 = x4\<lparr>hw_dma := [], hw_stop := False\<rparr>;
              x6 = (if hi_register_ok hi then x5\<lparr>hw_nb_registered := True\<rparr> else x5)
          in ((x6\<lparr>hw_running := True, hw_queued := Some (hw_delay (he_env he) s)\<rparr>, mem, s), None))"

definition kg_hw_exit :: "kg_hw \<Rightarrow> kg_hw" where
  "kg_hw_exit x =
     (if \<not> hw_running x then x
      else x\<lparr>hw_stop := True, hw_queued := None, hw_running := False, hw_bufs := False, hw_cur := [], hw_base := []\<rparr>)"

section \<open>What the walk lists\<close>

text \<open>The functions of a device that the walk lists: none without function 0, function 0 alone unless it says multi-function.\<close>

definition answers :: "pci_mem \<Rightarrow> u64 \<Rightarrow> u8 \<Rightarrow> nat \<Rightarrow> bool" where
  "answers mem m dev fn \<longleftrightarrow> \<not> no_function (readl mem (cfg_addr m dev (of_nat fn) + PCI_VENDOR_ID))"

definition dev_fns :: "pci_mem \<Rightarrow> u64 \<Rightarrow> u8 \<Rightarrow> nat list" where
  "dev_fns mem m dev =
     (if \<not> answers mem m dev 0 then []
      else if readb mem (cfg_addr m dev 0 + PCI_HEADER_TYPE) AND 0x80 \<noteq> 0 then filter (answers mem m dev) [0..<8]
      else [0])"

definition fn_ent :: "pci_mem \<Rightarrow> kg_ecam_seg \<Rightarrow> u8 \<Rightarrow> u64 \<Rightarrow> u8 \<Rightarrow> nat \<Rightarrow> kg_pci_ent" where
  "fn_ent mem e bus m dev fn = ecam_ent mem (es_seg e) bus dev (of_nat fn) (cfg_addr m dev (of_nat fn))"

text \<open>The bus behind a function, when it is a bridge that routes further into the region.\<close>

definition fn_sec :: "pci_mem \<Rightarrow> kg_ecam_seg \<Rightarrow> u8 \<Rightarrow> u64 \<Rightarrow> u8 \<Rightarrow> nat \<Rightarrow> u8 option" where
  "fn_sec mem e bus m dev fn =
     (let cfg = cfg_addr m dev (of_nat fn); sec = readb mem (cfg + PCI_SECONDARY_BUS)
      in if readb mem (cfg + PCI_HEADER_TYPE) AND 0x7f = PCI_HEADER_TYPE_BRIDGE \<and> bus < sec \<and> sec \<le> es_bus_end e
         then Some sec else None)"

definition bus_ents :: "pci_mem \<Rightarrow> kg_ecam_seg \<Rightarrow> u8 \<Rightarrow> u64 \<Rightarrow> kg_pci_ent list" where
  "bus_ents mem e bus m =
     concat (map (\<lambda>dev. map (fn_ent mem e bus m (of_nat dev)) (dev_fns mem m (of_nat dev))) [0..<32])"

definition bus_secs :: "pci_mem \<Rightarrow> kg_ecam_seg \<Rightarrow> u8 \<Rightarrow> u64 \<Rightarrow> u8 list" where
  "bus_secs mem e bus m =
     take 32 (concat (map (\<lambda>dev. List.map_filter (fn_sec mem e bus m (of_nat dev)) (dev_fns mem m (of_nat dev))) [0..<32]))"

lemma take_snoc: "length xs \<le> n \<Longrightarrow> (if length xs < n then xs @ [y] else xs) = take n (xs @ [y])"
  by auto

lemma take_take_append: "take n (take n a @ b) = take n (a @ b)"
  by (auto simp: min_def)

lemma take_append_le: "take n (take n (xs @ y) @ z) = take n (xs @ y @ z)"
  by (simp only: take_take_append append_assoc)

definition sec_list :: "u8 option \<Rightarrow> u8 list" where
  "sec_list o' = (case o' of None \<Rightarrow> [] | Some b \<Rightarrow> [b])"

lemma sec_step:
  assumes "length secs \<le> 32"
  shows "(if readb mem (cfg_addr m dev (of_nat fn) + PCI_HEADER_TYPE) AND 0x7f = PCI_HEADER_TYPE_BRIDGE \<and> length secs < 32
          then let sec = readb mem (cfg_addr m dev (of_nat fn) + PCI_SECONDARY_BUS)
               in if bus < sec \<and> sec \<le> es_bus_end e then secs @ [sec] else secs
          else secs) = take 32 (secs @ sec_list (fn_sec mem e bus m dev fn))"
  using assms by (auto simp: fn_sec_def sec_list_def Let_def)

lemma map_filter_nil: "List.map_filter f [] = []"
  by (simp add: List.map_filter_def)

lemma map_filter_sec: "List.map_filter f (x # xs) = sec_list (f x) @ List.map_filter f xs"
  by (simp add: sec_list_def List.map_filter_def split: option.splits)

text \<open>One answering function: its entry, its secondary bus, and the rest of the device unless it stands alone.\<close>

lemma walk_fns_Cons:
  assumes "length cur \<le> KG_MAX_PCI" and "length secs \<le> 32" and "answers mem m dev fn"
  shows "walk_fns mem e bus m dev (fn # fns) multifn (cur, secs) =
     (let multi = (if fn = 0 then readb mem (cfg_addr m dev 0 + PCI_HEADER_TYPE) AND 0x80 \<noteq> 0 else multifn);
          acc = (take KG_MAX_PCI (cur @ [fn_ent mem e bus m dev fn]), take 32 (secs @ sec_list (fn_sec mem e bus m dev fn)))
      in if fn = 0 \<and> \<not> multi then acc else walk_fns mem e bus m dev fns multi acc)"
  using assms by (simp only: walk_fns.simps Let_def prod.case answers_def not_not if_False if_True simp_thms fn_ent_def
      take_snoc [OF assms(1)] sec_step [OF assms(2), unfolded Let_def]) (simp add: of_nat_0)

lemma walk_fns_tail:
  assumes "0 \<notin> set fns" and "length cur \<le> KG_MAX_PCI" and "length secs \<le> 32"
  shows "walk_fns mem e bus m dev fns multifn (cur, secs) =
     (take KG_MAX_PCI (cur @ map (fn_ent mem e bus m dev) (filter (answers mem m dev) fns)),
      take 32 (secs @ List.map_filter (fn_sec mem e bus m dev) (filter (answers mem m dev) fns)))"
  using assms
proof (induction fns arbitrary: cur secs)
  case Nil
  then show ?case by simp
next
  case (Cons fn fns)
  show ?case
  proof (cases "answers mem m dev fn")
    case True
    have fn: "fn \<noteq> 0" "0 \<notin> set fns" using Cons.prems(1) by auto
    show ?thesis
      by (subst walk_fns_Cons [OF Cons.prems(2,3) True])
        (simp add: fn True Cons.IH [OF fn(2)] map_filter_sec take_append_le del: take_append List.map_filter_simps)
  next
    case False
    then show ?thesis using Cons by (simp add: answers_def)
  qed
qed

lemma fns_split: "[0..<8] = 0 # [Suc 0..<8]"
  by (simp add: upt_rec)

lemma walk_fns_dev:
  assumes "length cur \<le> KG_MAX_PCI" and "length secs \<le> 32"
  shows "walk_fns mem e bus m dev [0..<8] False (cur, secs) =
     (take KG_MAX_PCI (cur @ map (fn_ent mem e bus m dev) (dev_fns mem m dev)),
      take 32 (secs @ List.map_filter (fn_sec mem e bus m dev) (dev_fns mem m dev)))"
proof (cases "answers mem m dev 0")
  case True
  show ?thesis
    unfolding fns_split
    by (subst walk_fns_Cons [OF assms True])
      (simp add: walk_fns_tail fns_split dev_fns_def True map_filter_sec take_append_le map_filter_nil Let_def
        del: take_append upt_Suc List.map_filter_simps(2))
next
  case False
  then show ?thesis using assms by (simp add: fns_split dev_fns_def answers_def map_filter_nil del: upt_Suc)
qed

lemma walk_devs_fold:
  assumes "length cur \<le> KG_MAX_PCI" and "length secs \<le> 32"
  shows "fold (\<lambda>dev. walk_fns mem e bus m (of_nat dev) [0..<8] False) devs (cur, secs) =
     (take KG_MAX_PCI (cur @ concat (map (\<lambda>dev. map (fn_ent mem e bus m (of_nat dev)) (dev_fns mem m (of_nat dev))) devs)),
      take 32 (secs @ concat (map (\<lambda>dev. List.map_filter (fn_sec mem e bus m (of_nat dev)) (dev_fns mem m (of_nat dev))) devs)))"
  using assms
proof (induction devs arbitrary: cur secs)
  case Nil
  then show ?case by simp
next
  case (Cons d ds)
  show ?case
    by (simp add: walk_fns_dev [OF Cons.prems] Cons.IH take_append_le del: take_append upt_Suc)
qed

lemma walk_devs_eq:
  "length cur \<le> KG_MAX_PCI \<Longrightarrow>
     walk_devs mem e bus m cur = (take KG_MAX_PCI (cur @ bus_ents mem e bus m), bus_secs mem e bus m)"
  by (simp add: walk_devs_def walk_devs_fold bus_ents_def bus_secs_def del: take_append upt_Suc)

section \<open>The order of the walk\<close>

definition bus_next :: "hw_env \<Rightarrow> pci_mem \<Rightarrow> kg_ecam_seg \<Rightarrow> u8 \<Rightarrow> u8 list" where
  "bus_next he mem e bus = (case kg_ecam_map he e bus of None \<Rightarrow> [] | Some m \<Rightarrow> bus_secs mem e bus m)"

definition bus_list :: "hw_env \<Rightarrow> pci_mem \<Rightarrow> kg_ecam_seg \<Rightarrow> u8 \<Rightarrow> kg_pci_ent list" where
  "bus_list he mem e bus = (case kg_ecam_map he e bus of None \<Rightarrow> [] | Some m \<Rightarrow> bus_ents mem e bus m)"

text \<open>Depth-first search over the bridges, as the list of the buses in the order of their visits.\<close>

function visit :: "hw_env \<Rightarrow> pci_mem \<Rightarrow> kg_ecam_seg \<Rightarrow> nat \<Rightarrow> u8 \<Rightarrow> u8 list \<Rightarrow> u8 list" where
  "visit he mem e depth bus ord =
     (if 8 < depth \<or> bus \<in> set ord then ord
      else fold (\<lambda>sec ord. visit he mem e (depth + 1) sec ord) (bus_next he mem e bus) (ord @ [bus]))"
  by pat_completeness auto
termination
  by (relation "measure (\<lambda>(he, mem, e, depth, bus, ord). 9 - depth)") auto

declare visit.simps [simp del]

definition listing :: "hw_env \<Rightarrow> pci_mem \<Rightarrow> kg_ecam_seg \<Rightarrow> kg_pci_ent list \<Rightarrow> u8 list \<Rightarrow> kg_pci_ent list" where
  "listing he mem e cur ord = take KG_MAX_PCI (cur @ concat (map (bus_list he mem e) ord))"

lemma listing_snoc: "take KG_MAX_PCI (listing he mem e cur ord @ bus_list he mem e bus) = listing he mem e cur (ord @ [bus])"
  by (simp add: listing_def take_append_le del: take_append)

lemma listing_le: "length (listing he mem e cur ord) \<le> KG_MAX_PCI"
  by (simp add: listing_def)

lemma walk_visit:
  "kg_walk_bus he mem e bus depth (listing he mem e cur ord, set ord) =
     (listing he mem e cur (visit he mem e depth bus ord), set (visit he mem e depth bus ord))"
proof (induction he mem e depth bus ord rule: visit.induct)
  case (1 he mem e depth bus ord)
  show ?case
  proof (cases "8 < depth \<or> bus \<in> set ord")
    case True
    then show ?thesis by (simp add: kg_walk_bus.simps visit.simps)
  next
    case False
    have step: "fold (\<lambda>sec st. kg_walk_bus he mem e sec (depth + 1) st) secs (listing he mem e cur o', set o') =
        (listing he mem e cur (fold (\<lambda>sec ord. visit he mem e (depth + 1) sec ord) secs o'),
         set (fold (\<lambda>sec ord. visit he mem e (depth + 1) sec ord) secs o'))"
      if "set secs \<subseteq> set (bus_next he mem e bus)" for secs o'
      using that
    proof (induction secs arbitrary: o')
      case (Cons sec secs)
      then show ?case using 1 [OF False, of sec] by simp
    qed simp
    show ?thesis
    proof (cases "kg_ecam_map he e bus")
      case None
      then show ?thesis
        using False listing_snoc [of he mem e cur ord bus] listing_le [of he mem e cur ord]
        by (simp add: kg_walk_bus.simps visit.simps bus_next_def bus_list_def)
    next
      case (Some m)
      then have "bus_secs mem e bus m = bus_next he mem e bus" "bus_ents mem e bus m = bus_list he mem e bus"
        by (simp_all add: bus_next_def bus_list_def)
      then show ?thesis
        using False step [of "bus_next he mem e bus" "ord @ [bus]"]
        by (subst kg_walk_bus.simps, subst (1 2) visit.simps)
          (simp add: Some walk_devs_eq [OF listing_le] listing_snoc del: take_append)
    qed
  qed
qed

definition bridges :: "hw_env \<Rightarrow> pci_mem \<Rightarrow> kg_ecam_seg \<Rightarrow> (u8 \<times> u8) set" where
  "bridges he mem e = {(b, c). c \<in> set (bus_next he mem e b)}"

text \<open>What a visit adds: new buses, among them the one visited, every one of them reachable from it.\<close>

lemma visit_extends:
  "\<exists>new. visit he mem e depth bus ord = ord @ new \<and> distinct new \<and> set new \<inter> set ord = {} \<and>
     set new \<subseteq> (bridges he mem e)\<^sup>* `` {bus} \<and> (depth \<le> 8 \<longrightarrow> bus \<in> set ord \<union> set new)"
proof (induction he mem e depth bus ord rule: visit.induct)
  case (1 he mem e depth bus ord)
  let ?R = "bridges he mem e"
  show ?case
  proof (cases "8 < depth \<or> bus \<in> set ord")
    case True
    then show ?thesis by (auto simp: visit.simps)
  next
    case False
    have step: "\<exists>new. fold (\<lambda>sec ord. visit he mem e (depth + 1) sec ord) secs o' = o' @ new \<and> distinct new \<and>
        set new \<inter> set o' = {} \<and> set new \<subseteq> ?R\<^sup>* `` {bus}"
      if "set secs \<subseteq> set (bus_next he mem e bus)" for secs o'
      using that
    proof (induction secs arbitrary: o')
      case (Cons sec secs)
      have sec: "sec \<in> set (bus_next he mem e bus)" using Cons.prems by simp
      obtain n1 where n1: "visit he mem e (depth + 1) sec o' = o' @ n1" "distinct n1" "set n1 \<inter> set o' = {}"
        "set n1 \<subseteq> ?R\<^sup>* `` {sec}"
        using 1 [OF False sec, of o'] by blast
      obtain n2 where n2: "fold (\<lambda>sec ord. visit he mem e (depth + 1) sec ord) secs (o' @ n1) = (o' @ n1) @ n2"
        "distinct n2" "set n2 \<inter> set (o' @ n1) = {}" "set n2 \<subseteq> ?R\<^sup>* `` {bus}"
        using Cons.IH [of "o' @ n1"] Cons.prems by auto
      have "?R\<^sup>* `` {sec} \<subseteq> ?R\<^sup>* `` {bus}"
        using sec by (auto simp: bridges_def intro: converse_rtrancl_into_rtrancl)
      with n1 n2 show ?case
        by (intro exI [of _ "n1 @ n2"]) auto
    qed auto
    obtain new where n: "fold (\<lambda>sec ord. visit he mem e (depth + 1) sec ord) (bus_next he mem e bus) (ord @ [bus]) = (ord @ [bus]) @ new"
      "distinct new" "set new \<inter> set (ord @ [bus]) = {}" "set new \<subseteq> ?R\<^sup>* `` {bus}"
      using step [of "bus_next he mem e bus" "ord @ [bus]"] by auto
    have v: "visit he mem e depth bus ord = (ord @ [bus]) @ new"
      using False n(1) by (subst visit.simps) simp
    show ?thesis
      using n v False by (intro exI [of _ "bus # new"]) auto
  qed
qed

lemma fold_visit_extends:
  "\<exists>new. fold (\<lambda>sec ord. visit he mem e d sec ord) secs ord = ord @ new"
proof (induction secs arbitrary: ord)
  case (Cons sec secs)
  then show ?case using visit_extends [of he mem e d sec ord] by (metis append_assoc fold_simps(2))
qed simp

text \<open>No chain of bridges is too long for the walk's depth limit.\<close>

definition chains_below :: "hw_env \<Rightarrow> pci_mem \<Rightarrow> kg_ecam_seg \<Rightarrow> nat \<Rightarrow> u8 \<Rightarrow> bool" where
  "chains_below he mem e n bus \<longleftrightarrow> (bridges he mem e ^^ n) `` {bus} = {}"

lemma chains_below_next:
  "chains_below he mem e (Suc n) bus \<Longrightarrow> sec \<in> set (bus_next he mem e bus) \<Longrightarrow> chains_below he mem e n sec"
  using relpow_Suc_I2 [of bus sec "bridges he mem e" _ n] by (auto simp: chains_below_def bridges_def simp del: relpow.simps)

text \<open>When the chains are short enough, everything behind a newly visited bus has been visited too.\<close>

lemma visit_closed:
  assumes "chains_below he mem e (9 - depth) bus" and "depth \<le> 8"
  shows "\<forall>b\<in>set (visit he mem e depth bus ord) - set ord.
     set (bus_next he mem e b) \<subseteq> set (visit he mem e depth bus ord)"
  using assms
proof (induction he mem e depth bus ord rule: visit.induct)
  case (1 he mem e depth bus ord)
  let ?v = "\<lambda>sec ord. visit he mem e (depth + 1) sec ord"
  show ?case
  proof (cases "bus \<in> set ord")
    case True
    then show ?thesis by (simp add: visit.simps)
  next
    case False
    have guard: "\<not> (8 < depth \<or> bus \<in> set ord)" using False 1(3) by simp
    have step: "(\<forall>b\<in>set (fold ?v secs o') - set o'. set (bus_next he mem e b) \<subseteq> set (fold ?v secs o')) \<and>
        set secs \<subseteq> set (fold ?v secs o')"
      if "set secs \<subseteq> set (bus_next he mem e bus)" for secs o'
      using that
    proof (induction secs arbitrary: o')
      case (Cons sec secs)
      have sec: "sec \<in> set (bus_next he mem e bus)" using Cons.prems by simp
      have "9 - depth = Suc (8 - depth)" using 1(3) by simp
      then have below: "chains_below he mem e (8 - depth) sec" using chains_below_next [OF _ sec] 1(2) by simp
      have ne: "depth \<noteq> 8"
        using below sec by (auto simp: chains_below_def)
      then have d: "depth + 1 \<le> 8" using 1(3) by simp
      have b': "chains_below he mem e (9 - (depth + 1)) sec" using below by simp
      have closed: "\<forall>b\<in>set (?v sec o') - set o'. set (bus_next he mem e b) \<subseteq> set (?v sec o')"
        by (rule 1(1) [OF guard sec b' d])
      have rest: "\<forall>b\<in>set (fold ?v secs (?v sec o')) - set (?v sec o'). set (bus_next he mem e b) \<subseteq> set (fold ?v secs (?v sec o'))"
        "set secs \<subseteq> set (fold ?v secs (?v sec o'))"
        using Cons.IH [of "?v sec o'"] Cons.prems by auto
      have sub: "set (?v sec o') \<subseteq> set (fold ?v secs (?v sec o'))"
        using fold_visit_extends [of he mem e "depth + 1" secs "?v sec o'"] by auto
      have "sec \<in> set (?v sec o')" using visit_extends [of he mem e "depth + 1" sec o'] d by auto
      then have "sec \<in> set (fold ?v secs (?v sec o'))" using sub by blast
      with closed rest sub show ?case by (auto simp: subset_iff)
    qed simp
    have v: "visit he mem e depth bus ord = fold ?v (bus_next he mem e bus) (ord @ [bus])"
      using guard by (subst visit.simps) simp
    show ?thesis
      using step [of "bus_next he mem e bus" "ord @ [bus]"] unfolding v by auto
  qed
qed

text \<open>The buses one region's scan visits: from its first bus, then from the root buses of the PCI core inside it.\<close>

definition roots_in :: "hw_env \<Rightarrow> kg_ecam_seg \<Rightarrow> u8 list" where
  "roots_in he e = es_bus_start e #
     map pb_number (filter (\<lambda>pb. \<not> pb_parent pb \<and> pb_domain pb = ucast (es_seg e) \<and>
       es_bus_start e \<le> pb_number pb \<and> pb_number pb \<le> es_bus_end e) (he_buses he))"

definition scan_order :: "hw_env \<Rightarrow> pci_mem \<Rightarrow> kg_ecam_seg \<Rightarrow> u8 list" where
  "scan_order he mem e = fold (visit he mem e 0) (roots_in he e) []"

lemma scan_roots:
  "fold (\<lambda>pb st.
      if pb_parent pb \<or> pb_domain pb \<noteq> ucast (es_seg e) then st
      else if es_bus_start e \<le> pb_number pb \<and> pb_number pb \<le> es_bus_end e
      then kg_walk_bus he mem e (pb_number pb) 0 st else st) bs (listing he mem e cur ord, set ord) =
   (let ord' = fold (visit he mem e 0) (map pb_number (filter (\<lambda>pb. \<not> pb_parent pb \<and> pb_domain pb = ucast (es_seg e) \<and>
       es_bus_start e \<le> pb_number pb \<and> pb_number pb \<le> es_bus_end e) bs)) ord
    in (listing he mem e cur ord', set ord'))"
  by (induction bs arbitrary: ord) (simp_all add: walk_visit Let_def)

lemma scan_seg_eq:
  assumes "length cur \<le> KG_MAX_PCI"
  shows "scan_seg he mem e cur = listing he mem e cur (scan_order he mem e)"
proof -
  have "(cur, {}) = (listing he mem e cur [], set [])" using assms by (simp add: listing_def)
  then have "kg_walk_bus he mem e (es_bus_start e) 0 (cur, {}) =
      (listing he mem e cur (visit he mem e 0 (es_bus_start e) []), set (visit he mem e 0 (es_bus_start e) []))"
    using walk_visit by metis
  then show ?thesis
    by (simp add: scan_seg_def scan_roots scan_order_def roots_in_def Let_def)
qed

definition bus_reach :: "hw_env \<Rightarrow> pci_mem \<Rightarrow> kg_ecam_seg \<Rightarrow> u8 set" where
  "bus_reach he mem e = (bridges he mem e)\<^sup>* `` set (roots_in he e)"

lemma rtrancl_in_closed:
  assumes "\<forall>b\<in>V. set (bus_next he mem e b) \<subseteq> V" and "(a, c) \<in> (bridges he mem e)\<^sup>*" and "a \<in> V"
  shows "c \<in> V"
  using assms(2,3,1) by (induction rule: rtrancl_induct) (auto simp: bridges_def)

lemma fold_visit_inv:
  assumes "\<forall>r\<in>set rs. chains_below he mem e 9 r" and "distinct ord"
    and "\<forall>b\<in>set ord. set (bus_next he mem e b) \<subseteq> set ord"
  shows "distinct (fold (visit he mem e 0) rs ord) \<and>
     (\<forall>b\<in>set (fold (visit he mem e 0) rs ord). set (bus_next he mem e b) \<subseteq> set (fold (visit he mem e 0) rs ord)) \<and>
     set ord \<union> set rs \<subseteq> set (fold (visit he mem e 0) rs ord) \<and>
     set (fold (visit he mem e 0) rs ord) \<subseteq> set ord \<union> (bridges he mem e)\<^sup>* `` set rs"
  using assms
proof (induction rs arbitrary: ord)
  case (Cons r rs)
  obtain new where new: "visit he mem e 0 r ord = ord @ new" "distinct new" "set new \<inter> set ord = {}"
    "set new \<subseteq> (bridges he mem e)\<^sup>* `` {r}" "r \<in> set ord \<union> set new"
    using visit_extends [of he mem e 0 r ord] by auto
  have "\<forall>b\<in>set (ord @ new). set (bus_next he mem e b) \<subseteq> set (ord @ new)"
    using visit_closed [of he mem e 0 r ord] Cons.prems(1,3) new(1) by auto
  moreover have "distinct (ord @ new)" using Cons.prems(2) new(2,3) by auto
  moreover have "\<forall>r\<in>set rs. chains_below he mem e 9 r" using Cons.prems(1) by simp
  ultimately have ih: "distinct (fold (visit he mem e 0) rs (ord @ new))"
    "\<forall>b\<in>set (fold (visit he mem e 0) rs (ord @ new)). set (bus_next he mem e b) \<subseteq> set (fold (visit he mem e 0) rs (ord @ new))"
    "set (ord @ new) \<union> set rs \<subseteq> set (fold (visit he mem e 0) rs (ord @ new))"
    "set (fold (visit he mem e 0) rs (ord @ new)) \<subseteq> set (ord @ new) \<union> (bridges he mem e)\<^sup>* `` set rs"
    using Cons.IH [of "ord @ new"] by blast+
  have f: "fold (visit he mem e 0) (r # rs) ord = fold (visit he mem e 0) rs (ord @ new)" by (simp add: new(1))
  have "set ord \<union> set (r # rs) \<subseteq> set (fold (visit he mem e 0) rs (ord @ new))" using ih(3) new(5) by auto
  moreover have "set (fold (visit he mem e 0) rs (ord @ new)) \<subseteq> set ord \<union> (bridges he mem e)\<^sup>* `` set (r # rs)"
    using ih(4) new(4) by auto
  ultimately show ?case unfolding f using ih(1,2) by blast
qed simp

lemma scan_order_exact:
  assumes "\<forall>r\<in>set (roots_in he e). chains_below he mem e 9 r"
  shows "distinct (scan_order he mem e)" "set (scan_order he mem e) = bus_reach he mem e"
proof -
  let ?V = "set (scan_order he mem e)"
  have inv: "distinct (scan_order he mem e)" "\<forall>b\<in>?V. set (bus_next he mem e b) \<subseteq> ?V"
    "set (roots_in he e) \<subseteq> ?V" "?V \<subseteq> bus_reach he mem e"
    using fold_visit_inv [OF assms, of "[]"] by (simp_all add: scan_order_def bus_reach_def)
  show "distinct (scan_order he mem e)" by (rule inv(1))
  have "bus_reach he mem e \<subseteq> ?V"
    using rtrancl_in_closed [OF inv(2)] inv(3) by (auto simp: bus_reach_def)
  with inv(4) show "?V = bus_reach he mem e" by blast
qed

lemma scan_segs:
  "length cur \<le> KG_MAX_PCI \<Longrightarrow> fold (scan_seg he mem) es cur =
     take KG_MAX_PCI (cur @ concat (map (\<lambda>e. concat (map (bus_list he mem e) (scan_order he mem e))) es))"
proof (induction es arbitrary: cur)
  case (Cons e es)
  then show ?case
    by (simp add: scan_seg_eq listing_def take_append_le del: take_append)
qed simp

lemma scan_cur:
  "hw_cur (kg_scan_ecam he mem x) =
     take KG_MAX_PCI (concat (map (\<lambda>e. concat (map (bus_list he mem e) (scan_order he mem e))) (hw_ecam x)))"
  by (simp add: kg_scan_ecam_def scan_segs)

section \<open>The table of suspects\<close>

definition addr :: "kg_pci_ent \<Rightarrow> u16 \<times> u8 \<times> u8 \<times> u8" where
  "addr e = (pe_seg e, pe_bus e, pe_dev e, pe_fn e)"

lemma same_dev_addr: "kg_same_dev a b \<longleftrightarrow> addr a = addr b"
  by (simp add: kg_same_dev_def addr_def)

type_synonym skey = "u8 \<times> u16 \<times> u8 \<times> u8 \<times> u8"

definition slot_key :: "kg_suspect \<Rightarrow> skey" where
  "slot_key su = (su_kind su, addr (su_e su))"

text \<open>The slot in use for a key.\<close>

definition slot_of :: "kg_suspect list \<Rightarrow> skey \<Rightarrow> kg_suspect option" where
  "slot_of susp k = List.find (\<lambda>su. su_seen su \<noteq> 0 \<and> slot_key su = k) susp"

definition slot_keys :: "kg_suspect list \<Rightarrow> skey set" where
  "slot_keys susp = slot_key ` {su \<in> set susp. su_seen su \<noteq> 0}"

definition susp_ok :: "kg_suspect list \<Rightarrow> bool" where
  "susp_ok susp \<longleftrightarrow> length susp = KG_MAX_SUSPECT \<and>
     (\<forall>i<KG_MAX_SUSPECT. \<forall>j<KG_MAX_SUSPECT. su_seen (susp ! i) \<noteq> 0 \<and> su_seen (susp ! j) \<noteq> 0 \<and>
        slot_key (susp ! i) = slot_key (susp ! j) \<longrightarrow> i = j) \<and>
     (\<forall>su\<in>set susp. su_seen su \<noteq> 0 \<longrightarrow> su_reported su = (2 \<le> su_seen su))"

text \<open>In how many scans in a row a discrepancy has been seen, up to the counter's limit.\<close>

definition seen_of :: "kg_suspect list \<Rightarrow> skey \<Rightarrow> nat" where
  "seen_of susp k = (case slot_of susp k of Some su \<Rightarrow> unat (su_seen su) | None \<Rightarrow> 0)"

lemma slot_of_index:
  assumes "susp_ok susp" and "i < KG_MAX_SUSPECT" and "su_seen (susp ! i) \<noteq> 0" and "slot_key (susp ! i) = k"
  shows "slot_of susp k = Some (susp ! i)"
proof -
  have "\<not> (su_seen (susp ! j) \<noteq> 0 \<and> slot_key (susp ! j) = k)" if "j < i" for j
    using assms that unfolding susp_ok_def by (metis less_trans nat_neq_iff)
  then show ?thesis
    unfolding slot_of_def find_Some_iff using assms by (intro exI [of _ i]) (simp add: susp_ok_def)
qed

lemma slot_of_None: "slot_of susp k = None \<longleftrightarrow> k \<notin> slot_keys susp"
  by (auto simp: slot_of_def slot_keys_def find_None_iff)

lemma slot_of_SomeD:
  assumes "slot_of susp k = Some su"
  shows "\<exists>i<length susp. susp ! i = su \<and> su_seen su \<noteq> 0 \<and> slot_key su = k"
  using assms by (auto simp: slot_of_def find_Some_iff)

text \<open>The discrepancies of one scan, in the order in which the cross-check meets them.\<close>

definition hw_suspect :: "hw_env \<Rightarrow> kg_pci_ent \<Rightarrow> (u8 \<times> kg_pci_ent) option" where
  "hw_suspect he e =
     (case os_dev he e of
        None \<Rightarrow> Some (KG_PCI_HIDDEN_FROM_OS, e)
      | Some pdev \<Rightarrow>
          if pd_vendor pdev \<noteq> pe_vid e \<or> pd_device pdev \<noteq> pe_did e \<or>
             drop_bit 8 (pd_class pdev) \<noteq> drop_bit 16 (pe_class_rev e)
          then Some (KG_PCI_IDENTITY_MISMATCH, e) else None)"

definition os_suspect :: "kg_hw \<Rightarrow> pci_dev \<Rightarrow> (u8 \<times> kg_pci_ent) option" where
  "os_suspect x pdev =
     (if \<not> pd_is_virtfn pdev \<and> \<not> kg_pdev_powered_off pdev \<and>
         kg_ecam_find (hw_ecam x) (ucast (pd_domain pdev)) (pd_bus pdev) \<noteq> None \<and>
         addr (os_probe pdev) \<notin> addr ` set (hw_cur x)
      then Some (KG_PCI_MISSING_IN_HW, os_probe pdev) else None)"

definition discrepancies :: "hw_env \<Rightarrow> kg_hw \<Rightarrow> (u8 \<times> kg_pci_ent) list" where
  "discrepancies he x = List.map_filter (hw_suspect he) (hw_cur x) @ List.map_filter (os_suspect x) (he_devs he)"

abbreviation disc_key :: "u8 \<times> kg_pci_ent \<Rightarrow> skey" where
  "disc_key d \<equiv> (fst d, addr (snd d))"

lemma check_hw_note:
  "check_hw he e st = (case hw_suspect he e of None \<Rightarrow> st | Some (kind, e') \<Rightarrow> kg_note_suspect (he_env he) kind e' st)"
  by (simp add: check_hw_def hw_suspect_def split: option.splits)

lemma check_os_note:
  "check_os he x d st = (case os_suspect x d of None \<Rightarrow> st | Some (kind, e') \<Rightarrow> kg_note_suspect (he_env he) kind e' st)"
proof -
  have "list_ex (\<lambda>c. kg_same_dev c (os_probe d)) (hw_cur x) \<longleftrightarrow> addr (os_probe d) \<in> addr ` set (hw_cur x)"
    by (auto simp: list_ex_iff same_dev_addr image_iff eq_commute)
  then show ?thesis
    by (simp add: check_os_def os_suspect_def Let_def os_probe_def)
qed

lemma fold_map_filter:
  assumes "\<And>d st. f d st = (case g d of None \<Rightarrow> st | Some y \<Rightarrow> h y st)"
  shows "fold f ds st = fold h (List.map_filter g ds) st"
  by (induction ds arbitrary: st) (simp_all add: assms split: option.splits)

lemma cross_folds:
  "fold (check_os he x) (he_devs he) (fold (check_hw he) (hw_cur x) st) =
     fold (\<lambda>(kind, e). kg_note_suspect (he_env he) kind e) (discrepancies he x) st"
proof -
  let ?h = "\<lambda>(kind, e). kg_note_suspect (he_env he) kind e"
  have 1: "fold (check_hw he) es st = fold ?h (List.map_filter (hw_suspect he) es) st" for es st
    by (rule fold_map_filter) (simp add: check_hw_note split: option.splits)
  have 2: "fold (check_os he x) ds st = fold ?h (List.map_filter (os_suspect x) ds) st" for ds st
    by (rule fold_map_filter) (simp add: check_os_note split: option.splits)
  show ?thesis unfolding 1 2 discrepancies_def by simp
qed

text \<open>What a suspect announces, and when: at the second sighting.\<close>

definition suspect_note :: "kg_suspect \<Rightarrow> u32 \<times> u32 \<times> u64 \<times> u64" where
  "suspect_note su =
     (KG_ALERT_PCI_DISCREPANCY, (if su_kind su = KG_PCI_IDENTITY_MISMATCH then KG_LEVEL_CRITICAL else KG_LEVEL_WATCH),
      ucast (kg_bdf (su_e su)), suspect_p2 (su_kind su) (su_e su))"

definition due :: "kg_suspect list \<Rightarrow> skey \<Rightarrow> (u32 \<times> u32 \<times> u64 \<times> u64) list" where
  "due susp k = (case slot_of susp k of Some su \<Rightarrow> if su_seen su = 1 then [suspect_note su] else [] | None \<Rightarrow> [])"

text \<open>
  Halfway through a scan, with the keys \<open>ks\<close> of the discrepancies met so far: what the slots hold compared with the
  table \<open>S0\<close> the scan began with.
\<close>

definition mid_slot :: "skey set \<Rightarrow> kg_suspect \<Rightarrow> kg_suspect \<Rightarrow> bool \<Rightarrow> bool" where
  "mid_slot ks su0 su t \<longleftrightarrow>
     (if su_seen su0 \<noteq> 0
      then t = (slot_key su0 \<in> ks) \<and> su_e su = su_e su0 \<and> su_kind su = su_kind su0 \<and>
           su_seen su = (if t \<and> su_seen su0 < 255 then su_seen su0 + 1 else su_seen su0) \<and> su_reported su = (t \<or> su_reported su0)
      else if t then slot_key su \<in> ks \<and> su_seen su = 1 \<and> \<not> su_reported su
      else su_seen su = 0)"

definition mid :: "kg_suspect list \<Rightarrow> skey set \<Rightarrow> kg_suspect list \<Rightarrow> bool list \<Rightarrow> bool" where
  "mid S0 ks susp touched \<longleftrightarrow> length susp = KG_MAX_SUSPECT \<and> length touched = KG_MAX_SUSPECT \<and>
     (\<forall>i<KG_MAX_SUSPECT. mid_slot ks (S0 ! i) (susp ! i) (touched ! i)) \<and>
     (\<forall>i<KG_MAX_SUSPECT. \<forall>j<KG_MAX_SUSPECT. su_seen (susp ! i) \<noteq> 0 \<and> su_seen (susp ! j) \<noteq> 0 \<and>
        slot_key (susp ! i) = slot_key (susp ! j) \<longrightarrow> i = j) \<and>
     slot_keys susp = slot_keys S0 \<union> ks"

lemma mid_slot_mono:
  "mid_slot ks su0 su t \<Longrightarrow> su_seen su0 = 0 \<or> slot_key su0 \<noteq> k \<Longrightarrow> mid_slot (insert k ks) su0 su t"
  by (simp add: mid_slot_def split: if_splits)

lemma mid_touch:
  assumes "mid_slot ks su0 su t" and "su_seen su \<noteq> 0" and "slot_key su \<notin> ks"
  shows "su_seen su0 \<noteq> 0" "\<not> t" "su = su0"
proof -
  show u: "su_seen su0 \<noteq> 0" using assms by (auto simp: mid_slot_def split: if_splits)
  have k: "slot_key su = slot_key su0" using assms(1) u by (simp add: mid_slot_def slot_key_def)
  then show "\<not> t" using assms u by (simp add: mid_slot_def)
  then show "su = su0" using assms(1) u by (simp add: mid_slot_def)
qed

lemma mid_key: "mid_slot ks su0 su t \<Longrightarrow> su_seen su0 \<noteq> 0 \<Longrightarrow> slot_key su = slot_key su0"
  by (simp add: mid_slot_def slot_key_def)

lemma slot_keys_update:
  assumes "i < length susp" and "su_seen v \<noteq> 0" and "su_seen (susp ! i) = 0 \<or> slot_key (susp ! i) = slot_key v"
  shows "slot_keys (susp[i := v]) = insert (slot_key v) (slot_keys susp)"
proof -
  have "slot_keys l = {slot_key (l ! j) | j. j < length l \<and> su_seen (l ! j) \<noteq> 0}" for l
    by (auto simp: slot_keys_def in_set_conv_nth)
  then show ?thesis using assms by (auto simp: nth_list_update) (metis nth_list_update_neq)+
qed

lemma used_distinct_card:
  assumes "length susp = KG_MAX_SUSPECT" and "\<forall>i<KG_MAX_SUSPECT. su_seen (susp ! i) \<noteq> 0"
    and "\<forall>i<KG_MAX_SUSPECT. \<forall>j<KG_MAX_SUSPECT. su_seen (susp ! i) \<noteq> 0 \<and> su_seen (susp ! j) \<noteq> 0 \<and>
        slot_key (susp ! i) = slot_key (susp ! j) \<longrightarrow> i = j"
  shows "card (slot_keys susp) = KG_MAX_SUSPECT"
proof -
  have "slot_keys susp = (\<lambda>i. slot_key (susp ! i)) ` {..<KG_MAX_SUSPECT}"
    using assms(1,2) by (force simp: slot_keys_def in_set_conv_nth image_iff)
  moreover have "inj_on (\<lambda>i. slot_key (susp ! i)) {..<KG_MAX_SUSPECT}"
    using assms(2,3) by (auto simp: inj_on_def)
  ultimately show ?thesis by (simp add: card_image)
qed

text \<open>The two ways a discrepancy is taken in: a slot that knows it is stepped, or a free slot is filled.\<close>

definition stepped :: "kg_suspect \<Rightarrow> kg_suspect" where
  "stepped su = su\<lparr>su_seen := (if su_seen su < 255 then su_seen su + 1 else su_seen su), su_reported := True\<rparr>"

lemma u8_next: "n \<noteq> 0 \<Longrightarrow> n < 255 \<Longrightarrow> 2 \<le> n + (1 :: u8)" "n \<noteq> 0 \<Longrightarrow> \<not> n < 255 \<Longrightarrow> 2 \<le> (n :: u8)"
proof -
  assume n: "n \<noteq> 0" "n < 255"
  then have "unat (n + 1) = unat n + 1" by (intro unat_plus_one [simplified] | simp add: unat_plus_if' word_less_nat_alt)+
  moreover have "0 < unat n" using n(1) by (simp add: unat_gt_0)
  ultimately show "2 \<le> n + 1" by (simp add: word_le_nat_alt)
next
  assume "\<not> n < 255"
  then show "2 \<le> n" by (simp add: word_le_nat_alt word_less_nat_alt)
qed

lemma note_known:
  assumes "mid S0 ks susp touched" and "susp_ok S0" and "(kind, addr e) \<notin> ks" and "(kind, addr e) \<in> slot_keys S0"
  shows "\<exists>i<KG_MAX_SUSPECT. \<exists>s'. su_seen (S0 ! i) \<noteq> 0 \<and> slot_key (S0 ! i) = (kind, addr e) \<and>
     kg_note_suspect env kind e (susp, touched, s) = (susp[i := stepped (S0 ! i)], touched[i := True], s') \<and>
     notes_of {KG_ALERT_PCI_DISCREPANCY} s' = notes_of {KG_ALERT_PCI_DISCREPANCY} s @ due S0 (kind, addr e)"
proof -
  let ?k = "(kind, addr e)"
  let ?P = "\<lambda>i. su_seen (susp ! i) \<noteq> 0 \<and> su_kind (susp ! i) = kind \<and> kg_same_dev (su_e (susp ! i)) e"
  have P: "?P i \<longleftrightarrow> su_seen (susp ! i) \<noteq> 0 \<and> slot_key (susp ! i) = ?k" for i
    by (simp add: same_dev_addr slot_key_def)
  have len: "length susp = KG_MAX_SUSPECT" using assms(1) by (simp add: mid_def)
  have "?k \<in> slot_keys susp" using assms(1,4) by (simp add: mid_def)
  then have "\<exists>i<KG_MAX_SUSPECT. ?P i" by (auto simp: P slot_keys_def in_set_conv_nth len)
  then obtain i where f: "List.find ?P [0..<KG_MAX_SUSPECT] = Some i" by (cases "List.find ?P [0..<KG_MAX_SUSPECT]") (auto simp: find_None_iff)
  then have i: "i < KG_MAX_SUSPECT" "?P i" by (auto simp: find_Some_iff)
  have m: "mid_slot ks (S0 ! i) (susp ! i) (touched ! i)" using assms(1) i(1) by (simp add: mid_def)
  have key: "slot_key (susp ! i) = ?k" "su_seen (susp ! i) \<noteq> 0" using i(2) by (simp_all add: P)
  have old: "su_seen (S0 ! i) \<noteq> 0" "susp ! i = S0 ! i" using mid_touch [OF m key(2)] key(1) assms(3) by auto
  have so: "slot_of S0 ?k = Some (S0 ! i)" using slot_of_index [OF assms(2) i(1)] old key(1) by simp
  have mem: "S0 ! i \<in> set S0" using assms(2) i(1) by (simp add: susp_ok_def)
  have rep: "su_reported (S0 ! i) = (2 \<le> su_seen (S0 ! i))" using assms(2) mem old(1) by (simp add: susp_ok_def)
  have two: "2 \<le> (if su_seen (S0 ! i) < 255 then su_seen (S0 ! i) + 1 else su_seen (S0 ! i))"
    using u8_next old(1) by simp
  have one: "\<not> 2 \<le> su_seen (S0 ! i) \<longleftrightarrow> su_seen (S0 ! i) = 1"
  proof -
    have "0 < unat (su_seen (S0 ! i))" using old(1) by (simp add: unat_gt_0)
    then show ?thesis by (auto simp: word_le_nat_alt word_unat_eq_iff)
  qed
  show ?thesis
  proof (cases "su_reported (S0 ! i)")
    case True
    have st: "(if su_seen (S0 ! i) < 255 then (S0 ! i)\<lparr>su_seen := su_seen (S0 ! i) + 1\<rparr> else S0 ! i) = stepped (S0 ! i)"
      using True by (simp add: stepped_def)
    have "due S0 ?k = []" using True rep one by (auto simp: due_def so)
    then show ?thesis
      using i(1) old(1) key(1) True
      by (intro exI [of _ i] conjI exI [of _ s]) (simp_all add: kg_note_suspect_def f old(2) st [simplified old(2)] stepped_def Let_def)
  next
    case False
    have d: "due S0 ?k = [suspect_note (S0 ! i)]" using False rep one by (simp add: due_def so)
    let ?s = "kg_report env KG_ALERT_PCI_DISCREPANCY
        (if kind = KG_PCI_IDENTITY_MISMATCH then KG_LEVEL_CRITICAL else KG_LEVEL_WATCH)
        (ucast (kg_bdf (su_e (S0 ! i)))) (suspect_p2 kind (su_e (S0 ! i))) (disc_count s)"
    have kind: "su_kind (S0 ! i) = kind" using key(1) old(2) by (simp add: slot_key_def)
    have "kg_note_suspect env kind e (susp, touched, s) = (susp[i := stepped (S0 ! i)], touched[i := True], ?s)"
      using False two by (auto simp: kg_note_suspect_def f old(2) stepped_def Let_def kg_suspect_report_def kind)
    moreover have "notes_of {KG_ALERT_PCI_DISCREPANCY} ?s = notes_of {KG_ALERT_PCI_DISCREPANCY} s @ due S0 ?k"
      by (simp add: notes_of_report d suspect_note_def kind disc_count_def kg_const)
    ultimately show ?thesis using i(1) old key(1) by auto
  qed
qed

lemma note_new:
  assumes "mid S0 ks susp touched" and "(kind, addr e) \<notin> slot_keys S0 \<union> ks"
    and "card (insert (kind, addr e) (slot_keys S0 \<union> ks)) \<le> KG_MAX_SUSPECT" and "finite ks"
  shows "\<exists>i<KG_MAX_SUSPECT. su_seen (susp ! i) = 0 \<and>
     kg_note_suspect env kind e (susp, touched, s) =
       (susp[i := \<lparr>su_e = e, su_kind = kind, su_seen = 1, su_reported = False\<rparr>], touched[i := True], s)"
proof -
  let ?P = "\<lambda>i. su_seen (susp ! i) \<noteq> 0 \<and> su_kind (susp ! i) = kind \<and> kg_same_dev (su_e (susp ! i)) e"
  have len: "length susp = KG_MAX_SUSPECT" and keys: "slot_keys susp = slot_keys S0 \<union> ks"
    using assms(1) by (simp_all add: mid_def)
  have "(kind, addr e) \<notin> slot_keys susp" using assms(2) keys by simp
  then have "\<not> ?P i" if "i < KG_MAX_SUSPECT" for i
    using that nth_mem [of i susp] len by (auto simp: same_dev_addr slot_key_def slot_keys_def image_iff)
  then have f: "List.find ?P [0..<KG_MAX_SUSPECT] = None" by (auto simp: find_None_iff)
  have "\<exists>i<KG_MAX_SUSPECT. su_seen (susp ! i) = 0"
  proof (rule ccontr)
    assume "\<not> ?thesis"
    then have "card (slot_keys susp) = KG_MAX_SUSPECT"
      using used_distinct_card [OF len] assms(1) by (simp add: mid_def)
    moreover have "finite (slot_keys S0 \<union> ks)" using assms(4) by (simp add: slot_keys_def)
    ultimately show False using assms(2,3) by (simp add: keys)
  qed
  then obtain i where g: "List.find (\<lambda>i. su_seen (susp ! i) = 0) [0..<KG_MAX_SUSPECT] = Some i"
    by (cases "List.find (\<lambda>i. su_seen (susp ! i) = 0) [0..<KG_MAX_SUSPECT]") (auto simp: find_None_iff)
  then have "i < KG_MAX_SUSPECT" "su_seen (susp ! i) = 0" by (auto simp: find_Some_iff)
  then show ?thesis by (auto simp: kg_note_suspect_def f g)
qed

lemma mid_update:
  assumes m: "mid S0 ks susp touched" and i: "i < KG_MAX_SUSPECT" and v: "su_seen v \<noteq> 0" "slot_key v = k" and k: "k \<notin> ks"
    and other: "\<And>j. j < KG_MAX_SUSPECT \<Longrightarrow> j \<noteq> i \<Longrightarrow> su_seen (susp ! j) \<noteq> 0 \<Longrightarrow> slot_key (susp ! j) \<noteq> k"
    and slot: "mid_slot (insert k ks) (S0 ! i) v True" and here: "su_seen (susp ! i) = 0 \<or> slot_key (susp ! i) = k"
  shows "mid S0 (insert k ks) (susp[i := v]) (touched[i := True])"
proof -
  have len: "length susp = KG_MAX_SUSPECT" "length touched = KG_MAX_SUSPECT"
    and slots: "\<And>j. j < KG_MAX_SUSPECT \<Longrightarrow> mid_slot ks (S0 ! j) (susp ! j) (touched ! j)"
    and dist: "\<And>i j. i < KG_MAX_SUSPECT \<Longrightarrow> j < KG_MAX_SUSPECT \<Longrightarrow> su_seen (susp ! i) \<noteq> 0 \<Longrightarrow> su_seen (susp ! j) \<noteq> 0 \<Longrightarrow>
        slot_key (susp ! i) = slot_key (susp ! j) \<Longrightarrow> i = j"
    and keys: "slot_keys susp = slot_keys S0 \<union> ks"
    using m by (auto simp: mid_def)
  have "mid_slot (insert k ks) (S0 ! j) (susp[i := v] ! j) (touched[i := True] ! j)" if j: "j < KG_MAX_SUSPECT" for j
  proof (cases "j = i")
    case False
    have "su_seen (susp ! j) \<noteq> 0 \<and> slot_key (susp ! j) = k" if "su_seen (S0 ! j) \<noteq> 0" "slot_key (S0 ! j) = k"
      using mid_key [OF slots [OF j]] that slots [OF j] k by (auto simp: mid_slot_def)
    then have "su_seen (S0 ! j) = 0 \<or> slot_key (S0 ! j) \<noteq> k" using other j False by blast
    then show ?thesis using mid_slot_mono [OF slots [OF j]] False by simp
  qed (use slot i len in simp)
  moreover have "a = b" if ab: "a < KG_MAX_SUSPECT" "b < KG_MAX_SUSPECT" "su_seen (susp[i := v] ! a) \<noteq> 0"
    "su_seen (susp[i := v] ! b) \<noteq> 0" "slot_key (susp[i := v] ! a) = slot_key (susp[i := v] ! b)" for a b
  proof -
    have at: "susp[i := v] ! j = (if j = i then v else susp ! j)" if "j < KG_MAX_SUSPECT" for j
      using that len(1) by (simp add: nth_list_update_if)
    have ne: "slot_key (susp[i := v] ! j) \<noteq> k" if "j < KG_MAX_SUSPECT" "j \<noteq> i" "su_seen (susp[i := v] ! j) \<noteq> 0" for j
      using other [of j] that at [OF that(1)] by simp
    have eq: "slot_key (susp[i := v] ! i) = k" using at [OF i] v(2) by simp
    show ?thesis
    proof (cases "a = i \<or> b = i")
      case True
      then show ?thesis using ne ab eq by metis
    next
      case False
      then show ?thesis using dist [of a b] ab at by simp
    qed
  qed
  moreover have "slot_keys (susp[i := v]) = slot_keys S0 \<union> insert k ks"
    using slot_keys_update [of i susp v] i v here by (simp add: len keys)
  ultimately show ?thesis by (simp add: mid_def len)
qed

lemma mid_slot_known:
  "mid_slot ks su0 su t \<Longrightarrow> su_seen su0 \<noteq> 0 \<Longrightarrow> slot_key su0 \<notin> ks \<Longrightarrow> su_seen su \<noteq> 0 \<and> slot_key su = slot_key su0"
  by (simp add: mid_slot_def slot_key_def)

lemma mid_slot_free: "mid_slot ks su0 su t \<Longrightarrow> su_seen su = 0 \<Longrightarrow> su_seen su0 = 0"
  by (rule ccontr, frule u8_next(1)) (auto simp: mid_slot_def split: if_splits)

lemma stepped_slot:
  assumes "su_seen su0 \<noteq> 0"
  shows "su_seen (stepped su0) \<noteq> 0" "slot_key (stepped su0) = slot_key su0" "mid_slot (insert (slot_key su0) ks) su0 (stepped su0) True"
  using assms u8_next(1) [OF assms] by (auto simp: stepped_def slot_key_def mid_slot_def)

lemma mid_slots:
  assumes "mid S0 ks susp touched" and "j < KG_MAX_SUSPECT"
  shows "mid_slot ks (S0 ! j) (susp ! j) (touched ! j)"
    "su_seen (susp ! j) \<noteq> 0 \<Longrightarrow> slot_key (susp ! j) \<in> slot_keys S0 \<union> ks"
proof -
  show "mid_slot ks (S0 ! j) (susp ! j) (touched ! j)" using assms by (simp add: mid_def)
  have "slot_keys susp = slot_keys S0 \<union> ks" "length susp = KG_MAX_SUSPECT" using assms(1) by (simp_all add: mid_def)
  then show "su_seen (susp ! j) \<noteq> 0 \<Longrightarrow> slot_key (susp ! j) \<in> slot_keys S0 \<union> ks"
    using assms(2) by (metis (mono_tags, lifting) slot_keys_def imageI mem_Collect_eq nth_mem)
qed

lemma mid_distinct:
  "mid S0 ks susp touched \<Longrightarrow> i < KG_MAX_SUSPECT \<Longrightarrow> j < KG_MAX_SUSPECT \<Longrightarrow> su_seen (susp ! i) \<noteq> 0 \<Longrightarrow>
     su_seen (susp ! j) \<noteq> 0 \<Longrightarrow> slot_key (susp ! i) = slot_key (susp ! j) \<Longrightarrow> i = j"
  by (simp add: mid_def)

lemma mid_step_known:
  assumes "mid S0 ks susp touched" and "i < KG_MAX_SUSPECT" and "su_seen (S0 ! i) \<noteq> 0" and "slot_key (S0 ! i) \<notin> ks"
  shows "mid S0 (insert (slot_key (S0 ! i)) ks) (susp[i := stepped (S0 ! i)]) (touched[i := True])"
proof (rule mid_update [OF assms(1,2) stepped_slot(1,2) [OF assms(3)] assms(4)])
  note si = mid_slot_known [OF mid_slots(1) [OF assms(1,2)] assms(3,4)]
  show "slot_key (susp ! j) \<noteq> slot_key (S0 ! i)" if "j < KG_MAX_SUSPECT" "j \<noteq> i" "su_seen (susp ! j) \<noteq> 0" for j
    using mid_distinct [OF assms(1) that(1) assms(2) that(3)] that(2) si by metis
  show "mid_slot (insert (slot_key (S0 ! i)) ks) (S0 ! i) (stepped (S0 ! i)) True" by (rule stepped_slot(3) [OF assms(3)])
  show "su_seen (susp ! i) = 0 \<or> slot_key (susp ! i) = slot_key (S0 ! i)" using si by blast
qed

lemma mid_step_new:
  assumes "mid S0 ks susp touched" and "i < KG_MAX_SUSPECT" and "su_seen (susp ! i) = 0"
    and "(kind, addr e) \<notin> slot_keys S0 \<union> ks"
  shows "mid S0 (insert (kind, addr e) ks)
     (susp[i := \<lparr>su_e = e, su_kind = kind, su_seen = 1, su_reported = False\<rparr>]) (touched[i := True])"
proof (rule mid_update [OF assms(1,2)])
  show "slot_key (susp ! j) \<noteq> (kind, addr e)" if "j < KG_MAX_SUSPECT" "su_seen (susp ! j) \<noteq> 0" for j
    using mid_slots(2) [OF assms(1) that] assms(4) by metis
  have "su_seen (S0 ! i) = 0" by (rule mid_slot_free [OF mid_slots(1) [OF assms(1,2)] assms(3)])
  then show "mid_slot (insert (kind, addr e) ks) (S0 ! i) \<lparr>su_e = e, su_kind = kind, su_seen = 1, su_reported = False\<rparr> True"
    by (simp add: mid_slot_def slot_key_def)
qed (use assms(3,4) in \<open>simp_all add: slot_key_def\<close>)

lemma mid_step:
  assumes "mid S0 ks susp touched" and "susp_ok S0" and "(kind, addr e) \<notin> ks" and "finite ks"
    and "card (insert (kind, addr e) (slot_keys S0 \<union> ks)) \<le> KG_MAX_SUSPECT"
  shows "\<exists>susp' touched' s'. kg_note_suspect env kind e (susp, touched, s) = (susp', touched', s') \<and>
     mid S0 (insert (kind, addr e) ks) susp' touched' \<and>
     notes_of {KG_ALERT_PCI_DISCREPANCY} s' = notes_of {KG_ALERT_PCI_DISCREPANCY} s @ due S0 (kind, addr e)"
proof (cases "(kind, addr e) \<in> slot_keys S0")
  case True
  obtain i s' where i: "i < KG_MAX_SUSPECT" "su_seen (S0 ! i) \<noteq> 0" "slot_key (S0 ! i) = (kind, addr e)"
    and r: "kg_note_suspect env kind e (susp, touched, s) = (susp[i := stepped (S0 ! i)], touched[i := True], s')"
    and n: "notes_of {KG_ALERT_PCI_DISCREPANCY} s' = notes_of {KG_ALERT_PCI_DISCREPANCY} s @ due S0 (kind, addr e)"
    using note_known [OF assms(1-3) True, of env s] by (elim exE conjE) (rule that; assumption)
  have "mid S0 (insert (kind, addr e) ks) (susp[i := stepped (S0 ! i)]) (touched[i := True])"
    using mid_step_known [OF assms(1) i(1,2)] assms(3) by (simp add: i(3))
  with r n show ?thesis by (intro exI conjI) assumption+
next
  case False
  then have new: "(kind, addr e) \<notin> slot_keys S0 \<union> ks" using assms(3) by simp
  obtain i where i: "i < KG_MAX_SUSPECT" "su_seen (susp ! i) = 0"
    and r: "kg_note_suspect env kind e (susp, touched, s) =
      (susp[i := \<lparr>su_e = e, su_kind = kind, su_seen = 1, su_reported = False\<rparr>], touched[i := True], s)"
    using note_new [OF assms(1) new assms(5,4), of env s] by (elim exE conjE) (rule that; assumption)
  have "due S0 (kind, addr e) = []" using False slot_of_None [of S0 "(kind, addr e)"] by (simp add: due_def)
  then have n: "notes_of {KG_ALERT_PCI_DISCREPANCY} s = notes_of {KG_ALERT_PCI_DISCREPANCY} s @ due S0 (kind, addr e)"
    by simp
  show ?thesis by (rule exI, rule exI, rule exI, rule conjI [OF r], rule conjI [OF mid_step_new [OF assms(1) i new] n])
qed

lemma mid_start: "susp_ok S0 \<Longrightarrow> mid S0 {} S0 (replicate KG_MAX_SUSPECT False)"
  by (simp add: mid_def susp_ok_def mid_slot_def)

lemma mid_fold:
  assumes "mid S0 ks susp touched" and "susp_ok S0" and "finite ks" and "distinct (map disc_key ds)"
    and "ks \<inter> disc_key ` set ds = {}" and "card (slot_keys S0 \<union> ks \<union> disc_key ` set ds) \<le> KG_MAX_SUSPECT"
  shows "\<exists>susp' touched' s'. fold (\<lambda>(kind, e). kg_note_suspect env kind e) ds (susp, touched, s) = (susp', touched', s') \<and>
     mid S0 (ks \<union> disc_key ` set ds) susp' touched' \<and>
     notes_of {KG_ALERT_PCI_DISCREPANCY} s' =
       notes_of {KG_ALERT_PCI_DISCREPANCY} s @ concat (map (\<lambda>d. due S0 (disc_key d)) ds)"
  using assms
proof (induction ds arbitrary: ks susp touched s)
  case (Cons d ds)
  obtain kind e where d: "d = (kind, e)" by fastforce
  let ?k = "(kind, addr e)"
  have fin: "finite (slot_keys S0)" by (simp add: slot_keys_def)
  have "card (insert ?k (slot_keys S0 \<union> ks)) \<le> card (slot_keys S0 \<union> ks \<union> disc_key ` set (d # ds))"
    using Cons.prems(3) fin by (intro card_mono) (auto simp: d)
  then have room: "card (insert ?k (slot_keys S0 \<union> ks)) \<le> KG_MAX_SUSPECT" using Cons.prems(6) by simp
  have nk: "?k \<notin> ks" using Cons.prems(5) by (auto simp: d)
  obtain s1 t1 y1 where st: "kg_note_suspect env kind e (susp, touched, s) = (s1, t1, y1)" "mid S0 (insert ?k ks) s1 t1"
    "notes_of {KG_ALERT_PCI_DISCREPANCY} y1 = notes_of {KG_ALERT_PCI_DISCREPANCY} s @ due S0 ?k"
    using mid_step [OF Cons.prems(1,2) nk Cons.prems(3) room, of env s] by (elim exE conjE) (rule that; assumption)
  have disj: "insert ?k ks \<inter> disc_key ` set ds = {}" using Cons.prems(4,5) by (auto simp: d)
  have un: "slot_keys S0 \<union> insert ?k ks \<union> disc_key ` set ds = slot_keys S0 \<union> ks \<union> disc_key ` set (d # ds)"
    by (auto simp: d)
  have "\<exists>susp' touched' s'. fold (\<lambda>(kind, e). kg_note_suspect env kind e) ds (s1, t1, y1) = (susp', touched', s') \<and>
     mid S0 (insert ?k ks \<union> disc_key ` set ds) susp' touched' \<and>
     notes_of {KG_ALERT_PCI_DISCREPANCY} s' =
       notes_of {KG_ALERT_PCI_DISCREPANCY} y1 @ concat (map (\<lambda>d. due S0 (disc_key d)) ds)"
    using Cons.IH [OF st(2) Cons.prems(2) _ _ disj] Cons.prems(3,4,6) un by simp
  then show ?case using st by (simp add: d)
qed simp

text \<open>The end of the scan: the slots that were not touched are cleared.\<close>

definition settled :: "kg_suspect list \<Rightarrow> bool list \<Rightarrow> kg_suspect list" where
  "settled susp touched =
     map (\<lambda>i. if su_seen (susp ! i) \<noteq> 0 \<and> \<not> touched ! i then zero_suspect else susp ! i) [0..<KG_MAX_SUSPECT]"

lemma settled_nth:
  "i < KG_MAX_SUSPECT \<Longrightarrow>
     settled susp touched ! i = (if su_seen (susp ! i) \<noteq> 0 \<and> \<not> touched ! i then zero_suspect else susp ! i)"
  by (simp add: settled_def)

lemma settled_used:
  assumes "mid S0 ks susp touched" and "susp_ok S0" and "i < KG_MAX_SUSPECT"
  shows "su_seen (settled susp touched ! i) \<noteq> 0 \<longleftrightarrow> su_seen (susp ! i) \<noteq> 0 \<and> slot_key (susp ! i) \<in> ks"
    and "su_seen (susp ! i) \<noteq> 0 \<Longrightarrow> slot_key (susp ! i) \<in> ks \<Longrightarrow> settled susp touched ! i = susp ! i"
proof -
  have "mid_slot ks (S0 ! i) (susp ! i) (touched ! i)" using assms(1,3) by (simp add: mid_def)
  then have "su_seen (susp ! i) \<noteq> 0 \<Longrightarrow> touched ! i \<longleftrightarrow> slot_key (susp ! i) \<in> ks"
    by (auto simp: mid_slot_def slot_key_def split: if_splits)
  then show "su_seen (settled susp touched ! i) \<noteq> 0 \<longleftrightarrow> su_seen (susp ! i) \<noteq> 0 \<and> slot_key (susp ! i) \<in> ks"
    and "su_seen (susp ! i) \<noteq> 0 \<Longrightarrow> slot_key (susp ! i) \<in> ks \<Longrightarrow> settled susp touched ! i = susp ! i"
    using assms(3) by (auto simp: settled_nth zero_suspect_def)
qed

lemma settled_slot:
  assumes "mid S0 ks susp touched" and "i < KG_MAX_SUSPECT" and "su_seen (settled susp touched ! i) \<noteq> 0"
  shows "settled susp touched ! i = susp ! i" "su_seen (susp ! i) \<noteq> 0" "touched ! i" "slot_key (susp ! i) \<in> ks"
proof -
  show e: "settled susp touched ! i = susp ! i" "su_seen (susp ! i) \<noteq> 0" "touched ! i"
    using assms(2,3) by (auto simp: settled_nth zero_suspect_def split: if_splits)
  show "slot_key (susp ! i) \<in> ks"
    using mid_slots(1) [OF assms(1,2)] e(3) mid_key [OF mid_slots(1) [OF assms(1,2)]] by (auto simp: mid_slot_def split: if_splits)
qed

lemma settled_counts:
  assumes "mid S0 ks susp touched" and "i < KG_MAX_SUSPECT" and "touched ! i"
  shows "su_reported (susp ! i) = (2 \<le> su_seen (susp ! i))"
proof -
  have m: "mid_slot ks (S0 ! i) (susp ! i) True" using mid_slots(1) [OF assms(1,2)] assms(3) by simp
  show ?thesis
  proof (cases "su_seen (S0 ! i) = 0")
    case True
    with m have "su_seen (susp ! i) = 1" "\<not> su_reported (susp ! i)" by (simp_all add: mid_slot_def)
    then show ?thesis by (simp add: word_le_nat_alt)
  next
    case False
    with m have "su_seen (susp ! i) = (if su_seen (S0 ! i) < 255 then su_seen (S0 ! i) + 1 else su_seen (S0 ! i))"
      "su_reported (susp ! i)"
      by (simp_all add: mid_slot_def)
    then show ?thesis using u8_next [OF False] by simp
  qed
qed

lemma settled_ok:
  assumes "mid S0 ks susp touched"
  shows "susp_ok (settled susp touched)"
  unfolding susp_ok_def
proof (intro conjI allI impI ballI)
  show "length (settled susp touched) = KG_MAX_SUSPECT" by (simp add: settled_def)
next
  fix i j assume ij: "i < KG_MAX_SUSPECT" "j < KG_MAX_SUSPECT"
    "su_seen (settled susp touched ! i) \<noteq> 0 \<and> su_seen (settled susp touched ! j) \<noteq> 0 \<and>
     slot_key (settled susp touched ! i) = slot_key (settled susp touched ! j)"
  have "settled susp touched ! i = susp ! i" "settled susp touched ! j = susp ! j"
    using settled_slot(1) [OF assms] ij by simp_all
  then show "i = j" using mid_distinct [OF assms ij(1,2)] ij(3) by simp
next
  fix su assume "su \<in> set (settled susp touched)" and u: "su_seen su \<noteq> 0"
  then obtain i where i: "i < KG_MAX_SUSPECT" "su = settled susp touched ! i"
    by (auto simp: in_set_conv_nth settled_def)
  then show "su_reported su = (2 \<le> su_seen su)"
    using settled_slot [OF assms i(1)] settled_counts [OF assms i(1)] u by simp
qed

lemma touched_key:
  assumes "mid S0 ks susp touched" and "k \<in> ks"
  shows "\<exists>i<KG_MAX_SUSPECT. su_seen (susp ! i) \<noteq> 0 \<and> slot_key (susp ! i) = k \<and> touched ! i"
proof -
  have "k \<in> slot_keys susp" "length susp = KG_MAX_SUSPECT" using assms by (simp_all add: mid_def)
  then obtain i where i: "i < KG_MAX_SUSPECT" "su_seen (susp ! i) \<noteq> 0" "slot_key (susp ! i) = k"
    by (auto simp: slot_keys_def in_set_conv_nth)
  have m: "mid_slot ks (S0 ! i) (susp ! i) (touched ! i)" by (rule mid_slots(1) [OF assms(1) i(1)])
  have "touched ! i"
    using m i(2,3) assms(2) mid_key [OF m] by (cases "su_seen (S0 ! i) = 0") (auto simp: mid_slot_def split: if_splits)
  with i show ?thesis by blast
qed

lemma unat_next8: "n \<noteq> 0 \<Longrightarrow> unat (if n < 255 then n + 1 else n :: u8) = min 255 (unat n + 1)"
proof -
  have "unat n < 256" using unat_bound [of n] by simp
  then show ?thesis
    by (auto simp: word_less_nat_alt unat_plus_if' min_def)
qed

lemma settled_seen:
  assumes "mid S0 ks susp touched" and "susp_ok S0"
  shows "seen_of (settled susp touched) k = (if k \<in> ks then min 255 (seen_of S0 k + 1) else 0)"
proof (cases "k \<in> ks")
  case False
  have "slot_of (settled susp touched) k = None"
  proof (rule ccontr)
    assume "slot_of (settled susp touched) k \<noteq> None"
    then obtain i where "i < KG_MAX_SUSPECT" "su_seen (settled susp touched ! i) \<noteq> 0" "slot_key (settled susp touched ! i) = k"
      using slot_of_SomeD by (fastforce simp: settled_def)
    then show False using settled_slot [OF assms(1)] False by metis
  qed
  with False show ?thesis by (simp add: seen_of_def)
next
  case True
  obtain i where i: "i < KG_MAX_SUSPECT" "su_seen (susp ! i) \<noteq> 0" "slot_key (susp ! i) = k" "touched ! i"
    using touched_key [OF assms(1) True] by blast
  have st: "settled susp touched ! i = susp ! i" using i by (simp add: settled_nth)
  have so: "slot_of (settled susp touched) k = Some (susp ! i)"
    using slot_of_index [OF settled_ok [OF assms(1)] i(1)] st i by simp
  have m: "mid_slot ks (S0 ! i) (susp ! i) True" using mid_slots(1) [OF assms(1) i(1)] i(4) by simp
  show ?thesis
  proof (cases "su_seen (S0 ! i) = 0")
    case False
    have "slot_of S0 k = Some (S0 ! i)"
      using slot_of_index [OF assms(2) i(1) False] mid_key [OF m False] i(3) by simp
    moreover have "su_seen (susp ! i) = (if su_seen (S0 ! i) < 255 then su_seen (S0 ! i) + 1 else su_seen (S0 ! i))"
      using m False by (simp add: mid_slot_def)
    ultimately show ?thesis using True unat_next8 [OF False] by (simp add: seen_of_def so)
  next
    case free: True
    have "slot_of S0 k = None"
    proof (rule ccontr)
      assume "slot_of S0 k \<noteq> None"
      then obtain j where j: "j < KG_MAX_SUSPECT" "su_seen (S0 ! j) \<noteq> 0" "slot_key (S0 ! j) = k"
        using slot_of_SomeD [of S0 k] assms(2) by (fastforce simp: susp_ok_def)
      have mj: "mid_slot ks (S0 ! j) (susp ! j) (touched ! j)" by (rule mid_slots(1) [OF assms(1) j(1)])
      have "su_seen (susp ! j) \<noteq> 0" using mid_slot_free [OF mj] j(2) by blast
      then have "i = j" using mid_distinct [OF assms(1) i(1) j(1) i(2)] mid_key [OF mj j(2)] i(3) j(3) by simp
      then show False using free j(2) by simp
    qed
    moreover have "su_seen (susp ! i) = 1" using m free by (simp add: mid_slot_def)
    ultimately show ?thesis using True by (simp add: seen_of_def so)
  qed
qed

text \<open>One cross-check: the state of the table after it, and what it reports.\<close>

lemma cross_check_spec:
  assumes "susp_ok (hw_susp x)" and "distinct (map disc_key (discrepancies he x))"
    and "card (slot_keys (hw_susp x) \<union> disc_key ` set (discrepancies he x)) \<le> KG_MAX_SUSPECT"
  shows "\<exists>susp s'. kg_cross_check he (x, s) = (x\<lparr>hw_susp := susp\<rparr>, s') \<and> susp_ok susp \<and>
     (\<forall>k. seen_of susp k = (if k \<in> disc_key ` set (discrepancies he x) then min 255 (seen_of (hw_susp x) k + 1) else 0)) \<and>
     notes_of {KG_ALERT_PCI_DISCREPANCY} s' =
       notes_of {KG_ALERT_PCI_DISCREPANCY} s @ concat (map (\<lambda>d. due (hw_susp x) (disc_key d)) (discrepancies he x))"
proof -
  obtain susp touched s' where f: "fold (\<lambda>(kind, e). kg_note_suspect (he_env he) kind e) (discrepancies he x)
      (hw_susp x, replicate KG_MAX_SUSPECT False, s) = (susp, touched, s')"
    and m: "mid (hw_susp x) (disc_key ` set (discrepancies he x)) susp touched"
    and n: "notes_of {KG_ALERT_PCI_DISCREPANCY} s' =
       notes_of {KG_ALERT_PCI_DISCREPANCY} s @ concat (map (\<lambda>d. due (hw_susp x) (disc_key d)) (discrepancies he x))"
    using mid_fold [OF mid_start [OF assms(1)] assms(1) _ assms(2), of "he_env he" s] assms(3) by auto
  have "kg_cross_check he (x, s) = (x\<lparr>hw_susp := settled susp touched\<rparr>, s')"
    by (simp add: kg_cross_check_def cross_folds f settled_def)
  then show ?thesis
    using settled_ok [OF m] settled_seen [OF m assms(1)] n by blast
qed

lemma distinct_map_filter_key:
  assumes "distinct (map f ds)" and "\<And>d y. d \<in> set ds \<Longrightarrow> g d = Some y \<Longrightarrow> h y = f d"
  shows "distinct (map h (List.map_filter g ds))"
  using assms
proof (induction ds)
  case (Cons d ds)
  have sub: "h ` set (List.map_filter g ds) \<subseteq> f ` set ds"
    using Cons.prems(2) by (auto simp: List.map_filter_def image_iff) (metis option.sel option.distinct(1))
  show ?case
  proof (cases "g d")
    case (Some y)
    have "h y = f d" using Cons.prems(2) Some by simp
    then have "h y \<notin> h ` set (List.map_filter g ds)" using sub Cons.prems(1) by auto
    then show ?thesis using Cons Some by (simp add: map_filter_Cons')
  qed (use Cons in \<open>simp add: map_filter_Cons'\<close>)
qed (simp add: List.map_filter_def)

text \<open>When no address is listed twice on either side, no discrepancy is met twice in a scan.\<close>

lemma discrepancies_distinct:
  assumes "distinct (map addr (hw_cur x))" and "distinct (map (\<lambda>d. addr (os_probe d)) (filter (\<lambda>d. \<not> pd_is_virtfn d) (he_devs he)))"
  shows "distinct (map disc_key (discrepancies he x))"
proof -
  have 1: "distinct (map (addr \<circ> snd) (List.map_filter (hw_suspect he) (hw_cur x)))"
    by (rule distinct_map_filter_key [OF assms(1)]) (auto simp: hw_suspect_def split: option.splits if_splits)
  have "List.map_filter (os_suspect x) (he_devs he) = List.map_filter (os_suspect x) (filter (\<lambda>d. \<not> pd_is_virtfn d) (he_devs he))"
    by (induction "he_devs he") (auto simp: map_filter_Cons' os_suspect_def List.map_filter_def)
  moreover have "distinct (map (addr \<circ> snd) (List.map_filter (os_suspect x) (filter (\<lambda>d. \<not> pd_is_virtfn d) (he_devs he))))"
    by (rule distinct_map_filter_key [OF assms(2)]) (auto simp: os_suspect_def split: if_splits)
  ultimately have 2: "distinct (map (addr \<circ> snd) (List.map_filter (os_suspect x) (he_devs he)))" by simp
  have 3: "fst y \<noteq> KG_PCI_MISSING_IN_HW" if "y \<in> set (List.map_filter (hw_suspect he) (hw_cur x))" for y
    using that by (auto simp: List.map_filter_def hw_suspect_def kg_const split: option.splits if_splits)
  have 4: "fst y = KG_PCI_MISSING_IN_HW" if "y \<in> set (List.map_filter (os_suspect x) (he_devs he))" for y
    using that by (auto simp: List.map_filter_def os_suspect_def split: if_splits)
  have lift: "distinct (map disc_key ys)" if "distinct (map (addr \<circ> snd) ys)" for ys
    using that by (auto simp: distinct_map inj_on_def)
  have "disc_key ` set (List.map_filter (hw_suspect he) (hw_cur x)) \<inter> disc_key ` set (List.map_filter (os_suspect x) (he_devs he)) = {}"
    using 3 4 by (auto simp: image_iff)
  then show ?thesis using lift [OF 1] lift [OF 2] by (simp add: discrepancies_def)
qed

section \<open>No address is listed twice\<close>

lemma u8_of_nat_inj: "a < 256 \<Longrightarrow> b < 256 \<Longrightarrow> (of_nat a :: u8) = of_nat b \<Longrightarrow> a = b"
  by (metis unat_of_nat_small [where 'a = 8, simplified])

lemma fn_ent_addr: "addr (fn_ent mem e bus m dev fn) = (es_seg e, bus, dev, of_nat fn)"
  by (simp add: addr_def fn_ent_def ecam_ent_def Let_def)

lemma dev_fns_ok: "distinct (dev_fns mem m dev)" "set (dev_fns mem m dev) \<subseteq> {..<8}"
  by (auto simp: dev_fns_def)

lemma distinct_concat_map:
  assumes "distinct ds" and "\<And>d. d \<in> set ds \<Longrightarrow> distinct (f d)"
    and "\<And>d d'. d \<in> set ds \<Longrightarrow> d' \<in> set ds \<Longrightarrow> d \<noteq> d' \<Longrightarrow> set (f d) \<inter> set (f d') = {}"
  shows "distinct (concat (map f ds))"
  using assms
proof (induction ds)
  case (Cons d ds)
  have "set (f d) \<inter> set (concat (map f ds)) = {}"
    using Cons.prems(1,3) by fastforce
  with Cons show ?case by auto
qed simp

lemma bus_ents_distinct: "distinct (map addr (bus_ents mem e bus m))"
proof -
  let ?f = "\<lambda>dev. map (\<lambda>fn. (es_seg e, bus, of_nat dev :: u8, of_nat fn :: u8)) (dev_fns mem m (of_nat dev))"
  have "map addr (bus_ents mem e bus m) = concat (map ?f [0..<32])"
    by (simp only: bus_ents_def map_concat map_map comp_def fn_ent_addr)
  moreover have "distinct (concat (map ?f [0..<32]))"
  proof (rule distinct_concat_map)
    show "distinct (?f d)" for d
    proof -
      have "inj_on (\<lambda>fn. (es_seg e, bus, of_nat d :: u8, of_nat fn :: u8)) (set (dev_fns mem m (of_nat d)))"
        using dev_fns_ok(2) [of mem m "of_nat d"] by (fastforce simp: inj_on_def intro: u8_of_nat_inj)
      then show ?thesis using dev_fns_ok(1) by (simp add: distinct_map)
    qed
    show "set (?f d) \<inter> set (?f d') = {}" if "d \<in> set [0..<32]" "d' \<in> set [0..<32]" "d \<noteq> d'" for d d'
      using that u8_of_nat_inj [of d d'] by auto
  qed simp
  ultimately show ?thesis by simp
qed

lemma bus_ents_addr: "c \<in> set (bus_ents mem e bus m) \<Longrightarrow> pe_seg c = es_seg e \<and> pe_bus c = bus"
  by (auto simp: bus_ents_def fn_ent_def ecam_ent_def Let_def)

lemma bus_list_addr: "c \<in> set (bus_list he mem e bus) \<Longrightarrow> pe_seg c = es_seg e \<and> pe_bus c = bus"
  by (auto simp: bus_list_def dest: bus_ents_addr split: option.splits)

lemma bus_list_distinct: "distinct (map addr (bus_list he mem e bus))"
  by (simp add: bus_list_def bus_ents_distinct split: option.splits)

lemma scan_order_distinct: "distinct (scan_order he mem e)"
proof -
  have "distinct ord \<Longrightarrow> distinct (fold (visit he mem e 0) rs ord)" for rs ord
  proof (induction rs arbitrary: ord)
    case (Cons r rs)
    obtain new where "visit he mem e 0 r ord = ord @ new" "distinct new" "set new \<inter> set ord = {}"
      using visit_extends [of he mem e 0 r ord] by blast
    then have "distinct (visit he mem e 0 r ord)" using Cons.prems by auto
    then show ?case using Cons.IH by simp
  qed simp
  then show ?thesis by (simp add: scan_order_def)
qed

lemma bus_next_range: "c \<in> set (bus_next he mem e b) \<Longrightarrow> b < c \<and> c \<le> es_bus_end e"
  by (auto simp: bus_next_def bus_secs_def fn_sec_def Let_def List.map_filter_def split: option.splits if_splits dest!: in_set_takeD)

lemma reach_range:
  assumes "(a, b) \<in> (bridges he mem e)\<^sup>*" and "es_bus_start e \<le> a" and "a \<le> es_bus_end e"
  shows "es_bus_start e \<le> b \<and> b \<le> es_bus_end e"
  using assms by (induction rule: rtrancl_induct) (auto simp: bridges_def dest: bus_next_range)

lemma scan_order_range:
  assumes "es_bus_start e \<le> es_bus_end e" and "b \<in> set (scan_order he mem e)"
  shows "es_bus_start e \<le> b \<and> b \<le> es_bus_end e"
proof -
  have sub: "set (fold (visit he mem e 0) rs ord) \<subseteq> set ord \<union> (bridges he mem e)\<^sup>* `` set rs" for rs ord
  proof (induction rs arbitrary: ord)
    case (Cons r rs)
    have "set (visit he mem e 0 r ord) \<subseteq> set ord \<union> (bridges he mem e)\<^sup>* `` {r}"
      using visit_extends [of he mem e 0 r ord] by auto
    then show ?case using Cons.IH [of "visit he mem e 0 r ord"] by auto
  qed simp
  then obtain a where "a \<in> set (roots_in he e)" "(a, b) \<in> (bridges he mem e)\<^sup>*"
    using assms(2) sub [of "roots_in he e" "[]"] by (auto simp: scan_order_def)
  then show ?thesis using reach_range assms(1) by (auto simp: roots_in_def)
qed

text \<open>Regions that do not overlap.\<close>

definition apart :: "kg_ecam_seg \<Rightarrow> kg_ecam_seg \<Rightarrow> bool" where
  "apart d e \<longleftrightarrow> es_seg d \<noteq> es_seg e \<or> es_bus_end d < es_bus_start e \<or> es_bus_end e < es_bus_start d"

definition regions_ok :: "kg_ecam_seg list \<Rightarrow> bool" where
  "regions_ok es \<longleftrightarrow> sorted_wrt apart es \<and> list_all (\<lambda>e. es_bus_start e \<le> es_bus_end e) es"

lemma seg_ents_distinct: "distinct (map addr (concat (map (bus_list he mem e) (scan_order he mem e))))"
  unfolding map_concat map_map
proof (rule distinct_concat_map [OF scan_order_distinct])
  show "distinct ((map addr \<circ> bus_list he mem e) d)" for d by (simp add: bus_list_distinct)
  show "set ((map addr \<circ> bus_list he mem e) d) \<inter> set ((map addr \<circ> bus_list he mem e) d') = {}" if "d \<noteq> d'" for d d'
    using that by (fastforce simp: addr_def dest: bus_list_addr)
qed

lemma seg_ents_range:
  assumes "es_bus_start e \<le> es_bus_end e" and "c \<in> set (concat (map (bus_list he mem e) (scan_order he mem e)))"
  shows "pe_seg c = es_seg e \<and> es_bus_start e \<le> pe_bus c \<and> pe_bus c \<le> es_bus_end e"
  using assms scan_order_range [OF assms(1)] by (auto dest!: bus_list_addr)

lemma scan_distinct:
  assumes "regions_ok (hw_ecam x)"
  shows "distinct (map addr (hw_cur (kg_scan_ecam he mem x)))"
proof -
  let ?g = "\<lambda>e. concat (map (bus_list he mem e) (scan_order he mem e))"
  have "distinct (map addr (concat (map ?g es)))" if "regions_ok es" for es
    using that
  proof (induction es)
    case (Cons e es)
    have ok: "es_bus_start e \<le> es_bus_end e" "regions_ok es" "\<And>d. d \<in> set es \<Longrightarrow> apart e d"
      "\<And>d. d \<in> set es \<Longrightarrow> es_bus_start d \<le> es_bus_end d"
      using Cons.prems by (auto simp: regions_ok_def list_all_iff)
    have "addr c \<noteq> addr c'" if c: "c \<in> set (?g e)" and c': "c' \<in> set (concat (map ?g es))" for c c'
    proof -
      obtain d where d: "d \<in> set es" "c' \<in> set (?g d)" using c' by auto
      show ?thesis
        using seg_ents_range [OF ok(1) c] seg_ents_range [OF ok(4) [OF d(1)] d(2)] ok(3) [OF d(1)]
        by (auto simp: addr_def apart_def)
    qed
    then have "set (map addr (?g e)) \<inter> set (map addr (concat (map ?g es))) = {}" unfolding set_map by blast
    then show ?case using seg_ents_distinct [of he mem e] Cons.IH [OF ok(2)]
      by (simp only: list.map concat.simps map_append distinct_append simp_thms)
  qed simp
  then show ?thesis
    using assms by (simp add: scan_cur take_map [symmetric] distinct_take)
qed

section \<open>The records of the audit\<close>

definition ident :: "kg_pci_ent \<Rightarrow> (u16 \<times> u8 \<times> u8 \<times> u8) \<times> u16 \<times> u16" where
  "ident e = (addr e, pe_vid e, pe_did e)"

lemma same_identity_ident: "kg_same_identity a b \<longleftrightarrow> ident a = ident b"
  by (simp add: kg_same_identity_def same_dev_addr ident_def)

definition rec_idents :: "kg_dma_rec list \<Rightarrow> ((u16 \<times> u8 \<times> u8 \<times> u8) \<times> u16 \<times> u16) set" where
  "rec_idents recs = (\<lambda>r. ident (dr_e r)) ` set recs"

text \<open>Every record between two passes has had its alert, and there is one per device.\<close>

definition recs_ok :: "kg_dma_rec list \<Rightarrow> bool" where
  "recs_ok recs \<longleftrightarrow> length recs \<le> KG_MAX_SUSPECT \<and> distinct (map (\<lambda>r. ident (dr_e r)) recs) \<and> list_all dr_alerted recs"

lemma rec_get_known:
  assumes "ident e \<in> rec_idents recs"
  shows "\<exists>i<length recs. kg_dma_rec_get e recs = (recs, Some i) \<and> ident (dr_e (recs ! i)) = ident e"
proof -
  let ?P = "\<lambda>i. kg_same_identity (dr_e (recs ! i)) e"
  obtain j where "j < length recs" "?P j"
    using assms by (auto simp: rec_idents_def same_identity_ident in_set_conv_nth)
  then obtain i where f: "List.find ?P [0..<length recs] = Some i"
    by (cases "List.find ?P [0..<length recs]") (auto simp: find_None_iff)
  then have "i < length recs" "?P i" by (auto simp: find_Some_iff)
  moreover have "kg_dma_rec_get e recs = (recs, Some i)" by (simp add: kg_dma_rec_get_def f)
  ultimately show ?thesis by (auto simp: same_identity_ident)
qed

lemma rec_get_new:
  assumes "ident e \<notin> rec_idents recs"
  shows "kg_dma_rec_get e recs =
     (if KG_MAX_SUSPECT \<le> length recs then (recs, None)
      else (recs @ [\<lparr>dr_e = e, dr_alerted = False, dr_cleared = False\<rparr>], Some (length recs)))"
proof -
  have "List.find (\<lambda>i. kg_same_identity (dr_e (recs ! i)) e) [0..<length recs] = None"
    using assms by (force simp: find_None_iff rec_idents_def same_identity_ident in_set_conv_nth image_iff)
  then show ?thesis by (simp add: kg_dma_rec_get_def)
qed

definition dma_note :: "hw_env \<Rightarrow> kg_pci_ent \<Rightarrow> u32 \<times> u32 \<times> u64 \<times> u64" where
  "dma_note he e = (KG_ALERT_UNAUTHORIZED_DMA, dma_level (os_dev he e), ucast (kg_bdf e), dma_p2 e)"

text \<open>Enforcement touches neither the devices on record nor their alerts.\<close>

lemma enforce_recs:
  "dma_enforce he x e ri (recs, mem, s) = (recs', mem', s') \<Longrightarrow>
     recs' = recs \<or> (\<exists>i. recs' = recs[i := (recs ! i)\<lparr>dr_cleared := True\<rparr>])"
  by (auto simp: dma_enforce_def split: if_splits prod.splits option.splits)

lemma enforce_notes:
  "dma_enforce he x e ri (recs, mem, s) = (recs', mem', s') \<Longrightarrow>
     notes_of {KG_ALERT_UNAUTHORIZED_DMA} s' = notes_of {KG_ALERT_UNAUTHORIZED_DMA} s"
  by (auto simp: dma_enforce_def notes_of_report kg_const split: if_splits prod.splits option.splits)

lemma map_update_same: "f ((g (xs ! i))) = f (xs ! i) \<Longrightarrow> map f (xs[i := g (xs ! i)]) = map f xs"
  by (cases "i < length xs") (simp_all add: map_update list_update_same_conv list_update_beyond)

lemma enforce_maps:
  assumes "dma_enforce he x e ri (recs, mem, s) = (recs', mem', s')"
  shows "map dr_e recs' = map dr_e recs" "map dr_alerted recs' = map dr_alerted recs"
  using enforce_recs [OF assms]
  by (auto intro!: map_update_same [where g = "\<lambda>r. r\<lparr>dr_cleared := True\<rparr>"])

lemma recs_ok_maps:
  assumes "map dr_e recs' = map dr_e recs" and "map dr_alerted recs' = map dr_alerted recs"
  shows "recs_ok recs' = recs_ok recs" "rec_idents recs' = rec_idents recs"
proof -
  have m: "map (\<lambda>r. ident (dr_e r)) l = map ident (map dr_e l)" "list_all dr_alerted l = list_all id (map dr_alerted l)"
    "rec_idents l = ident ` set (map dr_e l)" for l
    by (simp_all add: list_all_iff rec_idents_def image_image)
  have "length recs' = length recs" using assms(1) by (metis length_map)
  then show "recs_ok recs' = recs_ok recs" "rec_idents recs' = rec_idents recs"
    by (simp_all only: recs_ok_def m assms)
qed

text \<open>One device of the audit.\<close>

lemma dma_one_step:
  assumes "recs_ok recs" and "dma_offender he x e"
    and "ident e \<in> rec_idents recs \<or> length recs < KG_MAX_SUSPECT"
    and "dma_one he x e (recs, mem, s) = (recs', mem', s')"
  shows "recs_ok recs' \<and> rec_idents recs' = insert (ident e) (rec_idents recs) \<and>
     length recs' = (if ident e \<in> rec_idents recs then length recs else Suc (length recs)) \<and>
     notes_of {KG_ALERT_UNAUTHORIZED_DMA} s' = notes_of {KG_ALERT_UNAUTHORIZED_DMA} s @
       (if ident e \<in> rec_idents recs then [] else [dma_note he e])"
proof (cases "ident e \<in> rec_idents recs")
  case True
  obtain i where i: "i < length recs" "kg_dma_rec_get e recs = (recs, Some i)" using rec_get_known [OF True] by blast
  have "dr_alerted (recs ! i)" using assms(1) i(1) by (simp add: recs_ok_def list_all_length)
  then have enf: "dma_enforce he x e (Some i) (recs, mem, s) = (recs', mem', s')"
    using assms(2,4) i by (simp add: dma_one_def dma_alert_def)
  have "length recs' = length recs" using enforce_maps(1) [OF enf] by (metis length_map)
  then show ?thesis
    using recs_ok_maps [OF enforce_maps [OF enf]] enforce_notes [OF enf] True assms(1) by (simp add: insert_absorb)
next
  case False
  then have room: "length recs < KG_MAX_SUSPECT" using assms(3) by simp
  let ?new = "recs @ [\<lparr>dr_e = e, dr_alerted = True, dr_cleared = False\<rparr>]"
  let ?s = "kg_report (he_env he) KG_ALERT_UNAUTHORIZED_DMA (dma_level (os_dev he e)) (ucast (kg_bdf e)) (dma_p2 e) (dma_count s)"
  have enf: "dma_enforce he x e (Some (length recs)) (?new, mem, ?s) = (recs', mem', s')"
    using assms(2,4) room rec_get_new [OF False] by (simp add: dma_one_def dma_alert_def)
  have "length recs' = Suc (length recs)" using enforce_maps(1) [OF enf] by (metis length_map length_append_singleton)
  moreover have "recs_ok ?new" "rec_idents ?new = insert (ident e) (rec_idents recs)"
    using assms(1) room False by (simp_all add: recs_ok_def rec_idents_def)
  moreover have "notes_of {KG_ALERT_UNAUTHORIZED_DMA} ?s = notes_of {KG_ALERT_UNAUTHORIZED_DMA} s @ [dma_note he e]"
    by (simp add: notes_of_report dma_note_def dma_count_def kg_const)
  ultimately show ?thesis
    using recs_ok_maps [OF enforce_maps [OF enf]] enforce_notes [OF enf] False by simp
qed

lemma dma_fold:
  assumes "recs_ok recs" and "distinct (map ident es)"
    and "length recs + length (filter (\<lambda>e. dma_offender he x e \<and> ident e \<notin> rec_idents recs) es) \<le> KG_MAX_SUSPECT"
  shows "\<exists>recs' mem' s'. fold (dma_one he x) es (recs, mem, s) = (recs', mem', s') \<and> recs_ok recs' \<and>
     rec_idents recs' = rec_idents recs \<union> ident ` {e \<in> set es. dma_offender he x e} \<and>
     notes_of {KG_ALERT_UNAUTHORIZED_DMA} s' = notes_of {KG_ALERT_UNAUTHORIZED_DMA} s @
       map (dma_note he) (filter (\<lambda>e. dma_offender he x e \<and> ident e \<notin> rec_idents recs) es)"
  using assms
proof (induction es arbitrary: recs mem s)
  case (Cons e es)
  show ?case
  proof (cases "dma_offender he x e")
    case False
    then have "fold (dma_one he x) (e # es) (recs, mem, s) = fold (dma_one he x) es (recs, mem, s)" by (simp add: dma_one_def)
    moreover have "{d \<in> set (e # es). dma_offender he x d} = {d \<in> set es. dma_offender he x d}" using False by auto
    ultimately show ?thesis using Cons.IH [OF Cons.prems(1), of mem s] Cons.prems(2,3) False by simp
  next
    case True
    obtain r1 m1 s1 where one: "dma_one he x e (recs, mem, s) = (r1, m1, s1)" by (metis prod.exhaust)
    have room: "ident e \<in> rec_idents recs \<or> length recs < KG_MAX_SUSPECT" using Cons.prems(3) True by (auto split: if_splits)
    note st = dma_one_step [OF Cons.prems(1) True room one]
    have same: "filter (\<lambda>d. dma_offender he x d \<and> ident d \<notin> rec_idents r1) es =
        filter (\<lambda>d. dma_offender he x d \<and> ident d \<notin> rec_idents recs) es"
      using st Cons.prems(2) by (intro filter_cong) (auto simp: image_iff)
    have "length r1 + length (filter (\<lambda>d. dma_offender he x d \<and> ident d \<notin> rec_idents r1) es) \<le> KG_MAX_SUSPECT"
      unfolding same using st Cons.prems(3) True by (simp split: if_splits)
    then obtain recs' mem' s' where f: "fold (dma_one he x) es (r1, m1, s1) = (recs', mem', s')" "recs_ok recs'"
      "rec_idents recs' = rec_idents r1 \<union> ident ` {e \<in> set es. dma_offender he x e}"
      "notes_of {KG_ALERT_UNAUTHORIZED_DMA} s' = notes_of {KG_ALERT_UNAUTHORIZED_DMA} s1 @
         map (dma_note he) (filter (\<lambda>e. dma_offender he x e \<and> ident e \<notin> rec_idents recs) es)"
      using Cons.IH [of r1 m1 s1] st Cons.prems(2) unfolding same by auto
    have set: "{d \<in> set (e # es). dma_offender he x d} = insert e {d \<in> set es. dma_offender he x d}" using True by auto
    show ?thesis
      unfolding set using f st True by (simp add: one)
  qed
qed simp

lemma prune_ok: "recs_ok recs \<Longrightarrow> recs_ok (kg_dma_rec_prune cur recs)"
  by (auto simp: recs_ok_def kg_dma_rec_prune_def list_all_iff distinct_map inj_on_def intro: le_trans [OF length_filter_le])

lemma prune_idents: "rec_idents (kg_dma_rec_prune cur recs) = rec_idents recs \<inter> ident ` set cur"
  by (auto simp: rec_idents_def kg_dma_rec_prune_def list_ex_iff same_identity_ident image_iff) metis+

section \<open>Enforcement\<close>

lemma audit_frame:
  "kg_dma_audit he (x, mem, s) = (x', mem', s') \<Longrightarrow> x' = x\<lparr>hw_dma := hw_dma x'\<rparr>"
  by (auto simp: kg_dma_audit_def split: prod.splits)

text \<open>What is relied on when a command register is written: the hardware takes the value, and clearing a bus
  master, through the register or through the PCI core, switches no other one on.\<close>

definition masters_off :: "hw_env \<Rightarrow> bool" where
  "masters_off he \<longleftrightarrow>
     (\<forall>reg v mem. readw (he_writew he reg v mem) reg = v) \<and>
     (\<forall>reg mem a. readw mem a AND PCI_COMMAND_MASTER = 0 \<longrightarrow>
        readw (he_writew he reg (readw mem reg AND NOT PCI_COMMAND_MASTER) mem) a AND PCI_COMMAND_MASTER = 0) \<and>
     (\<forall>d mem a. readw mem a AND PCI_COMMAND_MASTER = 0 \<longrightarrow> readw (he_clear_master he d mem) a AND PCI_COMMAND_MASTER = 0)"

lemma master_cleared [simp]: "(v AND NOT PCI_COMMAND_MASTER) AND PCI_COMMAND_MASTER = 0"
  by (rule bit_word_eqI) (auto simp: bit_simps)

lemma disable_keeps_off:
  assumes "masters_off he" and "readw mem a AND PCI_COMMAND_MASTER = 0"
  shows "readw (fst (kg_disable_bme he x e pdev mem)) a AND PCI_COMMAND_MASTER = 0"
proof -
  let ?m = "case pdev of Some d \<Rightarrow> he_clear_master he d mem | None \<Rightarrow> mem"
  have "readw ?m a AND PCI_COMMAND_MASTER = 0" using assms by (cases pdev) (auto simp: masters_off_def)
  moreover have "readw m a AND PCI_COMMAND_MASTER = 0 \<Longrightarrow> readw (fst (kg_ecam_clear_master he x e m)) a AND PCI_COMMAND_MASTER = 0" for m
    using assms(1) by (auto simp: kg_ecam_clear_master_def masters_off_def Let_def split: option.splits)
  ultimately show ?thesis by (simp add: kg_disable_bme_def Let_def)
qed

lemma disable_clears:
  assumes "masters_off he" and "hw_ecam x \<noteq> []" and "cmd_reg he x e = Some reg"
  shows "readw (fst (kg_disable_bme he x e pdev mem)) reg AND PCI_COMMAND_MASTER = 0"
    and "snd (kg_disable_bme he x e pdev mem)"
  using assms
  by (auto simp: kg_disable_bme_def kg_bme_now_def kg_ecam_clear_master_def masters_off_def Let_def)

lemma dma_one_mem:
  assumes "par_enforce (e_par (he_env he))" and "dma_one he x e (recs, mem, s) = (recs', mem', s')"
  shows "mem' = (if dma_offender he x e then fst (kg_disable_bme he x e (os_dev he e) mem) else mem)"
proof (cases "dma_offender he x e")
  case True
  obtain r1 ri where g: "kg_dma_rec_get e recs = (r1, ri)" by (rule prod.exhaust)
  obtain r2 s2 where a: "dma_alert he e ri (r1, s) = (r2, s2)" by (rule prod.exhaust)
  have "dma_enforce he x e ri (r2, mem, s2) = (recs', mem', s')" using assms(2) True by (simp add: dma_one_def g a)
  then show ?thesis
    using assms(1) True by (auto simp: dma_enforce_def kg_enforcing_def split: prod.splits option.splits if_splits)
qed (use assms in \<open>simp add: dma_one_def\<close>)

lemma dma_fold_mem:
  assumes "par_enforce (e_par (he_env he))" and "masters_off he" and "hw_ecam x \<noteq> []"
    and "fold (dma_one he x) es (recs, mem, s) = (recs', mem', s')"
  shows "(\<forall>a. readw mem a AND PCI_COMMAND_MASTER = 0 \<longrightarrow> readw mem' a AND PCI_COMMAND_MASTER = 0) \<and>
     (\<forall>e reg. e \<in> set es \<and> dma_offender he x e \<and> cmd_reg he x e = Some reg \<longrightarrow> readw mem' reg AND PCI_COMMAND_MASTER = 0)"
  using assms(4)
proof (induction es arbitrary: recs mem s)
  case (Cons e es)
  obtain r1 m1 s1 where one: "dma_one he x e (recs, mem, s) = (r1, m1, s1)" by (metis prod.exhaust)
  have m1: "m1 = (if dma_offender he x e then fst (kg_disable_bme he x e (os_dev he e) mem) else mem)"
    by (rule dma_one_mem [OF assms(1) one])
  have ih: "(\<forall>a. readw m1 a AND PCI_COMMAND_MASTER = 0 \<longrightarrow> readw mem' a AND PCI_COMMAND_MASTER = 0) \<and>
     (\<forall>e reg. e \<in> set es \<and> dma_offender he x e \<and> cmd_reg he x e = Some reg \<longrightarrow> readw mem' reg AND PCI_COMMAND_MASTER = 0)"
    using Cons.IH [of r1 m1 s1] Cons.prems by (simp add: one)
  have keep: "readw mem a AND PCI_COMMAND_MASTER = 0 \<Longrightarrow> readw m1 a AND PCI_COMMAND_MASTER = 0" for a
    using disable_keeps_off [OF assms(2)] by (simp add: m1)
  have own: "dma_offender he x e \<Longrightarrow> cmd_reg he x e = Some reg \<Longrightarrow> readw m1 reg AND PCI_COMMAND_MASTER = 0" for reg
    using disable_clears(1) [OF assms(2,3)] by (simp add: m1)
  show ?case using ih keep own by (metis set_ConsD)
qed simp

section \<open>The baseline\<close>

definition base_add :: "pci_dev \<Rightarrow> kg_pci_ent list \<Rightarrow> kg_pci_ent list" where
  "base_add pdev base =
     (if \<not> pd_is_virtfn pdev \<and> ident (os_probe pdev) \<notin> ident ` set base \<and> length base < KG_MAX_PCI
      then base @ [os_probe pdev] else base)"

lemma baseline_adds: "hw_base (kg_baseline_add_os_view he x) = fold base_add (he_devs he) (hw_base x)"
proof -
  have "list_ex (\<lambda>b. kg_same_identity b (os_probe d)) base \<longleftrightarrow> ident (os_probe d) \<in> ident ` set base" for d base
    by (auto simp: list_ex_iff same_identity_ident image_iff eq_commute)
  then have "(\<lambda>pdev base. if pd_is_virtfn pdev then base
      else if \<not> list_ex (\<lambda>b. kg_same_identity b (os_probe pdev)) base \<and> length base < KG_MAX_PCI
      then base @ [os_probe pdev] else base) = base_add"
    by (intro ext) (simp add: base_add_def)
  then show ?thesis by (simp add: kg_baseline_add_os_view_def)
qed

lemma base_add_grows: "set base \<subseteq> set (fold base_add ds base)" "length base \<le> length (fold base_add ds base)"
  "length base \<le> KG_MAX_PCI \<Longrightarrow> length (fold base_add ds base) \<le> KG_MAX_PCI"
proof -
  have 1: "set base \<subseteq> set (base_add d base)" "length base \<le> length (base_add d base)"
    "length base \<le> KG_MAX_PCI \<Longrightarrow> length (base_add d base) \<le> KG_MAX_PCI" for d base
    by (auto simp: base_add_def)
  show "set base \<subseteq> set (fold base_add ds base)"
    using 1(1) by (induction ds arbitrary: base) (auto simp: subset_iff)
  show "length base \<le> length (fold base_add ds base)"
  proof (induction ds arbitrary: base)
    case (Cons d ds)
    show ?case using le_trans [OF 1(2) Cons.IH] by simp
  qed simp
  show "length base \<le> KG_MAX_PCI \<Longrightarrow> length (fold base_add ds base) \<le> KG_MAX_PCI"
  proof (induction ds arbitrary: base)
    case (Cons d ds)
    show ?case using Cons.IH [OF 1(3) [OF Cons.prems]] by simp
  qed simp
qed

lemma base_add_all:
  assumes "length (fold base_add ds base) < KG_MAX_PCI" and "d \<in> set ds" and "\<not> pd_is_virtfn d"
  shows "ident (os_probe d) \<in> ident ` set (fold base_add ds base)"
  using assms
proof (induction ds arbitrary: base)
  case (Cons c ds)
  show ?case
  proof (cases "d = c")
    case True
    have "length (base_add c base) < KG_MAX_PCI" using Cons.prems(1) base_add_grows(2) [of "base_add c base" ds] by simp
    then have "ident (os_probe d) \<in> ident ` set (base_add c base)"
      using Cons.prems(3) True by (auto simp: base_add_def split: if_splits)
    then show ?thesis using base_add_grows(1) [of "base_add c base" ds] by (simp add: image_iff) blast
  qed (use Cons in simp)
qed simp

lemma authorized_base: "ident e \<in> ident ` set (hw_base x) \<Longrightarrow> kg_dma_authorized he x e"
  by (auto simp: kg_dma_authorized_def list_ex_iff same_identity_ident image_iff eq_commute)

lemma baseline_frame_hw [simp]:
  "hw_cur (kg_baseline_add_os_view he x) = hw_cur x" "hw_ecam (kg_baseline_add_os_view he x) = hw_ecam x"
  by (simp_all add: kg_baseline_add_os_view_def)

lemma scan_frame_hw [simp]:
  "hw_ecam (kg_scan_ecam he mem x) = hw_ecam x" "hw_susp (kg_scan_ecam he mem x) = hw_susp x" "hw_dma (kg_scan_ecam he mem x) = hw_dma x"
  "hw_base (kg_scan_ecam he mem x) = hw_base x"
  "hw_ecam (kg_scan_os he x) = hw_ecam x" "hw_susp (kg_scan_os he x) = hw_susp x" "hw_dma (kg_scan_os he x) = hw_dma x"
  "hw_base (kg_scan_os he x) = hw_base x"
  by (simp_all add: kg_scan_ecam_def kg_scan_os_def)

lemma scan_os_le: "length (hw_cur (kg_scan_os he x)) \<le> KG_MAX_PCI"
proof -
  have "length cur \<le> KG_MAX_PCI \<Longrightarrow> length (fold (\<lambda>pdev cur. if pd_is_virtfn pdev \<or> KG_MAX_PCI \<le> length cur then cur else cur @ [os_ent pdev]) ds cur) \<le> KG_MAX_PCI"
    for ds cur
    by (induction ds arbitrary: cur) auto
  then show ?thesis by (simp add: kg_scan_os_def)
qed

section \<open>What every operation keeps\<close>

lemma susp_ok_update:
  assumes "susp_ok susp" and "i < KG_MAX_SUSPECT" and "su_seen v \<noteq> 0 \<Longrightarrow> su_reported v = (2 \<le> su_seen v)"
    and "\<And>j. j < KG_MAX_SUSPECT \<Longrightarrow> j \<noteq> i \<Longrightarrow> su_seen v \<noteq> 0 \<Longrightarrow> su_seen (susp ! j) \<noteq> 0 \<Longrightarrow> slot_key (susp ! j) \<noteq> slot_key v"
  shows "susp_ok (susp[i := v])"
proof -
  have len: "length susp = KG_MAX_SUSPECT" using assms(1) by (simp add: susp_ok_def)
  have at: "susp[i := v] ! j = (if j = i then v else susp ! j)" if "j < KG_MAX_SUSPECT" for j
    using that len by (simp add: nth_list_update_if)
  have "a = b" if "a < KG_MAX_SUSPECT" "b < KG_MAX_SUSPECT" "su_seen (susp[i := v] ! a) \<noteq> 0" "su_seen (susp[i := v] ! b) \<noteq> 0"
    "slot_key (susp[i := v] ! a) = slot_key (susp[i := v] ! b)" for a b
  proof (cases "a = i \<or> b = i")
    case True
    then show ?thesis using that assms(4) [of a] assms(4) [of b] at by (auto split: if_splits)
  next
    case False
    then show ?thesis using that assms(1) at unfolding susp_ok_def by metis
  qed
  moreover have "su_reported su = (2 \<le> su_seen su)" if "su \<in> set (susp[i := v])" "su_seen su \<noteq> 0" for su
    using that assms(1,3) set_update_subset [of susp i v] unfolding susp_ok_def by blast
  ultimately show ?thesis unfolding susp_ok_def using len by simp
qed

lemma stepped_reported:
  "su_reported su \<Longrightarrow> stepped su = (if su_seen su < 255 then su\<lparr>su_seen := su_seen su + 1\<rparr> else su)"
  by (simp add: stepped_def)

lemma note_ok:
  assumes "susp_ok susp" and "kg_note_suspect env kind e (susp, touched, s) = (susp', touched', s')"
  shows "susp_ok susp' \<and> length touched' = length touched"
proof -
  let ?P = "\<lambda>i. su_seen (susp ! i) \<noteq> 0 \<and> su_kind (susp ! i) = kind \<and> kg_same_dev (su_e (susp ! i)) e"
  have P: "?P i \<longleftrightarrow> su_seen (susp ! i) \<noteq> 0 \<and> slot_key (susp ! i) = (kind, addr e)" for i
    by (simp add: same_dev_addr slot_key_def)
  show ?thesis
  proof (cases "List.find ?P [0..<KG_MAX_SUSPECT]")
    case (Some i)
    then have i: "i < KG_MAX_SUSPECT" "?P i" by (auto simp: find_Some_iff)
    have mem: "susp ! i \<in> set susp" using assms(1) i(1) by (simp add: susp_ok_def)
    have rep: "su_reported (susp ! i) = (2 \<le> su_seen (susp ! i))" using assms(1) mem i(2) by (simp add: susp_ok_def)
    have "susp' = susp[i := stepped (susp ! i)] \<and> touched' = touched[i := True]"
    proof (cases "su_reported (susp ! i)")
      case True
      then show ?thesis using assms(2) by (simp add: kg_note_suspect_def Some stepped_reported Let_def split: if_splits)
    next
      case False
      then show ?thesis using assms(2) u8_next [of "su_seen (susp ! i)"] i(2)
        by (auto simp: kg_note_suspect_def Some stepped_def kg_suspect_report_def Let_def)
    qed
    moreover have "susp_ok (susp[i := stepped (susp ! i)])"
    proof (rule susp_ok_update [OF assms(1) i(1)])
      show "su_reported (stepped (susp ! i)) = (2 \<le> su_seen (stepped (susp ! i)))"
        using u8_next [of "su_seen (susp ! i)"] i(2) by (simp add: stepped_def)
      show "slot_key (susp ! j) \<noteq> slot_key (stepped (susp ! i))" if "j < KG_MAX_SUSPECT" "j \<noteq> i" "su_seen (susp ! j) \<noteq> 0" for j
        using assms(1) that i stepped_slot(2) [of "susp ! i"] unfolding susp_ok_def by metis
    qed
    ultimately show ?thesis by simp
  next
    case None
    then have none: "\<not> ?P j" if "j < KG_MAX_SUSPECT" for j using that by (auto simp: find_None_iff)
    let ?v = "\<lparr>su_e = e, su_kind = kind, su_seen = 1, su_reported = False\<rparr>"
    have ok: "susp_ok (susp[i := ?v])" if "i < KG_MAX_SUSPECT" for i
    proof (rule susp_ok_update [OF assms(1) that])
      show "slot_key (susp ! j) \<noteq> slot_key ?v" if "j < KG_MAX_SUSPECT" "su_seen (susp ! j) \<noteq> 0" for j
        using none [OF that(1)] that(2) by (simp add: P slot_key_def) (simp add: same_dev_addr)
    qed (simp add: word_le_nat_alt)
    show ?thesis
      using assms None ok by (auto simp: kg_note_suspect_def find_Some_iff split: option.splits)
  qed
qed

lemma notes_ok:
  "susp_ok susp \<Longrightarrow> fold (\<lambda>(kind, e). kg_note_suspect env kind e) ds (susp, touched, s) = (susp', touched', s') \<Longrightarrow>
     susp_ok susp' \<and> length touched' = length touched"
proof (induction ds arbitrary: susp touched s)
  case (Cons d ds)
  obtain kind e where d: "d = (kind, e)" by fastforce
  obtain s1 t1 y1 where n: "kg_note_suspect env kind e (susp, touched, s) = (s1, t1, y1)" by (metis prod.exhaust)
  have "susp_ok s1" "length t1 = length touched" using note_ok [OF Cons.prems(1) n] by simp_all
  then show ?case using Cons.IH [of s1 t1 y1] Cons.prems(2) by (simp add: d n)
qed simp

lemma settled_keeps_ok:
  assumes "susp_ok susp"
  shows "susp_ok (settled susp touched)"
  unfolding susp_ok_def
proof (intro conjI allI impI ballI)
  show "length (settled susp touched) = KG_MAX_SUSPECT" by (simp add: settled_def)
next
  fix i j assume ij: "i < KG_MAX_SUSPECT" "j < KG_MAX_SUSPECT"
    "su_seen (settled susp touched ! i) \<noteq> 0 \<and> su_seen (settled susp touched ! j) \<noteq> 0 \<and>
     slot_key (settled susp touched ! i) = slot_key (settled susp touched ! j)"
  have "settled susp touched ! i = susp ! i" "settled susp touched ! j = susp ! j"
    using ij by (auto simp: settled_nth zero_suspect_def split: if_splits)
  then show "i = j" using ij assms unfolding susp_ok_def by metis
next
  fix su assume su: "su \<in> set (settled susp touched)" "su_seen su \<noteq> 0"
  then have "su \<in> set susp" using assms by (auto simp: settled_def zero_suspect_def susp_ok_def split: if_splits)
  then show "su_reported su = (2 \<le> su_seen su)" using assms su(2) by (simp add: susp_ok_def)
qed

lemma cross_check_frame:
  "\<exists>susp s'. kg_cross_check he (x, s) = (x\<lparr>hw_susp := susp\<rparr>, s') \<and> (susp_ok (hw_susp x) \<longrightarrow> susp_ok susp)"
proof -
  obtain susp touched s' where f: "fold (\<lambda>(kind, e). kg_note_suspect (he_env he) kind e) (discrepancies he x)
      (hw_susp x, replicate KG_MAX_SUSPECT False, s) = (susp, touched, s')" by (metis prod.exhaust)
  then have "kg_cross_check he (x, s) = (x\<lparr>hw_susp := settled susp touched\<rparr>, s')"
    by (simp add: kg_cross_check_def cross_folds settled_def)
  then show ?thesis using notes_ok [OF _ f] settled_keeps_ok by blast
qed

lemma dma_one_ok:
  assumes "recs_ok recs" and "dma_one he x e (recs, mem, s) = (recs', mem', s')"
  shows "recs_ok recs'"
proof (cases "dma_offender he x e \<and> ident e \<notin> rec_idents recs \<and> \<not> length recs < KG_MAX_SUSPECT")
  case True
  then have "dma_enforce he x e None (recs, mem, s) = (recs', mem', s')"
    using assms(2) rec_get_new [of e recs] by (simp add: dma_one_def dma_alert_def)
  then show ?thesis using recs_ok_maps(1) [OF enforce_maps] assms(1) by blast
next
  case False
  show ?thesis
  proof (cases "dma_offender he x e")
    case True
    then show ?thesis using dma_one_step [OF assms(1) True _ assms(2)] False by blast
  qed (use assms in \<open>simp add: dma_one_def\<close>)
qed

lemma dma_all_ok: "recs_ok recs \<Longrightarrow> fold (dma_one he x) es (recs, mem, s) = (recs', mem', s') \<Longrightarrow> recs_ok recs'"
proof (induction es arbitrary: recs mem s)
  case (Cons e es)
  obtain r1 m1 s1 where one: "dma_one he x e (recs, mem, s) = (r1, m1, s1)" by (metis prod.exhaust)
  show ?case using Cons.IH [OF dma_one_ok [OF Cons.prems(1) one]] Cons.prems(2) one by simp
qed simp

text \<open>The books of the monitor: the tables keep their bounds and their meaning, and nothing is pending once it is stopped.\<close>

definition hw_inv :: "kg_hw \<Rightarrow> bool" where
  "hw_inv x \<longleftrightarrow> length (hw_ecam x) \<le> KG_MAX_ECAM \<and> length (hw_cur x) \<le> KG_MAX_PCI \<and> length (hw_base x) \<le> KG_MAX_PCI \<and>
     susp_ok (hw_susp x) \<and> recs_ok (hw_dma x) \<and> (hw_stop x \<longrightarrow> hw_queued x = None) \<and> (hw_running x \<longrightarrow> hw_bufs x \<and> \<not> hw_stop x) \<and>
     (\<not> hw_stop x \<longrightarrow> hw_running x)"

datatype hw_act =
    Hw_init hw_env hw_init_env
  | Hw_work hw_env
  | Hw_kick
  | Hw_notify bus_action
  | Hw_device pci_mem
  | Hw_exit

fun hw_do :: "hw_act \<Rightarrow> hw_st \<Rightarrow> hw_st" where
  "hw_do (Hw_init he hi) st = (if hw_running (fst st) then st else fst (kg_hw_init he hi st))"
| "hw_do (Hw_work he) st = (if hw_queued (fst st) = None then st else kg_hw_workfn he st)"
| "hw_do Hw_kick st = (kg_hw_kick (fst st), snd st)"
| "hw_do (Hw_notify a) st = (kg_pci_notify a (fst st), snd st)"
| "hw_do (Hw_device mem) st = (fst st, mem, snd (snd st))"
| "hw_do Hw_exit st = (kg_hw_exit (fst st), snd st)"

lemma scan_ecam_le: "length (hw_cur (kg_scan_ecam he mem x)) \<le> KG_MAX_PCI"
  by (simp add: scan_cur)

lemma susp_ok_loaded: "susp_ok (replicate KG_MAX_SUSPECT zero_suspect)"
  by (simp add: susp_ok_def zero_suspect_def)

lemma ecam_collect_le: "length acc \<le> KG_MAX_ECAM \<Longrightarrow> length (ecam_collect t is acc) \<le> KG_MAX_ECAM"
  by (induction t "is" acc rule: ecam_collect.induct) (simp_all add: Let_def)

lemma ecam_init_le: "length ecam \<le> KG_MAX_ECAM \<Longrightarrow> length (fst (kg_ecam_init mcfg ecam)) \<le> KG_MAX_ECAM"
  by (auto simp: kg_ecam_init_def Let_def ecam_collect_le split: option.splits)

lemma scan_pass:
  "\<exists>cur susp dma mem' s'. kg_hw_scan he (x, mem, s) = (x\<lparr>hw_cur := cur, hw_susp := susp, hw_dma := dma\<rparr>, mem', s') \<and>
     length cur \<le> KG_MAX_PCI \<and> (susp_ok (hw_susp x) \<longrightarrow> susp_ok susp) \<and> (recs_ok (hw_dma x) \<longrightarrow> recs_ok dma)"
proof -
  have audit: "\<exists>dma mem' s'. kg_dma_audit he (y, mem, s) = (y\<lparr>hw_dma := dma\<rparr>, mem', s') \<and> (recs_ok (hw_dma y) \<longrightarrow> recs_ok dma)" for y s
  proof -
    obtain recs m1 s1 where f: "fold (dma_one he y) (hw_cur y) (hw_dma y, mem, s) = (recs, m1, s1)" by (metis prod.exhaust)
    have "kg_dma_audit he (y, mem, s) = (y\<lparr>hw_dma := kg_dma_rec_prune (hw_cur y) recs\<rparr>, m1, s1)" by (simp add: kg_dma_audit_def f)
    then show ?thesis using dma_all_ok [OF _ f] prune_ok by blast
  qed
  show ?thesis
  proof (cases "hw_ecam x = []")
    case True
    obtain dma mem' s' where a: "kg_dma_audit he (kg_scan_os he x, mem, s) = ((kg_scan_os he x)\<lparr>hw_dma := dma\<rparr>, mem', s')"
      "recs_ok (hw_dma x) \<longrightarrow> recs_ok dma" using audit [of "kg_scan_os he x" s] by auto
    have "(kg_scan_os he x)\<lparr>hw_dma := dma\<rparr> = x\<lparr>hw_cur := hw_cur (kg_scan_os he x), hw_susp := hw_susp x, hw_dma := dma\<rparr>"
      by (simp add: kg_scan_os_def)
    then show ?thesis using a scan_os_le [of he x] True
      by (intro exI [of _ "hw_cur (kg_scan_os he x)"] exI [of _ "hw_susp x"] exI [of _ dma] exI [of _ mem'] exI [of _ s'])
        (simp add: kg_hw_scan_def)
  next
    case False
    let ?y = "kg_scan_ecam he mem x"
    obtain susp s1 where c: "kg_cross_check he (?y, s) = (?y\<lparr>hw_susp := susp\<rparr>, s1)" "susp_ok (hw_susp x) \<longrightarrow> susp_ok susp"
      using cross_check_frame [of he ?y s] by auto
    obtain dma mem' s' where a: "kg_dma_audit he (?y\<lparr>hw_susp := susp\<rparr>, mem, s1) = (?y\<lparr>hw_susp := susp, hw_dma := dma\<rparr>, mem', s')"
      "recs_ok (hw_dma x) \<longrightarrow> recs_ok dma" using audit [of "?y\<lparr>hw_susp := susp\<rparr>" s1] by auto
    have "?y\<lparr>hw_susp := susp, hw_dma := dma\<rparr> = x\<lparr>hw_cur := hw_cur ?y, hw_susp := susp, hw_dma := dma\<rparr>"
      by (simp add: kg_scan_ecam_def)
    then show ?thesis using a c scan_ecam_le [of he mem x] False
      by (intro exI [of _ "hw_cur ?y"] exI [of _ susp] exI [of _ dma] exI [of _ mem'] exI [of _ s'])
        (simp add: kg_hw_scan_def)
  qed
qed

lemma hw_inv_init:
  assumes "hw_inv (fst st)" and "\<not> hw_running (fst st)"
  shows "hw_inv (fst (fst (kg_hw_init he hi st)))"
proof -
  obtain x mem s where st: "st = (x, mem, s)" by (metis prod.exhaust)
  obtain ecam ret where e: "kg_ecam_init (hi_mcfg hi) (hw_ecam x) = (ecam, ret)" by (rule prod.exhaust)
  have "length ecam \<le> KG_MAX_ECAM" using ecam_init_le [of "hw_ecam x" "hi_mcfg hi"] assms(1) e by (simp add: st hw_inv_def)
  then show ?thesis
    using assms scan_ecam_le [of he mem] scan_os_le [of he] base_add_grows(3) [of _ "he_devs he"]
    by (simp add: st e kg_hw_init_def Let_def hw_inv_def baseline_adds recs_ok_def) (simp add: kg_baseline_add_os_view_def kg_scan_ecam_def kg_scan_os_def)
qed

lemma hw_requeue_frame [simp]:
  "hw_ecam (hw_requeue d x) = hw_ecam x" "hw_cur (hw_requeue d x) = hw_cur x" "hw_base (hw_requeue d x) = hw_base x"
  "hw_susp (hw_requeue d x) = hw_susp x" "hw_dma (hw_requeue d x) = hw_dma x" "hw_stop (hw_requeue d x) = hw_stop x"
  "hw_running (hw_requeue d x) = hw_running x" "hw_bufs (hw_requeue d x) = hw_bufs x"
  "hw_stop x \<Longrightarrow> hw_requeue d x = x"
  by (simp_all add: hw_requeue_def)

lemma hw_kick_frame [simp]:
  "hw_ecam (kg_hw_kick x) = hw_ecam x" "hw_cur (kg_hw_kick x) = hw_cur x" "hw_base (kg_hw_kick x) = hw_base x"
  "hw_susp (kg_hw_kick x) = hw_susp x" "hw_dma (kg_hw_kick x) = hw_dma x" "hw_stop (kg_hw_kick x) = hw_stop x"
  "hw_running (kg_hw_kick x) = hw_running x" "hw_bufs (kg_hw_kick x) = hw_bufs x"
  "hw_stop x \<Longrightarrow> kg_hw_kick x = x"
  by (simp_all add: kg_hw_kick_def)

lemma hw_inv_work:
  assumes "hw_inv (fst st)"
  shows "hw_inv (fst (kg_hw_workfn he st))"
proof -
  obtain x mem s where st: "st = (x, mem, s)" by (metis prod.exhaust)
  obtain cur susp dma mem' s' where p: "kg_hw_scan he (x\<lparr>hw_queued := None\<rparr>, mem, s) =
      (x\<lparr>hw_queued := None, hw_cur := cur, hw_susp := susp, hw_dma := dma\<rparr>, mem', s')"
    "length cur \<le> KG_MAX_PCI" "susp_ok (hw_susp x) \<longrightarrow> susp_ok susp" "recs_ok (hw_dma x) \<longrightarrow> recs_ok dma"
    using scan_pass [of he "x\<lparr>hw_queued := None\<rparr>" mem s] by auto
  show ?thesis
    using assms p(2-4) by (cases "hw_stop x") (auto simp: st kg_hw_workfn_def p(1) hw_inv_def)
qed

lemma hw_inv_small:
  "hw_inv x \<Longrightarrow> hw_inv (kg_hw_kick x)" "hw_inv x \<Longrightarrow> hw_inv (kg_pci_notify a x)" "hw_inv x \<Longrightarrow> hw_inv (kg_hw_exit x)"
  by (auto simp: kg_hw_kick_def kg_pci_notify_def kg_hw_exit_def hw_inv_def)

lemma hw_inv_do: "hw_inv (fst st) \<Longrightarrow> hw_inv (fst (hw_do a st))"
  by (cases a) (simp_all add: hw_inv_init hw_inv_work hw_inv_small)

lemma hw_inv_run: "hw_inv (fst st) \<Longrightarrow> hw_inv (fst (fold hw_do acts st))"
  by (induction acts arbitrary: st) (simp_all add: hw_inv_do)

lemma hw_inv_loaded: "hw_inv hw_loaded"
  by (simp add: hw_inv_def hw_loaded_def susp_ok_loaded recs_ok_def)

section \<open>The table of regions\<close>

lemma mcfg_count_eq:
  "mcfg_count t = (if unat (mt_length t) < 44 then - int ((59 - unat (mt_length t)) div 16) else int ((unat (mt_length t) - 44) div 16))"
proof -
  let ?L = "unat (mt_length t)"
  have L: "?L < 2 ^ 32" by (rule less_le_trans [OF unat_bound]) simp
  have cast: "unat (ucast (mt_length t) :: u64) = ?L" by (rule unat_ucast_up) simp
  let ?d = "ucast (mt_length t) - SIZEOF_MCFG :: u64"
  show ?thesis
  proof (cases "?L < 44")
    case False
    then have "unat ?d = ?L - 44" by (simp add: unat_sub word_le_nat_alt cast kg_const)
    then have q: "unat (?d div SIZEOF_MCFG_ALLOC) = (?L - 44) div 16" by (simp add: unat_div kg_const)
    then have r: "unat (ucast (?d div SIZEOF_MCFG_ALLOC) :: u32) = (?L - 44) div 16"
      using L by (simp add: unsigned_ucast_eq take_bit_nat_eq_self)
    have "(?L - 44) div 16 < 2 ^ 31" using L by simp
    then have "sint (ucast (?d div SIZEOF_MCFG_ALLOC) :: u32) = int ((?L - 44) div 16)"
      using r by (simp add: sint_uint uint_nat signed_take_bit_int_eq_self)
    with False show ?thesis by (simp add: mcfg_count_def)
  next
    case True
    have "mt_length t = of_nat ?L" by simp
    moreover have "?L \<in> set [0..<44]" using True by simp
    ultimately obtain n where n: "mt_length t = of_nat n" "n \<in> set [0..<44]" "?L = n" by blast
    show ?thesis using n(2) unfolding mcfg_count_def n(3) unfolding n(1)
      by (auto simp: upt_rec kg_const)
  qed
qed


lemma mcfg_in_table: "i < nat (mcfg_count t) \<Longrightarrow> 44 + 16 * (i + 1) \<le> unat (mt_length t)"
  by (auto simp: mcfg_count_eq split: if_splits)

section \<open>Properties\<close>


definition example_seg :: kg_ecam_seg where
  "example_seg = \<lparr>es_base = 0xe0000000, es_seg = 0, es_bus_start = 0, es_bus_end = 0\<rparr>"

text \<open>One network card at device 3, bus-master enabled.\<close>

definition example_pci_mem :: pci_mem where
  "example_pci_mem a = (if a < 0xe0018000 \<or> 0xe0018010 \<le> a then 0xff
     else [0x86, 0x80, 0x34, 0x12, 4, 0, 0, 0, 0, 0, 0, 2, 0, 0, 0, 0] ! unat (a - 0xe0018000))"

definition example_pci_ent :: kg_pci_ent where
  "example_pci_ent = \<lparr>pe_seg = 0, pe_bus = 0, pe_dev = 3, pe_fn = 0, pe_vid = 0x8086, pe_did = 0x1234, pe_class_rev = 0x02000000,
     pe_cmd = 4, pe_hdr = 0, pe_from_ecam = True\<rparr>"

definition example_hw_env :: "pci_dev list \<Rightarrow> hw_env" where
  "example_hw_env devs = \<lparr>he_env = example_env 0, he_devs = devs, he_buses = [], he_map = (\<lambda>a. True),
     he_writew = (\<lambda>reg v m. m(reg := ucast v, reg + 1 := ucast (drop_bit 8 v))), he_clear_master = (\<lambda>d m. m), he_dma_allow = ''''\<rparr>"

lemma one_bus_chain: "chains_below he mem example_seg 9 r"
proof -
  have "bridges he mem example_seg = {}"
  proof -
    have False if "c \<in> set (bus_next he mem example_seg b)" for b c
      using bus_next_range [OF that] by (auto simp: example_seg_def)
    then show ?thesis unfolding bridges_def by blast
  qed
  then show ?thesis by (simp add: chains_below_def eval_nat_numeral)
qed


text \<open>
  C13.  A discrepancy is reported when it is seen in the second scan in a row, once, and never for a single sighting.  A
  cross-check meets every discrepancy between the two views once, when no address occurs twice in either; with room in
  the table, it advances the count of consecutive sightings of each and forgets every other one, and it
  reports exactly those whose count was one, with the address and identity of the first sighting.
\<close>
theorem cross_check_exact:
  assumes "susp_ok (hw_susp x)" and "distinct (map addr (hw_cur x))"
    and "distinct (map (\<lambda>d. addr (os_probe d)) (filter (\<lambda>d. \<not> pd_is_virtfn d) (he_devs he)))"
    and "card (slot_keys (hw_susp x) \<union> disc_key ` set (discrepancies he x)) \<le> KG_MAX_SUSPECT"
  shows "case kg_cross_check he (x, s) of (x', s') \<Rightarrow>
     x' = x\<lparr>hw_susp := hw_susp x'\<rparr> \<and> susp_ok (hw_susp x') \<and>
     seen_of (hw_susp x') = (\<lambda>k. if k \<in> disc_key ` set (discrepancies he x) then min 255 (seen_of (hw_susp x) k + 1) else 0) \<and>
     notes_of {KG_ALERT_PCI_DISCREPANCY} s' =
       notes_of {KG_ALERT_PCI_DISCREPANCY} s @ concat (map (\<lambda>d. due (hw_susp x) (disc_key d)) (discrepancies he x))"
proof -
  obtain susp s' where r: "kg_cross_check he (x, s) = (x\<lparr>hw_susp := susp\<rparr>, s')" and ok: "susp_ok susp"
    and seen: "\<forall>k. seen_of susp k = (if k \<in> disc_key ` set (discrepancies he x) then min 255 (seen_of (hw_susp x) k + 1) else 0)"
    and n: "notes_of {KG_ALERT_PCI_DISCREPANCY} s' =
       notes_of {KG_ALERT_PCI_DISCREPANCY} s @ concat (map (\<lambda>d. due (hw_susp x) (disc_key d)) (discrepancies he x))"
    using cross_check_spec [OF assms(1) discrepancies_distinct [OF assms(2,3)] assms(4), of s] by (elim exE conjE) (rule that; assumption)
  have "seen_of susp = (\<lambda>k. if k \<in> disc_key ` set (discrepancies he x) then min 255 (seen_of (hw_susp x) k + 1) else 0)"
    by (intro ext) (use seen in blast)
  then show ?thesis using ok n by (simp add: r)
qed

text \<open>A hidden card that one scan has seen.\<close>

definition example_suspects :: "kg_suspect list" where
  "example_suspects = \<lparr>su_e = example_pci_ent, su_kind = KG_PCI_HIDDEN_FROM_OS, su_seen = 1, su_reported = False\<rparr> #
     replicate 63 zero_suspect"

definition example_hw :: kg_hw where
  "example_hw = hw_loaded\<lparr>hw_ecam := [example_seg], hw_cur := [example_pci_ent], hw_susp := example_suspects\<rparr>"

lemma example_suspects_ok: "susp_ok example_suspects" "slot_keys example_suspects = {(KG_PCI_HIDDEN_FROM_OS, addr example_pci_ent)}"
proof -
  have used: "su_seen (example_suspects ! i) \<noteq> 0 \<Longrightarrow> i < 64 \<Longrightarrow> i = 0" for i
    by (cases i) (simp_all add: example_suspects_def zero_suspect_def)
  show "susp_ok example_suspects"
    unfolding susp_ok_def
  proof (intro conjI allI impI)
    show "length example_suspects = KG_MAX_SUSPECT" by (simp add: example_suspects_def kg_const)
    show "i = j" if "i < KG_MAX_SUSPECT" "j < KG_MAX_SUSPECT"
      "su_seen (example_suspects ! i) \<noteq> 0 \<and> su_seen (example_suspects ! j) \<noteq> 0 \<and> slot_key (example_suspects ! i) = slot_key (example_suspects ! j)" for i j
      using that used [of i] used [of j] by (simp add: kg_const)
    show "\<forall>su\<in>set example_suspects. su_seen su \<noteq> 0 \<longrightarrow> su_reported su = (2 \<le> su_seen su)"
      by (auto simp: example_suspects_def zero_suspect_def word_le_nat_alt)
  qed
  have "{su \<in> set example_suspects. su_seen su \<noteq> 0} =
      {\<lparr>su_e = example_pci_ent, su_kind = KG_PCI_HIDDEN_FROM_OS, su_seen = 1, su_reported = False\<rparr>}"
    by (auto simp: example_suspects_def zero_suspect_def)
  then show "slot_keys example_suspects = {(KG_PCI_HIDDEN_FROM_OS, addr example_pci_ent)}"
    by (simp add: slot_keys_def slot_key_def)
qed

lemma example_discrepancy: "discrepancies (example_hw_env []) example_hw = [(KG_PCI_HIDDEN_FROM_OS, example_pci_ent)]"
  by (simp add: discrepancies_def example_hw_def example_hw_env_def hw_suspect_def os_dev_def pci_get_def map_filter_Cons' map_filter_nil)

theorem cross_check_exact_witness:
  "notes_of {KG_ALERT_PCI_DISCREPANCY} (snd (kg_cross_check (example_hw_env []) (example_hw, example_sys))) =
     notes_of {KG_ALERT_PCI_DISCREPANCY} example_sys @ [(KG_ALERT_PCI_DISCREPANCY, KG_LEVEL_WATCH, 0x300, 0x180861234)]"
proof -
  have due: "due example_suspects (KG_PCI_HIDDEN_FROM_OS, addr example_pci_ent) =
      [(KG_ALERT_PCI_DISCREPANCY, KG_LEVEL_WATCH, 0x300, 0x180861234)]"
    by (simp add: due_def slot_of_def example_suspects_def slot_key_def suspect_note_def suspect_p2_def kg_bdf_def example_pci_ent_def
        KG_PCI_HIDDEN_FROM_OS_def KG_PCI_IDENTITY_MISMATCH_def)
  have x: "hw_susp example_hw = example_suspects" "hw_cur example_hw = [example_pci_ent]" by (simp_all add: example_hw_def)
  have "he_devs (example_hw_env []) = []" by (simp add: example_hw_env_def)
  then have "case kg_cross_check (example_hw_env []) (example_hw, example_sys) of (x', s') \<Rightarrow>
     x' = example_hw\<lparr>hw_susp := hw_susp x'\<rparr> \<and> susp_ok (hw_susp x') \<and>
     seen_of (hw_susp x') = (\<lambda>k. if k \<in> disc_key ` set (discrepancies (example_hw_env []) example_hw) then min 255 (seen_of (hw_susp example_hw) k + 1) else 0) \<and>
     notes_of {KG_ALERT_PCI_DISCREPANCY} s' =
       notes_of {KG_ALERT_PCI_DISCREPANCY} example_sys @ concat (map (\<lambda>d. due (hw_susp example_hw) (disc_key d)) (discrepancies (example_hw_env []) example_hw))"
    by (intro cross_check_exact) (simp_all add: x example_suspects_ok example_discrepancy kg_const)
  then show ?thesis by (simp add: example_discrepancy x due split: prod.splits)
qed

text \<open>
  C15.  The audit of bus masters is exact.  With room for every offender, one pass alerts exactly the listed endpoints that are
  bus masters, are not authorised and were not on record from the pass before, in the order of the list; afterwards every offender of the
  list is on record as alerted, devices that have left are forgotten, and only the records, the hardware
  and the core's state have changed.
\<close>
theorem dma_audit_exact:
  assumes "recs_ok (hw_dma x)" and "distinct (map ident (hw_cur x))"
    and "length (hw_dma x) + length (filter (\<lambda>e. dma_offender he x e \<and> ident e \<notin> rec_idents (hw_dma x)) (hw_cur x)) \<le> KG_MAX_SUSPECT"
  shows "case kg_dma_audit he (x, mem, s) of (x', mem', s') \<Rightarrow>
     x' = x\<lparr>hw_dma := hw_dma x'\<rparr> \<and> recs_ok (hw_dma x') \<and>
     rec_idents (hw_dma x') = (rec_idents (hw_dma x) \<inter> ident ` set (hw_cur x)) \<union> ident ` {e \<in> set (hw_cur x). dma_offender he x e} \<and>
     notes_of {KG_ALERT_UNAUTHORIZED_DMA} s' = notes_of {KG_ALERT_UNAUTHORIZED_DMA} s @
       map (dma_note he) (filter (\<lambda>e. dma_offender he x e \<and> ident e \<notin> rec_idents (hw_dma x)) (hw_cur x))"
proof -
  obtain recs mem' s' where f: "fold (dma_one he x) (hw_cur x) (hw_dma x, mem, s) = (recs, mem', s')"
    and ok: "recs_ok recs" and id: "rec_idents recs = rec_idents (hw_dma x) \<union> ident ` {e \<in> set (hw_cur x). dma_offender he x e}"
    and n: "notes_of {KG_ALERT_UNAUTHORIZED_DMA} s' = notes_of {KG_ALERT_UNAUTHORIZED_DMA} s @
       map (dma_note he) (filter (\<lambda>e. dma_offender he x e \<and> ident e \<notin> rec_idents (hw_dma x)) (hw_cur x))"
    using dma_fold [OF assms, of mem s] by (elim exE conjE) (rule that; assumption)
  have "kg_dma_audit he (x, mem, s) = (x\<lparr>hw_dma := kg_dma_rec_prune (hw_cur x) recs\<rparr>, mem', s')"
    by (simp add: kg_dma_audit_def f)
  moreover have "rec_idents (kg_dma_rec_prune (hw_cur x) recs) =
      (rec_idents (hw_dma x) \<inter> ident ` set (hw_cur x)) \<union> ident ` {e \<in> set (hw_cur x). dma_offender he x e}"
    unfolding prune_idents id by blast
  ultimately show ?thesis using prune_ok [OF ok] n by simp
qed

lemma example_offender: "dma_offender (example_hw_env []) example_hw example_pci_ent"
  by (simp add: dma_offender_def kg_dma_authorized_def example_hw_def hw_loaded_def example_pci_ent_def example_hw_env_def kg_const
      kg_list_contains_def list_scan.simps)

theorem dma_audit_exact_witness:
  "notes_of {KG_ALERT_UNAUTHORIZED_DMA} (snd (snd (kg_dma_audit (example_hw_env []) (example_hw, example_pci_mem, example_sys)))) =
     notes_of {KG_ALERT_UNAUTHORIZED_DMA} example_sys @ [(KG_ALERT_UNAUTHORIZED_DMA, KG_LEVEL_WATCH, 0x300, 0x80861234)]"
proof -
  have x: "hw_dma example_hw = []" "hw_cur example_hw = [example_pci_ent]" by (simp_all add: example_hw_def hw_loaded_def)
  have msg: "dma_note (example_hw_env []) example_pci_ent = (KG_ALERT_UNAUTHORIZED_DMA, KG_LEVEL_WATCH, 0x300, 0x80861234)"
    by (simp add: dma_note_def dma_level_def os_dev_def pci_get_def example_hw_env_def kg_bdf_def dma_p2_def example_pci_ent_def)
  show ?thesis
    using dma_audit_exact [where x = example_hw and he = "example_hw_env []" and mem = example_pci_mem and s = example_sys]
    by (simp add: x recs_ok_def rec_idents_def example_offender msg kg_const split: prod.splits)
qed

text \<open>
  C16.  Enforcement takes bus mastering away.  With the enforce parameter set and a hardware view, if the hardware takes
  what is written to a command register and clearing one bus master switches no other one on, then after the audit the command register of
  every unauthorised endpoint of the list, wherever it can be mapped, has its bus-master bit clear, and no register
  that had it clear has it set.
\<close>
theorem enforced_bme_cleared:
  assumes "par_enforce (e_par (he_env he))" and "hw_ecam x \<noteq> []" and "masters_off he"
  shows "case kg_dma_audit he (x, mem, s) of (x', mem', s') \<Rightarrow>
     {a. readw mem a AND PCI_COMMAND_MASTER = 0} \<union>
     {reg. \<exists>e\<in>set (hw_cur x). dma_offender he x e \<and> cmd_reg he x e = Some reg} \<subseteq>
     {a. readw mem' a AND PCI_COMMAND_MASTER = 0}"
proof -
  obtain recs mem' s' where f: "fold (dma_one he x) (hw_cur x) (hw_dma x, mem, s) = (recs, mem', s')" by (metis prod.exhaust)
  show ?thesis
    using dma_fold_mem [OF assms(1,3,2) f] by (auto simp: kg_dma_audit_def f)
qed

definition example_enforce :: hw_env where
  "example_enforce = (example_hw_env [])\<lparr>he_env := (example_env 0)\<lparr>e_par := example_par\<lparr>par_enforce := True\<rparr>\<rparr>\<rparr>"

text \<open>In memory that keeps what is written to it, what is relied on holds.\<close>

lemma master_bit: "readw m a AND PCI_COMMAND_MASTER = 0 \<longleftrightarrow> \<not> bit (m a) 2"
proof -
  have "readw m a AND PCI_COMMAND_MASTER = 0 \<longleftrightarrow> \<not> bit (readw m a) 2"
    using and_exp_eq_0_iff_not_bit [of "readw m a" 2] by (simp add: kg_const)
  also have "bit (readw m a) 2 = bit (m a) 2" by (simp add: readw_def bit_simps)
  finally show ?thesis .
qed

lemma readw_split: "readw (m(reg := ucast v, reg + 1 := ucast (drop_bit 8 v))) reg = v"
proof (rule bit_word_eqI)
  fix n assume "n < LENGTH(16)"
  then show "bit (readw (m(reg := ucast v, reg + 1 := ucast (drop_bit 8 v))) reg) n = bit v n"
    by (auto simp: readw_def bit_simps)
qed

lemma example_masters_off: "masters_off example_enforce"
  unfolding masters_off_def
proof (intro conjI allI impI)
  show "readw (he_writew example_enforce reg v mem) reg = v" for reg v mem
    by (simp only: example_enforce_def example_hw_env_def hw_env.simps readw_split)
next
  fix reg a :: u64 and mem assume off: "readw mem a AND PCI_COMMAND_MASTER = 0"
  have "\<not> bit (mem a) 2" using off by (simp add: master_bit)
  then have "\<not> bit (he_writew example_enforce reg (readw mem reg AND NOT PCI_COMMAND_MASTER) mem a) 2"
    by (auto simp: example_enforce_def example_hw_env_def readw_def kg_const bit_simps dest: bit_imp_le_length)
  then show "readw (he_writew example_enforce reg (readw mem reg AND NOT PCI_COMMAND_MASTER) mem) a AND PCI_COMMAND_MASTER = 0"
    by (simp add: master_bit)
qed (simp add: example_enforce_def example_hw_env_def)

theorem enforced_bme_cleared_witness:
  "readw (fst (snd (kg_dma_audit example_enforce (example_hw, example_pci_mem, example_sys)))) 0xe0018004 AND PCI_COMMAND_MASTER = 0 \<and>
   readw example_pci_mem 0xe0018004 AND PCI_COMMAND_MASTER \<noteq> 0"
proof -
  have off: "dma_offender example_enforce example_hw example_pci_ent"
    using example_offender by (simp add: example_enforce_def dma_offender_def kg_dma_authorized_def)
  have reg: "cmd_reg example_enforce example_hw example_pci_ent = Some 0xe0018004"
    by (simp add: cmd_reg_def kg_ecam_find_def example_hw_def example_seg_def kg_ecam_map_def example_enforce_def example_hw_env_def
        ecam_window_def cfg_addr_def example_pci_ent_def kg_const)
  have "par_enforce (e_par (he_env example_enforce))" "hw_ecam example_hw \<noteq> []" "hw_cur example_hw = [example_pci_ent]"
    by (simp_all add: example_enforce_def example_hw_def)
  then have "readw (fst (snd (kg_dma_audit example_enforce (example_hw, example_pci_mem, example_sys)))) 0xe0018004 AND PCI_COMMAND_MASTER = 0"
    using enforced_bme_cleared [of example_enforce example_hw example_pci_mem example_sys] example_masters_off off reg
    by (auto split: prod.splits)
  moreover have "readw example_pci_mem 0xe0018004 AND PCI_COMMAND_MASTER \<noteq> 0"
    by (simp add: readw_def example_pci_mem_def kg_const)
  ultimately show ?thesis by blast
qed



text \<open>
  C24.  The books of the hardware monitor stay in order.  However its operations follow each other from module load (start, worker
  runs, kicks, notifications of the PCI bus, changes of the hardware, stop), at most 16 regions, 1024 functions, 1024 baseline
  entries and 64 records are held, no suspect has two slots, exactly the suspects seen twice are marked reported, every
  record has had its alert, the buffers exist while the monitor runs, and nothing is pending once it is stopped.
\<close>
theorem hw_books: "hw_inv (fst (fold hw_do acts (hw_loaded, mem, s)))"
  by (rule hw_inv_run) (simp add: hw_inv_loaded)

text \<open>
  C25.  The number of regions is taken from the length field of a firmware table by an unsigned 64-bit subtraction and
  division whose result is truncated to a signed 32-bit count; whatever the field says, also when it is smaller than
  the table's header and the subtraction wraps, every allocation that is read lies inside the table.
\<close>
theorem mcfg_reads_in_table:
  "{i. i < nat (mcfg_count t)} \<subseteq> {i. 44 + 16 * (i + 1) \<le> unat (mt_length t)} \<and>
   ecam_collect t [0..<nat (mcfg_count t)] ecam =
     ecam_collect (t\<lparr>mt_alloc := (\<lambda>i. if 44 + 16 * (i + 1) \<le> unat (mt_length t) then mt_alloc t i else undefined)\<rparr>) [0..<nat (mcfg_count t)] ecam"
proof -
  have "ecam_collect t is acc = ecam_collect (t\<lparr>mt_alloc := f\<rparr>) is acc" if "\<forall>i\<in>set is. f i = mt_alloc t i" for "is" acc f
    using that by (induction "is" arbitrary: acc) (simp_all add: Let_def)
  then show ?thesis using mcfg_in_table by (auto simp del: mult_Suc_right)
qed

definition far_domain_dev :: pci_dev where
  "far_domain_dev = \<lparr>pd_domain = 0x10000, pd_bus = 0, pd_devfn = 8, pd_vendor = 0x8086, pd_device = 0x1234, pd_class = 0x010802, pd_revision = 0,
     pd_is_virtfn = False, pd_state = 0, pd_offline = False, pd_bridge_states = [], pd_cmd = 6, pd_hdr = 0, pd_iommu_domain = None,
     pd_untrusted = False, pd_external_facing = False, pd_thunderbolt = False\<rparr>"

definition far_domain_hw :: kg_hw where
  "far_domain_hw = hw_loaded\<lparr>hw_ecam := [example_seg]\<rparr>"

lemma far_discrepancy:
  "discrepancies (example_hw_env [far_domain_dev]) (far_domain_hw\<lparr>hw_susp := su\<rparr>) = [(KG_PCI_MISSING_IN_HW, os_probe far_domain_dev)]"
  by (simp add: discrepancies_def far_domain_hw_def hw_loaded_def example_hw_env_def os_suspect_def far_domain_dev_def kg_pdev_powered_off_def
      kg_ecam_find_def example_seg_def map_filter_Cons' map_filter_nil kg_const)

lemma slot_keys_empty: "slot_keys (replicate n zero_suspect) = {}"
  by (auto simp: slot_keys_def zero_suspect_def)

definition far_suspect :: kg_suspect where
  "far_suspect = \<lparr>su_e = os_probe far_domain_dev, su_kind = KG_PCI_MISSING_IN_HW, su_seen = 1, su_reported = False\<rparr>"

text \<open>The first scan puts the card into the first slot.\<close>

lemma far_first:
  "kg_cross_check (example_hw_env [far_domain_dev]) (far_domain_hw, s) =
     (far_domain_hw\<lparr>hw_susp := settled (far_suspect # replicate 63 zero_suspect) (True # replicate 63 False)\<rparr>, s)"
proof -
  have u: "[0..<KG_MAX_SUSPECT] = 0 # [1..<KG_MAX_SUSPECT]" by (simp add: kg_const upt_rec)
  have r: "replicate KG_MAX_SUSPECT y = y # replicate 63 y" for y by (simp add: kg_const eval_nat_numeral)
  have none: "List.find (\<lambda>i. su_seen (replicate KG_MAX_SUSPECT zero_suspect ! i) \<noteq> 0 \<and> Q i) [0..<KG_MAX_SUSPECT] = None" for Q
    by (auto simp: find_None_iff zero_suspect_def)
  have free: "List.find (\<lambda>i. su_seen (replicate KG_MAX_SUSPECT zero_suspect ! i) = 0) [0..<KG_MAX_SUSPECT] = Some 0"
    by (simp add: u r zero_suspect_def)
  have n: "kg_note_suspect env KG_PCI_MISSING_IN_HW (os_probe far_domain_dev)
      (replicate KG_MAX_SUSPECT zero_suspect, replicate KG_MAX_SUSPECT False, s) =
      (far_suspect # replicate 63 zero_suspect, True # replicate 63 False, s)" for env
    by (simp only: kg_note_suspect_def prod.case none free option.case) (simp add: r far_suspect_def)
  show ?thesis
    using far_discrepancy [of "hw_susp far_domain_hw"]
    by (simp add: kg_cross_check_def cross_folds settled_def) (simp add: far_domain_hw_def hw_loaded_def n)
qed




end
