(* ===== verification/KG_Input.thy ===== *)
theory KG_Input
  imports KG_Textscan
begin

text \<open>
  \<^verbatim>\<open>src/linux/module/kg_input.c\<close>: the handlers attached to the keyboards.  The input devices form a store, because
  neutralising a handler unlinks its handle from the list of a device; readable kernel memory, the symbol texts of
  \<open>sprint_symbol\<close>, and the answers of the allocator, of the locks and of the input core are arguments.  Within one pass
  the clocks are read once.  Kernel log lines are not part of the state.
\<close>

unbundle bit_operations_syntax

section \<open>Data\<close>

definition KG_BUILTIN_HANDLERS :: string where
  "KG_BUILTIN_HANDLERS = ''kbd,evdev,sysrq,leds,rfkill,mousedev,joydev,kernelguard''"
definition KG_MAX_HANDLES :: nat where [kg_const]: "KG_MAX_HANDLES = 24"
definition KG_MAX_BASE :: nat where [kg_const]: "KG_MAX_BASE = 48"
definition KG_MAX_REPORTED :: nat where [kg_const]: "KG_MAX_REPORTED = 96"

datatype kg_hook_kind =
    KG_HK_NONE | KG_HK_UNKNOWN_MEM | KG_HK_FOREIGN_MODULE | KG_HK_DETOUR_FOREIGN | KG_HK_DETOUR_UNKNOWN | KG_HK_INT3

fun hk_code :: "kg_hook_kind \<Rightarrow> u8" where
  "hk_code KG_HK_NONE = 0"
| "hk_code KG_HK_UNKNOWN_MEM = 1"
| "hk_code KG_HK_FOREIGN_MODULE = 2"
| "hk_code KG_HK_DETOUR_FOREIGN = 3"
| "hk_code KG_HK_DETOUR_UNKNOWN = 4"
| "hk_code KG_HK_INT3 = 5"

text \<open>What the code reads of the handlers, the handles and the devices of the input core; an address is the identity of a handle.\<close>

record input_handler =
  hd_addr :: u64
  hd_name :: "string option"
  hd_event :: u64
  hd_events :: u64
  hd_filter :: u64
  hd_match :: u64
  hd_connect :: u64
  hd_disconnect :: u64
  hd_start :: u64

record input_handle =
  ih_addr :: u64
  ih_handler :: "input_handler option"
  ih_open :: int

record input_dev =
  id_h_list :: "input_handle list"
  id_grab :: "u64 option"

type_synonym input_store = "nat \<Rightarrow> input_dev"

record kg_kbd =
  kb_handle :: u64
  kb_dev :: nat

type_synonym reported = "(u64 \<times> u64 \<times> u8) list"

text \<open>The tables are the used parts of their arrays; \<open>ki_queued\<close> is the delay the work item was last queued with, while it is pending.\<close>

record kg_input =
  ki_kbds :: "kg_kbd list"
  ki_nkbd :: u32
  ki_base_names :: "string list"
  ki_reported :: reported
  ki_stop :: bool
  ki_running :: bool
  ki_baselining :: bool
  ki_queued :: "u32 option"

definition input_loaded :: kg_input where
  "input_loaded = \<lparr>ki_kbds = [], ki_nkbd = 0, ki_base_names = [], ki_reported = [], ki_stop = False, ki_running = False,
     ki_baselining = False, ki_queued = None\<rparr>"

record input_env =
  ix_env :: kg_env
  ix_kbd_allow :: string
  ix_mem :: "u64 \<Rightarrow> u8 option"
  ix_sym :: "u64 \<Rightarrow> string"
  ix_alloc_ok :: "nat \<Rightarrow> bool"
  ix_lock_ok :: "nat \<Rightarrow> bool"

definition kg_input_active :: "kg_input \<Rightarrow> bool" where
  "kg_input_active x = ki_running x"

definition kg_input_device_count :: "kg_input \<Rightarrow> u32" where
  "kg_input_device_count x = ki_nkbd x"

definition kg_input_kick :: "kg_input \<Rightarrow> kg_input" where
  "kg_input_kick x = (if ki_running x \<and> \<not> ki_stop x then x\<lparr>ki_queued := Some 0\<rparr> else x)"

section \<open>Tracking keyboards\<close>

text \<open>\<open>alloc\<close> says whether the record could be allocated, \<open>reg\<close> is the answer of \<open>input_register_handle\<close>.\<close>

definition kg_input_connect :: "bool \<Rightarrow> errno option \<Rightarrow> kg_kbd \<Rightarrow> kg_input \<Rightarrow> kg_input \<times> errno option" where
  "kg_input_connect alloc reg k x =
     (if \<not> alloc then (x, Some ENOMEM)
      else case reg of
             Some e \<Rightarrow> (x, Some e)
           | None \<Rightarrow>
               let x1 = x\<lparr>ki_kbds := ki_kbds x @ [k], ki_nkbd := ki_nkbd x + 1\<rparr>
               in (if ki_running x1 then kg_input_kick x1 else x1, None))"

definition kg_input_disconnect :: "u64 \<Rightarrow> kg_input \<Rightarrow> kg_input" where
  "kg_input_disconnect handle x =
     x\<lparr>ki_kbds := filter (\<lambda>k. kb_handle k \<noteq> handle) (ki_kbds x), ki_nkbd := ki_nkbd x - 1\<rparr>"

section \<open>Bookkeeping\<close>

definition kg_handler_authorised :: "string \<Rightarrow> kg_input \<Rightarrow> string \<Rightarrow> bool" where
  "kg_handler_authorised kbd_allow x name \<longleftrightarrow>
     kg_list_contains KG_BUILTIN_HANDLERS name \<or> kg_list_contains kbd_allow name \<or> list_ex (\<lambda>b. b = name) (ki_base_names x)"

definition kg_base_add :: "string \<Rightarrow> string list \<Rightarrow> string list" where
  "kg_base_add name base =
     (if list_ex (\<lambda>b. b = name) base then base
      else if length base < KG_MAX_BASE then base @ [take 31 name] else base)"

definition kg_was_reported :: "u64 \<Rightarrow> u64 \<Rightarrow> u8 \<Rightarrow> reported \<Rightarrow> bool" where
  "kg_was_reported handle cb kind rep = list_ex (\<lambda>(h, c, k). h = handle \<and> c = cb \<and> k = kind) rep"

definition kg_mark_reported :: "u64 \<Rightarrow> u64 \<Rightarrow> u8 \<Rightarrow> reported \<Rightarrow> reported" where
  "kg_mark_reported handle cb kind rep = (if length rep < KG_MAX_REPORTED then rep @ [(handle, cb, kind)] else rep)"

section \<open>Callback integrity\<close>

definition kg_read_kernel :: "input_env \<Rightarrow> u64 \<Rightarrow> nat \<Rightarrow> bytes option" where
  "kg_read_kernel ix src n =
     (let bs = map (\<lambda>i. ix_mem ix (src + of_nat i)) [0..<n]
      in if list_all (\<lambda>b. b \<noteq> None) bs then Some (map the bs) else None)"

definition rel32 :: "bytes \<Rightarrow> u64" where
  "rel32 bs = scast (of_nat (le_val (take 4 bs)) :: u32)"

text \<open>The target of a detour that starts at offset \<open>off\<close> of the bytes read at \<open>fn\<close>, or 0.\<close>

definition detour_target :: "input_env \<Rightarrow> u64 \<Rightarrow> bytes \<Rightarrow> nat \<Rightarrow> u64" where
  "detour_target ix fn b off =
     (let p = drop off b
      in if p ! 0 = 0xe9 then fn + of_nat off + 5 + rel32 (drop 1 p)
         else if p ! 0 = 0xff \<and> p ! 1 = 0x25
         then (case kg_read_kernel ix (fn + of_nat off + 6 + rel32 (drop 2 p)) 8 of
                 Some t \<Rightarrow> of_nat (le_val t) | None \<Rightarrow> 0)
         else if p ! 0 = 0x48 \<and> p ! 1 = 0xb8 \<and> p ! 10 = 0xff \<and> p ! 11 = 0xe0
         then of_nat (le_val (take 8 (drop 2 p)))
         else if p ! 0 = 0x68 \<and> p ! 5 = 0xc3 then rel32 (drop 1 p)
         else 0)"

definition detour_kind :: "input_env \<Rightarrow> string \<Rightarrow> u64 \<Rightarrow> kg_hook_kind" where
  "detour_kind ix fn_mod tgt =
     (case kg_sym_module (ix_sym ix tgt) MODULE_NAME_LEN of
        (found, m) \<Rightarrow>
          if \<not> found then KG_HK_DETOUR_UNKNOWN
          else if m \<noteq> [] \<and> m \<noteq> fn_mod then KG_HK_DETOUR_FOREIGN
          else KG_HK_NONE)"

text \<open>The turns of the loop that are left; the second one looks behind an \<open>endbr64\<close>.\<close>

fun entry_pass :: "input_env \<Rightarrow> u64 \<Rightarrow> string \<Rightarrow> bytes \<Rightarrow> nat list \<Rightarrow> kg_hook_kind" where
  "entry_pass ix fn fn_mod b [] = KG_HK_NONE"
| "entry_pass ix fn fn_mod b (off # offs) =
     (if b ! off = 0xcc then KG_HK_INT3
      else
        let tgt = detour_target ix fn b off
        in if tgt \<noteq> 0 then detour_kind ix fn_mod tgt
           else if take 4 b = [0xf3, 0x0f, 0x1e, 0xfa] then entry_pass ix fn fn_mod b offs
           else KG_HK_NONE)"

definition kg_check_entry :: "input_env \<Rightarrow> u64 \<Rightarrow> string \<Rightarrow> kg_hook_kind" where
  "kg_check_entry ix fn fn_mod =
     (case kg_read_kernel ix fn 24 of None \<Rightarrow> KG_HK_NONE | Some b \<Rightarrow> entry_pass ix fn fn_mod b [0, 4])"

record kg_hinfo =
  hi_handle :: u64
  hi_open :: bool
  hi_name :: string
  hi_handler_addr :: u64
  hi_cb :: "u64 list"

type_synonym rep_st = "reported \<times> kg_sys"

definition hook_count :: "kg_sys \<Rightarrow> kg_sys" where
  "hook_count s = s\<lparr>s_stats := (s_stats s)\<lparr>dispatch_hook_detected := dispatch_hook_detected (s_stats s) + 1\<rparr>\<rparr>"

text \<open>What one callback is found to be, and the level of its alert.\<close>

definition callback_kind :: "input_env \<Rightarrow> bool \<times> string \<Rightarrow> u64 \<Rightarrow> kg_hook_kind" where
  "callback_kind ix handler cb =
     (case handler of (hfound, hmod) \<Rightarrow>
        case kg_sym_module (ix_sym ix cb) MODULE_NAME_LEN of
          (cfound, cmod) \<Rightarrow>
            if \<not> cfound then KG_HK_UNKNOWN_MEM
            else if hfound \<and> hmod \<noteq> cmod then KG_HK_FOREIGN_MODULE
            else kg_check_entry ix cb cmod)"

definition hook_level :: "kg_hook_kind \<Rightarrow> u32" where
  "hook_level kind = (if kind = KG_HK_DETOUR_UNKNOWN \<or> kind = KG_HK_INT3 then KG_LEVEL_WATCH else KG_LEVEL_CRITICAL)"

definition check_callback :: "input_env \<Rightarrow> kg_hinfo \<Rightarrow> bool \<times> string \<Rightarrow> u64 \<Rightarrow> rep_st \<Rightarrow> rep_st" where
  "check_callback ix hi handler cb st =
     (case st of (rep, s) \<Rightarrow>
        if cb = 0 then st
        else
          let kind = callback_kind ix handler cb
          in if kind = KG_HK_NONE \<or> kg_was_reported (hi_handle hi) cb (hk_code kind) rep then st
             else (kg_mark_reported (hi_handle hi) cb (hk_code kind) rep,
                   kg_report (ix_env ix) KG_ALERT_DISPATCH_HOOK (hook_level kind) cb (push_bit 32 (ucast (hk_code kind))) (hook_count s)))"

definition kg_check_callbacks :: "input_env \<Rightarrow> kg_hinfo \<Rightarrow> rep_st \<Rightarrow> rep_st" where
  "kg_check_callbacks ix hi st =
     fold (check_callback ix hi (kg_sym_module (ix_sym ix (hi_handler_addr hi)) MODULE_NAME_LEN)) (take 7 (hi_cb hi)) st"

section \<open>Neutralisation\<close>

definition kg_detach_handle :: "input_env \<Rightarrow> nat \<Rightarrow> u64 \<Rightarrow> input_store \<Rightarrow> input_store \<times> bool" where
  "kg_detach_handle ix d handle devs =
     (if \<not> ix_lock_ok ix d then (devs, False)
      else
        let dev = devs d
        in if handle \<in> ih_addr ` set (id_h_list dev)
           then (devs(d := dev\<lparr>id_grab := (if id_grab dev = Some handle then None else id_grab dev),
                       id_h_list := (let i = length (takeWhile (\<lambda>h. ih_addr h \<noteq> handle) (id_h_list dev))
                                     in take i (id_h_list dev) @ drop (Suc i) (id_h_list dev))\<rparr>), True)
           else (devs, False))"

section \<open>One keyboard\<close>

definition hinfo_of :: "input_handle \<Rightarrow> input_handler \<Rightarrow> kg_hinfo" where
  "hinfo_of h hdl =
     \<lparr>hi_handle = ih_addr h, hi_open = (0 < ih_open h),
      hi_name = take 31 (case hd_name hdl of Some n \<Rightarrow> n | None \<Rightarrow> ''?''), hi_handler_addr = hd_addr hdl,
      hi_cb = [hd_event hdl, hd_events hdl, hd_filter hdl, hd_match hdl, hd_connect hdl, hd_disconnect hdl, hd_start hdl]\<rparr>"

fun gather :: "u64 \<Rightarrow> input_handle list \<Rightarrow> kg_hinfo list \<Rightarrow> kg_hinfo list" where
  "gather own [] his = his"
| "gather own (h # hs) his =
     (case ih_handler h of
        None \<Rightarrow> gather own hs his
      | Some hdl \<Rightarrow>
          if ih_addr h = own \<or> KG_MAX_HANDLES \<le> length his then gather own hs his
          else gather own hs (his @ [hinfo_of h hdl]))"

type_synonym input_st = "kg_input \<times> input_store \<times> kg_sys"

definition kbd_count :: "kg_sys \<Rightarrow> kg_sys" where
  "kbd_count s = s\<lparr>s_stats := (s_stats s)\<lparr>hw_discrepancy_count := hw_discrepancy_count (s_stats s) + 1\<rparr>\<rparr>"

text \<open>One handler: the baseline, or the alert; then its callbacks.\<close>

definition scan_handler :: "input_env \<Rightarrow> kg_hinfo \<Rightarrow> kg_input \<times> kg_sys \<Rightarrow> kg_input \<times> kg_sys" where
  "scan_handler ix hi xs =
     (case xs of (x, s) \<Rightarrow>
        let (x1, s1) =
              (if ki_baselining x then (x\<lparr>ki_base_names := kg_base_add (hi_name hi) (ki_base_names x)\<rparr>, s)
               else if \<not> kg_handler_authorised (ix_kbd_allow ix) x (hi_name hi) \<and> \<not> kg_was_reported (hi_handle hi) 0 0 (ki_reported x)
               then (x\<lparr>ki_reported := kg_mark_reported (hi_handle hi) 0 0 (ki_reported x)\<rparr>,
                     kg_report (ix_env ix) KG_ALERT_UNAUTHORIZED_KBD_FILTER (if hi_open hi then KG_LEVEL_CRITICAL else KG_LEVEL_WATCH)
                       (fst (kg_pack_name (hi_name hi))) (snd (kg_pack_name (hi_name hi))) (kbd_count s))
               else (x, s));
            (rep, s2) = kg_check_callbacks ix hi (ki_reported x1, s1)
        in (x1\<lparr>ki_reported := rep\<rparr>, s2))"

definition neutralise :: "input_env \<Rightarrow> nat \<Rightarrow> kg_input \<Rightarrow> kg_hinfo \<Rightarrow> input_store \<times> kg_sys \<Rightarrow> input_store \<times> kg_sys" where
  "neutralise ix d x hi st =
     (case st of (devs, s) \<Rightarrow>
        if kg_handler_authorised (ix_kbd_allow ix) x (hi_name hi) then (devs, s)
        else case kg_detach_handle ix d (hi_handle hi) devs of
               (devs1, ok) \<Rightarrow>
                 (devs1, if ok
                         then kg_report (ix_env ix) KG_ALERT_KBD_FILTER_NEUTRALIZED KG_LEVEL_CRITICAL
                                (fst (kg_pack_name (hi_name hi))) (snd (kg_pack_name (hi_name hi))) s
                         else s))"

definition kg_scan_kbd :: "input_env \<Rightarrow> kg_kbd \<Rightarrow> input_st \<Rightarrow> input_st" where
  "kg_scan_kbd ix k st =
     (case st of (x, devs, s) \<Rightarrow>
        if \<not> ix_alloc_ok ix (kb_dev k) then st
        else
          let his = gather (kb_handle k) (id_h_list (devs (kb_dev k))) [];
              (x1, s1) = fold (scan_handler ix) his (x, s)
          in if kg_enforcing (e_par (ix_env ix)) (s_guard s1) \<and> \<not> ki_baselining x1
             then (let (devs1, s2) = fold (neutralise ix (kb_dev k) x1) his (devs, s1) in (x1, devs1, s2))
             else (x1, devs, s1))"

definition handle_alive :: "input_store \<Rightarrow> kg_kbd list \<Rightarrow> u64 \<Rightarrow> bool" where
  "handle_alive devs kbds handle = list_ex (\<lambda>k. list_ex (\<lambda>h. ih_addr h = handle) (id_h_list (devs (kb_dev k)))) kbds"

definition kg_prune_reported :: "input_store \<Rightarrow> kg_input \<Rightarrow> kg_input" where
  "kg_prune_reported devs x = x\<lparr>ki_reported := filter (\<lambda>(h, c, k). handle_alive devs (ki_kbds x) h) (ki_reported x)\<rparr>"

definition kg_input_scan_all :: "input_env \<Rightarrow> input_st \<Rightarrow> input_st" where
  "kg_input_scan_all ix st =
     (case fold (kg_scan_kbd ix) (ki_kbds (fst st)) st of (x, devs, s) \<Rightarrow> (kg_prune_reported devs x, devs, s))"

definition input_delay :: "kg_env \<Rightarrow> kg_sys \<Rightarrow> u32" where
  "input_delay env s = kg_scan_ms (s_guard s) (par_hw_interval_ms (e_par env))"

text \<open>A kick while the worker runs leaves the work pending at once, and queueing pending work again does nothing.\<close>

definition input_kicked :: "kg_sys \<Rightarrow> kg_sys \<Rightarrow> bool" where
  "input_kicked s s' = (Ev_input_kick \<in> set (drop (length (s_trace s)) (s_trace s')))"

definition input_requeue :: "u32 \<Rightarrow> kg_input \<Rightarrow> kg_input" where
  "input_requeue delay x = (if \<not> ki_stop x \<and> ki_queued x = None then x\<lparr>ki_queued := Some delay\<rparr> else x)"

definition kg_input_workfn :: "input_env \<Rightarrow> input_st \<Rightarrow> input_st" where
  "kg_input_workfn ix st =
     (case st of (x0, devs0, s0) \<Rightarrow>
        case kg_input_scan_all ix (x0\<lparr>ki_queued := None\<rparr>, devs0, s0) of
          (x, devs, s) \<Rightarrow> (input_requeue (input_delay (ix_env ix) s) (if input_kicked s0 s then kg_input_kick x else x), devs, s))"

section \<open>Start and stop\<close>

text \<open>
  \<open>reg\<close> is the answer of \<open>input_register_handler\<close>; when it succeeds, it has called \<open>connect\<close> for each keyboard, with the
  answers in \<open>conns\<close>.
\<close>

definition kg_input_init ::
  "input_env \<Rightarrow> errno option \<Rightarrow> (bool \<times> errno option \<times> kg_kbd) list \<Rightarrow> input_st \<Rightarrow> input_st \<times> errno option" where
  "kg_input_init ix reg conns st =
     (case st of (x, devs, s) \<Rightarrow>
        let x0 = x\<lparr>ki_stop := False, ki_queued := None\<rparr>
        in case reg of
             Some e \<Rightarrow> ((x0, devs, s), Some e)
           | None \<Rightarrow>
               let x1 = fold (\<lambda>(alloc, r, k) y. fst (kg_input_connect alloc r k y)) conns x0
               in case kg_input_scan_all ix (x1\<lparr>ki_baselining := True\<rparr>, devs, s) of
                    (x2, devs2, s2) \<Rightarrow>
                      ((x2\<lparr>ki_baselining := False, ki_running := True, ki_queued := Some (input_delay (ix_env ix) s2)\<rparr>, devs2, s2), None))"

definition kg_input_exit :: "kg_input \<Rightarrow> kg_input" where
  "kg_input_exit x =
     (if \<not> ki_running x then x
      else fold (\<lambda>k. kg_input_disconnect (kb_handle k)) (ki_kbds x) (x\<lparr>ki_stop := True, ki_queued := None, ki_running := False\<rparr>))"

section \<open>What a pass looks at\<close>

definition info_of :: "u64 \<Rightarrow> input_handle \<Rightarrow> kg_hinfo option" where
  "info_of own h = (if ih_addr h = own then None else map_option (hinfo_of h) (ih_handler h))"

text \<open>The first 24 handlers of a keyboard, besides the module's own.\<close>

definition infos :: "input_store \<Rightarrow> kg_kbd \<Rightarrow> kg_hinfo list" where
  "infos devs k = take KG_MAX_HANDLES (List.map_filter (info_of (kb_handle k)) (id_h_list (devs (kb_dev k))))"

lemma gather_eq:
  "length his \<le> KG_MAX_HANDLES \<Longrightarrow> gather own hs his = take KG_MAX_HANDLES (his @ List.map_filter (info_of own) hs)"
proof (induction hs arbitrary: his)
  case (Cons h hs)
  show ?case
  proof (cases "info_of own h")
    case None
    then show ?thesis using Cons by (auto simp: info_of_def map_filter_Cons' split: option.splits if_splits)
  next
    case (Some hi)
    then have h: "ih_addr h \<noteq> own" "\<exists>hdl. ih_handler h = Some hdl \<and> hi = hinfo_of h hdl"
      by (auto simp: info_of_def split: if_splits)
    show ?thesis
    proof (cases "KG_MAX_HANDLES \<le> length his")
      case True
      then show ?thesis using h Cons by (auto simp: map_filter_Cons' Some)
    next
      case False
      then have "length (his @ [hi]) \<le> KG_MAX_HANDLES" by simp
      then show ?thesis using h False Cons.IH [of "his @ [hi]"] by (auto simp: map_filter_Cons' Some simp del: take_append)
    qed
  qed
qed (simp add: List.map_filter_def)

lemma gather_infos: "gather (kb_handle k) (id_h_list (devs (kb_dev k))) [] = infos devs k"
  by (simp add: gather_eq infos_def)

text \<open>What a handler gives rise to: for each finding the entry that marks it and the alert it raises.\<close>

type_synonym finding = "(u64 \<times> u64 \<times> u8) \<times> u32 \<times> u32 \<times> u64 \<times> u64"

definition handler_finding :: "input_env \<Rightarrow> kg_input \<Rightarrow> kg_hinfo \<Rightarrow> finding list" where
  "handler_finding ix x hi =
     (if kg_handler_authorised (ix_kbd_allow ix) x (hi_name hi) then []
      else [((hi_handle hi, 0, 0), KG_ALERT_UNAUTHORIZED_KBD_FILTER, (if hi_open hi then KG_LEVEL_CRITICAL else KG_LEVEL_WATCH),
             fst (kg_pack_name (hi_name hi)), snd (kg_pack_name (hi_name hi)))])"

definition callback_finding :: "input_env \<Rightarrow> kg_hinfo \<Rightarrow> u64 \<Rightarrow> finding list" where
  "callback_finding ix hi cb =
     (let kind = callback_kind ix (kg_sym_module (ix_sym ix (hi_handler_addr hi)) MODULE_NAME_LEN) cb
      in if cb = 0 \<or> kind = KG_HK_NONE then []
         else [((hi_handle hi, cb, hk_code kind), KG_ALERT_DISPATCH_HOOK, hook_level kind, cb, push_bit 32 (ucast (hk_code kind)))])"

definition findings :: "input_env \<Rightarrow> kg_input \<Rightarrow> kg_hinfo \<Rightarrow> finding list" where
  "findings ix x hi = handler_finding ix x hi @ concat (map (callback_finding ix hi) (take 7 (hi_cb hi)))"

text \<open>Announcing one finding.\<close>

definition find_count :: "u32 \<Rightarrow> kg_sys \<Rightarrow> kg_sys" where
  "find_count type s = (if type = KG_ALERT_DISPATCH_HOOK then hook_count s else kbd_count s)"

definition announce :: "kg_env \<Rightarrow> finding \<Rightarrow> rep_st \<Rightarrow> rep_st" where
  "announce env f st =
     (case st of (rep, s) \<Rightarrow> case f of (ent, type, level, p1, p2) \<Rightarrow>
        if ent \<in> set rep then (rep, s)
        else (if length rep < KG_MAX_REPORTED then rep @ [ent] else rep, kg_report env type level p1 p2 (find_count type s)))"

lemma was_reported_in: "kg_was_reported h c k rep \<longleftrightarrow> (h, c, k) \<in> set rep"
  by (auto simp: kg_was_reported_def list_ex_iff)

lemma check_callback_announce:
  "check_callback ix hi (kg_sym_module (ix_sym ix (hi_handler_addr hi)) MODULE_NAME_LEN) cb st = fold (announce (ix_env ix)) (callback_finding ix hi cb) st"
  by (cases st) (auto simp: check_callback_def callback_finding_def announce_def was_reported_in kg_mark_reported_def find_count_def Let_def)

lemma check_callbacks_announce:
  "kg_check_callbacks ix hi st = fold (announce (ix_env ix)) (concat (map (callback_finding ix hi) (take 7 (hi_cb hi)))) st"
proof -
  have "fold (check_callback ix hi (kg_sym_module (ix_sym ix (hi_handler_addr hi)) MODULE_NAME_LEN)) cbs st =
      fold (announce (ix_env ix)) (concat (map (callback_finding ix hi) cbs)) st" for cbs
    by (induction cbs arbitrary: st) (simp_all add: check_callback_announce)
  then show ?thesis by (simp add: kg_check_callbacks_def)
qed

lemma scan_handler_announce:
  assumes "\<not> ki_baselining x"
  shows "scan_handler ix hi (x, s) =
     (case fold (announce (ix_env ix)) (findings ix x hi) (ki_reported x, s) of (rep, s') \<Rightarrow> (x\<lparr>ki_reported := rep\<rparr>, s'))"
proof (cases "\<not> kg_handler_authorised (ix_kbd_allow ix) x (hi_name hi) \<and> \<not> kg_was_reported (hi_handle hi) 0 0 (ki_reported x)")
  case True
  then show ?thesis
    using assms by (auto simp: scan_handler_def findings_def handler_finding_def check_callbacks_announce announce_def was_reported_in
        kg_mark_reported_def find_count_def kg_const Let_def split: prod.splits)
next
  case False
  then have "fold (announce (ix_env ix)) (findings ix x hi) (ki_reported x, s) =
      fold (announce (ix_env ix)) (concat (map (callback_finding ix hi) (take 7 (hi_cb hi)))) (ki_reported x, s)"
    by (auto simp: findings_def handler_finding_def announce_def was_reported_in)
  then show ?thesis using assms False by (auto simp: scan_handler_def check_callbacks_announce Let_def split: prod.splits)
qed

lemma findings_frame [simp]: "findings ix (x\<lparr>ki_reported := r\<rparr>) hi = findings ix x hi"
  by (simp add: findings_def handler_finding_def kg_handler_authorised_def)

lemma scan_handlers_announce:
  "\<not> ki_baselining x \<Longrightarrow> fold (scan_handler ix) his (x, s) =
     (case fold (announce (ix_env ix)) (concat (map (findings ix x) his)) (ki_reported x, s) of (rep, s') \<Rightarrow> (x\<lparr>ki_reported := rep\<rparr>, s'))"
proof (induction his arbitrary: x s)
  case (Cons hi his)
  obtain rep s1 where f: "fold (announce (ix_env ix)) (findings ix x hi) (ki_reported x, s) = (rep, s1)" by (rule prod.exhaust)
  have fs: "findings ix (x\<lparr>ki_reported := rep\<rparr>) = findings ix x" by (rule ext) simp
  show ?case
    using Cons.IH [of "x\<lparr>ki_reported := rep\<rparr>" s1] Cons.prems by (simp add: scan_handler_announce f fs split: prod.splits)
qed simp

text \<open>The findings of a list that are announced: each entry once, and only if it was not marked before.\<close>

fun fresh :: "(u64 \<times> u64 \<times> u8) set \<Rightarrow> finding list \<Rightarrow> finding list" where
  "fresh R [] = []"
| "fresh R (f # fs) = (if fst f \<in> R then fresh R fs else f # fresh (insert (fst f) R) fs)"

abbreviation kbd_alerts :: "u32 set" where
  "kbd_alerts \<equiv> {KG_ALERT_UNAUTHORIZED_KBD_FILTER, KG_ALERT_DISPATCH_HOOK}"

lemma kbd_alerts_report:
  "notes_of kbd_alerts (kg_report env type level p1 p2 s) = notes_of kbd_alerts s @ (if type \<in> kbd_alerts then [(type, level, p1, p2)] else [])"
  by (rule notes_of_report) (simp add: kg_const)

lemma find_count_notes [simp]: "notes_of T (find_count type s) = notes_of T s"
  by (simp add: find_count_def hook_count_def kbd_count_def)

lemma finding_type: "f \<in> set (findings ix x hi) \<Longrightarrow> fst (snd f) \<in> kbd_alerts"
  by (auto simp: findings_def handler_finding_def callback_finding_def Let_def split: if_splits)

lemma announce_all:
  assumes "distinct rep" and "card (set rep \<union> fst ` set fs) \<le> KG_MAX_REPORTED" and "\<forall>f\<in>set fs. fst (snd f) \<in> kbd_alerts"
  shows "\<exists>rep' s'. fold (announce env) fs (rep, s) = (rep', s') \<and> distinct rep' \<and> set rep' = set rep \<union> fst ` set fs \<and>
     notes_of kbd_alerts s' = notes_of kbd_alerts s @ map snd (fresh (set rep) fs)"
  using assms
proof (induction fs arbitrary: rep s)
  case (Cons f fs)
  obtain ent type level p1 p2 where f: "f = (ent, type, level, p1, p2)" by (metis prod.exhaust)
  show ?case
  proof (cases "ent \<in> set rep")
    case True
    then have "set rep \<union> fst ` set (f # fs) = set rep \<union> fst ` set fs" by (auto simp: f)
    then show ?thesis using Cons.IH [of rep s] Cons.prems True by (simp add: announce_def f insert_absorb)
  next
    case False
    have un: "set (rep @ [ent]) \<union> fst ` set fs = set rep \<union> fst ` set (f # fs)" by (auto simp: f)
    have "card (insert ent (set rep)) \<le> card (set rep \<union> fst ` set (f # fs))" by (intro card_mono) (auto simp: f)
    then have room: "length rep < KG_MAX_REPORTED" using False Cons.prems(1,2) by (simp add: distinct_card)
    let ?s = "kg_report env type level p1 p2 (find_count type s)"
    have one: "announce env f (rep, s) = (rep @ [ent], ?s)" using False room by (simp add: announce_def f)
    have n: "notes_of kbd_alerts ?s = notes_of kbd_alerts s @ [(type, level, p1, p2)]"
      unfolding kbd_alerts_report find_count_notes using Cons.prems(3) by (simp add: f)
    have "\<exists>rep' s'. fold (announce env) fs (rep @ [ent], ?s) = (rep', s') \<and> distinct rep' \<and> set rep' = set (rep @ [ent]) \<union> fst ` set fs \<and>
       notes_of kbd_alerts s' = notes_of kbd_alerts ?s @ map snd (fresh (set (rep @ [ent])) fs)"
      using Cons.IH [of "rep @ [ent]" ?s] Cons.prems False unfolding un by (simp add: f)
    moreover have "fresh (set rep) (f # fs) = f # fresh (set (rep @ [ent])) fs" using False by (simp add: f)
    ultimately show ?thesis unfolding un using one [unfolded f] by (simp add: n f)
  qed
qed simp

section \<open>Neutralising\<close>

definition remove_addr :: "u64 \<Rightarrow> input_handle list \<Rightarrow> input_handle list" where
  "remove_addr a hs = (let i = length (takeWhile (\<lambda>h. ih_addr h \<noteq> a) hs) in take i hs @ drop (Suc i) hs)"

lemma remove_addr_filter:
  assumes "distinct (map ih_addr hs)"
  shows "remove_addr a hs = filter (\<lambda>h. ih_addr h \<noteq> a) hs"
  using assms
proof (induction hs)
  case (Cons h hs)
  show ?case
  proof (cases "ih_addr h = a")
    case True
    then have "\<forall>h'\<in>set hs. ih_addr h' \<noteq> a" using Cons.prems by (auto simp: image_iff)
    then show ?thesis using True by (simp add: remove_addr_def)
  qed (use Cons in \<open>simp add: remove_addr_def Let_def\<close>)
qed (simp add: remove_addr_def)

lemma detach_eq:
  assumes "ix_lock_ok ix d" and "distinct (map ih_addr (id_h_list (devs d)))"
  shows "id_h_list (fst (kg_detach_handle ix d a devs) d) = filter (\<lambda>h. ih_addr h \<noteq> a) (id_h_list (devs d))"
proof (cases "a \<in> ih_addr ` set (id_h_list (devs d))")
  case True
  then show ?thesis using assms remove_addr_filter [OF assms(2), of a] by (simp add: kg_detach_handle_def Let_def remove_addr_def)
next
  case False
  then have "filter (\<lambda>h. ih_addr h \<noteq> a) (id_h_list (devs d)) = id_h_list (devs d)" by (auto simp: filter_id_conv)
  then show ?thesis using assms False by (simp add: kg_detach_handle_def)
qed

lemma detach_other: "d' \<noteq> d \<Longrightarrow> fst (kg_detach_handle ix d a devs) d' = devs d'"
  by (simp add: kg_detach_handle_def Let_def)

lemma neutralise_devs:
  "fst (neutralise ix d x hi (devs, s)) =
     (if kg_handler_authorised (ix_kbd_allow ix) x (hi_name hi) then devs else fst (kg_detach_handle ix d (hi_handle hi) devs))"
  by (simp add: neutralise_def split: prod.splits)

lemma neutralise_notes: "notes_of kbd_alerts (snd (neutralise ix d x hi (devs, s))) = notes_of kbd_alerts s"
  by (simp add: neutralise_def kbd_alerts_report split: prod.splits) (simp add: kg_const)

definition bad_addrs :: "input_env \<Rightarrow> kg_input \<Rightarrow> kg_hinfo list \<Rightarrow> u64 set" where
  "bad_addrs ix x his = hi_handle ` {hi \<in> set his. \<not> kg_handler_authorised (ix_kbd_allow ix) x (hi_name hi)}"

lemma bad_one: "bad_addrs ix x [hi] = (if kg_handler_authorised (ix_kbd_allow ix) x (hi_name hi) then {} else {hi_handle hi})"
  by (auto simp: bad_addrs_def)

lemma neutralise_all:
  "notes_of kbd_alerts (snd (fold (neutralise ix d x) his (devs, s))) = notes_of kbd_alerts s \<and>
   (\<forall>d'. d' \<noteq> d \<longrightarrow> fst (fold (neutralise ix d x) his (devs, s)) d' = devs d') \<and>
   (ix_lock_ok ix d \<and> distinct (map ih_addr (id_h_list (devs d))) \<longrightarrow>
     id_h_list (fst (fold (neutralise ix d x) his (devs, s)) d) = filter (\<lambda>h. ih_addr h \<notin> bad_addrs ix x his) (id_h_list (devs d)))"
proof (induction his arbitrary: devs s)
  case Nil
  then show ?case by (simp add: bad_addrs_def)
next
  case (Cons hi his)
  obtain devs1 s1 where n: "neutralise ix d x hi (devs, s) = (devs1, s1)" by (rule prod.exhaust)
  have d1: "devs1 = (if kg_handler_authorised (ix_kbd_allow ix) x (hi_name hi) then devs else fst (kg_detach_handle ix d (hi_handle hi) devs))"
    using neutralise_devs [of ix d x hi devs s] by (simp add: n)
  have s1: "notes_of kbd_alerts s1 = notes_of kbd_alerts s" using neutralise_notes [of ix d x hi devs s] by (simp add: n)
  have other: "devs1 d' = devs d'" if "d' \<noteq> d" for d' using that by (simp add: d1 detach_other)
  have here: "id_h_list (devs1 d) = filter (\<lambda>h. ih_addr h \<notin> bad_addrs ix x [hi]) (id_h_list (devs d))"
    if "ix_lock_ok ix d" "distinct (map ih_addr (id_h_list (devs d)))"
    using detach_eq [where ix = ix and d = d and a = "hi_handle hi" and devs = devs] that
    by (simp add: d1 bad_one)
  have split: "bad_addrs ix x (hi # his) = bad_addrs ix x [hi] \<union> bad_addrs ix x his" by (auto simp: bad_addrs_def)
  have "id_h_list (fst (fold (neutralise ix d x) his (devs1, s1)) d) = filter (\<lambda>h. ih_addr h \<notin> bad_addrs ix x (hi # his)) (id_h_list (devs d))"
    if l: "ix_lock_ok ix d" "distinct (map ih_addr (id_h_list (devs d)))"
  proof -
    have "distinct (map ih_addr (id_h_list (devs1 d)))" using here [OF l] l(2) by (simp add: List.distinct_map_filter)
    then have "id_h_list (fst (fold (neutralise ix d x) his (devs1, s1)) d) =
        filter (\<lambda>h. ih_addr h \<notin> bad_addrs ix x his) (id_h_list (devs1 d))"
      using Cons.IH [of devs1 s1] l(1) by blast
    then show ?thesis unfolding here [OF l] split by (simp add: conj_commute)
  qed
  then show ?case using Cons.IH [of devs1 s1] s1 other by (simp add: n)
qed

section \<open>A pass over the keyboards\<close>

definition kbd_findings :: "input_env \<Rightarrow> kg_input \<Rightarrow> input_store \<Rightarrow> kg_kbd \<Rightarrow> finding list" where
  "kbd_findings ix x devs k = (if ix_alloc_ok ix (kb_dev k) then concat (map (findings ix x) (infos devs k)) else [])"

definition devs_cleaned :: "input_env \<Rightarrow> kg_input \<Rightarrow> input_store \<Rightarrow> input_store \<Rightarrow> kg_kbd \<Rightarrow> bool" where
  "devs_cleaned ix x devs devs' k \<longleftrightarrow>
     (par_enforce (e_par (ix_env ix)) \<and> ix_alloc_ok ix (kb_dev k) \<and> ix_lock_ok ix (kb_dev k) \<and>
        distinct (map ih_addr (id_h_list (devs (kb_dev k)))) \<longrightarrow>
      id_h_list (devs' (kb_dev k)) = filter (\<lambda>h. ih_addr h \<notin> bad_addrs ix x (infos devs k)) (id_h_list (devs (kb_dev k))))"

text \<open>One keyboard: the findings are announced, other devices are left alone, and with enforcement the offenders are off its list.\<close>

lemma scan_kbd_eq:
  assumes "\<not> ki_baselining x"
  shows "\<exists>rep s1 devs' s'. kg_scan_kbd ix k (x, devs, s) = (x\<lparr>ki_reported := rep\<rparr>, devs', s') \<and>
     fold (announce (ix_env ix)) (kbd_findings ix x devs k) (ki_reported x, s) = (rep, s1) \<and>
     notes_of kbd_alerts s' = notes_of kbd_alerts s1 \<and> (\<forall>d. d \<noteq> kb_dev k \<longrightarrow> devs' d = devs d) \<and> devs_cleaned ix x devs devs' k"
proof (cases "ix_alloc_ok ix (kb_dev k)")
  case False
  then show ?thesis by (intro exI [of _ "ki_reported x"] exI [of _ s] exI [of _ devs] exI [of _ s]) (simp add: kg_scan_kbd_def kbd_findings_def devs_cleaned_def)
next
  case True
  obtain rep s1 where f: "fold (announce (ix_env ix)) (kbd_findings ix x devs k) (ki_reported x, s) = (rep, s1)" by (rule prod.exhaust)
  then have sc: "fold (scan_handler ix) (infos devs k) (x, s) = (x\<lparr>ki_reported := rep\<rparr>, s1)"
    using scan_handlers_announce [OF assms, of ix "infos devs k" s] True by (simp add: kbd_findings_def)
  have bad: "bad_addrs ix (x\<lparr>ki_reported := rep\<rparr>) his = bad_addrs ix x his" for his
    by (simp add: bad_addrs_def kg_handler_authorised_def)
  obtain devs1 s2 where n: "fold (neutralise ix (kb_dev k) (x\<lparr>ki_reported := rep\<rparr>)) (infos devs k) (devs, s1) = (devs1, s2)" by (rule prod.exhaust)
  note all = neutralise_all [of ix "kb_dev k" "x\<lparr>ki_reported := rep\<rparr>" "infos devs k" devs s1, unfolded n bad fst_conv snd_conv]
  show ?thesis
  proof (cases "kg_enforcing (e_par (ix_env ix)) (s_guard s1)")
    case enf: True
    then have "kg_scan_kbd ix k (x, devs, s) = (x\<lparr>ki_reported := rep\<rparr>, devs1, s2)"
      using assms True by (simp add: kg_scan_kbd_def gather_infos sc n)
    moreover have "devs_cleaned ix x devs devs1 k" using all by (simp add: devs_cleaned_def)
    ultimately show ?thesis using f all by blast
  next
    case enf: False
    then have "kg_scan_kbd ix k (x, devs, s) = (x\<lparr>ki_reported := rep\<rparr>, devs, s1)"
      using assms True by (simp add: kg_scan_kbd_def gather_infos sc)
    moreover have "devs_cleaned ix x devs devs k" using enf by (simp add: kg_enforcing_def devs_cleaned_def)
    ultimately show ?thesis using f by blast
  qed
qed

lemma kbd_findings_frame [simp]: "kbd_findings ix (x\<lparr>ki_reported := r\<rparr>) devs k = kbd_findings ix x devs k"
proof -
  have "findings ix (x\<lparr>ki_reported := r\<rparr>) = findings ix x" by (rule ext) simp
  then show ?thesis by (simp add: kbd_findings_def)
qed

lemma infos_dev: "devs' (kb_dev k) = devs (kb_dev k) \<Longrightarrow> infos devs' k = infos devs k"
  by (simp add: infos_def)

lemma kbd_findings_dev: "devs' (kb_dev k) = devs (kb_dev k) \<Longrightarrow> kbd_findings ix x devs' k = kbd_findings ix x devs k"
  by (simp add: kbd_findings_def infos_def)

lemma kbd_findings_type: "f \<in> set (kbd_findings ix x devs k) \<Longrightarrow> fst (snd f) \<in> kbd_alerts"
  using finding_type [of f ix x] unfolding kbd_findings_def by (fastforce split: if_splits)

lemma fresh_append: "fresh R (a @ b) = fresh R a @ fresh (R \<union> fst ` set a) b"
  by (induction a arbitrary: R) (auto simp: insert_absorb Un_insert_left)

lemma scan_kbds:
  assumes "\<not> ki_baselining x" and "distinct (map kb_dev ks)" and "distinct (ki_reported x)"
    and "card (set (ki_reported x) \<union> fst ` set (concat (map (kbd_findings ix x devs) ks))) \<le> KG_MAX_REPORTED"
  shows "\<exists>rep devs' s'. fold (kg_scan_kbd ix) ks (x, devs, s) = (x\<lparr>ki_reported := rep\<rparr>, devs', s') \<and> distinct rep \<and>
     set rep = set (ki_reported x) \<union> fst ` set (concat (map (kbd_findings ix x devs) ks)) \<and>
     notes_of kbd_alerts s' = notes_of kbd_alerts s @ map snd (fresh (set (ki_reported x)) (concat (map (kbd_findings ix x devs) ks))) \<and>
     (\<forall>d. d \<notin> kb_dev ` set ks \<longrightarrow> devs' d = devs d) \<and> list_all (devs_cleaned ix x devs devs') ks"
  using assms
proof (induction ks arbitrary: x devs s)
  case Nil
  show ?case by (intro exI [of _ "ki_reported x"] exI [of _ devs] exI [of _ s]) (use Nil.prems in simp)
next
  case (Cons k ks)
  let ?F = "kbd_findings ix x devs k" and ?G = "concat (map (kbd_findings ix x devs) ks)"
  obtain rep s1 devs1 s2 where k: "kg_scan_kbd ix k (x, devs, s) = (x\<lparr>ki_reported := rep\<rparr>, devs1, s2)"
    and f: "fold (announce (ix_env ix)) ?F (ki_reported x, s) = (rep, s1)" and n: "notes_of kbd_alerts s2 = notes_of kbd_alerts s1"
    and oth: "\<forall>d. d \<noteq> kb_dev k \<longrightarrow> devs1 d = devs d" and cl: "devs_cleaned ix x devs devs1 k"
    using scan_kbd_eq [OF Cons.prems(1), of ix k devs s] by blast
  have "card (set (ki_reported x) \<union> fst ` set ?F) \<le> card (set (ki_reported x) \<union> fst ` set (concat (map (kbd_findings ix x devs) (k # ks))))"
    by (intro card_mono) auto
  then have "card (set (ki_reported x) \<union> fst ` set ?F) \<le> KG_MAX_REPORTED" using Cons.prems(4) by simp
  then have r: "distinct rep" "set rep = set (ki_reported x) \<union> fst ` set ?F"
    "notes_of kbd_alerts s1 = notes_of kbd_alerts s @ map snd (fresh (set (ki_reported x)) ?F)"
    using announce_all [OF Cons.prems(3), of ?F "ix_env ix" s] kbd_findings_type f by auto
  have "map (kbd_findings ix (x\<lparr>ki_reported := rep\<rparr>) devs1) ks = map (kbd_findings ix x devs) ks"
  proof (rule map_cong [OF refl])
    fix j assume "j \<in> set ks"
    then have "kb_dev j \<noteq> kb_dev k" using Cons.prems(2) by (metis distinct.simps(2) imageI list.set_map list.simps(9))
    then show "kbd_findings ix (x\<lparr>ki_reported := rep\<rparr>) devs1 j = kbd_findings ix x devs j" using oth by (simp add: kbd_findings_dev [of devs1 j devs])
  qed
  then have G: "concat (map (kbd_findings ix (x\<lparr>ki_reported := rep\<rparr>) devs1) ks) = ?G" by (rule arg_cong [where f = concat])
  have un: "set rep \<union> fst ` set ?G = set (ki_reported x) \<union> fst ` set (concat (map (kbd_findings ix x devs) (k # ks)))"
    by (auto simp: r(2))
  obtain rep' devs' s' where i: "fold (kg_scan_kbd ix) ks (x\<lparr>ki_reported := rep\<rparr>, devs1, s2) = (x\<lparr>ki_reported := rep'\<rparr>, devs', s')" "distinct rep'"
    "set rep' = set rep \<union> fst ` set ?G" "notes_of kbd_alerts s' = notes_of kbd_alerts s2 @ map snd (fresh (set rep) ?G)"
    "\<forall>d. d \<notin> kb_dev ` set ks \<longrightarrow> devs' d = devs1 d" "list_all (devs_cleaned ix (x\<lparr>ki_reported := rep\<rparr>) devs1 devs') ks"
  proof -
    have "card (set rep \<union> fst ` set ?G) \<le> KG_MAX_REPORTED" unfolding un by (rule Cons.prems(4))
    moreover have "distinct (map kb_dev ks)" "\<not> ki_baselining (x\<lparr>ki_reported := rep\<rparr>)" using Cons.prems(1,2) by simp_all
    ultimately show ?thesis using Cons.IH [of "x\<lparr>ki_reported := rep\<rparr>" devs1 s2] r(1) that unfolding G by simp blast
  qed
  have dk: "devs' (kb_dev k) = devs1 (kb_dev k)" using i(5) Cons.prems(2) by auto
  have "devs_cleaned ix x devs devs' k" using cl by (simp add: devs_cleaned_def dk)
  moreover have "list_all (devs_cleaned ix x devs devs') ks"
  proof -
    have "devs_cleaned ix x devs devs' j" if "j \<in> set ks" for j
    proof -
      have "kb_dev j \<noteq> kb_dev k" using Cons.prems(2) that by (metis distinct.simps(2) imageI list.set_map list.simps(9))
      then have "devs1 (kb_dev j) = devs (kb_dev j)" using oth by simp
      then show ?thesis using i(6) that
        by (simp add: list_all_iff devs_cleaned_def infos_def bad_addrs_def kg_handler_authorised_def)
    qed
    then show ?thesis by (simp add: list_all_iff)
  qed
  moreover have "\<forall>d. d \<notin> kb_dev ` set (k # ks) \<longrightarrow> devs' d = devs d" using i(5) oth by simp
  ultimately show ?case using i(1-4) r n un by (intro exI [of _ rep'] exI [of _ devs'] exI [of _ s']) (simp add: k fresh_append)
qed

section \<open>Detours\<close>

lemma rel32_le32: "rel32 (le32 w @ rest) = scast w"
  by (simp add: rel32_def le_val_le32)

text \<open>The ways to write a jump to a target at the start of a function, as the bytes from there on.\<close>

datatype detour = Jmp_rel u32 | Jmp_mem u32 u64 | Mov_jmp u64 | Push_ret u32

fun detour_bytes :: "detour \<Rightarrow> bytes" where
  "detour_bytes (Jmp_rel r) = 0xe9 # le32 r"
| "detour_bytes (Jmp_mem r t) = 0xff # 0x25 # le32 r"
| "detour_bytes (Mov_jmp t) = 0x48 # 0xb8 # le64 t @ [0xff, 0xe0]"
| "detour_bytes (Push_ret r) = 0x68 # le32 r @ [0xc3]"

text \<open>Where the processor goes from address \<open>at\<close>; the memory form takes its target from the slot it names.\<close>

fun goes_to :: "input_env \<Rightarrow> u64 \<Rightarrow> detour \<Rightarrow> u64 \<Rightarrow> bool" where
  "goes_to ix at (Jmp_rel r) tgt = (tgt = at + 5 + scast r)"
| "goes_to ix at (Jmp_mem r t) tgt = (tgt = t \<and> kg_read_kernel ix (at + 6 + scast r) 8 = Some (le64 t))"
| "goes_to ix at (Mov_jmp t) tgt = (tgt = t)"
| "goes_to ix at (Push_ret r) tgt = (tgt = scast r)"

lemma target_of_detour:
  assumes "length pre = off" and "goes_to ix (fn + of_nat off) dt tgt"
  shows "detour_target ix fn (pre @ detour_bytes dt @ rest) off = tgt" "detour_bytes dt ! 0 \<noteq> 0xcc"
proof -
  have l64: "length (le64 t) = 8" for t by simp
  show "detour_target ix fn (pre @ detour_bytes dt @ rest) off = tgt"
  proof (cases dt)
    case (Mov_jmp t)
    have n: "(le64 t @ 0xff # 0xe0 # rest) ! 8 = 0xff" "(le64 t @ 0xff # 0xe0 # rest) ! 9 = 0xe0"
      by (simp_all add: nth_append)
    show ?thesis using assms n by (simp add: Mov_jmp detour_target_def Let_def le_val_le64)
  next
    case (Push_ret r)
    have "(le32 r @ 0xc3 # rest) ! 4 = 0xc3" by (simp add: nth_append)
    then show ?thesis using assms by (simp add: Push_ret detour_target_def Let_def rel32_le32)
  next
    case (Jmp_rel r)
    then show ?thesis using assms by (simp add: detour_target_def Let_def rel32_le32 add.assoc)
  next
    case (Jmp_mem r t)
    have "(0xff :: u8) \<noteq> 0xe9" by simp
    then show ?thesis using assms by (simp only: Jmp_mem) (simp add: detour_target_def Let_def rel32_le32 le_val_le64 add.assoc)
  qed
  show "detour_bytes dt ! 0 \<noteq> 0xcc" by (cases dt) simp_all
qed

lemma detour_nonempty: "detour_bytes dt \<noteq> []" by (cases dt) simp_all

section \<open>What every operation keeps\<close>

definition input_inv :: "kg_input \<Rightarrow> bool" where
  "input_inv x \<longleftrightarrow> length (ki_base_names x) \<le> KG_MAX_BASE \<and> distinct (ki_base_names x) \<and>
     length (ki_reported x) \<le> KG_MAX_REPORTED \<and> distinct (ki_reported x) \<and>
     ki_nkbd x = of_nat (length (ki_kbds x)) \<and> distinct (map kb_handle (ki_kbds x)) \<and>
     (ki_queued x \<noteq> None \<longrightarrow> ki_running x) \<and> (ki_running x \<longrightarrow> \<not> ki_stop x) \<and> \<not> ki_baselining x"

text \<open>What holds within a pass: of the fields only the two tables change.\<close>

definition pass_of :: "kg_input \<Rightarrow> kg_input \<Rightarrow> bool" where
  "pass_of x x' \<longleftrightarrow> ki_kbds x' = ki_kbds x \<and> ki_nkbd x' = ki_nkbd x \<and> ki_stop x' = ki_stop x \<and> ki_running x' = ki_running x \<and>
     ki_baselining x' = ki_baselining x \<and> ki_queued x' = ki_queued x \<and>
     (length (ki_base_names x) \<le> KG_MAX_BASE \<and> distinct (ki_base_names x) \<longrightarrow>
        length (ki_base_names x') \<le> KG_MAX_BASE \<and> distinct (ki_base_names x')) \<and>
     (length (ki_reported x) \<le> KG_MAX_REPORTED \<and> distinct (ki_reported x) \<longrightarrow>
        length (ki_reported x') \<le> KG_MAX_REPORTED \<and> distinct (ki_reported x'))"

lemma pass_refl [simp]: "pass_of x x"
  by (simp add: pass_of_def)

lemma pass_trans: "pass_of x y \<Longrightarrow> pass_of y z \<Longrightarrow> pass_of x z"
  by (simp add: pass_of_def)

lemma announce_ok:
  "length rep \<le> KG_MAX_REPORTED \<and> distinct rep \<Longrightarrow> fold (announce env) fs (rep, s) = (rep', s') \<Longrightarrow> length rep' \<le> KG_MAX_REPORTED \<and> distinct rep'"
proof (induction fs arbitrary: rep s)
  case (Cons f fs)
  obtain rep1 s1 where a: "announce env f (rep, s) = (rep1, s1)" by (rule prod.exhaust)
  have "length rep1 \<le> KG_MAX_REPORTED \<and> distinct rep1" using a Cons.prems(1) by (auto simp: announce_def split: prod.splits if_splits)
  then show ?case using Cons.IH [of rep1 s1] Cons.prems(2) by (simp add: a)
qed simp

lemma base_add_ok:
  "length name \<le> 31 \<Longrightarrow> length base \<le> KG_MAX_BASE \<Longrightarrow> distinct base \<Longrightarrow>
     length (kg_base_add name base) \<le> KG_MAX_BASE \<and> distinct (kg_base_add name base)"
  by (auto simp: kg_base_add_def list_ex_iff)

lemma scan_handler_pass:
  assumes "length (hi_name hi) \<le> 31"
  shows "pass_of x (fst (scan_handler ix hi (x, s)))"
proof (cases "ki_baselining x")
  case False
  obtain rep s' where f: "fold (announce (ix_env ix)) (findings ix x hi) (ki_reported x, s) = (rep, s')" by (rule prod.exhaust)
  then show ?thesis using announce_ok [OF _ f] by (simp add: scan_handler_announce [OF False] pass_of_def)
next
  case True
  obtain rep s' where f: "fold (announce (ix_env ix)) (concat (map (callback_finding ix hi) (take 7 (hi_cb hi)))) (ki_reported x, s) = (rep, s')"
    by (rule prod.exhaust)
  then show ?thesis using announce_ok [OF _ f] base_add_ok [OF assms, of "ki_base_names x"] True
    by (simp add: scan_handler_def check_callbacks_announce pass_of_def)
qed

lemma infos_name: "hi \<in> set (infos devs k) \<Longrightarrow> length (hi_name hi) \<le> 31"
  by (auto simp: infos_def info_of_def hinfo_of_def List.map_filter_def split: if_splits dest!: in_set_takeD)

lemma scan_handlers_pass: "\<forall>hi\<in>set his. length (hi_name hi) \<le> 31 \<Longrightarrow> pass_of x (fst (fold (scan_handler ix) his (x, s)))"
proof (induction his arbitrary: x s)
  case (Cons hi his)
  obtain x1 s1 where h: "scan_handler ix hi (x, s) = (x1, s1)" by (rule prod.exhaust)
  have "pass_of x x1" using scan_handler_pass [of hi x ix s] Cons.prems h by simp
  moreover have "pass_of x1 (fst (fold (scan_handler ix) his (x1, s1)))" using Cons.IH Cons.prems by simp
  ultimately show ?case using pass_trans by (simp add: h)
qed simp

lemma scan_kbd_pass: "pass_of x (fst (kg_scan_kbd ix k (x, devs, s)))"
proof -
  obtain x1 s1 where f: "fold (scan_handler ix) (infos devs k) (x, s) = (x1, s1)" by (rule prod.exhaust)
  have "pass_of x x1" using scan_handlers_pass [of "infos devs k" x ix s] infos_name f by simp
  then show ?thesis by (simp add: kg_scan_kbd_def gather_infos f split: prod.splits)
qed

lemma scan_kbds_pass: "pass_of x (fst (fold (kg_scan_kbd ix) ks (x, devs, s)))"
proof (induction ks arbitrary: x devs s)
  case (Cons k ks)
  obtain x1 devs1 s1 where k: "kg_scan_kbd ix k (x, devs, s) = (x1, devs1, s1)" by (metis prod.exhaust)
  have "pass_of x x1" using scan_kbd_pass [of x ix k devs s] by (simp add: k)
  then show ?case using Cons.IH [of x1 devs1 s1] pass_trans by (simp add: k)
qed simp

lemma scan_all_pass: "pass_of x (fst (kg_input_scan_all ix (x, devs, s)))"
proof -
  obtain x1 devs1 s1 where f: "fold (kg_scan_kbd ix) (ki_kbds x) (x, devs, s) = (x1, devs1, s1)" by (metis prod.exhaust)
  have "pass_of x x1" using scan_kbds_pass [of x ix "ki_kbds x" devs s] by (simp add: f)
  moreover have "pass_of x1 (kg_prune_reported devs1 x1)"
    by (auto simp: pass_of_def kg_prune_reported_def intro: le_trans [OF length_filter_le])
  ultimately show ?thesis using pass_trans by (simp add: kg_input_scan_all_def f)
qed

lemma pass_fields:
  assumes "pass_of x x'"
  shows "ki_kbds x' = ki_kbds x" "ki_nkbd x' = ki_nkbd x" "ki_stop x' = ki_stop x" "ki_running x' = ki_running x"
    "ki_baselining x' = ki_baselining x" "ki_queued x' = ki_queued x"
  using assms by (simp_all add: pass_of_def)

datatype input_act =
    In_init input_env "errno option" "(bool \<times> errno option \<times> kg_kbd) list"
  | In_work input_env
  | In_kick
  | In_connect bool "errno option" kg_kbd
  | In_disconnect u64
  | In_devices input_store
  | In_exit

text \<open>
  The module is initialised once; the input core disconnects a handle it has connected, the handle of a new keyboard is a
  fresh object, and the worker runs when it is queued.
\<close>

fun input_do :: "input_act \<Rightarrow> input_st \<Rightarrow> input_st" where
  "input_do (In_init ix reg conns) st =
     (if ki_running (fst st) \<or> ki_kbds (fst st) \<noteq> [] \<or> \<not> distinct (map (\<lambda>(_, _, k). kb_handle k) conns) then st
      else fst (kg_input_init ix reg conns st))"
| "input_do (In_work ix) st = (if ki_queued (fst st) = None then st else kg_input_workfn ix st)"
| "input_do In_kick st = (kg_input_kick (fst st), snd st)"
| "input_do (In_connect alloc reg k) st =
     (if kb_handle k \<in> kb_handle ` set (ki_kbds (fst st)) then st else (fst (kg_input_connect alloc reg k (fst st)), snd st))"
| "input_do (In_disconnect h) st =
     (if h \<in> kb_handle ` set (ki_kbds (fst st)) then (kg_input_disconnect h (fst st), snd st) else st)"
| "input_do (In_devices devs) st = (fst st, devs, snd (snd st))"
| "input_do In_exit st = (kg_input_exit (fst st), snd st)"

lemma length_filter_distinct:
  "distinct (map f xs) \<Longrightarrow> a \<in> f ` set xs \<Longrightarrow> Suc (length (filter (\<lambda>x. f x \<noteq> a) xs)) = length xs"
proof (induction xs)
  case (Cons x xs)
  show ?case
  proof (cases "f x = a")
    case True
    then have "\<forall>y\<in>set xs. f y \<noteq> a" using Cons.prems(1) by (auto simp: image_iff)
    then have "filter (\<lambda>x. f x \<noteq> a) xs = xs" by simp
    with True show ?thesis by simp
  qed (use Cons in auto)
qed simp

lemma disconnect_books:
  assumes "ki_nkbd x = of_nat (length (ki_kbds x))" and "distinct (map kb_handle (ki_kbds x))" and "h \<in> kb_handle ` set (ki_kbds x)"
  shows "ki_nkbd (kg_input_disconnect h x) = of_nat (length (ki_kbds (kg_input_disconnect h x)))"
    "distinct (map kb_handle (ki_kbds (kg_input_disconnect h x)))"
proof -
  let ?l = "filter (\<lambda>k. kb_handle k \<noteq> h) (ki_kbds x)"
  have "length (ki_kbds x) = Suc (length ?l)" using length_filter_distinct [OF assms(2,3)] by simp
  then show "ki_nkbd (kg_input_disconnect h x) = of_nat (length (ki_kbds (kg_input_disconnect h x)))"
    using assms(1) by (simp add: kg_input_disconnect_def)
  show "distinct (map kb_handle (ki_kbds (kg_input_disconnect h x)))"
    using assms(2) by (simp add: kg_input_disconnect_def List.distinct_map_filter)
qed

lemma connect_ok:
  assumes "input_inv x" and "kb_handle k \<notin> kb_handle ` set (ki_kbds x)"
  shows "input_inv (fst (kg_input_connect alloc reg k x))"
  using assms by (auto simp: kg_input_connect_def input_inv_def kg_input_kick_def Let_def split: option.splits)

lemma disconnect_ok:
  assumes "input_inv x" and "h \<in> kb_handle ` set (ki_kbds x)"
  shows "input_inv (kg_input_disconnect h x)"
proof -
  have "ki_nkbd x = of_nat (length (ki_kbds x))" "distinct (map kb_handle (ki_kbds x))" using assms(1) by (simp_all add: input_inv_def)
  from disconnect_books [OF this assms(2)] assms(1) show ?thesis
    by (simp add: input_inv_def) (simp add: kg_input_disconnect_def)
qed

lemma kick_ok: "input_inv x \<Longrightarrow> input_inv (kg_input_kick x)"
  by (auto simp: kg_input_kick_def input_inv_def)

lemma disconnect_tail:
  assumes "ki_kbds x = k # ks" and "distinct (map kb_handle (k # ks))"
  shows "ki_kbds (kg_input_disconnect (kb_handle k) x) = ks"
  using assms by (auto simp: kg_input_disconnect_def filter_id_conv image_iff)

lemma disconnect_every:
  "ki_kbds x = ks \<Longrightarrow> input_inv x \<Longrightarrow> \<not> ki_running x \<Longrightarrow>
     input_inv (fold (\<lambda>k. kg_input_disconnect (kb_handle k)) ks x) \<and> ki_kbds (fold (\<lambda>k. kg_input_disconnect (kb_handle k)) ks x) = []"
proof (induction ks arbitrary: x)
  case (Cons k ks)
  have d: "distinct (map kb_handle (k # ks))" using Cons.prems(1,2) by (simp add: input_inv_def)
  have "input_inv (kg_input_disconnect (kb_handle k) x)" using disconnect_ok [OF Cons.prems(2)] Cons.prems(1) by simp
  moreover have "\<not> ki_running (kg_input_disconnect (kb_handle k) x)" using Cons.prems(3) by (simp add: kg_input_disconnect_def)
  ultimately show ?case using Cons.IH [OF disconnect_tail [OF Cons.prems(1) d]] by simp
qed simp

lemma exit_ok: "input_inv x \<Longrightarrow> input_inv (kg_input_exit x)"
proof -
  assume i: "input_inv x"
  show ?thesis
  proof (cases "ki_running x")
    case True
    have "input_inv (x\<lparr>ki_stop := True, ki_queued := None, ki_running := False\<rparr>)" using i by (simp add: input_inv_def)
    then show ?thesis
      using disconnect_every [of "x\<lparr>ki_stop := True, ki_queued := None, ki_running := False\<rparr>" "ki_kbds x"] True by (simp add: kg_input_exit_def)
  qed (use i in \<open>simp add: kg_input_exit_def\<close>)
qed

lemma work_ok:
  assumes "input_inv (fst st)" and "ki_queued (fst st) \<noteq> None"
  shows "input_inv (fst (kg_input_workfn ix st))"
proof -
  obtain x devs s where st: "st = (x, devs, s)" by (metis prod.exhaust)
  obtain x' devs' s' where r: "kg_input_scan_all ix (x\<lparr>ki_queued := None\<rparr>, devs, s) = (x', devs', s')" by (metis prod.exhaust)
  have p: "pass_of (x\<lparr>ki_queued := None\<rparr>) x'" using scan_all_pass [of "x\<lparr>ki_queued := None\<rparr>" ix devs s] by (simp add: r)
  have "input_inv (x\<lparr>ki_queued := None\<rparr>)" using assms by (simp add: st input_inv_def)
  then have i: "input_inv x'" using p by (simp add: input_inv_def pass_of_def)
  have run: "ki_running x'" using pass_fields [OF p] assms by (simp add: st input_inv_def)
  have rq: "input_inv (input_requeue d y)" if "input_inv y" "ki_running y" for d y
    using that by (simp add: input_requeue_def input_inv_def)
  have "ki_running (kg_input_kick x')" using run by (simp add: kg_input_kick_def)
  then show ?thesis using rq i run kick_ok by (simp add: st kg_input_workfn_def r)
qed

lemma disjoint_insert_sub: "S \<subseteq> insert a H \<Longrightarrow> a \<notin> C \<Longrightarrow> H \<inter> C = {} \<Longrightarrow> S \<inter> C = {}"
  by blast

lemma connects_ok:
  assumes "input_inv x" and "distinct (map (\<lambda>(_, _, k). kb_handle k) conns)"
    and "kb_handle ` set (ki_kbds x) \<inter> set (map (\<lambda>(_, _, k). kb_handle k) conns) = {}"
  shows "input_inv (fold (\<lambda>(alloc, r, k) y. fst (kg_input_connect alloc r k y)) conns x)"
  using assms
proof (induction conns arbitrary: x)
  case (Cons c conns)
  obtain alloc r k where c: "c = (alloc, r, k)" by (metis prod.exhaust)
  have ok: "input_inv (fst (kg_input_connect alloc r k x))" using connect_ok [OF Cons.prems(1)] Cons.prems(3) by (simp add: c)
  have sub: "kb_handle ` set (ki_kbds (fst (kg_input_connect alloc r k x))) \<subseteq> insert (kb_handle k) (kb_handle ` set (ki_kbds x))"
    by (auto simp: kg_input_connect_def kg_input_kick_def Let_def split: option.splits if_splits)
  have "kb_handle ` set (ki_kbds (fst (kg_input_connect alloc r k x))) \<inter> set (map (\<lambda>(_, _, k). kb_handle k) conns) = {}"
    using disjoint_insert_sub [OF sub] Cons.prems(2,3) by (simp add: c)
  then show ?case using Cons.IH [OF ok] Cons.prems(2) by (simp add: c)
qed simp

lemma init_ok:
  assumes "input_inv (fst st)" and "\<not> ki_running (fst st)" and "ki_kbds (fst st) = []" and "distinct (map (\<lambda>(_, _, k). kb_handle k) conns)"
  shows "input_inv (fst (fst (kg_input_init ix reg conns st)))"
proof -
  obtain x devs s where st: "st = (x, devs, s)" by (metis prod.exhaust)
  let ?x0 = "x\<lparr>ki_stop := False, ki_queued := None\<rparr>"
  let ?x1 = "fold (\<lambda>(alloc, r, k) y. fst (kg_input_connect alloc r k y)) conns ?x0"
  have i0: "input_inv ?x0" using assms(1) by (simp add: st input_inv_def)
  have i1: "input_inv ?x1" using connects_ok [OF i0 assms(4)] assms(3) by (simp add: st)
  have stop: "\<not> ki_stop (fold (\<lambda>(alloc, r, k) y. fst (kg_input_connect alloc r k y)) cs y)" if "\<not> ki_stop y" for cs y
    using that
  proof (induction cs arbitrary: y)
    case (Cons c cs)
    obtain alloc r k where c: "c = (alloc, r, k)" by (metis prod.exhaust)
    have "\<not> ki_stop (fst (kg_input_connect alloc r k y))"
      using Cons.prems by (simp add: kg_input_connect_def kg_input_kick_def Let_def split: option.splits)
    then show ?case using Cons.IH by (simp add: c)
  qed simp
  obtain x2 devs2 s2 where r: "kg_input_scan_all ix (?x1\<lparr>ki_baselining := True\<rparr>, devs, s) = (x2, devs2, s2)" by (metis prod.exhaust)
  have p: "pass_of (?x1\<lparr>ki_baselining := True\<rparr>) x2" using scan_all_pass [of "?x1\<lparr>ki_baselining := True\<rparr>" ix devs s] by (simp add: r)
  have "\<not> ki_stop x2" using pass_fields(3) [OF p] stop [of ?x0 conns] by simp
  then have "input_inv (x2\<lparr>ki_baselining := False, ki_running := True, ki_queued := Some d\<rparr>)" for d
    using i1 p by (simp add: input_inv_def pass_of_def)
  then show ?thesis using i0 by (simp add: st kg_input_init_def r Let_def split: option.splits)
qed

lemma input_inv_do: "input_inv (fst st) \<Longrightarrow> input_inv (fst (input_do a st))"
  by (cases a) (simp_all add: init_ok work_ok kick_ok connect_ok disconnect_ok exit_ok)

lemma input_inv_run: "input_inv (fst st) \<Longrightarrow> input_inv (fst (fold input_do acts st))"
  by (induction acts arbitrary: st) (simp_all add: input_inv_do)

lemma input_inv_loaded: "input_inv input_loaded"
  by (simp add: input_inv_def input_loaded_def)

section \<open>The baseline of handlers\<close>

lemma announce_hooks:
  "\<forall>f\<in>set fs. fst (snd f) = KG_ALERT_DISPATCH_HOOK \<Longrightarrow> fold (announce env) fs (rep, s) = (rep', s') \<Longrightarrow>
     notes_of {KG_ALERT_UNAUTHORIZED_KBD_FILTER} s' = notes_of {KG_ALERT_UNAUTHORIZED_KBD_FILTER} s"
proof (induction fs arbitrary: rep s)
  case (Cons f fs)
  obtain rep1 s1 where a: "announce env f (rep, s) = (rep1, s1)" by (rule prod.exhaust)
  have "notes_of {KG_ALERT_UNAUTHORIZED_KBD_FILTER} s1 = notes_of {KG_ALERT_UNAUTHORIZED_KBD_FILTER} s"
    using a Cons.prems(1) by (auto simp: announce_def notes_of_report kg_const split: prod.splits if_splits)
  then show ?case using Cons.IH [of rep1 s1] Cons.prems by (simp add: a)
qed simp

lemma base_handler:
  assumes "ki_baselining x" and "scan_handler ix hi (x, s) = (x', s')"
  shows "ki_base_names x' = kg_base_add (hi_name hi) (ki_base_names x) \<and> ki_baselining x' \<and>
     notes_of {KG_ALERT_UNAUTHORIZED_KBD_FILTER} s' = notes_of {KG_ALERT_UNAUTHORIZED_KBD_FILTER} s"
proof -
  let ?fs = "concat (map (callback_finding ix hi) (take 7 (hi_cb hi)))"
  obtain rep s1 where f: "fold (announce (ix_env ix)) ?fs (ki_reported x, s) = (rep, s1)" by (rule prod.exhaust)
  have "\<forall>f\<in>set ?fs. fst (snd f) = KG_ALERT_DISPATCH_HOOK"
    by (auto simp: callback_finding_def Let_def split: if_splits)
  from announce_hooks [OF this f] f show ?thesis
    using assms by (auto simp: scan_handler_def check_callbacks_announce)
qed

lemma base_handlers:
  "ki_baselining x \<Longrightarrow> fold (scan_handler ix) his (x, s) = (x', s') \<Longrightarrow>
     ki_base_names x' = fold (\<lambda>hi. kg_base_add (hi_name hi)) his (ki_base_names x) \<and> ki_baselining x' \<and>
     notes_of {KG_ALERT_UNAUTHORIZED_KBD_FILTER} s' = notes_of {KG_ALERT_UNAUTHORIZED_KBD_FILTER} s"
proof (induction his arbitrary: x s)
  case (Cons hi his)
  obtain x1 s1 where h: "scan_handler ix hi (x, s) = (x1, s1)" by (rule prod.exhaust)
  show ?case using base_handler [OF Cons.prems(1) h] Cons.IH [of x1 s1] Cons.prems(2) by (simp add: h)
qed simp

definition trusted_infos :: "input_env \<Rightarrow> input_store \<Rightarrow> kg_kbd list \<Rightarrow> kg_hinfo list" where
  "trusted_infos ix devs ks = concat (map (\<lambda>k. if ix_alloc_ok ix (kb_dev k) then infos devs k else []) ks)"

lemma base_kbds:
  "ki_baselining x \<Longrightarrow> fold (kg_scan_kbd ix) ks (x, devs, s) = (x', devs', s') \<Longrightarrow>
     ki_base_names x' = fold (\<lambda>hi. kg_base_add (hi_name hi)) (trusted_infos ix devs ks) (ki_base_names x) \<and> ki_baselining x' \<and> devs' = devs \<and>
     notes_of {KG_ALERT_UNAUTHORIZED_KBD_FILTER} s' = notes_of {KG_ALERT_UNAUTHORIZED_KBD_FILTER} s"
proof (induction ks arbitrary: x s)
  case (Cons k ks)
  show ?case
  proof (cases "ix_alloc_ok ix (kb_dev k)")
    case True
    obtain x1 s1 where f: "fold (scan_handler ix) (infos devs k) (x, s) = (x1, s1)" by (rule prod.exhaust)
    note b = base_handlers [OF Cons.prems(1) f]
    have "kg_scan_kbd ix k (x, devs, s) = (x1, devs, s1)" using True b by (simp add: kg_scan_kbd_def gather_infos f)
    then show ?thesis using Cons.IH [of x1 s1] Cons.prems(2) b True by (simp add: trusted_infos_def)
  next
    case False
    then show ?thesis using Cons.IH [of x s] Cons.prems by (simp add: kg_scan_kbd_def trusted_infos_def)
  qed
qed (simp add: trusted_infos_def)

lemma base_add_keeps: "set base \<subseteq> set (kg_base_add n base)" "length base \<le> length (kg_base_add n base)"
  by (auto simp: kg_base_add_def)

lemma base_adds_grow: "set base \<subseteq> set (fold (\<lambda>hi. kg_base_add (hi_name hi)) his base)"
  "length base \<le> length (fold (\<lambda>hi. kg_base_add (hi_name hi)) his base)"
proof -
  show "set base \<subseteq> set (fold (\<lambda>hi. kg_base_add (hi_name hi)) his base)"
  proof (induction his arbitrary: base)
    case (Cons hi his)
    show ?case using base_add_keeps(1) [of base "hi_name hi"] Cons.IH [of "kg_base_add (hi_name hi) base"] by auto
  qed simp
  show "length base \<le> length (fold (\<lambda>hi. kg_base_add (hi_name hi)) his base)"
  proof (induction his arbitrary: base)
    case (Cons hi his)
    show ?case using le_trans [OF base_add_keeps(2) Cons.IH] by simp
  qed simp
qed

lemma base_adds_all:
  assumes "length (fold (\<lambda>hi. kg_base_add (hi_name hi)) his base) < KG_MAX_BASE" and "hi \<in> set his" and "\<forall>h\<in>set his. length (hi_name h) \<le> 31"
  shows "hi_name hi \<in> set (fold (\<lambda>hi. kg_base_add (hi_name hi)) his base)"
  using assms
proof (induction his arbitrary: base)
  case (Cons h his)
  show ?case
  proof (cases "hi = h")
    case True
    have "length (kg_base_add (hi_name h) base) < KG_MAX_BASE"
      using Cons.prems(1) base_adds_grow(2) [of "kg_base_add (hi_name h) base" his] by simp
    then have "hi_name h \<in> set (kg_base_add (hi_name h) base)"
      using Cons.prems(3) by (auto simp: kg_base_add_def list_ex_iff split: if_splits)
    then show ?thesis using base_adds_grow(1) [of "kg_base_add (hi_name h) base" his] True by auto
  qed (use Cons in auto)
qed simp

section \<open>Properties\<close>

text \<open>
  C17.  A pass over the keyboards reports exactly what is new.  With room in the table of reported entries and one record per device, the
  pass announces, keyboard by keyboard and handler by handler, each unauthorised handler and each hooked callback that was not announced
  while its handle has been attached, once, and nothing else; afterwards precisely the entries whose handle is still on the list of
  some keyboard are remembered; and with the enforce parameter set, of each keyboard that could be examined and locked, exactly the
  unauthorised handlers among the first 24 are off the list, the others all kept, in order.
\<close>
theorem kbd_pass_exact:
  assumes "\<not> ki_baselining x" and "distinct (map kb_dev (ki_kbds x))" and "distinct (ki_reported x)"
    and "card (set (ki_reported x) \<union> fst ` set (concat (map (kbd_findings ix x devs) (ki_kbds x)))) \<le> KG_MAX_REPORTED"
  shows "case kg_input_scan_all ix (x, devs, s) of (x', devs', s') \<Rightarrow>
     x' = x\<lparr>ki_reported := ki_reported x'\<rparr> \<and>
     notes_of kbd_alerts s' = notes_of kbd_alerts s @
       map snd (fresh (set (ki_reported x)) (concat (map (kbd_findings ix x devs) (ki_kbds x)))) \<and>
     set (ki_reported x') = {(h, c, k) \<in> set (ki_reported x) \<union> fst ` set (concat (map (kbd_findings ix x devs) (ki_kbds x))).
       handle_alive devs' (ki_kbds x) h} \<and>
     list_all (devs_cleaned ix x devs devs') (ki_kbds x)"
proof -
  obtain rep devs' s' where f: "fold (kg_scan_kbd ix) (ki_kbds x) (x, devs, s) = (x\<lparr>ki_reported := rep\<rparr>, devs', s')"
    and r: "set rep = set (ki_reported x) \<union> fst ` set (concat (map (kbd_findings ix x devs) (ki_kbds x)))"
    and n: "notes_of kbd_alerts s' = notes_of kbd_alerts s @
      map snd (fresh (set (ki_reported x)) (concat (map (kbd_findings ix x devs) (ki_kbds x))))"
    and c: "list_all (devs_cleaned ix x devs devs') (ki_kbds x)"
    using scan_kbds [OF assms, of s] by blast
  have "{(h, c, k) \<in> set rep. handle_alive devs' (ki_kbds x) h} = set (filter (\<lambda>(h, c, k). handle_alive devs' (ki_kbds x) h) rep)"
    by auto
  then show ?thesis using n c unfolding r [symmetric] by (simp add: kg_input_scan_all_def f kg_prune_reported_def)
qed

text \<open>A keyboard with a rogue handler that is open.\<close>

definition example_handler :: input_handler where
  "example_handler = \<lparr>hd_addr = 0x1000, hd_name = Some ''logger'', hd_event = 0, hd_events = 0, hd_filter = 0, hd_match = 0, hd_connect = 0,
     hd_disconnect = 0, hd_start = 0\<rparr>"

definition example_input_devs :: input_store where
  "example_input_devs d = \<lparr>id_h_list = [\<lparr>ih_addr = 0x20, ih_handler = Some example_handler, ih_open = 1\<rparr>], id_grab = None\<rparr>"

definition example_input :: kg_input where
  "example_input = input_loaded\<lparr>ki_kbds := [\<lparr>kb_handle = 0x10, kb_dev = 0\<rparr>], ki_nkbd := 1\<rparr>"

definition example_ix :: input_env where
  "example_ix = \<lparr>ix_env = example_env 0, ix_kbd_allow = '''', ix_mem = (\<lambda>a. None), ix_sym = (\<lambda>a. ''0x0''), ix_alloc_ok = (\<lambda>d. True),
     ix_lock_ok = (\<lambda>d. True)\<rparr>"

lemma example_kbd_findings:
  "kbd_findings example_ix example_input example_input_devs \<lparr>kb_handle = 0x10, kb_dev = 0\<rparr> =
     [((0x20, 0, 0), KG_ALERT_UNAUTHORIZED_KBD_FILTER, KG_LEVEL_CRITICAL, fst (kg_pack_name ''logger''), snd (kg_pack_name ''logger''))]"
proof -
  have i: "infos example_input_devs \<lparr>kb_handle = 0x10, kb_dev = 0\<rparr> =
      [\<lparr>hi_handle = 0x20, hi_open = True, hi_name = ''logger'', hi_handler_addr = 0x1000, hi_cb = [0, 0, 0, 0, 0, 0, 0]\<rparr>]"
    by (simp add: infos_def example_input_devs_def info_of_def hinfo_of_def example_handler_def map_filter_Cons' List.map_filter_def kg_const)
  have a: "\<not> kg_handler_authorised (ix_kbd_allow example_ix) example_input ''logger''"
    by (simp add: kg_handler_authorised_def kg_list_contains_def list_scan_words KG_BUILTIN_HANDLERS_def list_sep_def example_ix_def
        example_input_def input_loaded_def)
  show ?thesis
    by (simp add: kbd_findings_def i findings_def handler_finding_def a callback_finding_def) (simp add: example_ix_def)
qed

theorem kbd_pass_exact_witness:
  "notes_of kbd_alerts (snd (snd (kg_input_scan_all example_ix (example_input, example_input_devs, example_sys)))) =
     notes_of kbd_alerts example_sys @
       [(KG_ALERT_UNAUTHORIZED_KBD_FILTER, KG_LEVEL_CRITICAL, fst (kg_pack_name ''logger''), snd (kg_pack_name ''logger''))]"
proof -
  have x: "ki_kbds example_input = [\<lparr>kb_handle = 0x10, kb_dev = 0\<rparr>]" "ki_reported example_input = []" "\<not> ki_baselining example_input"
    by (simp_all add: example_input_def input_loaded_def)
  show ?thesis
    using kbd_pass_exact [where x = example_input and ix = example_ix and devs = example_input_devs and s = example_sys]
    by (simp add: x example_kbd_findings kg_const split: prod.splits)
qed

text \<open>
  C18.  Detours are recognised.  Whatever jump is written over the start of a function, a relative jump, a jump through memory, a move and
  jump, or a push and return, also behind an \<open>endbr64\<close>, when the first 24 bytes can be read, its verdict is the one of the
  address the processor goes to (and none when that is 0): unresolved code, another module, or neither.
\<close>
theorem detour_recognised:
  assumes "kg_read_kernel ix fn 24 = Some (pre @ detour_bytes dt @ rest)" and "pre = [] \<or> pre = [0xf3, 0x0f, 0x1e, 0xfa]"
    and "goes_to ix (fn + of_nat (length pre)) dt tgt"
  shows "kg_check_entry ix fn fn_mod = (if tgt = 0 then KG_HK_NONE else detour_kind ix fn_mod tgt)"
proof -
  note t = target_of_detour(1) [OF refl assms(3), of rest] target_of_detour(2) [OF refl assms(3)]
  have n: "detour_bytes dt \<noteq> []" by (rule detour_nonempty)
  show ?thesis
  proof (cases "pre = []")
    case True
    have "take 4 (detour_bytes dt @ rest) \<noteq> [0xf3, 0x0f, 0x1e, 0xfa]" by (cases dt) simp_all
    then show ?thesis using assms(1) t True n by (simp add: kg_check_entry_def Let_def nth_append)
  next
    case False
    then have pre: "pre = [0xf3, 0x0f, 0x1e, 0xfa]" using assms(2) by simp
    have z: "detour_target ix fn ([0xf3, 0x0f, 0x1e, 0xfa] @ detour_bytes dt @ rest) 0 = 0" by (simp add: detour_target_def)
    have t4: "detour_target ix fn ([0xf3, 0x0f, 0x1e, 0xfa] @ detour_bytes dt @ rest) 4 = tgt"
      using target_of_detour(1) [where pre = pre and off = 4 and rest = rest] assms(3) by (simp add: pre)
    show ?thesis using assms(1) t(2) t4 pre n z by (simp add: kg_check_entry_def Let_def nth_append)
  qed
qed

text \<open>A jump behind \<open>endbr64\<close> from 0x4004 to 0x5000, which lies in another module.\<close>

definition example_code :: bytes where
  "example_code = [0xf3, 0x0f, 0x1e, 0xfa] @ detour_bytes (Jmp_rel 0xff7) @ [0x90, 0x90, 0x90, 0x90, 0x90, 0x90, 0x90, 0x90, 0x90, 0x90, 0x90, 0x90, 0x90, 0x90, 0x90]"

definition example_hooked :: input_env where
  "example_hooked = example_ix\<lparr>
     ix_mem := (\<lambda>a. if 0x4000 \<le> a \<and> a < 0x4018 then Some (example_code ! unat (a - 0x4000)) else None),
     ix_sym := (\<lambda>a. if a = 0x5000 then ''steal [evil]'' else ''kbd_event'')\<rparr>"

theorem detour_recognised_witness: "kg_check_entry example_hooked 0x4000 [] = KG_HK_DETOUR_FOREIGN"
proof -
  have r: "kg_read_kernel example_hooked 0x4000 24 = Some ([0xf3, 0x0f, 0x1e, 0xfa] @ detour_bytes (Jmp_rel 0xff7) @ [0x90, 0x90, 0x90, 0x90, 0x90, 0x90, 0x90, 0x90, 0x90, 0x90, 0x90, 0x90, 0x90, 0x90, 0x90])"
    by (simp add: kg_read_kernel_def example_hooked_def example_code_def upt_rec le32_def)
  have "goes_to example_hooked (0x4000 + of_nat (length [0xf3, 0x0f, 0x1e, 0xfa :: u8])) (Jmp_rel 0xff7) 0x5000" by simp
  then have "kg_check_entry example_hooked 0x4000 [] = (if (0x5000 :: u64) = 0 then KG_HK_NONE else detour_kind example_hooked [] 0x5000)"
    by (intro detour_recognised [OF r]) simp_all
  then show ?thesis by (simp add: detour_kind_def example_hooked_def kg_sym_module_def kg_const)
qed

text \<open>
  C28.  The books of the keyboard monitor stay in order.  However its operations follow each other from module load, the device counter
  equals the number of keyboards tracked, with one record per handle, at most 48 names are trusted and 96 entries remembered, none
  twice, the worker is queued only while the monitor runs, and a stop leaves no keyboard behind.
\<close>
theorem input_books:
  "input_inv (fst (fold input_do acts (input_loaded, devs, s))) \<and>
   (let x = fst (fold input_do acts (input_loaded, devs, s))
    in if ki_running x then ki_kbds (kg_input_exit x) = [] \<and> ki_nkbd (kg_input_exit x) = 0 \<and> ki_queued (kg_input_exit x) = None
       else kg_input_exit x = x)"
proof -
  define x where "x = fst (fold input_do acts (input_loaded, devs, s))"
  have i: "input_inv x" unfolding x_def by (rule input_inv_run) (simp add: input_inv_loaded)
  have "if ki_running x then ki_kbds (kg_input_exit x) = [] \<and> ki_nkbd (kg_input_exit x) = 0 \<and> ki_queued (kg_input_exit x) = None
      else kg_input_exit x = x"
  proof (cases "ki_running x")
    case True
    let ?y = "x\<lparr>ki_stop := True, ki_queued := None, ki_running := False\<rparr>"
    have e: "kg_input_exit x = fold (\<lambda>k. kg_input_disconnect (kb_handle k)) (ki_kbds x) ?y" using True by (simp add: kg_input_exit_def)
    have "input_inv ?y" using i by (simp add: input_inv_def)
    then have d: "input_inv (kg_input_exit x)" "ki_kbds (kg_input_exit x) = []"
      using disconnect_every [of ?y "ki_kbds x"] by (simp_all add: e)
    have "ki_running (fold (\<lambda>k. kg_input_disconnect (kb_handle k)) ks y) = ki_running y" for ks :: "kg_kbd list" and y
      by (induction ks arbitrary: y) (simp_all add: kg_input_disconnect_def)
    then have "\<not> ki_running (kg_input_exit x)" by (simp add: e)
    then show ?thesis using d True by (simp add: input_inv_def)
  qed (simp add: kg_input_exit_def)
  with i show ?thesis unfolding Let_def x_def by blast
qed


end
