(* ===== verification/KG_Modid.thy ===== *)
theory KG_Modid
  imports KG_Modgate
begin

text \<open>
  The reader of module files (\<^verbatim>\<open>src/linux/monitor/kg_modid.c\<close>): it takes an untrusted ELF image and returns the
  identity that the driver-load gate matches on.  Memory is explicit: every access to the image goes
  through \<open>slice\<close>, which has no value outside the buffer, and such an access ends the model with
  \<open>E_FAULT\<close>; that the code never makes one is a theorem.  Offsets and sizes are 64-bit words with
  wrap-around, as in the source.  At the end the identity is connected with the gate of \<open>KG_Modgate\<close>.
\<close>

unbundle bit_operations_syntax

section \<open>Reading memory\<close>

definition slice :: "bytes \<Rightarrow> nat \<Rightarrow> nat \<Rightarrow> bytes option" where
  "slice b off n = (if off + n \<le> length b then Some (take n (drop off b)) else None)"

definition rd16 :: "bytes \<Rightarrow> nat \<Rightarrow> u16 option" where
  "rd16 b off = map_option (\<lambda>p. ucast (p ! 0) OR push_bit 8 (ucast (p ! 1))) (slice b off 2)"

definition rd32 :: "bytes \<Rightarrow> nat \<Rightarrow> u32 option" where
  "rd32 b off = map_option (\<lambda>p. ucast (p ! 0) OR push_bit 8 (ucast (p ! 1)) OR push_bit 16 (ucast (p ! 2)) OR
     push_bit 24 (ucast (p ! 3))) (slice b off 4)"

definition rd64 :: "bytes \<Rightarrow> nat \<Rightarrow> u64 option" where
  "rd64 b off = (case rd32 b off of None \<Rightarrow> None | Some lo \<Rightarrow>
     map_option (\<lambda>hi. ucast lo OR push_bit 32 (ucast hi)) (rd32 b (off + 4)))"

definition memcmp_eq :: "bytes \<Rightarrow> nat \<Rightarrow> bytes \<Rightarrow> bool option" where
  "memcmp_eq b off pat = map_option (\<lambda>p. p = pat) (slice b off (length pat))"

definition ascii_bytes :: "string \<Rightarrow> bytes" where
  "ascii_bytes s = map (\<lambda>c. of_nat (cval c)) s"

definition str_of :: "bytes \<Rightarrow> string" where
  "str_of b = map (\<lambda>x. char_of (unat x)) b"

section \<open>Results\<close>

definition SHDR_SIZE :: u64 where [kg_const]: "SHDR_SIZE = 64"
definition SHT_STRTAB :: u32 where [kg_const]: "SHT_STRTAB = 3"
definition SHT_NOBITS :: u32 where [kg_const]: "SHT_NOBITS = 8"
definition ET_REL :: u16 where [kg_const]: "ET_REL = 1"
definition KG_MODID_NAME_MAX :: nat where [kg_const]: "KG_MODID_NAME_MAX = 56"
definition KG_MODID_SRCVER_MAX :: nat where [kg_const]: "KG_MODID_SRCVER_MAX = 32"
definition KG_MODID_STR_MAX :: nat where [kg_const]: "KG_MODID_STR_MAX = 128"

text \<open>The error codes, and the access outside the buffer that must not happen.\<close>

datatype modid_err =
    E_COMPRESSED | E_NOT_ELF | E_UNSUPPORTED | E_BAD_ELF | E_NO_MODINFO | E_NO_NAME | E_BAD_FIELD | E_FAULT

record kg_modid =
  mi_name :: string
  mi_srcversion :: string
  mi_version :: string
  mi_vermagic :: string
  mi_sig_marker :: bool
  mi_sha256 :: bytes

record elf_sec =
  sec_name :: u32
  sec_type :: u32
  sec_off :: u64
  sec_size :: u64

definition read_sec :: "bytes \<Rightarrow> u64 \<Rightarrow> nat \<Rightarrow> elf_sec option" where
  "read_sec img shoff idx =
     (let h = unat (shoff + of_nat idx * SHDR_SIZE)
      in case (rd32 img h, rd32 img (h + 4), rd64 img (h + 24), rd64 img (h + 32)) of
           (Some n, Some t, Some off, Some sz) \<Rightarrow> Some \<lparr>sec_name = n, sec_type = t, sec_off = off, sec_size = sz\<rparr>
         | _ \<Rightarrow> None)"

definition sec_in_file :: "elf_sec \<Rightarrow> u64 \<Rightarrow> bool" where
  "sec_in_file s len \<longleftrightarrow> sec_type s \<noteq> SHT_NOBITS \<and> sec_off s \<le> len \<and> sec_size s \<le> len - sec_off s"

definition name_chars_ok :: "string \<Rightarrow> bool" where
  "name_chars_ok s \<longleftrightarrow> s \<noteq> [] \<and>
     list_all (\<lambda>c. ascii_alnum c \<or> c = CHR ''_'' \<or> c = CHR ''-'' \<or> c = CHR ''.'') s"

definition hex_chars_ok :: "string \<Rightarrow> bool" where
  "hex_chars_ok s \<longleftrightarrow> s \<noteq> [] \<and> list_all ascii_xdigit s"

section \<open>The .modinfo section\<close>

text \<open>The wanted keys with the capacity of their fields, in the order of the table.\<close>

definition modinfo_want :: "(string \<times> nat) list" where
  "modinfo_want = [(''name'', KG_MODID_NAME_MAX), (''srcversion'', KG_MODID_SRCVER_MAX),
     (''version'', KG_MODID_STR_MAX), (''vermagic'', KG_MODID_STR_MAX)]"

text \<open>The fields being filled: which key was seen, and the value stored for it.\<close>

type_synonym mi_fields = "bool list \<times> string list"

text \<open>Does the entry of \<open>n\<close> bytes at the front of \<open>p\<close> carry this key?\<close>

definition key_match :: "string \<Rightarrow> bytes \<Rightarrow> nat \<Rightarrow> bool option" where
  "key_match key p n =
     (if n \<le> length key + 1 then Some False
      else (case memcmp_eq p 0 (ascii_bytes key) of
              None \<Rightarrow> None
            | Some False \<Rightarrow> Some False
            | Some True \<Rightarrow> memcmp_eq p (length key) [0x3D]))"

fun want_loop :: "nat list \<Rightarrow> bytes \<Rightarrow> nat \<Rightarrow> mi_fields \<Rightarrow> modid_err + mi_fields" where
  "want_loop [] p n st = Inr st"
| "want_loop (i # is) p n (seen, vals) =
     (if seen ! i then want_loop is p n (seen, vals)
      else let (key, cap) = modinfo_want ! i; kl = length key
           in case key_match key p n of
                None \<Rightarrow> Inl E_FAULT
              | Some False \<Rightarrow> want_loop is p n (seen, vals)
              | Some True \<Rightarrow>
                  if cap \<le> n - kl - 1 then Inl E_BAD_FIELD
                  else (case slice p (kl + 1) (n - kl - 1) of
                          None \<Rightarrow> Inl E_FAULT
                        | Some v \<Rightarrow> want_loop is p n (seen[i := True], vals[i := str_of v])))"

text \<open>One string after the other; the last one may be unterminated.\<close>

function modinfo_loop :: "bytes \<Rightarrow> mi_fields \<Rightarrow> modid_err + mi_fields" where
  "modinfo_loop p st =
     (if p = [] then Inr st
      else let n = length (takeWhile (\<lambda>b. b \<noteq> 0) p)
           in case want_loop [0 ..< length modinfo_want] p n st of
                Inl e \<Rightarrow> Inl e
              | Inr st' \<Rightarrow> modinfo_loop (drop (n + 1) p) st')"
  by pat_completeness auto
termination
  by (relation "measure (\<lambda>(p, st). length p)") auto

declare modinfo_loop.simps [simp del]

definition fields0 :: mi_fields where
  "fields0 = ([False, False, False, False], [[], [], [], []])"

definition parse_modinfo :: "bytes \<Rightarrow> modid_err + kg_modid" where
  "parse_modinfo p =
     (case modinfo_loop p fields0 of
        Inl e \<Rightarrow> Inl e
      | Inr (seen, vals) \<Rightarrow>
          if vals ! 0 = [] then Inl E_NO_NAME
          else if \<not> name_chars_ok (vals ! 0) \<or> (vals ! 1 \<noteq> [] \<and> \<not> hex_chars_ok (vals ! 1)) then Inl E_BAD_FIELD
          else Inr \<lparr>mi_name = vals ! 0, mi_srcversion = vals ! 1, mi_version = vals ! 2, mi_vermagic = vals ! 3,
                 mi_sig_marker = False, mi_sha256 = replicate 32 0\<rparr>)"

section \<open>The ELF file\<close>

definition modinfo_name :: bytes where
  "modinfo_name = ascii_bytes ''.modinfo'' @ [0]"

definition kg_sig_marker :: bytes where
  "kg_sig_marker = ascii_bytes ''~Module signature appended~'' @ [0x0A]"

text \<open>The search for the section; the first one of that name decides.\<close>

fun sec_loop :: "nat list \<Rightarrow> bytes \<Rightarrow> u64 \<Rightarrow> elf_sec \<Rightarrow> modid_err + kg_modid" where
  "sec_loop [] img shoff strs = Inl E_NO_MODINFO"
| "sec_loop (i # is) img shoff strs =
     (case read_sec img shoff i of
        None \<Rightarrow> Inl E_FAULT
      | Some s \<Rightarrow>
          if sec_size strs \<le> ucast (sec_name s) \<or> sec_size strs - ucast (sec_name s) < of_nat (length modinfo_name)
          then sec_loop is img shoff strs
          else (case memcmp_eq img (unat (sec_off strs) + unat (sec_name s)) modinfo_name of
                  None \<Rightarrow> Inl E_FAULT
                | Some False \<Rightarrow> sec_loop is img shoff strs
                | Some True \<Rightarrow>
                    if \<not> sec_in_file s (of_nat (length img)) then Inl E_BAD_ELF
                    else (case slice img (unat (sec_off s)) (unat (sec_size s)) of
                            None \<Rightarrow> Inl E_FAULT
                          | Some p \<Rightarrow> parse_modinfo p)))"

definition elf_compressed :: "bytes \<Rightarrow> bool" where
  "elf_compressed img \<longleftrightarrow> take 2 img = [0x1f, 0x8b] \<or> take 4 img = [0x28, 0xb5, 0x2f, 0xfd] \<or>
     take 6 img = [0xfd, 0x37, 0x7a, 0x58, 0x5a, 0]"

definition modid_finish :: "bytes \<Rightarrow> kg_modid \<Rightarrow> modid_err + kg_modid" where
  "modid_finish img out =
     (let ml = length kg_sig_marker
      in case (if ml \<le> length img then memcmp_eq img (length img - ml) kg_sig_marker else Some False) of
           None \<Rightarrow> Inl E_FAULT
         | Some marker \<Rightarrow> Inr (out\<lparr>mi_sig_marker := marker,
             mi_sha256 := snd (kg_sha256_final (kg_sha256_update (kg_sha256_init sha_ctx0) img))\<rparr>))"

definition kg_modid_parse :: "bytes \<Rightarrow> modid_err + kg_modid" where
  "kg_modid_parse img =
     (let len = of_nat (length img) :: u64
      in if elf_compressed img then Inl E_COMPRESSED
         else if length img < 64 \<or> take 4 img \<noteq> 0x7f # ascii_bytes ''ELF'' then Inl E_NOT_ELF
         else case (slice img 4 2, rd16 img 16, rd64 img 0x28, rd16 img 0x3c, rd16 img 0x3e, rd16 img 0x3a) of
                (Some ident, Some etype, Some shoff, Some shnum, Some shstrndx, Some shentsize) \<Rightarrow>
                  if ident \<noteq> [2, 1] \<or> etype \<noteq> ET_REL then Inl E_UNSUPPORTED
                  else if (ucast shentsize :: u64) \<noteq> SHDR_SIZE \<or> shnum = 0 \<or> shnum \<le> shstrndx then Inl E_BAD_ELF
                  else if len < shoff \<or> len - shoff < ucast shnum * SHDR_SIZE then Inl E_BAD_ELF
                  else (case read_sec img shoff (unat shstrndx) of
                          None \<Rightarrow> Inl E_FAULT
                        | Some strs \<Rightarrow>
                            if sec_type strs \<noteq> SHT_STRTAB \<or> \<not> sec_in_file strs len \<or> sec_size strs = 0 then Inl E_BAD_ELF
                            else (case sec_loop [0 ..< unat shnum] img shoff strs of
                                    Inl e \<Rightarrow> Inl e
                                  | Inr out \<Rightarrow> modid_finish img out))
              | _ \<Rightarrow> Inl E_FAULT)"

text \<open>The \<open>mod_deny\<close> form; \<open>snprintf\<close> keeps at most \<open>len - 1\<close> characters.\<close>

definition kg_modid_entry :: "kg_modid \<Rightarrow> nat \<Rightarrow> string" where
  "kg_modid_entry m len = take (len - 1)
     (if mi_srcversion m \<noteq> [] then mi_name m @ CHR 0x40 # mi_srcversion m else mi_name m)"

section \<open>No access outside the buffer\<close>

lemma slice_in: "off + n \<le> length b \<Longrightarrow> slice b off n = Some (take n (drop off b))"
  by (simp add: slice_def)

lemma rd16_in: "off + 2 \<le> length b \<Longrightarrow> \<exists>v. rd16 b off = Some v"
  by (simp add: rd16_def slice_in)

lemma rd32_in: "off + 4 \<le> length b \<Longrightarrow> \<exists>v. rd32 b off = Some v"
  by (simp add: rd32_def slice_in)

lemma rd64_in:
  assumes "off + 8 \<le> length b"
  shows "\<exists>v. rd64 b off = Some v"
proof -
  obtain lo hi where "rd32 b off = Some lo" "rd32 b (off + 4) = Some hi"
    using rd32_in [of off b] rd32_in [of "off + 4" b] assms by auto
  then show ?thesis by (simp add: rd64_def)
qed

lemma memcmp_in: "off + length pat \<le> length b \<Longrightarrow> \<exists>v. memcmp_eq b off pat = Some v"
  by (simp add: memcmp_eq_def slice_in)

lemma length_ascii_bytes [simp]: "length (ascii_bytes s) = length s"
  by (simp add: ascii_bytes_def)

lemma key_match_in:
  assumes "n \<le> length p"
  shows "\<exists>v. key_match key p n = Some v"
proof (cases "n \<le> length key + 1")
  case False
  with assms have "length key + 1 \<le> length p" by simp
  with memcmp_in [of 0 "ascii_bytes key" p] memcmp_in [of "length key" "[0x3D]" p] False show ?thesis
    by (auto simp: key_match_def split: bool.splits)
qed (auto simp: key_match_def intro: exI [of _ False])

lemma want_loop_in: "n \<le> length p \<Longrightarrow> want_loop is p n st \<noteq> Inl E_FAULT"
proof (induction "is" p n st rule: want_loop.induct)
  case (2 i "is" p n seen vals)
  obtain key cap where kc: "modinfo_want ! i = (key, cap)" by fastforce
  obtain v where v: "key_match key p n = Some v" using key_match_in [OF 2(4)] by blast
  have "length key + 1 < n" if "v"
    using v that by (auto simp: key_match_def split: if_splits)
  then have "slice p (length key + 1) (n - length key - 1) = Some (take (n - length key - 1) (drop (length key + 1) p))" if "v"
    using 2(4) that by (intro slice_in) simp
  with 2 kc v show ?case by (cases v) (simp_all add: Let_def)
qed simp

lemma modinfo_loop_in: "modinfo_loop p st \<noteq> Inl E_FAULT"
proof (induction p st rule: modinfo_loop.induct)
  case (1 p st)
  have "want_loop is p (length (takeWhile (\<lambda>b. b \<noteq> 0) p)) st \<noteq> Inl E_FAULT" for "is"
    by (rule want_loop_in) (rule length_takeWhile_le)
  with 1 show ?case by (subst modinfo_loop.simps) (auto simp: Let_def split: sum.split)
qed

lemma parse_modinfo_in: "parse_modinfo p \<noteq> Inl E_FAULT"
  using modinfo_loop_in [of p fields0] by (auto simp: parse_modinfo_def split: sum.splits)

lemma read_sec_in:
  assumes "unat (shoff + of_nat idx * SHDR_SIZE) + 64 \<le> length img"
  shows "\<exists>s. read_sec img shoff idx = Some s"
proof -
  let ?h = "unat (shoff + of_nat idx * SHDR_SIZE)"
  obtain a b c d where "rd32 img ?h = Some a" "rd32 img (?h + 4) = Some b" "rd64 img (?h + 24) = Some c" "rd64 img (?h + 32) = Some d"
    using rd32_in [of ?h img] rd32_in [of "?h + 4" img] rd64_in [of "?h + 24" img] rd64_in [of "?h + 32" img] assms by auto
  then show ?thesis by (simp add: read_sec_def Let_def)
qed

text \<open>The whole table was checked: a header at an index below the count lies in the file.\<close>

lemma table_in_file:
  fixes len shoff :: u64 and shnum :: u16
  assumes "length img < 2 ^ 64" and "len = of_nat (length img)" and "shoff \<le> len"
    and "ucast shnum * SHDR_SIZE \<le> len - shoff" and "idx < unat shnum"
  shows "unat (shoff + of_nat idx * SHDR_SIZE) + 64 \<le> length img"
proof -
  have L: "unat len = length img" using assms(1,2) by (simp add: unat_of_nat_small)
  have sn: "unat shnum < 65536" using unat_bound [of shnum] by simp
  have so: "unat shoff \<le> length img" using assms(3) L by (simp add: word_le_nat_alt)
  have d: "unat (len - shoff) = length img - unat shoff" using assms(3) L by (simp add: unat_sub)
  have "unat (ucast shnum :: u64) = unat shnum" by (rule unat_ucast_up) simp
  then have m: "unat (ucast shnum * SHDR_SIZE :: u64) = unat shnum * 64"
    using sn by (simp add: unat_word_ariths SHDR_SIZE_def)
  have room: "unat shnum * 64 \<le> length img - unat shoff"
    using assms(4) by (simp only: word_le_nat_alt m d)
  have i: "unat (of_nat idx * SHDR_SIZE :: u64) = idx * 64"
    using assms(5) sn by (simp add: unat_word_ariths unat_of_nat_small SHDR_SIZE_def)
  have "unat shoff + idx * 64 + 64 \<le> length img"
    using room so assms(5) by linarith
  moreover from this have "unat (shoff + of_nat idx * SHDR_SIZE) = unat shoff + unat (of_nat idx * SHDR_SIZE :: u64)"
    using assms(1) by (intro unat_add_lem [THEN iffD1]) (simp add: i)
  ultimately show ?thesis by (simp only: i)
qed

lemma sec_in_file_bound:
  assumes "length img < 2 ^ 64" and "sec_in_file s (of_nat (length img))"
  shows "unat (sec_off s) + unat (sec_size s) \<le> length img"
proof -
  have L: "unat (of_nat (length img) :: u64) = length img" using assms(1) by (simp add: unat_of_nat_small)
  have "unat (sec_off s) \<le> length img" using assms(2) by (simp add: sec_in_file_def word_le_nat_alt L)
  moreover have "unat (of_nat (length img) - sec_off s) = length img - unat (sec_off s)"
    using assms(2) by (simp add: sec_in_file_def unat_sub L)
  moreover have "unat (sec_size s) \<le> unat (of_nat (length img) - sec_off s)"
    using assms(2) by (simp add: sec_in_file_def word_le_nat_alt)
  ultimately show ?thesis by linarith
qed

lemma sec_loop_in:
  assumes "length img < 2 ^ 64" and "sec_in_file strs (of_nat (length img))"
    and "\<forall>i \<in> set is. \<exists>s. read_sec img shoff i = Some s"
  shows "sec_loop is img shoff strs \<noteq> Inl E_FAULT"
  using assms(3)
proof (induction "is")
  case (Cons i "is")
  then obtain s where s: "read_sec img shoff i = Some s" by auto
  let ?skip = "sec_size strs \<le> ucast (sec_name s) \<or> sec_size strs - ucast (sec_name s) < of_nat (length modinfo_name)"
  have m: "\<exists>v. memcmp_eq img (unat (sec_off strs) + unat (sec_name s)) modinfo_name = Some v"
    if "\<not> sec_size strs \<le> ucast (sec_name s)" "\<not> sec_size strs - ucast (sec_name s) < of_nat (length modinfo_name)"
  proof (rule memcmp_in)
    have n: "unat (ucast (sec_name s) :: u64) = unat (sec_name s)" by (rule unat_ucast_up) simp
    have l: "length modinfo_name = 9" by (simp add: modinfo_name_def)
    have "unat (sec_size strs - ucast (sec_name s)) = unat (sec_size strs) - unat (sec_name s)"
      using that(1) by (simp add: unat_sub n)
    then have "9 \<le> unat (sec_size strs) - unat (sec_name s)"
      using that(2) by (simp add: l word_less_nat_alt)
    then show "unat (sec_off strs) + unat (sec_name s) + length modinfo_name \<le> length img"
      using sec_in_file_bound [OF assms(1,2)] l by linarith
  qed
  have "slice img (unat (sec_off s)) (unat (sec_size s)) = Some (take (unat (sec_size s)) (drop (unat (sec_off s)) img))"
    if "sec_in_file s (of_nat (length img))"
    using sec_in_file_bound [OF assms(1) that] by (rule slice_in)
  then have p: "(case slice img (unat (sec_off s)) (unat (sec_size s)) of None \<Rightarrow> Inl E_FAULT | Some p \<Rightarrow> parse_modinfo p) \<noteq> Inl E_FAULT"
    if "sec_in_file s (of_nat (length img))"
    using that parse_modinfo_in by simp
  show ?case
  proof (cases ?skip)
    case True
    with Cons s show ?thesis by auto
  next
    case False
    then obtain v where "memcmp_eq img (unat (sec_off strs) + unat (sec_name s)) modinfo_name = Some v" using m by blast
    with False Cons s p show ?thesis by (cases v) auto
  qed
qed simp

lemma modid_finish_in: "modid_finish img out \<noteq> Inl E_FAULT"
  using memcmp_in [of "length img - length kg_sig_marker" kg_sig_marker img]
  by (auto simp: modid_finish_def Let_def split: option.splits)

section \<open>What is returned fits the gate\<close>

definition fields_ok :: "mi_fields \<Rightarrow> bool" where
  "fields_ok st \<longleftrightarrow> length (fst st) = 4 \<and> length (snd st) = 4 \<and>
     (\<forall>i < 4. length (snd st ! i) < snd (modinfo_want ! i))"

lemma fields0_ok: "fields_ok fields0"
  by (auto simp: fields_ok_def fields0_def modinfo_want_def kg_const less_Suc_eq numeral_eq_Suc)

lemma want_loop_ok:
  "want_loop is p n st = Inr st' \<Longrightarrow> fields_ok st \<Longrightarrow> fields_ok st'"
proof (induction "is" p n st arbitrary: st' rule: want_loop.induct)
  case (2 i "is" p n seen vals)
  obtain key cap where kc: "modinfo_want ! i = (key, cap)" by fastforce
  have up: "fields_ok (seen[i := True], vals[i := str_of v])" if "length v < cap" for v
  proof -
    have len: "length seen = 4" "length vals = 4" "\<And>j. j < 4 \<Longrightarrow> length (vals ! j) < snd (modinfo_want ! j)"
      using 2(5) by (auto simp: fields_ok_def)
    have "length (vals[i := str_of v] ! j) < snd (modinfo_want ! j)" if "j < 4" for j
      using len that \<open>length v < cap\<close> kc by (cases "j = i") (auto simp: str_of_def)
    with len show ?thesis by (simp add: fields_ok_def)
  qed
  have "fields_ok (seen[i := True], vals[i := str_of (take (n - Suc (length key)) (drop (Suc (length key)) p))])"
    if "\<not> cap \<le> n - Suc (length key)"
    using that by (intro up) simp
  with 2 kc show ?case
    by (cases st') (auto simp: Let_def slice_def split: if_splits option.splits bool.splits)
qed simp

lemma modinfo_loop_ok: "modinfo_loop p st = Inr st' \<Longrightarrow> fields_ok st \<Longrightarrow> fields_ok st'"
proof (induction p st arbitrary: st' rule: modinfo_loop.induct)
  case (1 p st)
  show ?case
  proof (cases "p = []")
    case True
    then show ?thesis using 1(2,3) by (simp add: modinfo_loop.simps)
  next
    case False
    let ?n = "length (takeWhile (\<lambda>b. b \<noteq> 0) p)"
    from False 1(2) obtain st1 where w: "want_loop [0 ..< length modinfo_want] p ?n st = Inr st1"
      and l: "modinfo_loop (drop (?n + 1) p) st1 = Inr st'"
      by (subst (asm) modinfo_loop.simps) (auto simp: Let_def split: sum.splits)
    from 1(1) [OF False refl w l] want_loop_ok [OF w 1(3)] show ?thesis by simp
  qed
qed

definition modid_fits :: "kg_modid \<Rightarrow> bool" where
  "modid_fits m \<longleftrightarrow> name_chars_ok (mi_name m) \<and> length (mi_name m) < KG_MODID_NAME_MAX \<and>
     (mi_srcversion m \<noteq> [] \<longrightarrow> hex_chars_ok (mi_srcversion m) \<and> length (mi_srcversion m) < KG_MODID_SRCVER_MAX)"

lemma parse_modinfo_fits: "parse_modinfo p = Inr m \<Longrightarrow> modid_fits m"
proof -
  assume h: "parse_modinfo p = Inr m"
  then obtain seen vals where l: "modinfo_loop p fields0 = Inr (seen, vals)"
    by (auto simp: parse_modinfo_def split: sum.splits)
  have "fields_ok (seen, vals)" by (rule modinfo_loop_ok [OF l fields0_ok])
  then have "length (vals ! 0) < KG_MODID_NAME_MAX" "length (vals ! 1) < KG_MODID_SRCVER_MAX"
    by (auto simp: fields_ok_def modinfo_want_def dest: spec [of _ 0] spec [of _ 1])
  with h l show ?thesis by (auto simp: parse_modinfo_def modid_fits_def split: if_splits)
qed

lemma sec_loop_fits: "sec_loop is img shoff strs = Inr m \<Longrightarrow> modid_fits m"
  by (induction "is") (auto simp: parse_modinfo_fits split: option.splits if_splits bool.splits)

lemma finish_Inr:
  "modid_finish img out = Inr m \<Longrightarrow> mi_name m = mi_name out \<and> mi_srcversion m = mi_srcversion out \<and>
     mi_sha256 m = snd (kg_sha256_final (kg_sha256_update (kg_sha256_init sha_ctx0) img))"
  by (auto simp: modid_finish_def Let_def split: option.splits)

lemma modid_parse_Inr:
  assumes "kg_modid_parse img = Inr m"
  shows "modid_fits m" and "mi_sha256 m = snd (kg_sha256_final (kg_sha256_update (kg_sha256_init sha_ctx0) img))"
proof -
  from assms obtain "is" shoff strs out where "sec_loop is img shoff strs = Inr out" "modid_finish img out = Inr m"
    by (auto simp: kg_modid_parse_def Let_def split: option.splits if_splits sum.splits)
  with sec_loop_fits finish_Inr show "modid_fits m"
    and "mi_sha256 m = snd (kg_sha256_final (kg_sha256_update (kg_sha256_init sha_ctx0) img))"
    by (auto simp: modid_fits_def)
qed

section \<open>The printed entry, read by the gate\<close>

lemma gate_words_single: "w \<noteq> [] \<Longrightarrow> list_all (\<lambda>c. \<not> kg_gate_sep c) w \<Longrightarrow> gate_words w = [w]"
proof -
  have "list_all (\<lambda>c. \<not> kg_gate_sep c) w \<Longrightarrow> gate_runs w = [w]" by (induction w) auto
  then show "w \<noteq> [] \<Longrightarrow> list_all (\<lambda>c. \<not> kg_gate_sep c) w \<Longrightarrow> gate_words w = [w]"
    by (simp add: gate_words_def)
qed

lemma entry_char: "ascii_alnum c \<or> c = CHR ''_'' \<or> c = CHR ''-'' \<or> c = CHR ''.'' \<Longrightarrow> \<not> kg_gate_sep c \<and> c \<noteq> CHR 0x40"
  by (auto simp: kg_gate_sep_def cstring_eval)

lemma xdigit_alnum: "ascii_xdigit c \<Longrightarrow> ascii_alnum c"
  by (auto simp: ascii_xdigit_def ascii_alnum_def c_between_def)

lemma entry_ok:
  assumes "modid_fits m" and "88 \<le> len"
  defines "e \<equiv> kg_modid_entry m len"
  shows "gate_words e = [e]" and "gate_entry_ok True e"
    and "gate_split e = (mi_name m, if mi_srcversion m = [] then None else Some (mi_srcversion m))"
proof -
  let ?w = "if mi_srcversion m \<noteq> [] then mi_name m @ CHR 0x40 # mi_srcversion m else mi_name m"
  have "length ?w \<le> len - 1" using assms(1,2) by (auto simp: modid_fits_def kg_const)
  then have e: "e = ?w" by (simp add: e_def kg_modid_entry_def)
  have n: "mi_name m \<noteq> []" "list_all (\<lambda>c. ascii_alnum c \<or> c = CHR ''_'' \<or> c = CHR ''-'' \<or> c = CHR ''.'') (mi_name m)"
    using assms(1) by (auto simp: modid_fits_def name_chars_ok_def)
  have ns: "list_all (\<lambda>c. \<not> kg_gate_sep c) (mi_name m)" and na: "CHR 0x40 \<notin> set (mi_name m)"
    using n(2) entry_char by (auto simp: list_all_iff)
  have "\<not> kg_gate_sep (CHR 0x40)" by (simp add: kg_gate_sep_def)
  moreover have "list_all (\<lambda>c. \<not> kg_gate_sep c) (mi_srcversion m)"
    using assms(1) xdigit_alnum entry_char by (cases "mi_srcversion m = []") (auto simp: modid_fits_def hex_chars_ok_def list_all_iff)
  ultimately show "gate_words e = [e]"
    using n(1) ns by (intro gate_words_single) (auto simp: e)
  show s: "gate_split e = (mi_name m, if mi_srcversion m = [] then None else Some (mi_srcversion m))"
    using strchr_split_append [OF na, of "mi_srcversion m"] na strchr_split_None [of "CHR 0x40" "mi_name m"]
    by (simp add: e gate_split_def)
  have "kg_gate_name_ok (mi_name m)"
    using assms(1) n by (auto simp: kg_gate_name_ok_def modid_fits_def kg_const kernel_alnum_def list_all_iff)
  moreover have "kg_gate_hex_ok (mi_srcversion m)" if "mi_srcversion m \<noteq> []"
    using assms(1) that by (simp add: kg_gate_hex_ok_def modid_fits_def hex_chars_ok_def kg_const)
  ultimately show "gate_entry_ok True e" by (simp add: gate_entry_ok_def s)
qed

section \<open>Properties\<close>

text \<open>
  C31. The module reader never reads outside the file, however hostile its headers: for every image, no access to
  the ELF header, the section table, the name table or the \<open>.modinfo\<close> strings leaves the buffer.
\<close>

theorem modid_never_reads_outside:
  assumes "length img < 2 ^ 64"
  shows "kg_modid_parse img \<noteq> Inl E_FAULT"
proof (cases "elf_compressed img \<or> length img < 64 \<or> take 4 img \<noteq> 0x7f # ascii_bytes ''ELF''")
  case True
  then show ?thesis by (auto simp: kg_modid_parse_def Let_def)
next
  case False
  then have l: "64 \<le> length img" by simp
  obtain ident etype shoff shnum shstrndx shent where r:
    "slice img 4 2 = Some ident" "rd16 img 16 = Some etype" "rd64 img 0x28 = Some shoff" "rd16 img 0x3c = Some shnum"
    "rd16 img 0x3e = Some shstrndx" "rd16 img 0x3a = Some shent"
    using l slice_in [of 4 2 img] rd16_in [of 16 img] rd64_in [of "0x28" img] rd16_in [of "0x3c" img] rd16_in [of "0x3e" img]
      rd16_in [of "0x3a" img] by auto
  let ?len = "of_nat (length img) :: u64"
  show ?thesis
  proof (cases "shnum = 0 \<or> shnum \<le> shstrndx \<or> ?len < shoff \<or> ?len - shoff < ucast shnum * SHDR_SIZE")
    case True
    with False r show ?thesis by (auto simp: kg_modid_parse_def Let_def)
  next
    case ok: False
    have sec: "\<exists>s. read_sec img shoff i = Some s" if "i < unat shnum" for i
      using ok that by (intro read_sec_in table_in_file [OF assms refl]) auto
    have "unat shstrndx < unat shnum" using ok by (auto simp: word_less_nat_alt [symmetric])
    from sec [OF this] obtain strs where st: "read_sec img shoff (unat shstrndx) = Some strs" by blast
    have "sec_loop [0 ..< unat shnum] img shoff strs \<noteq> Inl E_FAULT" if "sec_in_file strs ?len"
      using sec that by (intro sec_loop_in [OF assms]) auto
    with False ok r st modid_finish_in show ?thesis
      by (auto simp: kg_modid_parse_def Let_def split: sum.split)
  qed
qed

text \<open>A header that claims a section table far behind the end of the file.\<close>

definition hostile_ko :: bytes where
  "hostile_ko =
    [127, 69, 76, 70, 2, 1, 1, 0, 0, 0, 0, 0, 0, 0, 0, 0,
     1, 0, 0, 0, 0, 0, 0, 0, 0, 0, 0, 0, 0, 0, 0, 0,
     0, 0, 0, 0, 0, 0, 0, 0, 255, 255, 255, 255, 255, 255, 255, 255,
     0, 0, 0, 0, 0, 0, 0, 0, 0, 0, 64, 0, 255, 255, 1, 0]"

theorem modid_never_reads_outside_witness:
  "length hostile_ko < 2 ^ 64 \<and> kg_modid_parse hostile_ko = Inl E_BAD_ELF \<and> kg_modid_parse hostile_ko \<noteq> Inl E_FAULT"
proof -
  have l: "length hostile_ko < 2 ^ 64" by (simp add: hostile_ko_def)
  have "kg_modid_parse hostile_ko = Inl E_BAD_ELF"
    by (simp add: hostile_ko_def kg_modid_parse_def elf_compressed_def ascii_bytes_def cval_def slice_def rd16_def rd32_def rd64_def
        kg_const)
  with l modid_never_reads_outside [OF l] show ?thesis by simp
qed

text \<open>A module file with two sections, its identity \<open>rt-core\<close>, version \<open>ab12\<close>.\<close>

definition example_ko :: bytes where
  "example_ko =
    [127, 69, 76, 70, 2, 1, 1, 0, 0, 0, 0, 0, 0, 0, 0, 0, 1, 0, 62, 0, 1, 0, 0, 0,
     0, 0, 0, 0, 0, 0, 0, 0, 0, 0, 0, 0, 0, 0, 0, 0, 64, 0, 0, 0, 0, 0, 0, 0,
     0, 0, 0, 0, 64, 0, 0, 0, 0, 0, 64, 0, 2, 0, 1, 0, 0, 0, 0, 0, 1, 0, 0, 0,
     0, 0, 0, 0, 0, 0, 0, 0, 0, 0, 0, 0, 0, 0, 0, 0, 201, 0, 0, 0, 0, 0, 0, 0,
     29, 0, 0, 0, 0, 0, 0, 0, 0, 0, 0, 0, 0, 0, 0, 0, 0, 0, 0, 0, 0, 0, 0, 0,
     0, 0, 0, 0, 0, 0, 0, 0, 0, 0, 0, 0, 3, 0, 0, 0, 0, 0, 0, 0, 0, 0, 0, 0,
     0, 0, 0, 0, 0, 0, 0, 0, 192, 0, 0, 0, 0, 0, 0, 0, 9, 0, 0, 0, 0, 0, 0, 0,
     0, 0, 0, 0, 0, 0, 0, 0, 0, 0, 0, 0, 0, 0, 0, 0, 0, 0, 0, 0, 0, 0, 0, 0,
     46, 109, 111, 100, 105, 110, 102, 111, 0, 110, 97, 109, 101, 61, 114, 116, 45, 99, 111, 114, 101, 0, 115, 114,
     99, 118, 101, 114, 115, 105, 111, 110, 61, 97, 98, 49, 50, 0]"

lemmas modid_eval = kg_modid_parse_def elf_compressed_def ascii_bytes_def cval_def slice_def rd16_def rd32_def rd64_def
  read_sec_def sec_in_file_def memcmp_eq_def modinfo_name_def kg_const

definition example_modid :: kg_modid where
  "example_modid = \<lparr>mi_name = ''rt-core'', mi_srcversion = ''ab12'', mi_version = [], mi_vermagic = [], mi_sig_marker = False,
     mi_sha256 = snd (kg_sha256_final (kg_sha256_update (kg_sha256_init sha_ctx0) example_ko))\<rparr>"

lemma example_modinfo: "parse_modinfo (drop 201 example_ko) =
   Inr (example_modid\<lparr>mi_sha256 := replicate 32 0\<rparr>)"
  by (simp add: example_ko_def example_modid_def parse_modinfo_def modinfo_loop.simps fields0_def modinfo_want_def key_match_def modid_eval
      str_of_def name_chars_ok_def hex_chars_ok_def cstring_eval char_of_def bit_0 upt_rec)

lemma example_sec0: "read_sec example_ko 64 0 = Some \<lparr>sec_name = 0, sec_type = 1, sec_off = 201, sec_size = 29\<rparr>"
  by (simp add: example_ko_def modid_eval)

lemma example_sec1: "read_sec example_ko 64 1 = Some \<lparr>sec_name = 0, sec_type = 3, sec_off = 192, sec_size = 9\<rparr>"
  by (simp add: example_ko_def modid_eval)

lemma example_len: "length example_ko = 230"
  by (simp add: example_ko_def)

lemma example_parses: "kg_modid_parse example_ko = Inr example_modid"
proof -
  have h: "slice example_ko 4 2 = Some [2, 1]" "rd16 example_ko 16 = Some 1" "rd64 example_ko 0x28 = Some 64"
    "rd16 example_ko 0x3c = Some 2" "rd16 example_ko 0x3e = Some 1" "rd16 example_ko 0x3a = Some 64"
    "\<not> elf_compressed example_ko" "take 4 example_ko = 0x7f # ascii_bytes ''ELF''"
    by (simp_all add: example_ko_def modid_eval)
  have n: "memcmp_eq example_ko 192 modinfo_name = Some True"
    by (simp add: example_ko_def modid_eval)
  have m: "memcmp_eq example_ko (230 - length kg_sig_marker) kg_sig_marker = Some False"
    by (simp add: example_ko_def kg_sig_marker_def modid_eval)
  have f: "modid_finish example_ko (example_modid\<lparr>mi_sha256 := replicate 32 0\<rparr>) = Inr example_modid"
    using m by (simp add: modid_finish_def example_len Let_def) (simp add: example_modid_def kg_sig_marker_def)
  have s: "slice example_ko 201 29 = Some (drop 201 example_ko)" by (simp add: slice_def example_len)
  have l: "sec_loop [0 ..< 2] example_ko 64 \<lparr>sec_name = 0, sec_type = 3, sec_off = 192, sec_size = 9\<rparr> =
      Inr (example_modid\<lparr>mi_sha256 := replicate 32 0\<rparr>)"
    using n by (simp add: upt_rec example_sec0 s example_modinfo sec_in_file_def example_len) (simp add: modinfo_name_def kg_const)
  have w: "\<not> (2 :: u16) \<le> 1" by (simp add: word_le_nat_alt)
  show ?thesis
    using h l f w example_sec1 by (simp add: kg_modid_parse_def example_len sec_in_file_def kg_const)
qed

text \<open>
  The printed identity is the right deny entry: for every file the reader accepts, the entry printed for it
  (in a buffer of 88 bytes or more), given to the gate as \<open>mod_deny\<close>, denies exactly the modules that have the file's
  name (hyphens standing for underscores) and, if the file has a \<open>srcversion\<close>, that version in any case; and the digest
  reported with it is the SHA-256 of the whole file.
\<close>

theorem modid_entry_denies:
  assumes "kg_modid_parse img = Inr md" and "88 \<le> len"
  shows "(kg_gate_denied (gate_start ge (kg_modid_entry md len) allow (gate_loaded lock)) m \<longleftrightarrow>
      mod_name m = gate_norm (mi_name md) \<and>
      (mi_srcversion md = [] \<or> (\<exists>sv. mod_srcversion m = Some sv \<and> strcaseeq (mi_srcversion md) sv))) \<and>
    mi_sha256 md = sha256_spec img"
proof -
  note e = entry_ok [OF modid_parse_Inr(1) [OF assms(1)] assms(2)]
  have "sha_ctx_ok sha_ctx0" by (simp add: sha_ctx_ok_def sha_ctx0_def)
  then have "mi_sha256 md = sha256_spec img" by (simp add: modid_parse_Inr(2) [OF assms(1)] sha.digest_one)
  then show ?thesis
    by (auto simp: denied_start e entry_denies_def split: option.splits)
qed

theorem modid_entry_denies_witness:
  "kg_gate_denied (gate_start example_gate_env (kg_modid_entry example_modid 96) [] (gate_loaded False)) bad_driver \<and>
   mi_sha256 example_modid = sha256_spec example_ko"
  using modid_entry_denies [OF example_parses, of 96 example_gate_env "[]" False bad_driver]
  by (simp add: bad_driver_def) (simp add: example_modid_def gate_norm_def cstring_eval char_of_def bit_0)

end
