(* ===== verification/KG_Policy.thy ===== *)
theory KG_Policy
  imports KG_Uapi KG_Cstring
begin

text \<open>
  The escalation-policy parser of the monitor (\<^verbatim>\<open>src/linux/monitor/kg_policy.c\<close> and
  \<^verbatim>\<open>kg_policy.h\<close>): alert and level names, the tokenizer, the \<open>action\<close> and \<open>rule\<close>
  directives and the file checks.  Strings are NUL-free character lists, every error message of the
  source is a constructor of \<open>kgp_err\<close>, and the file system and the user id are the record
  \<open>fs_env\<close>.  \<open>strdup\<close> and \<open>malloc\<close> are taken to succeed.
\<close>

unbundle bit_operations_syntax

section \<open>Constants and structures\<close>

definition KGP_MAX_ACTIONS :: nat where [kg_const]: "KGP_MAX_ACTIONS = 16"
definition KGP_MAX_RULES :: nat where [kg_const]: "KGP_MAX_RULES = 32"
definition KGP_MAX_CODES :: nat where [kg_const]: "KGP_MAX_CODES = 16"
definition KGP_MAX_INCIDENTS :: nat where [kg_const]: "KGP_MAX_INCIDENTS = 64"
definition KGP_MAX_ARGS :: nat where [kg_const]: "KGP_MAX_ARGS = 16"
definition KGP_MAX_REPEAT :: nat where [kg_const]: "KGP_MAX_REPEAT = 16"
definition KGP_NAME_LEN :: nat where [kg_const]: "KGP_NAME_LEN = 32"

definition KGP_INFO :: int where [kg_const]: "KGP_INFO = 0"
definition KGP_WARNING :: int where [kg_const]: "KGP_WARNING = 1"
definition KGP_CRITICAL :: int where [kg_const]: "KGP_CRITICAL = 2"
definition KGP_FORGED :: int where [kg_const]: "KGP_FORGED = 3"

definition KGP_ALERT_FORGED :: u32 where [kg_const]: "KGP_ALERT_FORGED = 0x10001"
definition KGP_ALERT_OVERRUN :: u32 where [kg_const]: "KGP_ALERT_OVERRUN = 0x10002"
definition KGP_ALERT_TAMPER :: u32 where [kg_const]: "KGP_ALERT_TAMPER = 0x10003"

record kgp_action =
  a_name :: string
  a_argv :: "string list"
  a_timeout_s :: u32

record kgp_rule =
  r_name :: string
  r_codes :: "u32 list"
  r_min_level :: int
  r_throttle_s :: u32
  r_do_mask :: u32
  r_repeat_n :: u32
  r_repeat_window_s :: u32
  r_unacked_s :: u32
  r_then_mask :: u32
  r_reset_s :: u32

record kgp_policy =
  pol_actions :: "kgp_action list"
  pol_rules :: "kgp_rule list"

datatype kgp_err =
    Err_words
  | Err_directive
  | Err_action_usage | Err_too_many_actions | Err_bad_action_name | Err_action_twice
  | Err_timeout | Err_action_option | Err_no_program | Err_too_many_args
  | Err_not_absolute | Err_stat | Err_not_executable | Err_writable | Err_owner
  | Err_rule_usage | Err_too_many_rules | Err_bad_rule_name | Err_rule_twice
  | Err_key_value | Err_too_many_codes | Err_unknown_alert | Err_level | Err_throttle | Err_reset
  | Err_unacked | Err_repeat_form | Err_repeat | Err_unknown_action | Err_empty_actions | Err_rule_option
  | Err_no_do | Err_then_needs | Err_needs_then

section \<open>Names\<close>

definition kgp_names :: "(u32 \<times> string) list" where
  "kgp_names =
    [(KG_ALERT_PMU_L1D_ANOMALY, ''PMU_L1D_ANOMALY''),
     (KG_ALERT_PMU_L2_ANOMALY, ''PMU_L2_ANOMALY''),
     (KG_ALERT_PMU_RDTSC_RATE, ''PMU_RDTSC_RATE''),
     (KG_ALERT_UNAUTHORIZED_KBD_FILTER, ''UNAUTHORIZED_KBD_FILTER''),
     (KG_ALERT_UNAUTHORIZED_DMA, ''UNAUTHORIZED_DMA''),
     (KG_ALERT_PCI_DISCREPANCY, ''PCI_DISCREPANCY''),
     (KG_ALERT_KBD_FILTER_NEUTRALIZED, ''KBD_FILTER_NEUTRALIZED''),
     (KG_ALERT_DMA_BLOCKED_IOMMU, ''DMA_BLOCKED_IOMMU''),
     (KG_ALERT_DEVICE_BME_DISABLED, ''DEVICE_BME_DISABLED''),
     (KG_ALERT_IDT_HOOK, ''IDT_HOOK''),
     (KG_ALERT_DISPATCH_HOOK, ''DISPATCH_HOOK''),
     (KG_ALERT_TEXT_PATCH, ''TEXT_PATCH''),
     (KG_ALERT_CTRL_REG_TAMPER, ''CTRL_REG_TAMPER''),
     (KG_ALERT_MODULE_LOADED, ''MODULE_LOADED''),
     (KG_ALERT_VULN_DRIVER, ''VULN_DRIVER''),
     (KG_ALERT_DRIVER_BLOCKED, ''DRIVER_BLOCKED''),
     (KG_ALERT_LOAD_POLICY, ''LOAD_POLICY''),
     (KG_ALERT_SHARED_STATE_CORRUPT, ''SHARED_STATE_CORRUPT''),
     (KG_ALERT_FAIL_SAFE_ENTERED, ''FAIL_SAFE_ENTERED''),
     (KG_ALERT_POSTURE_CHANGED, ''POSTURE_CHANGED''),
     (KGP_ALERT_FORGED, ''FORGED''),
     (KGP_ALERT_OVERRUN, ''OVERRUN''),
     (KGP_ALERT_TAMPER, ''TAMPER'')]"

definition kgp_code_name :: "u32 \<Rightarrow> string option" where
  "kgp_code_name code = map_option snd (List.find (\<lambda>(c, n). c = code) kgp_names)"

definition hex_code :: "string \<Rightarrow> u32 option" where
  "hex_code name =
     (case name of
        z # x # d # _ \<Rightarrow>
          if z = CHR ''0'' \<and> (x = CHR ''x'' \<or> x = CHR ''X'')
          then (case strtoul 16 name of (v, rest, _) \<Rightarrow>
                  if rest = [] \<and> v \<le> 0xffff then Some (of_nat v) else None)
          else None
      | _ \<Rightarrow> None)"

definition kgp_code_from_name :: "string \<Rightarrow> u32 option" where
  "kgp_code_from_name name =
     (case List.find (\<lambda>(c, n). strcaseeq n name) kgp_names of
        Some (c, _) \<Rightarrow> Some c
      | None \<Rightarrow> hex_code name)"

definition kgp_level_name :: "int \<Rightarrow> string" where
  "kgp_level_name l =
     (if l = KGP_INFO then ''info'' else if l = KGP_WARNING then ''warning''
      else if l = KGP_CRITICAL then ''critical'' else if l = KGP_FORGED then ''forged'' else ''?'')"

definition level_from_name :: "string \<Rightarrow> int option" where
  "level_from_name s = List.find (\<lambda>l. strcaseeq s (kgp_level_name l)) [KGP_INFO, KGP_WARNING, KGP_CRITICAL, KGP_FORGED]"

section \<open>Tokenizer\<close>

definition tok_space :: "char \<Rightarrow> bool" where
  "tok_space c \<longleftrightarrow> c = CHR '' '' \<or> c = CHR 0x09 \<or> c = CHR 0x0D \<or> c = CHR 0x0A"

definition quote_char :: char where "quote_char = CHR 0x22"
definition backslash :: char where "backslash = CHR 0x5C"

text \<open>Behind an opening quote: the text up to the closing one, and what follows it.\<close>

fun tok_quoted :: "string \<Rightarrow> (string \<times> string) option" where
  "tok_quoted [] = None"
| "tok_quoted [c] = (if c = quote_char then Some ([], []) else None)"
| "tok_quoted (c # d # r) =
     (if c = quote_char then Some ([], d # r)
      else if c = backslash \<and> d = quote_char
      then map_option (\<lambda>(w, rest). (d # w, rest)) (tok_quoted r)
      else map_option (\<lambda>(w, rest). (c # w, rest)) (tok_quoted (d # r)))"

lemma tok_quoted_shorter: "tok_quoted s = Some (w, rest) \<Longrightarrow> length rest < length s"
proof (induction s arbitrary: w rule: tok_quoted.induct)
  case (3 c d r)
  then show ?case by (fastforce split: if_splits)
qed (simp_all split: if_splits)

text \<open>One word, from its first character up to white space or the end; \<open>None\<close> for an unterminated quote.\<close>

function tok_word :: "string \<Rightarrow> (string \<times> string) option" where
  "tok_word s =
     (case s of
        [] \<Rightarrow> Some ([], [])
      | c # cs \<Rightarrow>
          if tok_space c then Some ([], s)
          else if c = quote_char
          then (case tok_quoted cs of
                  None \<Rightarrow> None
                | Some (q, rest) \<Rightarrow> map_option (\<lambda>(w, r). (q @ w, r)) (tok_word rest))
          else map_option (\<lambda>(w, r). (c # w, r)) (tok_word cs))"
  by pat_completeness auto
termination
  by (relation "measure length") (auto dest: tok_quoted_shorter)

declare tok_word.simps [simp del]

text \<open>\<open>if (*p) p++\<close>: the separator behind a word is consumed.\<close>

function tok_loop :: "nat \<Rightarrow> nat \<Rightarrow> string \<Rightarrow> string list option" where
  "tok_loop limit n s =
     (let p = dropWhile tok_space s
      in case p of
           [] \<Rightarrow> Some []
         | c # _ \<Rightarrow>
             if c = CHR ''#'' then Some []
             else if limit \<le> n then None
             else (case tok_word p of
                     None \<Rightarrow> None
                   | Some (w, rest) \<Rightarrow> map_option ((#) w) (tok_loop limit (Suc n) (tl rest))))"
  by pat_completeness auto
termination
  by (relation "measure (\<lambda>(limit, n, s). limit - n)") auto

declare tok_loop.simps [simp del]

definition tokenize :: "string \<Rightarrow> nat \<Rightarrow> string list option" where
  "tokenize line limit = tok_loop limit 0 line"

section \<open>Fields\<close>

definition action_index :: "kgp_policy \<Rightarrow> string \<Rightarrow> nat option" where
  "action_index pol name = List.find (\<lambda>i. a_name (pol_actions pol ! i) = name) [0 ..< length (pol_actions pol)]"

definition valid_name :: "string \<Rightarrow> bool" where
  "valid_name s \<longleftrightarrow> s \<noteq> [] \<and> length s < KGP_NAME_LEN \<and>
     list_all (\<lambda>c. ascii_alnum c \<or> c = CHR ''_'' \<or> c = CHR ''-'' \<or> c = CHR ''.'') s"

definition parse_uint :: "string \<Rightarrow> nat \<Rightarrow> nat \<Rightarrow> u32 option" where
  "parse_uint s lo hi =
     (case s of
        [] \<Rightarrow> None
      | c # _ \<Rightarrow>
          if c = CHR ''-'' then None
          else (case strtoul 10 s of (v, rest, erange) \<Rightarrow>
                  if rest \<noteq> [] \<or> erange \<or> v < lo \<or> hi < v then None else Some (of_nat v)))"

fun mask_of :: "kgp_policy \<Rightarrow> string list \<Rightarrow> u32 \<Rightarrow> kgp_err + u32" where
  "mask_of pol [] msk = Inr msk"
| "mask_of pol (t # ts) msk =
     (case action_index pol t of
        None \<Rightarrow> Inl Err_unknown_action
      | Some i \<Rightarrow> mask_of pol ts (msk OR push_bit i 1))"

definition parse_action_list :: "kgp_policy \<Rightarrow> string \<Rightarrow> kgp_err + u32" where
  "parse_action_list pol l =
     (case mask_of pol (strtok_list CHR '','' l) 0 of
        Inl e \<Rightarrow> Inl e
      | Inr msk \<Rightarrow> if msk = 0 then Inl Err_empty_actions else Inr msk)"

section \<open>Programs\<close>

record file_stat =
  st_isreg :: bool
  st_ixusr :: bool
  st_writable_by_others :: bool
  st_uid :: nat
  st_size :: nat

text \<open>What the process sees of the system: \<open>stat\<close>, and its effective user id.\<close>

record fs_env =
  fs_stat :: "string \<Rightarrow> file_stat option"
  fs_euid :: nat

definition check_program :: "fs_env \<Rightarrow> string \<Rightarrow> kgp_err option" where
  "check_program fs path =
     (if take 1 path \<noteq> ''/'' then Some Err_not_absolute
      else case fs_stat fs path of
             None \<Rightarrow> Some Err_stat
           | Some st \<Rightarrow>
               if \<not> st_isreg st \<or> \<not> st_ixusr st then Some Err_not_executable
               else if st_writable_by_others st then Some Err_writable
               else if st_uid st \<noteq> 0 \<and> st_uid st \<noteq> fs_euid fs then Some Err_owner
               else None)"

section \<open>Directives\<close>

text \<open>The option words of an \<open>action\<close> line: the timeout, and the words from the program on.\<close>

fun action_opts :: "string list \<Rightarrow> u32 \<Rightarrow> kgp_err + u32 \<times> string list" where
  "action_opts [] timeout = Inr (timeout, [])"
| "action_opts (t # ts) timeout =
     (if take 1 t \<noteq> ''/'' \<and> CHR ''='' \<in> set t then
        if take 8 t = ''timeout='' then
          (case parse_uint (drop 8 t) 1 3600 of
             None \<Rightarrow> Inl Err_timeout
           | Some v \<Rightarrow> action_opts ts v)
        else Inl Err_action_option
      else Inr (timeout, t # ts))"

definition parse_action :: "fs_env option \<Rightarrow> kgp_policy \<Rightarrow> string list \<Rightarrow> kgp_err + kgp_policy" where
  "parse_action check pol tok =
     (if length tok < 3 then Inl Err_action_usage
      else if KGP_MAX_ACTIONS \<le> length (pol_actions pol) then Inl Err_too_many_actions
      else if \<not> valid_name (tok ! 1) then Inl Err_bad_action_name
      else if action_index pol (tok ! 1) \<noteq> None then Inl Err_action_twice
      else case action_opts (drop 2 tok) 10 of
             Inl e \<Rightarrow> Inl e
           | Inr (timeout, argv) \<Rightarrow>
               if argv = [] then Inl Err_no_program
               else if KGP_MAX_ARGS < length argv then Inl Err_too_many_args
               else case (case check of None \<Rightarrow> None | Some fs \<Rightarrow> check_program fs (hd argv)) of
                      Some e \<Rightarrow> Inl e
                    | None \<Rightarrow>
                        if take 1 (hd argv) \<noteq> ''/'' then Inl Err_not_absolute
                        else Inr (pol\<lparr>pol_actions := pol_actions pol @
                               [\<lparr>a_name = tok ! 1, a_argv = argv, a_timeout_s = timeout\<rparr>]\<rparr>))"

fun parse_codes :: "string list \<Rightarrow> u32 list \<Rightarrow> kgp_err + u32 list" where
  "parse_codes [] acc = Inr acc"
| "parse_codes (t # ts) acc =
     (if t = ''*'' then Inr []
      else if KGP_MAX_CODES \<le> length acc then Inl Err_too_many_codes
      else case kgp_code_from_name t of
             None \<Rightarrow> Inl Err_unknown_alert
           | Some c \<Rightarrow> parse_codes ts (acc @ [c]))"

text \<open>The loop over the \<open>key=value\<close> words of a rule carries the rule, whether \<open>do=\<close> was seen, and the \<open>then=\<close> list.\<close>

type_synonym rule_acc = "kgp_rule \<times> bool \<times> string option"

definition rule_opt :: "kgp_policy \<Rightarrow> string \<Rightarrow> rule_acc \<Rightarrow> kgp_err + rule_acc" where
  "rule_opt pol t acc =
     (case acc of (r, have_do, thenlist) \<Rightarrow>
      case strchr_split CHR ''='' t of
        None \<Rightarrow> Inl Err_key_value
      | Some (k, v) \<Rightarrow>
          if k = ''alert'' then
            (case parse_codes (strtok_list CHR '','' v) [] of
               Inl e \<Rightarrow> Inl e
             | Inr cs \<Rightarrow> Inr (r\<lparr>r_codes := cs\<rparr>, have_do, thenlist))
          else if k = ''level'' then
            (case level_from_name v of
               None \<Rightarrow> Inl Err_level
             | Some l \<Rightarrow> Inr (r\<lparr>r_min_level := l\<rparr>, have_do, thenlist))
          else if k = ''throttle'' then
            (case parse_uint v 0 86400 of
               None \<Rightarrow> Inl Err_throttle
             | Some x \<Rightarrow> Inr (r\<lparr>r_throttle_s := x\<rparr>, have_do, thenlist))
          else if k = ''reset'' then
            (case parse_uint v 1 2592000 of
               None \<Rightarrow> Inl Err_reset
             | Some x \<Rightarrow> Inr (r\<lparr>r_reset_s := x\<rparr>, have_do, thenlist))
          else if k = ''unacked'' then
            (case parse_uint v 1 2592000 of
               None \<Rightarrow> Inl Err_unacked
             | Some x \<Rightarrow> Inr (r\<lparr>r_unacked_s := x\<rparr>, have_do, thenlist))
          else if k = ''repeat'' then
            (case strchr_split CHR ''/'' v of
               None \<Rightarrow> Inl Err_repeat_form
             | Some (a, b) \<Rightarrow>
                 (case (parse_uint a 2 KGP_MAX_REPEAT, parse_uint b 1 86400) of
                    (Some n, Some w) \<Rightarrow> Inr (r\<lparr>r_repeat_n := n, r_repeat_window_s := w\<rparr>, have_do, thenlist)
                  | _ \<Rightarrow> Inl Err_repeat))
          else if k = ''do'' then
            (case parse_action_list pol v of
               Inl e \<Rightarrow> Inl e
             | Inr m \<Rightarrow> Inr (r\<lparr>r_do_mask := m\<rparr>, True, thenlist))
          else if k = ''then'' then Inr (r, have_do, Some v)
          else Inl Err_rule_option)"

fun rule_opts :: "kgp_policy \<Rightarrow> string list \<Rightarrow> rule_acc \<Rightarrow> kgp_err + rule_acc" where
  "rule_opts pol [] acc = Inr acc"
| "rule_opts pol (t # ts) acc =
     (case rule_opt pol t acc of
        Inl e \<Rightarrow> Inl e
      | Inr acc' \<Rightarrow> rule_opts pol ts acc')"

definition new_rule :: "string \<Rightarrow> kgp_rule" where
  "new_rule name = \<lparr>r_name = name, r_codes = [], r_min_level = 0, r_throttle_s = 60, r_do_mask = 0,
     r_repeat_n = 0, r_repeat_window_s = 0, r_unacked_s = 0, r_then_mask = 0, r_reset_s = 3600\<rparr>"

definition parse_rule :: "kgp_policy \<Rightarrow> string list \<Rightarrow> kgp_err + kgp_policy" where
  "parse_rule pol tok =
     (if length tok < 3 then Inl Err_rule_usage
      else if KGP_MAX_RULES \<le> length (pol_rules pol) then Inl Err_too_many_rules
      else if \<not> valid_name (tok ! 1) then Inl Err_bad_rule_name
      else if list_ex (\<lambda>r. r_name r = tok ! 1) (pol_rules pol) then Inl Err_rule_twice
      else case rule_opts pol (drop 2 tok) (new_rule (tok ! 1), False, None) of
             Inl e \<Rightarrow> Inl e
           | Inr (r, have_do, thenlist) \<Rightarrow>
               if \<not> have_do then Inl Err_no_do
               else (case thenlist of
                       None \<Rightarrow>
                         if r_repeat_n r \<noteq> 0 \<or> r_unacked_s r \<noteq> 0 then Inl Err_needs_then
                         else Inr (pol\<lparr>pol_rules := pol_rules pol @ [r]\<rparr>)
                     | Some l \<Rightarrow>
                         (case parse_action_list pol l of
                            Inl e \<Rightarrow> Inl e
                          | Inr m \<Rightarrow>
                              if r_repeat_n r = 0 \<and> r_unacked_s r = 0 then Inl Err_then_needs
                              else Inr (pol\<lparr>pol_rules := pol_rules pol @ [r\<lparr>r_then_mask := m\<rparr>]\<rparr>))))"

definition parse_line :: "fs_env option \<Rightarrow> string \<Rightarrow> kgp_policy \<Rightarrow> kgp_err + kgp_policy" where
  "parse_line check line pol =
     (case tokenize line (KGP_MAX_ARGS + 4) of
        None \<Rightarrow> Inl Err_words
      | Some [] \<Rightarrow> Inr pol
      | Some (d # ts) \<Rightarrow>
          if d = ''action'' then parse_action check pol (d # ts)
          else if d = ''rule'' then parse_rule pol (d # ts)
          else Inl Err_directive)"

section \<open>Policy text and files\<close>

definition newline :: char where "newline = CHR 0x0A"

definition next_line :: "string \<Rightarrow> string \<times> string" where
  "next_line p = (case strchr_split newline p of Some ab \<Rightarrow> ab | None \<Rightarrow> (p, []))"

lemma next_line_shorter: "p \<noteq> [] \<Longrightarrow> length (snd (next_line p)) < length p"
  by (auto simp: next_line_def split: option.splits dest: strchr_split_Some)

function parse_lines :: "fs_env option \<Rightarrow> nat \<Rightarrow> string \<Rightarrow> kgp_policy \<Rightarrow> nat \<times> kgp_err + kgp_policy" where
  "parse_lines check lineno p pol =
     (if p = [] then Inr pol
      else case parse_line check (fst (next_line p)) pol of
             Inl e \<Rightarrow> Inl (Suc lineno, e)
           | Inr pol' \<Rightarrow> parse_lines check (Suc lineno) (snd (next_line p)) pol')"
  by pat_completeness auto
termination
  by (relation "measure (\<lambda>(check, lineno, p, pol). length p)") (auto simp: next_line_shorter)

declare parse_lines.simps [simp del]

definition empty_policy :: kgp_policy where
  "empty_policy = \<lparr>pol_actions = [], pol_rules = []\<rparr>"

definition kgp_parse :: "fs_env option \<Rightarrow> string \<Rightarrow> nat \<times> kgp_err + kgp_policy" where
  "kgp_parse check text = parse_lines check 0 text empty_policy"

datatype load_err = Load_open | Load_not_regular | Load_writable | Load_owner | Load_large | Load_read | Load_parse nat kgp_err

text \<open>
  \<open>fd\<close> is the file \<open>open\<close> yields (\<open>None\<close> when it fails): what \<open>fstat\<close> says of it, and what
  \<open>read\<close> of its size returns (\<open>None\<close> on an error).
\<close>

definition kgp_load_file :: "fs_env \<Rightarrow> (file_stat option \<times> string option) option \<Rightarrow> load_err + kgp_policy" where
  "kgp_load_file fs fd =
     (case fd of
        None \<Rightarrow> Inl Load_open
      | Some (None, _) \<Rightarrow> Inl Load_not_regular
      | Some (Some st, content) \<Rightarrow>
          if \<not> st_isreg st then Inl Load_not_regular
          else if st_writable_by_others st then Inl Load_writable
          else if st_uid st \<noteq> 0 \<and> st_uid st \<noteq> fs_euid fs then Inl Load_owner
          else if 256 * 1024 < st_size st then Inl Load_large
          else (case content of
                  None \<Rightarrow> Inl Load_read
                | Some text \<Rightarrow>
                    (case kgp_parse (Some fs) text of
                       Inl (line, e) \<Rightarrow> Inl (Load_parse line e)
                     | Inr pol \<Rightarrow> Inr pol)))"

section \<open>What a parsed policy guarantees\<close>

definition kgp_action_wf :: "kgp_action \<Rightarrow> bool" where
  "kgp_action_wf a \<longleftrightarrow> valid_name (a_name a) \<and> a_argv a \<noteq> [] \<and> length (a_argv a) \<le> KGP_MAX_ARGS \<and>
     take 1 (hd (a_argv a)) = ''/'' \<and> 1 \<le> unat (a_timeout_s a) \<and> unat (a_timeout_s a) \<le> 3600"

definition mask_below :: "nat \<Rightarrow> u32 \<Rightarrow> bool" where
  "mask_below n m \<longleftrightarrow> (\<forall>i. bit m i \<longrightarrow> i < n)"

text \<open>The fields of a rule, for a policy that has \<open>n\<close> actions so far.\<close>

definition rule_fields :: "nat \<Rightarrow> kgp_rule \<Rightarrow> bool" where
  "rule_fields n r \<longleftrightarrow> valid_name (r_name r) \<and> length (r_codes r) \<le> KGP_MAX_CODES \<and>
     KGP_INFO \<le> r_min_level r \<and> r_min_level r \<le> KGP_FORGED \<and> unat (r_throttle_s r) \<le> 86400 \<and>
     1 \<le> unat (r_reset_s r) \<and> unat (r_reset_s r) \<le> 2592000 \<and> unat (r_unacked_s r) \<le> 2592000 \<and>
     mask_below n (r_do_mask r) \<and>
     (r_repeat_n r \<noteq> 0 \<longrightarrow> 2 \<le> unat (r_repeat_n r) \<and> unat (r_repeat_n r) \<le> KGP_MAX_REPEAT \<and>
        1 \<le> unat (r_repeat_window_s r) \<and> unat (r_repeat_window_s r) \<le> 86400)"

definition kgp_rule_wf :: "nat \<Rightarrow> kgp_rule \<Rightarrow> bool" where
  "kgp_rule_wf n r \<longleftrightarrow> rule_fields n r \<and> r_do_mask r \<noteq> 0 \<and> mask_below n (r_then_mask r) \<and>
     (r_then_mask r \<noteq> 0 \<longleftrightarrow> r_repeat_n r \<noteq> 0 \<or> r_unacked_s r \<noteq> 0)"

definition kgp_policy_wf :: "kgp_policy \<Rightarrow> bool" where
  "kgp_policy_wf pol \<longleftrightarrow>
     length (pol_actions pol) \<le> KGP_MAX_ACTIONS \<and> length (pol_rules pol) \<le> KGP_MAX_RULES \<and>
     distinct (map a_name (pol_actions pol)) \<and> distinct (map r_name (pol_rules pol)) \<and>
     (\<forall>a \<in> set (pol_actions pol). kgp_action_wf a) \<and>
     (\<forall>r \<in> set (pol_rules pol). kgp_rule_wf (length (pol_actions pol)) r)"

lemma mask_below_0 [simp]: "mask_below n 0"
  by (simp add: mask_below_def)

lemma mask_below_mono: "mask_below n m \<Longrightarrow> n \<le> k \<Longrightarrow> mask_below k m"
  by (auto simp: mask_below_def)

lemma kgp_rule_wf_mono: "kgp_rule_wf n r \<Longrightarrow> n \<le> k \<Longrightarrow> kgp_rule_wf k r"
  by (auto simp: kgp_rule_wf_def rule_fields_def intro: mask_below_mono)

lemma find_in: "List.find P xs = Some x \<Longrightarrow> x \<in> set xs \<and> P x"
  by (auto simp: find_Some_iff)

lemma action_index_Some: "action_index pol name = Some i \<Longrightarrow> i < length (pol_actions pol) \<and> a_name (pol_actions pol ! i) = name"
  unfolding action_index_def by (drule find_in) simp

lemma action_index_None: "action_index pol name = None \<longleftrightarrow> name \<notin> set (map a_name (pol_actions pol))"
  by (force simp: action_index_def find_None_iff in_set_conv_nth)

lemma parse_uint_bounds:
  assumes "parse_uint s lo hi = Some v" and "hi < 2 ^ 32"
  shows "lo \<le> unat v \<and> unat v \<le> hi"
proof -
  from assms(1) obtain n where "v = of_nat n" "lo \<le> n" "n \<le> hi"
    by (auto simp: parse_uint_def split: list.splits if_splits prod.splits)
  then show ?thesis using unat_of_nat_small [of n, where 'a = 32] assms(2) by simp
qed

lemma mask_below_or: "mask_below n m \<Longrightarrow> i < n \<Longrightarrow> mask_below n (m OR push_bit i 1)"
  by (auto simp: mask_below_def bit_or_iff bit_exp_iff)

lemma mask_of_below:
  "mask_of pol ts m = Inr m' \<Longrightarrow> mask_below (length (pol_actions pol)) m \<Longrightarrow> mask_below (length (pol_actions pol)) m'"
proof (induction pol ts m rule: mask_of.induct)
  case (2 pol t ts m)
  then obtain i where i: "action_index pol t = Some i" by (auto split: option.splits)
  with 2 mask_below_or [OF 2(3)] action_index_Some [OF i] show ?case by simp
qed simp

lemma parse_action_list_ok:
  "parse_action_list pol l = Inr m \<Longrightarrow> m \<noteq> 0 \<and> mask_below (length (pol_actions pol)) m"
  by (auto simp: parse_action_list_def split: sum.splits if_splits dest: mask_of_below)

lemma parse_codes_length: "parse_codes ts acc = Inr cs \<Longrightarrow> length acc \<le> KGP_MAX_CODES \<Longrightarrow> length cs \<le> KGP_MAX_CODES"
  by (induction ts acc rule: parse_codes.induct) (auto split: if_splits option.splits)

lemma level_from_name_range: "level_from_name s = Some l \<Longrightarrow> KGP_INFO \<le> l \<and> l \<le> KGP_FORGED"
  unfolding level_from_name_def by (drule find_in) (auto simp: kg_const)

text \<open>The branches of the option loop, one key at a time.\<close>

lemma rule_opt_key:
  "rule_opt pol (''alert='' @ v) (r, d, th) =
     (case parse_codes (strtok_list CHR '','' v) [] of Inl e \<Rightarrow> Inl e | Inr cs \<Rightarrow> Inr (r\<lparr>r_codes := cs\<rparr>, d, th))"
  "rule_opt pol (''level='' @ v) (r, d, th) =
     (case level_from_name v of None \<Rightarrow> Inl Err_level | Some l \<Rightarrow> Inr (r\<lparr>r_min_level := l\<rparr>, d, th))"
  "rule_opt pol (''throttle='' @ v) (r, d, th) =
     (case parse_uint v 0 86400 of None \<Rightarrow> Inl Err_throttle | Some x \<Rightarrow> Inr (r\<lparr>r_throttle_s := x\<rparr>, d, th))"
  "rule_opt pol (''reset='' @ v) (r, d, th) =
     (case parse_uint v 1 2592000 of None \<Rightarrow> Inl Err_reset | Some x \<Rightarrow> Inr (r\<lparr>r_reset_s := x\<rparr>, d, th))"
  "rule_opt pol (''unacked='' @ v) (r, d, th) =
     (case parse_uint v 1 2592000 of None \<Rightarrow> Inl Err_unacked | Some x \<Rightarrow> Inr (r\<lparr>r_unacked_s := x\<rparr>, d, th))"
  "rule_opt pol (''repeat='' @ v) (r, d, th) =
     (case strchr_split CHR ''/'' v of
        None \<Rightarrow> Inl Err_repeat_form
      | Some (a, b) \<Rightarrow>
          (case (parse_uint a 2 KGP_MAX_REPEAT, parse_uint b 1 86400) of
             (Some n, Some w) \<Rightarrow> Inr (r\<lparr>r_repeat_n := n, r_repeat_window_s := w\<rparr>, d, th)
           | _ \<Rightarrow> Inl Err_repeat))"
  "rule_opt pol (''do='' @ v) (r, d, th) =
     (case parse_action_list pol v of Inl e \<Rightarrow> Inl e | Inr m \<Rightarrow> Inr (r\<lparr>r_do_mask := m\<rparr>, True, th))"
  "rule_opt pol (''then='' @ v) (r, d, th) = Inr (r, d, Some v)"
  by (simp_all add: rule_opt_def)

lemma rule_opt_forms:
  assumes "rule_opt pol t acc = Inr acc'"
  obtains k v where "t = k @ v" "k \<in> {''alert='', ''level='', ''throttle='', ''reset='', ''unacked='', ''repeat='', ''do='', ''then=''}"
proof -
  obtain r d th where acc: "acc = (r, d, th)" by (cases acc)
  obtain k v where t: "strchr_split CHR ''='' t = Some (k, v)"
  proof (cases "strchr_split CHR ''='' t")
    case None
    with assms show ?thesis by (simp add: rule_opt_def acc)
  next
    case (Some kv)
    with that show ?thesis by (cases kv) simp
  qed
  have False if n: "k \<noteq> ''alert''" "k \<noteq> ''level''" "k \<noteq> ''throttle''" "k \<noteq> ''reset''" "k \<noteq> ''unacked''"
    "k \<noteq> ''repeat''" "k \<noteq> ''do''" "k \<noteq> ''then''"
    using assms unfolding rule_opt_def t acc option.case prod.case by (simp only: n if_False) simp
  then have "k \<in> {''alert'', ''level'', ''throttle'', ''reset'', ''unacked'', ''repeat'', ''do'', ''then''}" by blast
  moreover have "t = (k @ ''='') @ v" using strchr_split_Some [OF t] by simp
  ultimately show thesis by (intro that [of "k @ ''=''" v]) auto
qed

lemma rule_fields_update:
  assumes "rule_fields n r"
  shows "length cs \<le> KGP_MAX_CODES \<Longrightarrow> rule_fields n (r\<lparr>r_codes := cs\<rparr>)"
    and "KGP_INFO \<le> l \<and> l \<le> KGP_FORGED \<Longrightarrow> rule_fields n (r\<lparr>r_min_level := l\<rparr>)"
    and "0 \<le> unat x \<and> unat x \<le> 86400 \<Longrightarrow> rule_fields n (r\<lparr>r_throttle_s := x\<rparr>)"
    and "1 \<le> unat x \<and> unat x \<le> 2592000 \<Longrightarrow> rule_fields n (r\<lparr>r_reset_s := x\<rparr>)"
    and "1 \<le> unat x \<and> unat x \<le> 2592000 \<Longrightarrow> rule_fields n (r\<lparr>r_unacked_s := x\<rparr>)"
    and "2 \<le> unat x \<and> unat x \<le> KGP_MAX_REPEAT \<Longrightarrow> 1 \<le> unat w \<and> unat w \<le> 86400 \<Longrightarrow>
           rule_fields n (r\<lparr>r_repeat_n := x, r_repeat_window_s := w\<rparr>)"
    and "mask_below n m \<Longrightarrow> rule_fields n (r\<lparr>r_do_mask := m\<rparr>)"
  using assms by (simp_all add: rule_fields_def)

lemma rule_opt_fields:
  assumes o: "rule_opt pol t (r, d, th) = Inr (r', d', th')" and f: "rule_fields (length (pol_actions pol)) r"
    and "d \<longrightarrow> r_do_mask r \<noteq> 0" and "r_then_mask r = 0"
  shows "rule_fields (length (pol_actions pol)) r' \<and> (d' \<longrightarrow> r_do_mask r' \<noteq> 0) \<and> r_then_mask r' = 0 \<and> r_name r' = r_name r"
proof -
  note u = parse_uint_bounds
  note s = sum.splits option.splits prod.splits
  note up = rule_fields_update [OF f]
  obtain k v where t: "t = k @ v"
    and k: "k \<in> {''alert='', ''level='', ''throttle='', ''reset='', ''unacked='', ''repeat='', ''do='', ''then=''}"
    using rule_opt_forms [OF o] .
  from k show ?thesis
  proof (elim insertE emptyE)
    assume "k = ''alert=''"
    from o [unfolded t this rule_opt_key] obtain cs
      where "parse_codes (strtok_list CHR '','' v) [] = Inr cs" "r' = r\<lparr>r_codes := cs\<rparr>" "d' = d"
      by (auto split: s)
    with assms(3,4) up(1) [of cs] parse_codes_length show ?thesis by simp
  next
    assume "k = ''level=''"
    from o [unfolded t this rule_opt_key] obtain l
      where "level_from_name v = Some l" "r' = r\<lparr>r_min_level := l\<rparr>" "d' = d" by (auto split: s)
    with assms(3,4) up(2) [OF level_from_name_range] show ?thesis by simp
  next
    assume "k = ''throttle=''"
    from o [unfolded t this rule_opt_key] obtain x
      where "parse_uint v 0 86400 = Some x" "r' = r\<lparr>r_throttle_s := x\<rparr>" "d' = d" by (auto split: s)
    with assms(3,4) up(3) [OF u] show ?thesis by simp
  next
    assume "k = ''reset=''"
    from o [unfolded t this rule_opt_key] obtain x
      where "parse_uint v 1 2592000 = Some x" "r' = r\<lparr>r_reset_s := x\<rparr>" "d' = d" by (auto split: s)
    with assms(3,4) up(4) [OF u] show ?thesis by simp
  next
    assume "k = ''unacked=''"
    from o [unfolded t this rule_opt_key] obtain x
      where "parse_uint v 1 2592000 = Some x" "r' = r\<lparr>r_unacked_s := x\<rparr>" "d' = d" by (auto split: s)
    with assms(3,4) up(5) [OF u] show ?thesis by simp
  next
    assume "k = ''repeat=''"
    from o [unfolded t this rule_opt_key] obtain a b x w
      where "parse_uint a 2 KGP_MAX_REPEAT = Some x" "parse_uint b 1 86400 = Some w"
        "r' = r\<lparr>r_repeat_n := x, r_repeat_window_s := w\<rparr>" "d' = d" by (auto split: s)
    with assms(3,4) up(6) [OF u u] show ?thesis by (simp add: KGP_MAX_REPEAT_def)
  next
    assume "k = ''do=''"
    from o [unfolded t this rule_opt_key] obtain m
      where "parse_action_list pol v = Inr m" "r' = r\<lparr>r_do_mask := m\<rparr>" "d'" by (auto split: s)
    with assms(4) parse_action_list_ok up(7) show ?thesis by simp
  next
    assume "k = ''then=''"
    from o [unfolded t this rule_opt_key] assms(2-) show ?thesis by simp
  qed
qed

lemma rule_opts_fields:
  "rule_opts pol ts (r, d, th) = Inr (r', d', th') \<Longrightarrow> rule_fields (length (pol_actions pol)) r \<Longrightarrow>
   (d \<longrightarrow> r_do_mask r \<noteq> 0) \<Longrightarrow> r_then_mask r = 0 \<Longrightarrow>
   rule_fields (length (pol_actions pol)) r' \<and> (d' \<longrightarrow> r_do_mask r' \<noteq> 0) \<and> r_then_mask r' = 0 \<and> r_name r' = r_name r"
proof (induction ts arbitrary: r d th)
  case (Cons t ts)
  obtain r1 d1 th1 where o: "rule_opt pol t (r, d, th) = Inr (r1, d1, th1)"
    and rest: "rule_opts pol ts (r1, d1, th1) = Inr (r', d', th')"
    using Cons.prems(1) by (auto split: sum.splits)
  from rule_opt_fields [OF o Cons.prems(2-)] Cons.IH [OF rest] show ?case by auto
qed simp

lemma parse_rule_wf:
  assumes "parse_rule pol tok = Inr pol'" and "kgp_policy_wf pol"
  shows "kgp_policy_wf pol'"
proof -
  let ?n = "length (pol_actions pol)" and ?name = "tok ! 1"
  have name: "valid_name ?name" "?name \<notin> set (map r_name (pol_rules pol))" "length (pol_rules pol) < KGP_MAX_RULES"
    using assms(1) by (auto simp: parse_rule_def list_ex_iff split: if_splits)
  obtain r d th where o: "rule_opts pol (drop 2 tok) (new_rule ?name, False, None) = Inr (r, d, th)"
    using assms(1) by (auto simp: parse_rule_def split: if_splits sum.splits)
  have "rule_fields ?n (new_rule ?name)"
    using name(1) by (simp add: rule_fields_def new_rule_def kg_const)
  with rule_opts_fields [OF o] have r: "rule_fields ?n r" "d \<longrightarrow> r_do_mask r \<noteq> 0" "r_then_mask r = 0" "r_name r = ?name"
    by (simp_all add: new_rule_def)
  have "\<exists>q. pol' = pol\<lparr>pol_rules := pol_rules pol @ [q]\<rparr> \<and> kgp_rule_wf ?n q \<and> r_name q = ?name"
  proof (cases th)
    case None
    with assms(1) have "pol' = pol\<lparr>pol_rules := pol_rules pol @ [r]\<rparr>" "d" "r_repeat_n r = 0" "r_unacked_s r = 0"
      by (auto simp: parse_rule_def o simp del: One_nat_def split: if_splits)
    with r show ?thesis by (intro exI [of _ r]) (simp add: kgp_rule_wf_def)
  next
    case (Some l)
    with assms(1) obtain m where m: "parse_action_list pol l = Inr m"
      and p: "pol' = pol\<lparr>pol_rules := pol_rules pol @ [r\<lparr>r_then_mask := m\<rparr>]\<rparr>" "d"
        "r_repeat_n r \<noteq> 0 \<or> r_unacked_s r \<noteq> 0"
      by (auto simp: parse_rule_def o simp del: One_nat_def split: if_splits sum.splits)
    have "rule_fields ?n (r\<lparr>r_then_mask := m\<rparr>)" using r(1) by (simp add: rule_fields_def)
    with parse_action_list_ok [OF m] p r show ?thesis
      by (intro exI [of _ "r\<lparr>r_then_mask := m\<rparr>"]) (simp add: kgp_rule_wf_def)
  qed
  then show ?thesis using assms(2) name by (auto simp: kgp_policy_wf_def)
qed

lemma action_opts_ok:
  "action_opts ts t0 = Inr (t, argv) \<Longrightarrow> 1 \<le> unat t0 \<Longrightarrow> unat t0 \<le> 3600 \<Longrightarrow> 1 \<le> unat t \<and> unat t \<le> 3600"
proof (induction ts t0 rule: action_opts.induct)
  case (2 w ts t0)
  then show ?case by (auto split: if_splits option.splits dest: parse_uint_bounds)
qed simp

lemma parse_action_cases:
  assumes "parse_action check pol tok = Inr pol'"
  obtains t argv where "pol' = pol\<lparr>pol_actions := pol_actions pol @ [\<lparr>a_name = tok ! 1, a_argv = argv, a_timeout_s = t\<rparr>]\<rparr>"
    "kgp_action_wf \<lparr>a_name = tok ! 1, a_argv = argv, a_timeout_s = t\<rparr>" "tok ! 1 \<notin> set (map a_name (pol_actions pol))"
    "length (pol_actions pol) < KGP_MAX_ACTIONS" "\<And>fs. check = Some fs \<Longrightarrow> check_program fs (hd argv) = None"
proof -
  obtain t argv where o: "action_opts (drop 2 tok) 10 = Inr (t, argv)"
    using assms by (auto simp: parse_action_def split: if_splits sum.splits)
  have t: "1 \<le> unat t" "unat t \<le> 3600" using action_opts_ok [OF o] by simp_all
  show thesis
    using assms t
    by (intro that [of argv t])
      (auto simp: parse_action_def o kgp_action_wf_def action_index_None not_le simp del: One_nat_def split: if_splits option.splits)
qed

lemma parse_action_wf:
  assumes "parse_action check pol tok = Inr pol'" and "kgp_policy_wf pol"
  shows "kgp_policy_wf pol'"
  using assms(1)
proof (cases rule: parse_action_cases)
  case (1 t argv)
  then show ?thesis using assms(2) by (auto simp: kgp_policy_wf_def intro: kgp_rule_wf_mono)
qed

lemma parse_line_wf: "parse_line check line pol = Inr pol' \<Longrightarrow> kgp_policy_wf pol \<Longrightarrow> kgp_policy_wf pol'"
  by (auto simp: parse_line_def split: option.splits list.splits if_splits dest: parse_action_wf parse_rule_wf)

lemma parse_lines_wf: "parse_lines check k p pol = Inr pol' \<Longrightarrow> kgp_policy_wf pol \<Longrightarrow> kgp_policy_wf pol'"
proof (induction check k p pol rule: parse_lines.induct)
  case (1 check k p pol)
  then show ?case by (subst (asm) parse_lines.simps) (auto split: if_splits sum.splits dest: parse_line_wf)
qed

section \<open>Names and codes\<close>

lemma names_no_lower: "list_all (\<lambda>(c, n). no_lower n) kgp_names"
  by (simp add: kgp_names_def no_lower_def c_between_def cval_def)

lemma names_distinct: "distinct (map fst kgp_names)" "distinct (map snd kgp_names)"
  by (simp_all add: kgp_names_def kg_const)

lemma find_unique:
  "distinct (map f xs) \<Longrightarrow> x \<in> set xs \<Longrightarrow> List.find (\<lambda>y. f y = f x) xs = Some x"
  by (induction xs) (auto simp: image_iff)

lemma kgp_code_name_iff: "kgp_code_name c = Some n \<longleftrightarrow> (c, n) \<in> set kgp_names"
proof
  assume "kgp_code_name c = Some n"
  then show "(c, n) \<in> set kgp_names"
    by (auto simp: kgp_code_name_def dest!: find_in)
next
  assume "(c, n) \<in> set kgp_names"
  from find_unique [OF names_distinct(1) this] show "kgp_code_name c = Some n"
    by (simp add: kgp_code_name_def case_prod_beta')
qed

lemma code_from_name:
  assumes "(c, n) \<in> set kgp_names" and "strcaseeq n m"
  shows "kgp_code_from_name m = Some c"
proof -
  have "List.find (\<lambda>(c', x). strcaseeq x m) kgp_names = List.find (\<lambda>(c', x). x = n) kgp_names"
  proof (rule find_cong [OF refl])
    fix y assume y: "y \<in> set kgp_names"
    have "no_lower (snd y)" "no_lower n"
      using y assms(1) names_no_lower by (auto simp: list_all_iff)
    then show "(case y of (c', x) \<Rightarrow> strcaseeq x m) = (case y of (c', x) \<Rightarrow> x = n)"
      using strcaseeq_cong [OF assms(2)] by (cases y) (simp add: strcaseeq_no_lower)
  qed
  also have "\<dots> = Some (c, n)"
    using find_unique [OF names_distinct(2) assms(1)] by (simp add: case_prod_beta')
  finally show ?thesis by (simp add: kgp_code_from_name_def)
qed
section \<open>Quoting\<close>

fun escape_quotes :: "string \<Rightarrow> string" where
  "escape_quotes [] = []"
| "escape_quotes (c # cs) = (if c = quote_char then [backslash, quote_char] else [c]) @ escape_quotes cs"

definition quote_word :: "string \<Rightarrow> string" where
  "quote_word w = quote_char # escape_quotes w @ [quote_char]"

fun join_words :: "string list \<Rightarrow> string" where
  "join_words [] = []"
| "join_words [w] = quote_word w"
| "join_words (w # v # ws) = quote_word w @ CHR '' '' # join_words (v # ws)"

lemma quote_not_space [simp]: "\<not> tok_space quote_char" "quote_char \<noteq> CHR ''#''" "backslash \<noteq> quote_char"
  by (simp_all add: tok_space_def quote_char_def backslash_def cval_def)

lemma escape_hd: "escape_quotes w = quote_char # r \<Longrightarrow> False"
  by (cases w) (auto split: if_splits)

lemma tok_quoted_escape:
  "w = [] \<or> last w \<noteq> backslash \<Longrightarrow> tok_quoted (escape_quotes w @ quote_char # rest) = Some (w, rest)"
proof (induction w)
  case Nil
  then show ?case by (cases rest) simp_all
next
  case (Cons c cs)
  have IH: "tok_quoted (escape_quotes cs @ quote_char # rest) = Some (cs, rest)"
    using Cons by (auto split: if_splits)
  show ?case
  proof (cases "c = quote_char")
    case True
    then show ?thesis by (simp add: IH)
  next
    case False
    obtain d r where dr: "escape_quotes cs @ quote_char # rest = d # r"
      by (cases "escape_quotes cs") auto
    have "\<not> (c = backslash \<and> d = quote_char)"
    proof
      assume a: "c = backslash \<and> d = quote_char"
      then have "cs \<noteq> []" using Cons.prems by auto
      then have "escape_quotes cs \<noteq> []" by (cases cs) auto
      then obtain e es where "escape_quotes cs = e # es" by (cases "escape_quotes cs") auto
      with a dr escape_hd [of cs es] show False by simp
    qed
    with False IH show ?thesis by (auto simp: dr)
  qed
qed

lemma tok_word_quote:
  assumes "w = [] \<or> last w \<noteq> backslash" and "rest = [] \<or> tok_space (hd rest)"
  shows "tok_word (quote_word w @ rest) = Some (w, rest)"
proof -
  have r: "tok_word rest = Some ([], rest)"
    using assms(2) by (subst tok_word.simps) (auto split: list.splits)
  show ?thesis
    unfolding quote_word_def
    by (subst tok_word.simps) (simp add: tok_quoted_escape [OF assms(1)] r)
qed

lemma tok_loop_join:
  "\<forall>w \<in> set ws. w = [] \<or> last w \<noteq> backslash \<Longrightarrow> n + length ws \<le> limit \<Longrightarrow> tok_loop limit n (join_words ws) = Some ws"
proof (induction ws arbitrary: n rule: join_words.induct)
  case 1
  then show ?case by (simp add: tok_loop.simps)
next
  case (2 w)
  have "dropWhile tok_space (quote_word w) = quote_word w" by (simp add: quote_word_def)
  moreover have "tok_word (quote_word w) = Some (w, [])" using tok_word_quote [of w "[]"] 2 by simp
  moreover have "tok_loop limit (Suc n) [] = Some []" by (simp add: tok_loop.simps)
  ultimately show ?case
    using 2 by (subst tok_loop.simps) (simp add: Let_def quote_word_def)
next
  case (3 w v ws)
  let ?s = "quote_word w @ CHR '' '' # join_words (v # ws)"
  have "dropWhile tok_space ?s = ?s" by (simp add: quote_word_def)
  moreover have "tok_word ?s = Some (w, CHR '' '' # join_words (v # ws))"
    by (rule tok_word_quote) (use 3 in \<open>simp_all add: tok_space_def\<close>)
  moreover have "tok_loop limit (Suc n) (join_words (v # ws)) = Some (v # ws)"
    by (rule "3.IH") (use 3 in simp_all)
  ultimately show ?case
    using 3(3) by (subst join_words.simps, subst tok_loop.simps) (simp add: Let_def quote_word_def)
qed

section \<open>Line numbers\<close>

fun parse_all :: "fs_env option \<Rightarrow> nat \<Rightarrow> string list \<Rightarrow> kgp_policy \<Rightarrow> nat \<times> kgp_err + kgp_policy" where
  "parse_all check n [] pol = Inr pol"
| "parse_all check n (l # ls) pol =
     (case parse_line check l pol of
        Inl e \<Rightarrow> Inl (Suc n, e)
      | Inr pol' \<Rightarrow> parse_all check (Suc n) ls pol')"

lemma parse_line_empty: "parse_line check [] pol = Inr pol"
  by (simp add: parse_line_def tokenize_def tok_loop.simps)

lemma split_on_next: "p \<noteq> [] \<Longrightarrow> split_on newline p = fst (next_line p) #
    (if newline \<in> set p then split_on newline (snd (next_line p)) else [])"
proof (induction p)
  case (Cons c p)
  show ?case
  proof (cases "c = newline \<or> p = []")
    case False
    with Cons.IH show ?thesis
      by (auto simp: next_line_def split: option.splits)
  qed (auto simp: next_line_def)
qed simp

lemma parse_lines_all: "parse_lines check n p pol = parse_all check n (split_on newline p) pol"
proof (induction check n p pol rule: parse_lines.induct)
  case (1 check n p pol)
  show ?case
  proof (cases "p = []")
    case True
    then show ?thesis by (simp add: parse_lines.simps parse_line_empty)
  next
    case False
    have "newline \<notin> set p \<Longrightarrow> snd (next_line p) = []"
      using strchr_split_None [of newline p] by (simp add: next_line_def)
    then show ?thesis
      using 1 False
      by (subst parse_lines.simps) (auto simp: split_on_next parse_line_empty split: sum.splits)
  qed
qed

lemma parse_all_error:
  "parse_all check n ls pol = Inl (k, e) \<Longrightarrow> \<exists>pol'. n < k \<and> k \<le> n + length ls \<and>
     parse_all check n (take (k - Suc n) ls) pol = Inr pol' \<and> parse_line check (ls ! (k - Suc n)) pol' = Inl e"
proof (induction check n ls pol rule: parse_all.induct)
  case (2 check n l ls pol)
  show ?case
  proof (cases "parse_line check l pol")
    case (Inl e')
    with 2 show ?thesis by auto
  next
    case (Inr pol1)
    with 2 obtain pol' where *: "Suc n < k" "k \<le> Suc n + length ls"
      "parse_all check (Suc n) (take (k - Suc (Suc n)) ls) pol1 = Inr pol'"
      "parse_line check (ls ! (k - Suc (Suc n))) pol' = Inl e" by auto
    then obtain j where "k - Suc n = Suc j" "k - Suc (Suc n) = j" by (metis Suc_diff_Suc)
    with * Inr show ?thesis by (intro exI [of _ pol']) auto
  qed
qed simp

section \<open>Checked programs\<close>

lemma parse_line_checked:
  assumes "parse_line (Some fs) line pol = Inr pol'"
    and "\<forall>a \<in> set (pol_actions pol). check_program fs (hd (a_argv a)) = None"
  shows "\<forall>a \<in> set (pol_actions pol'). check_program fs (hd (a_argv a)) = None"
proof -
  have rule: "parse_rule pol tok = Inr pol' \<Longrightarrow> pol_actions pol' = pol_actions pol" for tok
    by (auto simp: parse_rule_def split: if_splits sum.splits option.splits prod.splits)
  have act: "parse_action (Some fs) pol tok = Inr pol' \<Longrightarrow> ?thesis" for tok
    using assms(2) by (erule_tac parse_action_cases) auto
  from assms show ?thesis
    by (auto simp: parse_line_def dest: rule act split: option.splits list.splits if_splits)
qed

lemma parse_lines_checked:
  "parse_lines (Some fs) n p pol = Inr pol' \<Longrightarrow> \<forall>a \<in> set (pol_actions pol). check_program fs (hd (a_argv a)) = None \<Longrightarrow>
   \<forall>a \<in> set (pol_actions pol'). check_program fs (hd (a_argv a)) = None"
proof (induction "Some fs" n p pol rule: parse_lines.induct)
  case (1 n p pol)
  then show ?case
    by (subst (asm) (2) parse_lines.simps) (auto split: if_splits sum.splits dest: parse_line_checked)
qed


section \<open>Properties\<close>

lemmas policy_eval = kgp_parse_def parse_lines.simps next_line_def newline_def parse_line_def tokenize_def tok_loop.simps
  tok_word.simps tok_space_def quote_char_def backslash_def parse_action_def parse_rule_def rule_opt_def empty_policy_def
  valid_name_def action_index_def check_program_def parse_action_list_def new_rule_def parse_uint_def level_from_name_def
  kgp_level_name_def

definition example_policy :: kgp_policy where
  "example_policy = \<lparr>pol_actions = [\<lparr>a_name = ''page'', a_argv = [''/bin/true''], a_timeout_s = 10\<rparr>],
     pol_rules = [\<lparr>r_name = ''r'', r_codes = [], r_min_level = 2, r_throttle_s = 60, r_do_mask = 1, r_repeat_n = 3,
       r_repeat_window_s = 60, r_unacked_s = 0, r_then_mask = 1, r_reset_s = 3600\<rparr>]\<rparr>"

definition example_text :: string where
  "example_text = ''action page /bin/true'' @ [newline] @ ''rule r level=critical do=page repeat=3/60 then=page''"

definition example_fs :: fs_env where
  "example_fs = \<lparr>fs_stat = (\<lambda>p. if p = ''/bin/true'' then Some \<lparr>st_isreg = True, st_ixusr = True,
     st_writable_by_others = False, st_uid = 0, st_size = 100\<rparr> else None), fs_euid = 1000\<rparr>"

lemma example_text_parses: "kgp_parse (Some example_fs) example_text = Inr example_policy"
  by (simp add: example_text_def example_policy_def example_fs_def policy_eval cstring_eval kg_const)

text \<open>
  C35. Whatever text is parsed, a policy that comes out is well formed: at most 16 actions and 32 rules with
  distinct valid names; every action has an absolute program, at most 16 words and a timeout of 1 to 3600
  seconds; every rule names at most 16 codes, has all its numbers within their documented ranges, runs at least one action,
  refers only to actions that exist, and has escalation actions exactly when it has an escalation
  condition.
\<close>

theorem kgp_parse_wf:
  assumes "kgp_parse check text = Inr pol"
  shows "kgp_policy_wf pol"
  using parse_lines_wf assms by (simp add: kgp_parse_def kgp_policy_wf_def empty_policy_def)

theorem kgp_parse_wf_witness:
  "kgp_parse (Some example_fs) example_text = Inr example_policy \<and> kgp_policy_wf example_policy"
  using kgp_parse_wf [OF example_text_parses] example_text_parses by simp

text \<open>
  A rejected policy is rejected for its first bad line: the reported number is the 1-based number of a line
  of the text, the lines before it parse on their own, and that line fails on top of them with the
  reported error.
\<close>

theorem kgp_parse_error_line:
  assumes "kgp_parse check text = Inl (k, e)"
  shows "\<exists>pol. 1 \<le> k \<and> k \<le> length (split_on newline text) \<and>
    parse_all check 0 (take (k - 1) (split_on newline text)) empty_policy = Inr pol \<and>
    parse_line check (split_on newline text ! (k - 1)) pol = Inl e"
  using parse_all_error [of check 0 "split_on newline text" empty_policy k e] assms
  by (simp add: kgp_parse_def parse_lines_all Suc_le_eq)

theorem kgp_parse_error_line_witness:
  "kgp_parse None (''# x'' @ [newline] @ ''bogus'') = Inl (2, Err_directive) \<and>
   parse_line None ''bogus'' empty_policy = Inl Err_directive"
proof -
  have e: "kgp_parse None (''# x'' @ [newline] @ ''bogus'') = Inl (2, Err_directive)"
    by (simp add: policy_eval kg_const)
  from kgp_parse_error_line [OF e] e show ?thesis
    by (auto simp: newline_def) (simp add: policy_eval)
qed

text \<open>
  A policy file that is accepted cannot make the root monitor run something an unprivileged user
  controls: the file and every program it names are regular files, not writable by group or others, and owned by root or
  by the monitor's own user; programs are absolute paths and executable.
\<close>

theorem kgp_load_file_safe:
  assumes "kgp_load_file fs fd = Inr pol"
  shows "\<exists>st body. fd = Some (Some st, Some body) \<and> st_isreg st \<and> \<not> st_writable_by_others st \<and>
    (st_uid st = 0 \<or> st_uid st = fs_euid fs) \<and> kgp_policy_wf pol \<and>
    (\<forall>a \<in> set (pol_actions pol). \<exists>p. fs_stat fs (hd (a_argv a)) = Some p \<and> take 1 (hd (a_argv a)) = ''/'' \<and>
       st_isreg p \<and> st_ixusr p \<and> \<not> st_writable_by_others p \<and> (st_uid p = 0 \<or> st_uid p = fs_euid fs))"
proof -
  obtain st body where fd: "fd = Some (Some st, Some body)" and p: "kgp_parse (Some fs) body = Inr pol"
    and st: "st_isreg st" "\<not> st_writable_by_others st" "st_uid st = 0 \<or> st_uid st = fs_euid fs"
    using assms by (auto simp: kgp_load_file_def split: option.splits if_splits sum.splits prod.splits)
  have wf: "kgp_policy_wf pol"
    using parse_lines_wf p by (simp add: kgp_parse_def kgp_policy_wf_def empty_policy_def)
  have "\<forall>a \<in> set (pol_actions pol). check_program fs (hd (a_argv a)) = None"
    using parse_lines_checked p by (simp add: kgp_parse_def empty_policy_def)
  then have "\<exists>p. fs_stat fs (hd (a_argv a)) = Some p \<and> take 1 (hd (a_argv a)) = ''/'' \<and>
       st_isreg p \<and> st_ixusr p \<and> \<not> st_writable_by_others p \<and> (st_uid p = 0 \<or> st_uid p = fs_euid fs)"
    if "a \<in> set (pol_actions pol)" for a
    using that by (fastforce simp: check_program_def split: if_splits option.splits)
  with fd st wf show ?thesis by blast
qed

theorem kgp_load_file_safe_witness:
  "let st = \<lparr>st_isreg = True, st_ixusr = False, st_writable_by_others = False, st_uid = 0, st_size = 200\<rparr>
   in kgp_load_file example_fs (Some (Some st, Some example_text)) = Inr example_policy \<and>
      (\<exists>p. fs_stat example_fs ''/bin/true'' = Some p \<and> \<not> st_writable_by_others p)"
proof -
  let ?st = "\<lparr>st_isreg = True, st_ixusr = False, st_writable_by_others = False, st_uid = 0, st_size = 200\<rparr>"
  have l: "kgp_load_file example_fs (Some (Some ?st, Some example_text)) = Inr example_policy"
    by (simp add: kgp_load_file_def example_text_parses)
  from kgp_load_file_safe [OF l] l show ?thesis
    by (auto simp: Let_def example_policy_def)
qed

text \<open>
  Quoting round trip: any list of words that do not end in a backslash (words with blanks, quotes,
  hashes or nothing in them included), written between double quotes with inner quotes escaped and separated by
  blanks, is tokenized back to exactly that list, as long as it fits the token limit.
\<close>

theorem tokenize_quoted:
  assumes "\<forall>w \<in> set ws. w = [] \<or> last w \<noteq> backslash" and "length ws \<le> limit"
  shows "tokenize (join_words ws) limit = Some ws"
  using tok_loop_join [of ws 0 limit] assms by (simp add: tokenize_def)

theorem tokenize_quoted_witness:
  "tokenize (join_words [''an arg'', [], [quote_char, CHR ''#'']]) 20 = Some [''an arg'', [], [quote_char, CHR ''#'']]"
  by (rule tokenize_quoted) (simp_all add: backslash_def)

text \<open>
  Alert names and codes correspond: every code that has a name is found again under that name, in any
  capitalisation, and no two codes share one.
\<close>

theorem code_name_roundtrip:
  assumes "kgp_code_name c = Some n" and "strcaseeq n m"
  shows "kgp_code_from_name m = Some c"
  using code_from_name assms by (simp add: kgp_code_name_iff)

theorem code_name_roundtrip_witness:
  "kgp_code_name KGP_ALERT_FORGED = Some ''FORGED'' \<and> kgp_code_from_name ''Forged'' = Some KGP_ALERT_FORGED"
proof -
  have n: "kgp_code_name KGP_ALERT_FORGED = Some ''FORGED''" by (simp add: kgp_code_name_iff kgp_names_def)
  have "strcaseeq ''FORGED'' ''Forged''" by (simp add: cstring_eval char_of_def bit_Suc_0_iff)
  from code_name_roundtrip [OF n this] n show ?thesis by simp
qed


end
