(* ===== verification/KG_Engine.thy ===== *)
theory KG_Engine
  imports KG_Policy
begin

text \<open>
  The escalation engine of the monitor (\<^verbatim>\<open>src/linux/monitor/kg_policy.c\<close>, second half): a table of
  64 incidents keyed by rule, alert code and first parameter, the base and escalation actions an
  alert triggers, ageing, and acknowledgement.  An unused slot, which the code keeps zeroed, is
  \<open>None\<close>; calls of the run callback are collected as a list of \<open>kgp_run\<close> in order.  Times are 64-bit seconds
  of the engine clock, counters 32-bit, both with wrap-around.
\<close>

unbundle bit_operations_syntax

section \<open>Structures\<close>

record kgp_alert =
  al_code :: u32
  al_level :: int
  al_seq :: u32
  al_param1 :: u64
  al_param2 :: u64
  al_time_ns :: u64
  al_details :: string

record kgp_incident =
  in_rule :: nat
  in_code :: u32
  in_p1 :: u64
  in_first_s :: u64
  in_last_s :: u64
  in_last_run_s :: u64
  in_last_seq :: u32
  in_count :: u32
  in_recent :: "u64 list"
  in_escalated :: bool
  in_acked :: bool
  in_last :: kgp_alert

type_synonym incidents = "kgp_incident option list"

text \<open>One call of the run callback: action, rule, alert, tier (0 base, 1 escalation), count, start.\<close>

datatype kgp_run = Run (run_action: nat) (run_rule: nat) (run_alert: kgp_alert) (run_tier: nat) (run_count: u32) (run_first: u64)

section \<open>Operations\<close>

definition kgp_init :: incidents where
  "kgp_init = replicate KGP_MAX_INCIDENTS None"

definition rule_matches :: "kgp_rule \<Rightarrow> kgp_alert \<Rightarrow> bool" where
  "rule_matches r al =
     (if al_level al < r_min_level r then False
      else if r_codes r = [] then True
      else al_code al \<in> set (r_codes r))"

definition run_mask :: "kgp_policy \<Rightarrow> u32 \<Rightarrow> nat \<Rightarrow> kgp_incident \<Rightarrow> nat \<Rightarrow> kgp_run list" where
  "run_mask pol msk ri x tier =
     [Run i ri (in_last x) tier (in_count x) (in_first_s x). i \<leftarrow> [0 ..< length (pol_actions pol)], msk AND push_bit i 1 \<noteq> 0]"

text \<open>The search of \<open>incident_slot\<close>: the matching slot, the first free one, the one silent for longest.\<close>

definition slot_matches :: "nat \<Rightarrow> u32 \<Rightarrow> u64 \<Rightarrow> kgp_incident option \<Rightarrow> bool" where
  "slot_matches rule code p1 x =
     (case x of None \<Rightarrow> False | Some y \<Rightarrow> in_rule y = rule \<and> in_code y = code \<and> in_p1 y = p1)"

definition older :: "incidents \<Rightarrow> nat option \<Rightarrow> nat \<Rightarrow> nat option" where
  "older incs acc i =
     (case incs ! i of
        None \<Rightarrow> acc
      | Some x \<Rightarrow>
          (case acc of
             None \<Rightarrow> Some i
           | Some j \<Rightarrow>
               (case incs ! j of
                  None \<Rightarrow> acc
                | Some y \<Rightarrow> if in_last_s x < in_last_s y then Some i else acc)))"

definition incident_slot :: "incidents \<Rightarrow> nat \<Rightarrow> u32 \<Rightarrow> u64 \<Rightarrow> nat \<times> bool" where
  "incident_slot incs rule code p1 =
     (case List.find (\<lambda>i. slot_matches rule code p1 (incs ! i)) [0 ..< length incs] of
        Some i \<Rightarrow> (i, False)
      | None \<Rightarrow>
          (case List.find (\<lambda>i. incs ! i = None) [0 ..< length incs] of
             Some i \<Rightarrow> (i, True)
           | None \<Rightarrow>
               (case foldl (older incs) None [0 ..< length incs] of
                  Some i \<Rightarrow> (i, True)
                | None \<Rightarrow> (0, True))))"

definition new_incident :: "nat \<Rightarrow> u64 \<Rightarrow> kgp_alert \<Rightarrow> kgp_incident" where
  "new_incident ri now al =
     \<lparr>in_rule = ri, in_code = al_code al, in_p1 = al_param1 al, in_first_s = now, in_last_s = 0, in_last_run_s = 0,
      in_last_seq = 0, in_count = 0, in_recent = replicate KGP_MAX_REPEAT 0, in_escalated = False, in_acked = False,
      in_last = al\<rparr>"

text \<open>Recording an arrival, then the base and the escalation decision.\<close>

definition arrive :: "u64 \<Rightarrow> kgp_alert \<Rightarrow> kgp_incident \<Rightarrow> kgp_incident" where
  "arrive now al x =
     x\<lparr>in_last := al, in_last_s := now, in_last_seq := al_seq al,
       in_recent := (in_recent x)[unat (in_count x) mod KGP_MAX_REPEAT := now], in_count := in_count x + 1\<rparr>"

definition repeat_due :: "kgp_rule \<Rightarrow> u64 \<Rightarrow> kgp_incident \<Rightarrow> bool" where
  "repeat_due r now x \<longleftrightarrow>
     r_repeat_n r \<noteq> 0 \<and> \<not> in_escalated x \<and> r_repeat_n r \<le> in_count x \<and>
     now - in_recent x ! (unat (in_count x - r_repeat_n r) mod KGP_MAX_REPEAT) \<le> ucast (r_repeat_window_s r)"

definition alert_incident :: "kgp_policy \<Rightarrow> nat \<Rightarrow> u64 \<Rightarrow> kgp_alert \<Rightarrow> bool \<Rightarrow> kgp_incident \<Rightarrow> kgp_incident \<times> kgp_run list" where
  "alert_incident pol ri now al fresh x0 =
     (let r = pol_rules pol ! ri;
          x1 = arrive now al x0;
          base = (fresh \<or> ucast (r_throttle_s r) \<le> now - in_last_run_s x1);
          x2 = (if base then x1\<lparr>in_last_run_s := now\<rparr> else x1);
          runs = (if base then run_mask pol (r_do_mask r) ri x2 0 else [])
      in if repeat_due r now x2
         then (let x3 = x2\<lparr>in_escalated := True\<rparr> in (x3, runs @ run_mask pol (r_then_mask r) ri x3 1))
         else (x2, runs))"

definition alert_rule :: "kgp_policy \<Rightarrow> u64 \<Rightarrow> kgp_alert \<Rightarrow> nat \<Rightarrow> incidents \<Rightarrow> incidents \<times> kgp_run list" where
  "alert_rule pol now al ri incs =
     (if \<not> rule_matches (pol_rules pol ! ri) al then (incs, [])
      else let (i, fresh0) = incident_slot incs ri (al_code al) (al_param1 al);
               fresh = (fresh0 \<or> (case incs ! i of None \<Rightarrow> True | Some x \<Rightarrow> in_acked x));
               x0 = (case incs ! i of Some x \<Rightarrow> if fresh then new_incident ri now al else x | None \<Rightarrow> new_incident ri now al);
               (x, runs) = alert_incident pol ri now al fresh x0
           in (incs[i := Some x], runs))"

fun alert_rules :: "kgp_policy \<Rightarrow> u64 \<Rightarrow> kgp_alert \<Rightarrow> nat list \<Rightarrow> incidents \<Rightarrow> incidents \<times> kgp_run list" where
  "alert_rules pol now al [] incs = (incs, [])"
| "alert_rules pol now al (ri # ris) incs =
     (let (incs1, runs1) = alert_rule pol now al ri incs; (incs2, runs2) = alert_rules pol now al ris incs1
      in (incs2, runs1 @ runs2))"

definition kgp_alert_op :: "kgp_policy \<Rightarrow> u64 \<Rightarrow> kgp_alert \<Rightarrow> incidents \<Rightarrow> incidents \<times> kgp_run list" where
  "kgp_alert_op pol now al incs = alert_rules pol now al [0 ..< length (pol_rules pol)] incs"

definition tick_incident :: "kgp_policy \<Rightarrow> u64 \<Rightarrow> kgp_incident \<Rightarrow> kgp_incident option \<times> kgp_run list" where
  "tick_incident pol now x =
     (let r = pol_rules pol ! in_rule x
      in if ucast (r_reset_s r) \<le> now - in_last_s x then (None, [])
         else if r_unacked_s r \<noteq> 0 \<and> \<not> in_acked x \<and> \<not> in_escalated x \<and> ucast (r_unacked_s r) \<le> now - in_first_s x
         then (let x' = x\<lparr>in_escalated := True\<rparr> in (Some x', run_mask pol (r_then_mask r) (in_rule x) x' 1))
         else (Some x, []))"

fun kgp_tick :: "kgp_policy \<Rightarrow> u64 \<Rightarrow> incidents \<Rightarrow> incidents \<times> kgp_run list" where
  "kgp_tick pol now [] = ([], [])"
| "kgp_tick pol now (None # incs) = (let (incs', runs) = kgp_tick pol now incs in (None # incs', runs))"
| "kgp_tick pol now (Some x # incs) =
     (let (x', runs1) = tick_incident pol now x; (incs', runs2) = kgp_tick pol now incs
      in (x' # incs', runs1 @ runs2))"

definition kgp_ack :: "u32 \<Rightarrow> incidents \<Rightarrow> incidents" where
  "kgp_ack up_to incs =
     map (map_option (\<lambda>x. if 0 \<le> sint (up_to - in_last_seq x) then x\<lparr>in_acked := True\<rparr> else x)) incs"

definition kgp_open_incidents :: "incidents \<Rightarrow> nat" where
  "kgp_open_incidents incs =
     length (filter (\<lambda>x. case x of None \<Rightarrow> False | Some y \<Rightarrow> \<not> in_acked y) incs)"

text \<open>Sequences of calls.\<close>

datatype eng_call = Call_alert u64 kgp_alert | Call_tick u64 | Call_ack u32

fun eng_do :: "kgp_policy \<Rightarrow> eng_call \<Rightarrow> incidents \<Rightarrow> incidents \<times> kgp_run list" where
  "eng_do pol (Call_alert now al) incs = kgp_alert_op pol now al incs"
| "eng_do pol (Call_tick now) incs = kgp_tick pol now incs"
| "eng_do pol (Call_ack seq) incs = (kgp_ack seq incs, [])"

fun eng_run :: "kgp_policy \<Rightarrow> eng_call list \<Rightarrow> incidents \<Rightarrow> incidents \<times> kgp_run list" where
  "eng_run pol [] incs = (incs, [])"
| "eng_run pol (c # cs) incs =
     (let (incs1, runs1) = eng_do pol c incs; (incs2, runs2) = eng_run pol cs incs1 in (incs2, runs1 @ runs2))"

section \<open>The table as a map\<close>

type_synonym inc_key = "nat \<times> u32 \<times> u64"

definition key_of :: "kgp_incident \<Rightarrow> inc_key" where
  "key_of x = (in_rule x, in_code x, in_p1 x)"

definition keys_unique :: "incidents \<Rightarrow> bool" where
  "keys_unique incs \<longleftrightarrow> (\<forall>i < length incs. \<forall>j < length incs. \<forall>x y.
     incs ! i = Some x \<longrightarrow> incs ! j = Some y \<longrightarrow> key_of x = key_of y \<longrightarrow> i = j)"

definition inc_lookup :: "incidents \<Rightarrow> inc_key \<Rightarrow> kgp_incident option" where
  "inc_lookup incs k =
     (case List.find (\<lambda>i. slot_matches (fst k) (fst (snd k)) (snd (snd k)) (incs ! i)) [0 ..< length incs] of
        Some i \<Rightarrow> incs ! i | None \<Rightarrow> None)"

definition inc_store :: "inc_key \<Rightarrow> kgp_incident \<Rightarrow> incidents \<Rightarrow> incidents" where
  "inc_store k x incs = incs[fst (incident_slot incs (fst k) (fst (snd k)) (snd (snd k))) := Some x]"

text \<open>A key has room when it is in the table or a slot is free.\<close>

definition has_room :: "incidents \<Rightarrow> inc_key \<Rightarrow> bool" where
  "has_room incs k \<longleftrightarrow> inc_lookup incs k \<noteq> None \<or> None \<in> set incs"

lemma slot_matches_key: "slot_matches (fst k) (fst (snd k)) (snd (snd k)) x \<longleftrightarrow> (\<exists>y. x = Some y \<and> key_of y = k)"
  by (auto simp: slot_matches_def key_of_def split: option.splits)

lemma inc_lookup_Some:
  "keys_unique incs \<Longrightarrow> inc_lookup incs k = Some x \<longleftrightarrow> (\<exists>i < length incs. incs ! i = Some x \<and> key_of x = k)"
proof
  assume "inc_lookup incs k = Some x"
  then show "\<exists>i < length incs. incs ! i = Some x \<and> key_of x = k"
    by (auto simp: inc_lookup_def slot_matches_key split: option.splits dest!: find_in)
next
  assume u: "keys_unique incs" and "\<exists>i < length incs. incs ! i = Some x \<and> key_of x = k"
  then obtain i where i: "i < length incs" "incs ! i = Some x" "key_of x = k" by blast
  show "inc_lookup incs k = Some x"
  proof (cases "List.find (\<lambda>i. slot_matches (fst k) (fst (snd k)) (snd (snd k)) (incs ! i)) [0 ..< length incs]")
    case None
    with i show ?thesis by (auto simp: find_None_iff slot_matches_key)
  next
    case (Some j)
    then have "j < length incs" "\<exists>y. incs ! j = Some y \<and> key_of y = k"
      by (auto simp: slot_matches_key dest!: find_in)
    with i u have "j = i" by (auto simp: keys_unique_def)
    with Some i show ?thesis by (simp add: inc_lookup_def)
  qed
qed

lemma oldest_fold:
  "incs ! i = Some x0 \<Longrightarrow> \<forall>j \<in> set js. incs ! j \<noteq> None \<Longrightarrow>
   \<exists>m x. foldl (older incs) (Some i) js = Some m \<and> m \<in> insert i (set js) \<and> incs ! m = Some x \<and>
     (\<forall>j \<in> insert i (set js). \<forall>y. incs ! j = Some y \<longrightarrow> in_last_s x \<le> in_last_s y)"
proof (induction js arbitrary: i x0)
  case (Cons j js)
  obtain y where y: "incs ! j = Some y" using Cons.prems(2) by auto
  let ?i = "if in_last_s y < in_last_s x0 then j else i"
  let ?x = "if in_last_s y < in_last_s x0 then y else x0"
  have o: "older incs (Some i) j = Some ?i" using Cons.prems(1) y by (simp add: older_def)
  have "incs ! ?i = Some ?x" using Cons.prems(1) y by simp
  then obtain m x where m: "foldl (older incs) (Some ?i) js = Some m" "m \<in> insert ?i (set js)" "incs ! m = Some x"
    "\<forall>k \<in> insert ?i (set js). \<forall>z. incs ! k = Some z \<longrightarrow> in_last_s x \<le> in_last_s z"
    using Cons.IH [of ?i ?x] Cons.prems(2) by auto
  have "in_last_s x \<le> in_last_s x0 \<and> in_last_s x \<le> in_last_s y"
    using m(4) Cons.prems(1) y by (cases "in_last_s y < in_last_s x0") auto
  with m o y Cons.prems(1) show ?case
    by (intro exI [of _ m] exI [of _ x]) (auto split: if_splits)
qed simp

lemma incident_slot_cases:
  assumes "keys_unique incs" and "incs \<noteq> []"
    and "incident_slot incs (fst k) (fst (snd k)) (snd (snd k)) = (i, fresh)"
  obtains (found) x where "i < length incs" "\<not> fresh" "incs ! i = Some x" "inc_lookup incs k = Some x"
  | (free) "i < length incs" "fresh" "incs ! i = None" "inc_lookup incs k = None"
  | (evict) x where "i < length incs" "fresh" "incs ! i = Some x" "inc_lookup incs k = None" "None \<notin> set incs"
      "\<forall>y. Some y \<in> set incs \<longrightarrow> in_last_s x \<le> in_last_s y"
proof -
  let ?m = "List.find (\<lambda>i. slot_matches (fst k) (fst (snd k)) (snd (snd k)) (incs ! i)) [0 ..< length incs]"
  let ?f = "List.find (\<lambda>i. incs ! i = None) [0 ..< length incs]"
  show thesis
  proof (cases ?m)
    case (Some j)
    then have j: "j < length incs" "\<exists>y. incs ! j = Some y" by (auto simp: slot_matches_key dest!: find_in)
    moreover have "i = j" "\<not> fresh" using assms(3) Some by (simp_all add: incident_slot_def)
    ultimately show ?thesis using Some found by (auto simp: inc_lookup_def)
  next
    case None
    then have l: "inc_lookup incs k = None" by (simp add: inc_lookup_def)
    show ?thesis
    proof (cases ?f)
      case (Some j)
      then have "j < length incs" "incs ! j = None" by (auto dest!: find_in)
      moreover have "i = j" "fresh" using assms(3) Some None by (simp_all add: incident_slot_def)
      ultimately show ?thesis using l free by simp
    next
      case None': None
      then have full: "\<forall>j < length incs. incs ! j \<noteq> None" by (auto simp: find_None_iff)
      define js where "js = [Suc 0 ..< length incs]"
      have pos: "0 < length incs" using assms(2) by simp
      then have js: "[0 ..< length incs] = 0 # js" by (simp add: js_def upt_conv_Cons)
      have s: "insert 0 (set js) = {0 ..< length incs}"
        using pos by (auto simp: js_def)
      from full pos obtain x0 where x0: "incs ! 0 = Some x0" by auto
      have "\<forall>j \<in> set js. incs ! j \<noteq> None" using full by (simp add: js_def)
      from oldest_fold [OF x0 this] obtain m x
        where m: "foldl (older incs) (Some 0) js = Some m" "m \<in> insert 0 (set js)" "incs ! m = Some x"
        "\<forall>j \<in> insert 0 (set js). \<forall>y. incs ! j = Some y \<longrightarrow> in_last_s x \<le> in_last_s y"
        by blast
      have "foldl (older incs) None [0 ..< length incs] = Some m"
        using m(1) x0 by (simp add: js older_def)
      then have "i = m" "fresh" using assms(3) None None' by (simp_all add: incident_slot_def)
      moreover have "m < length incs" using m(2) unfolding s by simp
      moreover have "None \<notin> set incs" using full by (auto simp: in_set_conv_nth)
      moreover have "\<forall>y. Some y \<in> set incs \<longrightarrow> in_last_s x \<le> in_last_s y"
        using m(4) unfolding s by (auto simp: in_set_conv_nth)
      ultimately show ?thesis using m(3) l evict by simp
    qed
  qed
qed

section \<open>The contract of a keyed table\<close>

text \<open>
  What the engine relies on: a stored record is found under its key, other keys keep theirs as long as there
  is room, and the table stays well formed.
\<close>

locale keyed_table =
  fixes inv :: "'t \<Rightarrow> bool"
    and lookup :: "'t \<Rightarrow> 'k \<Rightarrow> 'v option"
    and store :: "'k \<Rightarrow> 'v \<Rightarrow> 't \<Rightarrow> 't"
    and room :: "'t \<Rightarrow> 'k \<Rightarrow> bool"
    and fits :: "'k \<Rightarrow> 'v \<Rightarrow> bool"
  assumes store_inv: "inv t \<Longrightarrow> fits k v \<Longrightarrow> inv (store k v t)"
    and lookup_store: "inv t \<Longrightarrow> fits k v \<Longrightarrow> lookup (store k v t) k = Some v"
    and lookup_other: "inv t \<Longrightarrow> fits k v \<Longrightarrow> room t k \<Longrightarrow> k' \<noteq> k \<Longrightarrow> lookup (store k v t) k' = lookup t k'"
begin

lemma lookup_store_if:
  "inv t \<Longrightarrow> fits k v \<Longrightarrow> room t k \<Longrightarrow> lookup (store k v t) k' = (if k' = k then Some v else lookup t k')"
  by (simp add: lookup_store lookup_other)

lemma store_all_inv: "inv t \<Longrightarrow> \<forall>(k, v) \<in> set kvs. fits k v \<Longrightarrow> inv (fold (\<lambda>(k, v). store k v) kvs t)"
  by (induction kvs arbitrary: t) (auto simp: store_inv)

end

definition table_ok :: "incidents \<Rightarrow> bool" where
  "table_ok incs \<longleftrightarrow> length incs = KGP_MAX_INCIDENTS \<and> keys_unique incs"

lemma keys_unique_update:
  assumes "keys_unique incs" and "i < length incs"
    and "\<And>j y. j < length incs \<Longrightarrow> incs ! j = Some y \<Longrightarrow> key_of y = key_of x \<Longrightarrow> j = i"
  shows "keys_unique (incs[i := Some x])"
  unfolding keys_unique_def
proof (intro allI impI)
  fix a b y z
  assume h: "a < length (incs[i := Some x])" "b < length (incs[i := Some x])"
    "incs[i := Some x] ! a = Some y" "incs[i := Some x] ! b = Some z" "key_of y = key_of z"
  have y: "(a = i \<and> y = x) \<or> (a \<noteq> i \<and> incs ! a = Some y)" and z: "(b = i \<and> z = x) \<or> (b \<noteq> i \<and> incs ! b = Some z)"
    using h assms(2) by (auto simp: nth_list_update split: if_splits)
  have len: "a < length incs" "b < length incs" using h by simp_all
  from y show "a = b"
  proof
    assume "a = i \<and> y = x"
    then show ?thesis using z h(5) assms(3) [OF len(2), of z] by auto
  next
    assume a: "a \<noteq> i \<and> incs ! a = Some y"
    from z show ?thesis
    proof
      assume "b = i \<and> z = x"
      then show ?thesis using a h(5) assms(3) [OF len(1), of y] by auto
    next
      assume "b \<noteq> i \<and> incs ! b = Some z"
      with a assms(1) len h(5) show ?thesis unfolding keys_unique_def by blast
    qed
  qed
qed

lemma inc_store_facts:
  assumes ok: "table_ok incs" and k: "key_of x = k"
  shows "table_ok (inc_store k x incs)" and "inc_lookup (inc_store k x incs) k = Some x"
    and "has_room incs k \<Longrightarrow> k' \<noteq> k \<Longrightarrow> inc_lookup (inc_store k x incs) k' = inc_lookup incs k'"
proof -
  have ne: "incs \<noteq> []" and u: "keys_unique incs" using ok by (auto simp: table_ok_def kg_const)
  obtain i fresh where s: "incident_slot incs (fst k) (fst (snd k)) (snd (snd k)) = (i, fresh)" by fastforce
  have io: "i < length incs \<and> (\<forall>j y. j < length incs \<longrightarrow> incs ! j = Some y \<longrightarrow> key_of y = k \<longrightarrow> j = i) \<and>
      (has_room incs k \<longrightarrow> (\<forall>y. incs ! i = Some y \<longrightarrow> key_of y = k))"
    using u ne s
  proof (cases rule: incident_slot_cases)
    case (found y)
    then have "key_of y = k" using u by (auto simp: inc_lookup_Some)
    with found u show ?thesis unfolding keys_unique_def by auto
  next
    case free
    then have "\<forall>j < length incs. \<forall>y. incs ! j = Some y \<longrightarrow> key_of y \<noteq> k"
      using u by (metis inc_lookup_Some option.distinct(1))
    with free show ?thesis by auto
  next
    case (evict y)
    then have "\<forall>j < length incs. \<forall>y. incs ! j = Some y \<longrightarrow> key_of y \<noteq> k"
      using u by (metis inc_lookup_Some option.distinct(1))
    with evict show ?thesis by (auto simp: has_room_def)
  qed
  then have i: "i < length incs"
    and only: "\<And>j y. j < length incs \<Longrightarrow> incs ! j = Some y \<Longrightarrow> key_of y = key_of x \<Longrightarrow> j = i"
    using k by blast+
  have st: "inc_store k x incs = incs[i := Some x]" by (simp add: inc_store_def s)
  have u': "keys_unique (incs[i := Some x])" by (rule keys_unique_update [OF u i only])
  then show "table_ok (inc_store k x incs)" using ok by (simp add: table_ok_def st)
  show "inc_lookup (inc_store k x incs) k = Some x"
    unfolding st using u' i k by (subst inc_lookup_Some) auto
  assume r: "has_room incs k" and k': "k' \<noteq> k"
  have old: "incs ! i = Some y \<Longrightarrow> key_of y = k" for y
    using io r by blast
  have "inc_lookup (incs[i := Some x]) k' = Some y \<longleftrightarrow> inc_lookup incs k' = Some y" for y
  proof
    assume "inc_lookup (incs[i := Some x]) k' = Some y"
    then obtain j where j: "j < length incs" "incs[i := Some x] ! j = Some y" "key_of y = k'"
      using u' by (auto simp: inc_lookup_Some)
    with k k' i have "j \<noteq> i" by auto
    with j u show "inc_lookup incs k' = Some y" by (auto simp: inc_lookup_Some)
  next
    assume "inc_lookup incs k' = Some y"
    then obtain j where j: "j < length incs" "incs ! j = Some y" "key_of y = k'" using u by (auto simp: inc_lookup_Some)
    with old k' have "j \<noteq> i" by auto
    with j u' show "inc_lookup (incs[i := Some x]) k' = Some y" by (auto simp: inc_lookup_Some)
  qed
  then show "inc_lookup (inc_store k x incs) k' = inc_lookup incs k'"
    unfolding st by (metis not_Some_eq)
qed

interpretation table: keyed_table table_ok inc_lookup inc_store has_room "\<lambda>k x. key_of x = k"
  by unfold_locales (auto simp: inc_store_facts)

section \<open>Episodes\<close>

text \<open>
  The abstract view of an incident: the arrival times of the episode, newest first, without the bound of
  the 16-entry ring and the 32-bit counter.
\<close>

record episode =
  ep_arrivals :: "u64 list"
  ep_last_run :: u64
  ep_escalated :: bool
  ep_acked :: bool
  ep_last :: kgp_alert

definition recent_rep :: "u64 list \<Rightarrow> u64 list \<Rightarrow> bool" where
  "recent_rep rec arr \<longleftrightarrow> length rec = KGP_MAX_REPEAT \<and>
     (\<forall>k < min (length arr) KGP_MAX_REPEAT. rec ! ((length arr - 1 - k) mod KGP_MAX_REPEAT) = arr ! k)"

definition ep_rep :: "kgp_incident \<Rightarrow> episode \<Rightarrow> bool" where
  "ep_rep x ep \<longleftrightarrow> in_count x = of_nat (length (ep_arrivals ep)) \<and> length (ep_arrivals ep) < 2 ^ 32 \<and>
     recent_rep (in_recent x) (ep_arrivals ep) \<and>
     (ep_arrivals ep \<noteq> [] \<longrightarrow> in_first_s x = last (ep_arrivals ep) \<and> in_last_s x = hd (ep_arrivals ep)) \<and>
     in_last_run_s x = ep_last_run ep \<and> in_escalated x = ep_escalated ep \<and> in_acked x = ep_acked ep"

definition ep_start :: "kgp_alert \<Rightarrow> episode" where
  "ep_start al = \<lparr>ep_arrivals = [], ep_last_run = 0, ep_escalated = False, ep_acked = False, ep_last = al\<rparr>"

text \<open>
  The specification of an alert: a new episode starts when there is none or the last one was acknowledged; base
  actions run at the start and then at most once per throttle period; the episode escalates once,
  when its newest \<open>n\<close> arrivals lie within the window.
\<close>

definition ep_alert :: "kgp_rule \<Rightarrow> u64 \<Rightarrow> kgp_alert \<Rightarrow> episode option \<Rightarrow> episode \<times> bool \<times> bool" where
  "ep_alert r now al ep =
     (let fresh = (case ep of None \<Rightarrow> True | Some e \<Rightarrow> ep_acked e);
          e0 = (case ep of None \<Rightarrow> ep_start al | Some e \<Rightarrow> if fresh then ep_start al else e);
          arr = now # ep_arrivals e0;
          base = (fresh \<or> ucast (r_throttle_s r) \<le> now - ep_last_run e0);
          n = unat (r_repeat_n r);
          esc = (n \<noteq> 0 \<and> \<not> ep_escalated e0 \<and> n \<le> length arr \<and> now - arr ! (n - 1) \<le> ucast (r_repeat_window_s r))
      in (\<lparr>ep_arrivals = arr, ep_last_run = (if base then now else ep_last_run e0),
           ep_escalated = (ep_escalated e0 \<or> esc), ep_acked = False, ep_last = al\<rparr>, base, esc))"

lemma recent_rep_arrive:
  assumes "recent_rep rec arr"
  shows "recent_rep (rec[length arr mod KGP_MAX_REPEAT := now]) (now # arr)"
proof -
  let ?c = "length arr"
  have len: "length rec = KGP_MAX_REPEAT" and old: "\<And>k. k < min ?c KGP_MAX_REPEAT \<Longrightarrow> rec ! ((?c - 1 - k) mod KGP_MAX_REPEAT) = arr ! k"
    using assms by (auto simp: recent_rep_def)
  have "rec[?c mod KGP_MAX_REPEAT := now] ! ((length (now # arr) - 1 - k) mod KGP_MAX_REPEAT) = (now # arr) ! k"
    if k: "k < min (length (now # arr)) KGP_MAX_REPEAT" for k
  proof (cases k)
    case 0
    then show ?thesis using len by (simp add: KGP_MAX_REPEAT_def)
  next
    case (Suc j)
    have "?c - k < ?c" "?c < ?c - k + KGP_MAX_REPEAT" using k Suc by auto
    then have "(?c - k) mod KGP_MAX_REPEAT \<noteq> ?c mod KGP_MAX_REPEAT" by (rule mod_window_neq)
    moreover have "rec ! ((?c - 1 - j) mod KGP_MAX_REPEAT) = arr ! j" by (rule old) (use k Suc in simp)
    ultimately show ?thesis using Suc by simp
  qed
  then show ?thesis using len by (simp add: recent_rep_def)
qed

lemma recent_rep_nth:
  "recent_rep rec arr \<Longrightarrow> 0 < n \<Longrightarrow> n \<le> length arr \<Longrightarrow> n \<le> KGP_MAX_REPEAT \<Longrightarrow>
   rec ! ((length arr - n) mod KGP_MAX_REPEAT) = arr ! (n - 1)"
proof -
  assume r: "recent_rep rec arr" and n: "0 < n" "n \<le> length arr" "n \<le> KGP_MAX_REPEAT"
  have "length arr - 1 - (n - 1) = length arr - n" using n by simp
  moreover have "n - 1 < min (length arr) KGP_MAX_REPEAT" using n by auto
  then have "rec ! ((length arr - 1 - (n - 1)) mod KGP_MAX_REPEAT) = arr ! (n - 1)"
    using r unfolding recent_rep_def by blast
  ultimately show ?thesis by simp
qed

lemma ep_rep_new: "ep_rep (new_incident ri now al) (ep_start al)"
  by (simp add: ep_rep_def new_incident_def ep_start_def recent_rep_def)

lemma arrive_rep:
  assumes rep: "ep_rep x ep" and b: "length (ep_arrivals ep) + 1 < 2 ^ 32"
    and f: "ep_arrivals ep = [] \<Longrightarrow> in_first_s x = now"
  shows "ep_rep (arrive now al x) (ep\<lparr>ep_arrivals := now # ep_arrivals ep, ep_last := al\<rparr>)"
proof -
  let ?c = "length (ep_arrivals ep)"
  have c: "unat (in_count x) = ?c"
    using rep b unat_of_nat_small [of ?c, where 'a = 32] by (simp add: ep_rep_def)
  have rr: "recent_rep (in_recent x) (ep_arrivals ep)" using rep by (simp add: ep_rep_def)
  have "recent_rep (in_recent (arrive now al x)) (now # ep_arrivals ep)"
    using recent_rep_arrive [of "in_recent x" "ep_arrivals ep" now] rr by (simp add: arrive_def c)
  then show ?thesis using rep b f by (auto simp: ep_rep_def arrive_def)
qed

lemma repeat_due_rep:
  assumes rep: "ep_rep x ep" and n: "unat (r_repeat_n r) \<le> KGP_MAX_REPEAT" and now: "ep_arrivals ep \<noteq> []"
  shows "repeat_due r now x \<longleftrightarrow> unat (r_repeat_n r) \<noteq> 0 \<and> \<not> ep_escalated ep \<and>
    unat (r_repeat_n r) \<le> length (ep_arrivals ep) \<and>
    now - ep_arrivals ep ! (unat (r_repeat_n r) - 1) \<le> ucast (r_repeat_window_s r)"
proof -
  let ?c = "length (ep_arrivals ep)" and ?n = "unat (r_repeat_n r)"
  have c: "unat (in_count x) = ?c"
    using rep unat_of_nat_small [of ?c, where 'a = 32] by (simp add: ep_rep_def)
  have rr: "recent_rep (in_recent x) (ep_arrivals ep)" using rep by (simp add: ep_rep_def)
  have nz: "r_repeat_n r \<noteq> 0 \<longleftrightarrow> ?n \<noteq> 0" by (simp add: unat_eq_0)
  have le: "r_repeat_n r \<le> in_count x \<longleftrightarrow> ?n \<le> ?c" by (simp add: word_le_nat_alt c)
  have "unat (in_count x - r_repeat_n r) = ?c - ?n" if "?n \<le> ?c"
    using that le c by (simp add: unat_sub)
  then have "in_recent x ! (unat (in_count x - r_repeat_n r) mod KGP_MAX_REPEAT) = ep_arrivals ep ! (?n - 1)"
    if "?n \<noteq> 0" "?n \<le> ?c"
    using that n rr recent_rep_nth [of "in_recent x" "ep_arrivals ep" ?n] by simp
  moreover have "in_escalated x = ep_escalated ep" using rep by (simp add: ep_rep_def)
  ultimately show ?thesis by (auto simp: repeat_due_def nz le)
qed

lemma alert_rule_lookup:
  assumes ok: "table_ok incs" and m: "rule_matches (pol_rules pol ! ri) al"
  defines "k \<equiv> (ri, al_code al, al_param1 al)"
  shows "alert_rule pol now al ri incs =
    (let fresh = (case inc_lookup incs k of None \<Rightarrow> True | Some x \<Rightarrow> in_acked x);
         x0 = (case inc_lookup incs k of None \<Rightarrow> new_incident ri now al
               | Some x \<Rightarrow> if fresh then new_incident ri now al else x);
         (x, runs) = alert_incident pol ri now al fresh x0
     in (inc_store k x incs, runs))"
proof -
  have ne: "incs \<noteq> []" and u: "keys_unique incs" using ok by (auto simp: table_ok_def kg_const)
  obtain i f where s: "incident_slot incs ri (al_code al) (al_param1 al) = (i, f)" by fastforce
  have s': "incident_slot incs (fst k) (fst (snd k)) (snd (snd k)) = (i, f)" using s by (simp add: k_def)
  have st: "inc_store k x incs = incs[i := Some x]" for x by (simp add: inc_store_def s')
  from u ne s' show ?thesis
  proof (cases rule: incident_slot_cases)
    case (found x)
    then show ?thesis using m by (simp add: alert_rule_def s st Let_def)
  next
    case free
    then show ?thesis using m by (simp add: alert_rule_def s st Let_def)
  next
    case (evict x)
    then show ?thesis using m by (simp add: alert_rule_def s st Let_def)
  qed
qed

lemma alert_incident_key: "key_of (fst (alert_incident pol ri now al fresh x)) = key_of x"
  by (simp add: alert_incident_def Let_def arrive_def key_of_def)

lemma run_mask_cong:
  "in_last x = in_last y \<Longrightarrow> in_count x = in_count y \<Longrightarrow> in_first_s x = in_first_s y \<Longrightarrow>
   run_mask pol m ri x tier = run_mask pol m ri y tier"
  unfolding run_mask_def by (simp only:)

lemma alert_incident_rep:
  assumes rep: "ep_rep x0 e0" and b: "length (ep_arrivals e0) + 1 < 2 ^ 32"
    and f: "ep_arrivals e0 = [] \<Longrightarrow> in_first_s x0 = now" and n: "unat (r_repeat_n (pol_rules pol ! ri)) \<le> KGP_MAX_REPEAT"
    and r: "r = pol_rules pol ! ri"
    and base: "base \<longleftrightarrow> fresh \<or> ucast (r_throttle_s r) \<le> now - ep_last_run e0"
    and esc: "esc \<longleftrightarrow> unat (r_repeat_n r) \<noteq> 0 \<and> \<not> ep_escalated e0 \<and> unat (r_repeat_n r) \<le> length (now # ep_arrivals e0) \<and>
       now - (now # ep_arrivals e0) ! (unat (r_repeat_n r) - 1) \<le> ucast (r_repeat_window_s r)"
  obtains x where "alert_incident pol ri now al fresh x0 =
      (x, (if base then run_mask pol (r_do_mask r) ri x 0 else []) @ (if esc then run_mask pol (r_then_mask r) ri x 1 else []))"
    "ep_rep x \<lparr>ep_arrivals = now # ep_arrivals e0, ep_last_run = (if base then now else ep_last_run e0),
       ep_escalated = (ep_escalated e0 \<or> esc), ep_acked = ep_acked e0, ep_last = al\<rparr>"
    "in_last x = al"
proof -
  define x1 where "x1 = arrive now al x0"
  define x2 where "x2 = (if base then x1\<lparr>in_last_run_s := now\<rparr> else x1)"
  define x3 where "x3 = (if esc then x2\<lparr>in_escalated := True\<rparr> else x2)"
  let ?e1 = "e0\<lparr>ep_arrivals := now # ep_arrivals e0, ep_last := al\<rparr>"
  let ?e2 = "?e1\<lparr>ep_last_run := (if base then now else ep_last_run e0)\<rparr>"
  have rep1: "ep_rep x1 ?e1" unfolding x1_def by (rule arrive_rep [OF rep b f])
  then have rep2: "ep_rep x2 ?e2" by (simp add: x2_def ep_rep_def)
  have lr: "in_last_run_s x1 = ep_last_run e0" using rep by (simp add: x1_def arrive_def ep_rep_def)
  have due: "repeat_due r now x2 \<longleftrightarrow> esc"
    using repeat_due_rep [OF rep2, of r now] n by (simp add: r esc)
  have same: "run_mask pol m ri x2 t = run_mask pol m ri x3 t" for m t
    by (rule run_mask_cong) (simp_all add: x3_def)
  have "alert_incident pol ri now al fresh x0 =
      (x3, (if base then run_mask pol (r_do_mask r) ri x3 0 else []) @ (if esc then run_mask pol (r_then_mask r) ri x3 1 else []))"
    using due same unfolding alert_incident_def Let_def r [symmetric] x1_def [symmetric] lr base [symmetric] x2_def [symmetric]
    by (simp add: x3_def)
  moreover have "ep_rep x3 \<lparr>ep_arrivals = now # ep_arrivals e0, ep_last_run = (if base then now else ep_last_run e0),
       ep_escalated = (ep_escalated e0 \<or> esc), ep_acked = ep_acked e0, ep_last = al\<rparr>"
    using rep2 by (simp add: x3_def ep_rep_def)
  moreover have "in_last x3 = al" by (simp add: x3_def x2_def x1_def arrive_def)
  ultimately show thesis by (rule that)
qed

section \<open>The invariant of the engine\<close>

definition eng_ok :: "kgp_policy \<Rightarrow> incidents \<Rightarrow> bool" where
  "eng_ok pol incs \<longleftrightarrow> table_ok incs \<and> (\<forall>x. Some x \<in> set incs \<longrightarrow> in_rule x < length (pol_rules pol))"

lemma eng_ok_init: "eng_ok pol kgp_init"
  by (auto simp: eng_ok_def table_ok_def kgp_init_def keys_unique_def)

lemma inc_store_set: "Some y \<in> set (inc_store k x incs) \<Longrightarrow> y = x \<or> Some y \<in> set incs"
  by (auto simp: inc_store_def dest!: set_update_subset_insert [THEN subsetD])

lemma new_incident_key [simp]: "key_of (new_incident ri now al) = (ri, al_code al, al_param1 al)"
  by (simp add: key_of_def new_incident_def)

text \<open>A matching rule always stores one record under the alert's key.\<close>

lemma alert_rule_stores:
  assumes ok: "table_ok incs" and m: "rule_matches (pol_rules pol ! ri) al"
  obtains x where "fst (alert_rule pol now al ri incs) = inc_store (ri, al_code al, al_param1 al) x incs"
    "key_of x = (ri, al_code al, al_param1 al)"
proof -
  let ?k = "(ri, al_code al, al_param1 al)"
  have u: "keys_unique incs" using ok by (simp add: table_ok_def)
  have k: "inc_lookup incs ?k = Some y \<Longrightarrow> key_of y = ?k" for y using u by (auto simp: inc_lookup_Some)
  show thesis
    by (rule that [of "fst (alert_incident pol ri now al (case inc_lookup incs ?k of None \<Rightarrow> True | Some x \<Rightarrow> in_acked x)
          (case inc_lookup incs ?k of None \<Rightarrow> new_incident ri now al
           | Some x \<Rightarrow> if (case inc_lookup incs ?k of None \<Rightarrow> True | Some x \<Rightarrow> in_acked x) then new_incident ri now al else x))"])
      (auto simp: alert_rule_lookup [OF ok m] Let_def case_prod_beta alert_incident_key k split: option.split)
qed

lemma eng_ok_alert_rule:
  assumes "eng_ok pol incs" and "ri < length (pol_rules pol)"
  shows "eng_ok pol (fst (alert_rule pol now al ri incs))"
proof (cases "rule_matches (pol_rules pol ! ri) al")
  case False
  with assms show ?thesis by (simp add: alert_rule_def)
next
  case True
  have ok: "table_ok incs" using assms(1) by (simp add: eng_ok_def)
  obtain x where x: "fst (alert_rule pol now al ri incs) = inc_store (ri, al_code al, al_param1 al) x incs"
    "key_of x = (ri, al_code al, al_param1 al)" by (rule alert_rule_stores [OF ok True])
  have "in_rule x = ri" using x(2) by (simp add: key_of_def)
  with assms x ok show ?thesis by (auto simp: eng_ok_def table.store_inv dest: inc_store_set)
qed

lemma eng_ok_alert_rules:
  "eng_ok pol incs \<Longrightarrow> set ris \<subseteq> {..< length (pol_rules pol)} \<Longrightarrow> eng_ok pol (fst (alert_rules pol now al ris incs))"
proof (induction ris arbitrary: incs)
  case (Cons ri ris)
  obtain i1 r1 where 1: "alert_rule pol now al ri incs = (i1, r1)" by fastforce
  have "eng_ok pol i1" using eng_ok_alert_rule [of pol incs ri now al] Cons.prems 1 by simp
  then show ?case using Cons.IH [of i1] Cons.prems(2) by (auto simp: 1 Let_def split: prod.splits)
qed simp

definition tick_slot :: "kgp_policy \<Rightarrow> u64 \<Rightarrow> kgp_incident option \<Rightarrow> kgp_incident option \<times> kgp_run list" where
  "tick_slot pol now s = (case s of None \<Rightarrow> (None, []) | Some x \<Rightarrow> tick_incident pol now x)"

lemma kgp_tick_map:
  "kgp_tick pol now incs = (map (fst \<circ> tick_slot pol now) incs, concat (map (snd \<circ> tick_slot pol now) incs))"
  by (induction pol now incs rule: kgp_tick.induct) (auto simp: tick_slot_def Let_def split: prod.splits)

lemma tick_incident_key: "fst (tick_incident pol now x) = Some y \<Longrightarrow> key_of y = key_of x"
  by (auto simp: tick_incident_def Let_def key_of_def split: if_splits)

text \<open>A pointwise update that keeps keys or empties slots.\<close>

lemma table_ok_map:
  assumes ok: "table_ok incs" and f: "\<And>s y. f s = Some y \<Longrightarrow> \<exists>x. s = Some x \<and> key_of x = key_of y"
  shows "table_ok (map f incs)"
  unfolding table_ok_def keys_unique_def
proof (intro conjI allI impI)
  show "length (map f incs) = KGP_MAX_INCIDENTS" using ok by (simp add: table_ok_def)
  fix i j x y
  assume "i < length (map f incs)" "j < length (map f incs)" "map f incs ! i = Some x" "map f incs ! j = Some y"
    "key_of x = key_of y"
  then show "i = j"
    using ok f [of "incs ! i" x] f [of "incs ! j" y] by (auto simp: table_ok_def keys_unique_def)
qed

lemma lookup_map:
  assumes ok: "table_ok incs" and f: "\<And>s y. f s = Some y \<Longrightarrow> \<exists>x. s = Some x \<and> key_of x = key_of y"
  shows "inc_lookup (map f incs) k = (case inc_lookup incs k of None \<Rightarrow> None | Some x \<Rightarrow> f (Some x))"
proof -
  have u: "keys_unique incs" "keys_unique (map f incs)"
    using ok table_ok_map [OF ok f] by (simp_all add: table_ok_def)
  have "inc_lookup (map f incs) k = Some y \<longleftrightarrow> (\<exists>x. inc_lookup incs k = Some x \<and> f (Some x) = Some y)" for y
  proof
    assume "inc_lookup (map f incs) k = Some y"
    then obtain i where "i < length incs" "f (incs ! i) = Some y" "key_of y = k" using u by (auto simp: inc_lookup_Some)
    with f [of "incs ! i" y] u(1) show "\<exists>x. inc_lookup incs k = Some x \<and> f (Some x) = Some y"
      by (auto simp: inc_lookup_Some)
  next
    assume "\<exists>x. inc_lookup incs k = Some x \<and> f (Some x) = Some y"
    then obtain x i where "i < length incs" "incs ! i = Some x" "key_of x = k" "f (Some x) = Some y"
      using u by (auto simp: inc_lookup_Some)
    with f [of "Some x" y] u(2) show "inc_lookup (map f incs) k = Some y"
      by (auto simp: inc_lookup_Some)
  qed
  note eq = this
  show ?thesis
  proof (cases "inc_lookup incs k")
    case None
    then have "inc_lookup (map f incs) k \<noteq> Some y" for y using eq [of y] by simp
    with None show ?thesis by (metis not_Some_eq option.case(1))
  next
    case (Some x)
    then have "inc_lookup (map f incs) k = Some y \<longleftrightarrow> f (Some x) = Some y" for y using eq [of y] by simp
    with Some show ?thesis by (metis not_Some_eq option.case(2))
  qed
qed

lemma tick_slot_key: "(fst \<circ> tick_slot pol now) s = Some y \<Longrightarrow> \<exists>x. s = Some x \<and> key_of x = key_of y"
  by (cases s) (auto simp: tick_slot_def dest: tick_incident_key)

definition ack_slot :: "u32 \<Rightarrow> kgp_incident option \<Rightarrow> kgp_incident option" where
  "ack_slot up_to = map_option (\<lambda>x. if 0 \<le> sint (up_to - in_last_seq x) then x\<lparr>in_acked := True\<rparr> else x)"

lemma kgp_ack_map: "kgp_ack up_to incs = map (ack_slot up_to) incs"
  by (simp add: kgp_ack_def ack_slot_def)

lemma ack_slot_key: "ack_slot up_to s = Some y \<Longrightarrow> \<exists>x. s = Some x \<and> key_of x = key_of y"
  by (cases s) (auto simp: ack_slot_def key_of_def split: if_splits)

lemma eng_ok_map:
  assumes "eng_ok pol incs" and f: "\<And>s y. f s = Some y \<Longrightarrow> \<exists>x. s = Some x \<and> key_of x = key_of y"
  shows "eng_ok pol (map f incs)"
proof -
  have "in_rule y < length (pol_rules pol)" if y: "Some y \<in> set (map f incs)" for y
  proof -
    from y obtain s where s: "s \<in> set incs" "f s = Some y" by auto
    from f [OF s(2)] obtain x where "s = Some x" "key_of x = key_of y" by blast
    with s(1) assms(1) show ?thesis by (auto simp: eng_ok_def key_of_def)
  qed
  with assms table_ok_map [of incs f] show ?thesis by (simp add: eng_ok_def)
qed

lemma eng_ok_do: "eng_ok pol incs \<Longrightarrow> eng_ok pol (fst (eng_do pol c incs))"
proof (cases c)
  case (Call_alert now al)
  assume "eng_ok pol incs"
  then show ?thesis using Call_alert eng_ok_alert_rules [of pol incs "[0 ..< length (pol_rules pol)]"]
    by (simp add: kgp_alert_op_def atLeast0LessThan)
next
  case (Call_tick now)
  assume "eng_ok pol incs"
  from eng_ok_map [where f = "fst \<circ> tick_slot pol now", OF this tick_slot_key] Call_tick show ?thesis by (simp add: kgp_tick_map)
next
  case (Call_ack seq)
  assume "eng_ok pol incs"
  from eng_ok_map [where f = "ack_slot seq", OF this ack_slot_key] Call_ack show ?thesis by (simp add: kgp_ack_map)
qed

lemma eng_ok_run: "eng_ok pol incs \<Longrightarrow> eng_ok pol (fst (eng_run pol cs incs))"
proof (induction cs arbitrary: incs)
  case (Cons c cs)
  then show ?case
    using eng_ok_do [of pol incs c] by (auto simp: Let_def split: prod.splits) (metis fst_conv)
qed simp

text \<open>The record an alert starts from, and the episode it stands for.\<close>

lemma ep_begin:
  assumes "rel_option (\<lambda>x e. ep_rep x e \<and> ep_arrivals e \<noteq> [] \<and> length (ep_arrivals e) + 1 < 2 ^ 32) xo ep"
    and fresh: "fresh = (case ep of None \<Rightarrow> True | Some e \<Rightarrow> ep_acked e)"
    and e0: "e0 = (case ep of None \<Rightarrow> ep_start al | Some e \<Rightarrow> if fresh then ep_start al else e)"
    and x0: "x0 = (case xo of None \<Rightarrow> new_incident ri now al | Some x \<Rightarrow> if fresh then new_incident ri now al else x)"
  shows "fresh = (case xo of None \<Rightarrow> True | Some x \<Rightarrow> in_acked x)" and "ep_rep x0 e0"
    and "length (ep_arrivals e0) + 1 < 2 ^ 32" and "ep_arrivals e0 = [] \<Longrightarrow> in_first_s x0 = now" and "\<not> ep_acked e0"
proof -
  show "fresh = (case xo of None \<Rightarrow> True | Some x \<Rightarrow> in_acked x)"
    using assms(1) by (cases rule: option.rel_cases) (simp_all add: fresh ep_rep_def)
  have new: "ep_rep (new_incident ri now al) (ep_start al)" "ep_arrivals (ep_start al) = []"
    "in_first_s (new_incident ri now al) = now" "\<not> ep_acked (ep_start al)"
    by (simp_all add: ep_rep_new) (simp_all add: ep_start_def new_incident_def)
  have "ep_rep x0 e0 \<and> length (ep_arrivals e0) + 1 < 2 ^ 32 \<and> (ep_arrivals e0 = [] \<longrightarrow> in_first_s x0 = now) \<and> \<not> ep_acked e0"
  proof (cases fresh)
    case True
    then have "x0 = new_incident ri now al" "e0 = ep_start al" by (simp_all add: x0 e0 split: option.split)
    with new show ?thesis by simp
  next
    case False
    then obtain e where e: "ep = Some e" "\<not> ep_acked e" by (auto simp: fresh split: option.splits)
    with assms(1) obtain x where "xo = Some x" "ep_rep x e" "ep_arrivals e \<noteq> []" "length (ep_arrivals e) + 1 < 2 ^ 32"
      by (auto simp: option_rel_Some2)
    with False e show ?thesis by (simp add: x0 e0)
  qed
  then show "ep_rep x0 e0" "length (ep_arrivals e0) + 1 < 2 ^ 32" "ep_arrivals e0 = [] \<Longrightarrow> in_first_s x0 = now" "\<not> ep_acked e0"
    by blast+
qed

section \<open>Properties\<close>

definition example_alert :: "u32 \<Rightarrow> kgp_alert" where
  "example_alert seq = \<lparr>al_code = KG_ALERT_TEXT_PATCH, al_level = KGP_CRITICAL, al_seq = seq, al_param1 = 7, al_param2 = 0,
     al_time_ns = 0, al_details = []\<rparr>"

lemma kgp_init_ok [simp]: "table_ok kgp_init"
  using eng_ok_init by (simp add: eng_ok_def)

lemma kgp_init_lookup [simp]: "inc_lookup kgp_init k = None"
  by (auto simp: inc_lookup_def kgp_init_def slot_matches_def split: option.split dest: find_in)

lemma example_matches: "rule_matches (pol_rules example_policy ! 0) (example_alert seq)"
  by (simp add: rule_matches_def example_policy_def example_alert_def kg_const)

text \<open>
  C39. The incident table stays consistent through any sequence of alerts, ticks and acknowledgements from a fresh
  engine: 64 slots, every incident belongs to a rule of the policy (so no later lookup of its rule is out of bounds), and no
  two incidents have the same rule, alert code and first parameter.
\<close>

theorem engine_invariant:
  assumes "eng_run pol cs kgp_init = (incs, runs)"
  shows "length incs = KGP_MAX_INCIDENTS \<and> (\<forall>x. Some x \<in> set incs \<longrightarrow> in_rule x < length (pol_rules pol)) \<and>
    (\<forall>i < length incs. \<forall>j < length incs. \<forall>x y. incs ! i = Some x \<longrightarrow> incs ! j = Some y \<longrightarrow>
       in_rule x = in_rule y \<longrightarrow> in_code x = in_code y \<longrightarrow> in_p1 x = in_p1 y \<longrightarrow> i = j) \<and>
    kgp_open_incidents incs \<le> KGP_MAX_INCIDENTS"
proof -
  have "eng_ok pol incs" using eng_ok_run [OF eng_ok_init, of pol cs] assms by simp
  moreover from this have "kgp_open_incidents incs \<le> KGP_MAX_INCIDENTS"
    unfolding kgp_open_incidents_def using length_filter_le [of _ incs] by (simp add: eng_ok_def table_ok_def)
  ultimately show ?thesis
    by (simp add: eng_ok_def table_ok_def keys_unique_def key_of_def)
qed

theorem engine_invariant_witness:
  "length (fst (eng_run example_policy [Call_alert 5 (example_alert 1), Call_tick 6, Call_ack 1] kgp_init)) = 64"
  using engine_invariant [OF prod.collapse [symmetric], of example_policy "[Call_alert 5 (example_alert 1), Call_tick 6, Call_ack 1]"]
  by (simp only: KGP_MAX_INCIDENTS_def)

text \<open>
  C8. An alert treats an incident as its specification says, for every rule it matches: a new episode starts when
  there is no incident for its rule, code and parameter or when that one was acknowledged; the base
  actions run at the start and then only after the throttle period; the escalation actions run once,
  at the first moment the newest \<open>n\<close> arrivals fit the repeat window, which the 16-entry ring of
  arrival times decides correctly; and while the table has room no other incident changes.
\<close>

theorem alert_follows_episode:
  assumes "table_ok incs" and "rule_matches (pol_rules pol ! ri) al" and "kgp_rule_wf n (pol_rules pol ! ri)"
    and "k = (ri, al_code al, al_param1 al)"
    and "rel_option (\<lambda>x e. ep_rep x e \<and> ep_arrivals e \<noteq> [] \<and> length (ep_arrivals e) + 1 < 2 ^ 32) (inc_lookup incs k) ep"
    and "ep_alert (pol_rules pol ! ri) now al ep = (ep', base, esc)"
  shows "\<exists>incs' x. alert_rule pol now al ri incs = (incs',
      (if base then run_mask pol (r_do_mask (pol_rules pol ! ri)) ri x 0 else []) @
      (if esc then run_mask pol (r_then_mask (pol_rules pol ! ri)) ri x 1 else [])) \<and>
    table_ok incs' \<and> inc_lookup incs' k = Some x \<and> ep_rep x ep' \<and> in_last x = al \<and>
    (has_room incs k \<longrightarrow> (\<forall>k'. k' \<noteq> k \<longrightarrow> inc_lookup incs' k' = inc_lookup incs k'))"
proof -
  define r where "r = pol_rules pol ! ri"
  define fresh where "fresh = (case ep of None \<Rightarrow> True | Some e \<Rightarrow> ep_acked e)"
  define e0 where "e0 = (case ep of None \<Rightarrow> ep_start al | Some e \<Rightarrow> if fresh then ep_start al else e)"
  define x0 where "x0 = (case inc_lookup incs k of None \<Rightarrow> new_incident ri now al
      | Some x \<Rightarrow> if fresh then new_incident ri now al else x)"
  note bg = ep_begin [OF assms(5) fresh_def e0_def x0_def]
  have n: "unat (r_repeat_n (pol_rules pol ! ri)) \<le> KGP_MAX_REPEAT"
    using assms(3) by (cases "r_repeat_n (pol_rules pol ! ri) = 0") (simp_all add: kgp_rule_wf_def rule_fields_def)
  have be: "base \<longleftrightarrow> fresh \<or> ucast (r_throttle_s r) \<le> now - ep_last_run e0"
    "esc \<longleftrightarrow> unat (r_repeat_n r) \<noteq> 0 \<and> \<not> ep_escalated e0 \<and> unat (r_repeat_n r) \<le> length (now # ep_arrivals e0) \<and>
       now - (now # ep_arrivals e0) ! (unat (r_repeat_n r) - 1) \<le> ucast (r_repeat_window_s r)"
    "ep' = \<lparr>ep_arrivals = now # ep_arrivals e0, ep_last_run = (if base then now else ep_last_run e0),
       ep_escalated = (ep_escalated e0 \<or> esc), ep_acked = False, ep_last = al\<rparr>"
    using assms(6) unfolding ep_alert_def Let_def fresh_def [symmetric] e0_def [symmetric] r_def [symmetric] prod.inject
    by blast+
  obtain x where x: "alert_incident pol ri now al fresh x0 =
      (x, (if base then run_mask pol (r_do_mask r) ri x 0 else []) @ (if esc then run_mask pol (r_then_mask r) ri x 1 else []))"
    "ep_rep x \<lparr>ep_arrivals = now # ep_arrivals e0, ep_last_run = (if base then now else ep_last_run e0),
       ep_escalated = (ep_escalated e0 \<or> esc), ep_acked = ep_acked e0, ep_last = al\<rparr>" "in_last x = al"
    by (rule alert_incident_rep [OF bg(2-4) n r_def be(1,2), where al = al])
  have x2: "ep_rep x ep'" using x(2) bg(5) unfolding be(3) by simp
  have a: "alert_rule pol now al ri incs = (inc_store k x incs,
      (if base then run_mask pol (r_do_mask r) ri x 0 else []) @ (if esc then run_mask pol (r_then_mask r) ri x 1 else []))"
    unfolding alert_rule_lookup [OF assms(1,2)] assms(4) [symmetric] bg(1) [symmetric] x0_def [symmetric] Let_def x(1) by simp
  have "key_of x = key_of x0" using alert_incident_key [of pol ri now al fresh x0] x(1) by simp
  also have "\<dots> = k"
    using assms(1,4) by (auto simp: x0_def table_ok_def inc_lookup_Some split: option.split)
  finally have k: "key_of x = k" .
  show ?thesis
    unfolding a [unfolded r_def]
    using table.store_inv [OF assms(1) k] table.lookup_store [OF assms(1) k] table.lookup_other [OF assms(1) k] x2 x(3)
    by blast
qed


theorem alert_follows_episode_witness:
  "\<exists>incs x. alert_rule example_policy 100 (example_alert 1) 0 kgp_init = (incs, run_mask example_policy 1 0 x 0) \<and>
     ep_rep x \<lparr>ep_arrivals = [100], ep_last_run = 100, ep_escalated = False, ep_acked = False, ep_last = example_alert 1\<rparr>"
proof -
  have wf: "kgp_rule_wf 1 (pol_rules example_policy ! 0)"
    by (auto simp: kgp_rule_wf_def rule_fields_def example_policy_def mask_below_def kg_const valid_name_def bit_1_iff
        cstring_eval)
  have e: "ep_alert (pol_rules example_policy ! 0) 100 (example_alert 1) None =
      (\<lparr>ep_arrivals = [100], ep_last_run = 100, ep_escalated = False, ep_acked = False, ep_last = example_alert 1\<rparr>, True, False)"
    by (simp add: ep_alert_def ep_start_def example_policy_def)
  show ?thesis
    using alert_follows_episode [OF kgp_init_ok example_matches wf refl _ e]
    by (auto simp: example_policy_def)
qed

text \<open>
  Ageing: a tick forgets exactly the incidents that have been silent for the reset period, escalates
  exactly those that are unacknowledged, not yet escalated and older than the rule's \<open>unacked\<close> time,
  and leaves the others alone; every action it runs is an escalation of such an incident, so an
  acknowledged incident never escalates and none does so twice.
\<close>

theorem tick_escalates_unacked:
  assumes "table_ok incs" and "inc_lookup incs k = Some x" and "r = pol_rules pol ! in_rule x"
  shows "inc_lookup (fst (kgp_tick pol now incs)) k =
    (if ucast (r_reset_s r) \<le> now - in_last_s x then None
     else if r_unacked_s r \<noteq> 0 \<and> \<not> in_acked x \<and> \<not> in_escalated x \<and> ucast (r_unacked_s r) \<le> now - in_first_s x
     then Some (x\<lparr>in_escalated := True\<rparr>) else Some x) \<and>
    (\<forall>q \<in> set (snd (kgp_tick pol now incs)). run_tier q = 1 \<and>
       (\<exists>y. Some y \<in> set incs \<and> run_rule q = in_rule y \<and> \<not> in_acked y \<and> \<not> in_escalated y))"
proof -
  have "inc_lookup (fst (kgp_tick pol now incs)) k = fst (tick_incident pol now x)"
    using lookup_map [where f = "fst \<circ> tick_slot pol now", OF assms(1) tick_slot_key] assms(2)
    by (simp add: kgp_tick_map tick_slot_def)
  then have "inc_lookup (fst (kgp_tick pol now incs)) k =
    (if ucast (r_reset_s r) \<le> now - in_last_s x then None
     else if r_unacked_s r \<noteq> 0 \<and> \<not> in_acked x \<and> \<not> in_escalated x \<and> ucast (r_unacked_s r) \<le> now - in_first_s x
     then Some (x\<lparr>in_escalated := True\<rparr>) else Some x)"
    by (simp add: tick_incident_def Let_def assms(3))
  moreover have "run_tier q = 1 \<and> (\<exists>y. Some y \<in> set incs \<and> run_rule q = in_rule y \<and> \<not> in_acked y \<and> \<not> in_escalated y)"
    if "q \<in> set (snd (kgp_tick pol now incs))" for q
  proof -
    from that obtain y where y: "Some y \<in> set incs" "q \<in> set (snd (tick_incident pol now y))"
      by (auto simp: kgp_tick_map tick_slot_def split: option.splits)
    then show ?thesis by (auto simp: tick_incident_def Let_def run_mask_def split: if_splits)
  qed
  ultimately show ?thesis by blast
qed

definition example_incident :: kgp_incident where
  "example_incident = (new_incident 0 10 (example_alert 1))\<lparr>in_last_s := 10, in_last_seq := 4294967294, in_count := 1\<rparr>"

definition example_table :: incidents where
  "example_table = kgp_init[0 := Some example_incident]"

lemma example_table_ok: "table_ok example_table"
proof -
  have "inc_store (key_of example_incident) example_incident kgp_init = example_table"
    by (simp add: inc_store_def incident_slot_def example_table_def kgp_init_def slot_matches_def KGP_MAX_INCIDENTS_def upt_conv_Cons)
  with table.store_inv [OF kgp_init_ok refl, of example_incident] show ?thesis by simp
qed

lemma example_table_lookup: "inc_lookup example_table (key_of example_incident) = Some example_incident"
  using example_table_ok
  by (auto simp: table_ok_def inc_lookup_Some example_table_def kgp_init_def KGP_MAX_INCIDENTS_def intro: exI [of _ 0])

theorem tick_escalates_unacked_witness:
  "inc_lookup (fst (kgp_tick example_policy 3610 example_table)) (key_of example_incident) = None \<and>
   inc_lookup (fst (kgp_tick example_policy 20 example_table)) (key_of example_incident) = Some example_incident"
  using tick_escalates_unacked [OF example_table_ok example_table_lookup refl, of example_policy 3610]
    tick_escalates_unacked [OF example_table_ok example_table_lookup refl, of example_policy 20]
  by (simp add: example_incident_def new_incident_def example_policy_def)

text \<open>
  Acknowledgement is safe across the wrap of the 32-bit sequence numbers: an incident whose last alert was
  the \<open>a\<close>-th is acknowledged by an acknowledgement up to the \<open>b\<close>-th exactly when \<open>a \<le> b\<close>, as long as
  the two are less than 2 to the 31 apart, and acknowledging changes nothing else.
\<close>

theorem ack_wrap_safe:
  assumes "table_ok incs" and "inc_lookup incs k = Some x" and "in_last_seq x = of_nat a"
    and "a < b + 2 ^ 31" and "b < a + 2 ^ 31"
  shows "inc_lookup (kgp_ack (of_nat b) incs) k = Some (if a \<le> b then x\<lparr>in_acked := True\<rparr> else x)"
proof -
  have "(of_nat b - of_nat a :: u32) = of_int (int b - int a)" by simp
  then have "sint (of_nat b - of_nat a :: u32) = int b - int a"
    using assms(4,5) by (simp only: signed_of_int) (simp add: signed_take_bit_int_eq_self)
  then have "0 \<le> sint (of_nat b - in_last_seq x) \<longleftrightarrow> a \<le> b" by (simp add: assms(3))
  then show ?thesis
    using lookup_map [where f = "ack_slot (of_nat b)", OF assms(1) ack_slot_key] assms(2)
    by (simp add: kgp_ack_map ack_slot_def)
qed

theorem ack_wrap_safe_witness:
  "inc_lookup (kgp_ack 2 example_table) (key_of example_incident) = Some (example_incident\<lparr>in_acked := True\<rparr>)"
proof -
  have s: "in_last_seq example_incident = of_nat 4294967294" by (simp add: example_incident_def)
  have w: "(of_nat 4294967298 :: u32) = 2" by (simp add: word_eq_iff_unsigned [where 'a = nat] unsigned_of_nat take_bit_eq_mod)
  from ack_wrap_safe [OF example_table_ok example_table_lookup s, of 4294967298] show ?thesis unfolding w by simp
qed

text \<open>
  A full table evicts the least recently active incident: when an alert needs a new incident and every
  slot is in use, the one that is replaced has the smallest time of last activity, and every other incident survives.
\<close>

theorem full_table_evicts_lru:
  assumes "table_ok incs" and "rule_matches (pol_rules pol ! ri) al" and "k = (ri, al_code al, al_param1 al)"
    and "inc_lookup incs k = None" and "None \<notin> set incs"
  shows "\<exists>old. Some old \<in> set incs \<and> (\<forall>y. Some y \<in> set incs \<longrightarrow> in_last_s old \<le> in_last_s y) \<and>
    (\<forall>y. Some y \<in> set incs \<longrightarrow> y \<noteq> old \<longrightarrow> Some y \<in> set (fst (alert_rule pol now al ri incs))) \<and>
    inc_lookup (fst (alert_rule pol now al ri incs)) k \<noteq> None"
proof -
  have ne: "incs \<noteq> []" and u: "keys_unique incs" using assms(1) by (auto simp: table_ok_def kg_const)
  obtain x where x: "fst (alert_rule pol now al ri incs) = inc_store k x incs" "key_of x = k"
    using alert_rule_stores [OF assms(1,2), of now] assms(3) by metis
  obtain i f where s: "incident_slot incs (fst k) (fst (snd k)) (snd (snd k)) = (i, f)" by fastforce
  obtain old where old: "i < length incs" "incs ! i = Some old" "\<forall>y. Some y \<in> set incs \<longrightarrow> in_last_s old \<le> in_last_s y"
    using u ne s
  proof (cases rule: incident_slot_cases)
    case (evict y)
    then show ?thesis by (rule_tac that) auto
  next
    case free
    then show ?thesis using assms(5) nth_mem [of i incs] by auto
  qed (use assms(4) in simp)
  have st: "inc_store k x incs = incs[i := Some x]" by (simp add: inc_store_def s)
  have "Some y \<in> set (incs[i := Some x])" if "Some y \<in> set incs" "y \<noteq> old" for y
  proof -
    from that obtain j where "j < length incs" "incs ! j = Some y" by (auto simp: in_set_conv_nth)
    moreover from this that(2) old have "j \<noteq> i" by auto
    ultimately have "j < length (incs[i := Some x])" "incs[i := Some x] ! j = Some y" by simp_all
    then show ?thesis by (metis nth_mem)
  qed
  with old table.lookup_store [OF assms(1) x(2)] show ?thesis
    unfolding x(1) st [symmetric] by (intro exI [of _ old]) (auto simp: in_set_conv_nth)
qed


definition full_table :: incidents where
  "full_table = map (\<lambda>i. Some (example_incident\<lparr>in_p1 := of_nat i, in_last_s := of_nat (i + 5)\<rparr>)) [0 ..< 64]"

lemma full_table_nth: "i < 64 \<Longrightarrow> full_table ! i = Some (example_incident\<lparr>in_p1 := of_nat i, in_last_s := of_nat (i + 5)\<rparr>)"
  by (simp add: full_table_def)

lemma full_table_length: "length full_table = 64"
  by (simp add: full_table_def)

lemma full_table_key: "i < 64 \<Longrightarrow> full_table ! i = Some y \<Longrightarrow> unat (snd (snd (key_of y))) = i"
  using unat_of_nat_small [of i, where 'a = 64] by (auto simp: full_table_nth key_of_def)

lemma full_table_ok: "table_ok full_table"
  unfolding table_ok_def keys_unique_def full_table_length
  using full_table_key by (metis KGP_MAX_INCIDENTS_def)

theorem full_table_evicts_lru_witness:
  "\<exists>old. Some old \<in> set full_table \<and> (\<forall>y. Some y \<in> set full_table \<longrightarrow> in_last_s old \<le> in_last_s y) \<and>
     inc_lookup (fst (alert_rule example_policy 900 ((example_alert 1)\<lparr>al_param1 := 100\<rparr>) 0 full_table))
       (0, KG_ALERT_TEXT_PATCH, 100) \<noteq> None"
proof -
  let ?al = "(example_alert 1)\<lparr>al_param1 := 100\<rparr>"
  have m: "rule_matches (pol_rules example_policy ! 0) ?al"
    by (simp add: rule_matches_def example_policy_def example_alert_def kg_const)
  have k: "(0, KG_ALERT_TEXT_PATCH, 100) = (0::nat, al_code ?al, al_param1 ?al)" by (simp add: example_alert_def)
  have n: "inc_lookup full_table (0, KG_ALERT_TEXT_PATCH, 100) \<noteq> Some x" for x
  proof
    assume "inc_lookup full_table (0, KG_ALERT_TEXT_PATCH, 100) = Some x"
    then obtain i where i: "i < 64" "full_table ! i = Some x" "key_of x = (0, KG_ALERT_TEXT_PATCH, 100)"
      using full_table_ok by (auto simp: table_ok_def inc_lookup_Some full_table_length)
    from full_table_key [OF i(1,2)] i(1,3) show False by simp
  qed
  have f: "None \<notin> set full_table" by (auto simp: full_table_def)
  from n have "inc_lookup full_table (0, KG_ALERT_TEXT_PATCH, 100) = None" by (metis not_Some_eq)
  from full_table_evicts_lru [OF full_table_ok m k this f, of 900] show ?thesis by blast
qed

end
