(* ===== verification/KG_Ring.thy ===== *)
theory KG_Ring
  imports KG_Comms
begin

text \<open>
  Publication of a ring slot seen by a lock-free reader: the fields \<open>kg_comms_notify\<close>
  (\<^verbatim>\<open>src/linux/module/kg_comms.c\<close>) stores between its two stores of the magic, interleaved with the
  loads of \<open>read_slot\<close> (\<^verbatim>\<open>src/linux/monitor/kgmon.c\<close>).  The barriers of both sides order the magic
  against the other fields; the fields themselves are stored and loaded byte by byte in any order.
  The list of bodies published in the slot is kept for the statements and read by neither side.
\<close>

section \<open>State\<close>

definition BODY_LEN :: nat where [kg_const]: "BODY_LEN = 68"

text \<open>Everything of a notification but its magic.\<close>

definition slot_body :: "kg_notification \<Rightarrow> bytes" where
  "slot_body n = drop 4 (auth_bytes n) @ n_hmac n"

text \<open>
  A reader is between calls, has given up, or is copying: publications completed when it loaded the
  magic, positions still to load, the copied magic and body.  A completed copy also has the number of
  publications at the second load of the magic.
\<close>

datatype slot_reader =
    R_idle
  | R_copying nat "nat set" "u32 option" bytes
  | R_retry
  | R_taken nat nat u32 bytes

text \<open>A writer in the middle of a publication has a body and the positions still to store.\<close>

record slot_state =
  sl_magic :: u32
  sl_body :: bytes
  sl_writer :: "(bytes \<times> nat set) option"
  sl_pubs :: "bytes list"
  sl_reader :: slot_reader

definition slot_init :: slot_state where
  "slot_init = \<lparr>sl_magic = 0, sl_body = replicate BODY_LEN 0, sl_writer = None, sl_pubs = [], sl_reader = R_idle\<rparr>"

section \<open>Steps\<close>

inductive slot_step :: "slot_state \<Rightarrow> slot_state \<Rightarrow> bool" where
  w_begin: "sl_writer s = None \<Longrightarrow> length b = BODY_LEN \<Longrightarrow>
    slot_step s (s\<lparr>sl_magic := 0, sl_writer := Some (b, {..<BODY_LEN})\<rparr>)"
| w_store: "sl_writer s = Some (b, T) \<Longrightarrow> i \<in> T \<Longrightarrow>
    slot_step s (s\<lparr>sl_body := (sl_body s)[i := b ! i], sl_writer := Some (b, T - {i})\<rparr>)"
| w_end: "sl_writer s = Some (b, {}) \<Longrightarrow>
    slot_step s (s\<lparr>sl_magic := KG_NOTIFY_MAGIC, sl_writer := None, sl_pubs := sl_pubs s @ [b]\<rparr>)"
| r_begin: "(\<forall>g T m buf. sl_reader s \<noteq> R_copying g T m buf) \<Longrightarrow>
    slot_step s (s\<lparr>sl_reader :=
      if sl_magic s \<noteq> KG_NOTIFY_MAGIC then R_retry
      else R_copying (length (sl_pubs s)) {..<BODY_LEN} None (replicate BODY_LEN 0)\<rparr>)"
| r_magic: "sl_reader s = R_copying g T None buf \<Longrightarrow>
    slot_step s (s\<lparr>sl_reader := R_copying g T (Some (sl_magic s)) buf\<rparr>)"
| r_load: "sl_reader s = R_copying g T m buf \<Longrightarrow> i \<in> T \<Longrightarrow>
    slot_step s (s\<lparr>sl_reader := R_copying g (T - {i}) m (buf[i := sl_body s ! i])\<rparr>)"
| r_end: "sl_reader s = R_copying g {} (Some m) buf \<Longrightarrow>
    slot_step s (s\<lparr>sl_reader :=
      if sl_magic s \<noteq> KG_NOTIFY_MAGIC then R_retry else R_taken g (length (sl_pubs s)) m buf\<rparr>)"

abbreviation slot_reachable :: "slot_state \<Rightarrow> bool" where
  "slot_reachable s \<equiv> slot_step\<^sup>*\<^sup>* slot_init s"

text \<open>The final comparison of \<open>read_slot\<close>: the copied sequence number is the one asked for.\<close>

definition taken_ok :: "u32 \<Rightarrow> bytes \<Rightarrow> bool" where
  "taken_ok seq buf \<longleftrightarrow> take 4 buf = le32 seq"

section \<open>Invariant\<close>

text \<open>Where the byte at position \<open>i\<close> of a copy begun after \<open>g\<close> publications can come from.\<close>

definition from_pubs :: "slot_state \<Rightarrow> nat \<Rightarrow> nat \<Rightarrow> u8 \<Rightarrow> bool" where
  "from_pubs s g i v \<longleftrightarrow> (\<exists>k. g - 1 \<le> k \<and> k < length (sl_pubs s) \<and> v = sl_pubs s ! k ! i)"

definition from_writer :: "slot_state \<Rightarrow> nat \<Rightarrow> u8 \<Rightarrow> bool" where
  "from_writer s i v \<longleftrightarrow> (\<exists>b T. sl_writer s = Some (b, T) \<and> v = b ! i)"

definition writer_inv :: "slot_state \<Rightarrow> bool" where
  "writer_inv s \<longleftrightarrow>
     length (sl_body s) = BODY_LEN \<and> (\<forall>b \<in> set (sl_pubs s). length b = BODY_LEN) \<and>
     (case sl_writer s of
        None \<Rightarrow> if sl_pubs s = [] then sl_magic s = 0
                else sl_magic s = KG_NOTIFY_MAGIC \<and> sl_body s = last (sl_pubs s)
      | Some (b, T) \<Rightarrow> sl_magic s = 0 \<and> length b = BODY_LEN \<and> T \<subseteq> {..<BODY_LEN} \<and>
          (\<forall>i < BODY_LEN. if i \<in> T then sl_pubs s \<noteq> [] \<longrightarrow> sl_body s ! i = last (sl_pubs s) ! i
                          else sl_body s ! i = b ! i))"

definition reader_inv :: "slot_state \<Rightarrow> bool" where
  "reader_inv s \<longleftrightarrow>
     (case sl_reader s of
        R_copying g T m buf \<Rightarrow>
          0 < g \<and> g \<le> length (sl_pubs s) \<and> length buf = BODY_LEN \<and> T \<subseteq> {..<BODY_LEN} \<and>
          (\<forall>i < BODY_LEN. i \<notin> T \<longrightarrow> from_pubs s g i (buf ! i) \<or> from_writer s i (buf ! i)) \<and>
          (\<forall>v. m = Some v \<longrightarrow> v = KG_NOTIFY_MAGIC \<or> g < length (sl_pubs s) \<or> sl_writer s \<noteq> None)
      | R_taken g h m buf \<Rightarrow>
          0 < g \<and> g \<le> h \<and> h \<le> length (sl_pubs s) \<and> length buf = BODY_LEN \<and>
          (\<forall>i < BODY_LEN. \<exists>k. g - 1 \<le> k \<and> k < h \<and> buf ! i = sl_pubs s ! k ! i) \<and>
          (g = h \<longrightarrow> m = KG_NOTIFY_MAGIC)
      | _ \<Rightarrow> True)"

lemma magic_nonzero [simp]: "KG_NOTIFY_MAGIC \<noteq> 0" "0 \<noteq> KG_NOTIFY_MAGIC"
  by (simp_all add: kg_const)

lemma writer_inv_reader [simp]: "writer_inv (s\<lparr>sl_reader := r\<rparr>) = writer_inv s"
  by (auto simp: writer_inv_def split: option.splits)

lemma slot_step_writer_inv: "slot_step s s' \<Longrightarrow> writer_inv s \<Longrightarrow> writer_inv s'"
proof (induction rule: slot_step.induct)
  case (w_begin s b)
  then show ?case by (auto simp: writer_inv_def split: if_splits)
next
  case (w_store s b T i)
  then show ?case by (auto simp: writer_inv_def nth_list_update)
next
  case (w_end s b)
  then have "sl_body s = b" by (auto simp: writer_inv_def intro!: nth_equalityI)
  with w_end show ?case by (auto simp: writer_inv_def)
qed simp_all

text \<open>A byte loaded now belongs to the newest publication, or to the one in progress.\<close>

lemma load_source:
  assumes w: "writer_inv s" and g: "0 < g" "g \<le> length (sl_pubs s)" and i: "i < BODY_LEN"
  shows "from_pubs s g i (sl_body s ! i) \<or> from_writer s i (sl_body s ! i)"
proof -
  let ?n = "length (sl_pubs s) - 1"
  have ne: "sl_pubs s \<noteq> []" using g by auto
  then have l: "last (sl_pubs s) = sl_pubs s ! ?n" by (simp add: last_conv_nth)
  have n: "g - 1 \<le> ?n" "?n < length (sl_pubs s)" using g by simp_all
  show ?thesis
  proof (cases "sl_writer s")
    case None
    with w ne have "sl_body s = last (sl_pubs s)" by (simp add: writer_inv_def)
    with n l show ?thesis unfolding from_pubs_def by auto
  next
    case (Some bT)
    obtain b T where bT: "bT = (b, T)" by fastforce
    show ?thesis
    proof (cases "i \<in> T")
      case True
      with w ne Some bT i have "sl_body s ! i = last (sl_pubs s) ! i" by (auto simp: writer_inv_def)
      with n l show ?thesis unfolding from_pubs_def by auto
    next
      case False
      with w Some bT i have "sl_body s ! i = b ! i" by (auto simp: writer_inv_def)
      with Some bT show ?thesis unfolding from_writer_def by auto
    qed
  qed
qed

lemma from_pubs_cong: "sl_pubs s' = sl_pubs s \<Longrightarrow> from_pubs s' = from_pubs s"
  by (simp add: from_pubs_def fun_eq_iff)

lemma from_writer_cong: "sl_writer s' = sl_writer s \<Longrightarrow> from_writer s' = from_writer s"
  by (simp add: from_writer_def fun_eq_iff)

lemma magic_valid: "writer_inv s \<Longrightarrow> sl_magic s = KG_NOTIFY_MAGIC \<Longrightarrow> sl_writer s = None \<and> sl_pubs s \<noteq> []"
  by (auto simp: writer_inv_def split: option.splits prod.splits if_splits)

text \<open>A step of the writer keeps what the reader has.\<close>

lemma reader_inv_mono:
  assumes inv: "reader_inv s" and r: "sl_reader s' = sl_reader s" and p: "\<exists>bs. sl_pubs s' = sl_pubs s @ bs"
    and w: "\<And>b T. sl_writer s = Some (b, T) \<Longrightarrow> (\<exists>T'. sl_writer s' = Some (b, T')) \<or> sl_pubs s' = sl_pubs s @ [b]"
  shows "reader_inv s'"
proof -
  obtain bs where bs: "sl_pubs s' = sl_pubs s @ bs" using p by blast
  have len: "length (sl_pubs s) \<le> length (sl_pubs s')" by (simp add: bs)
  have old: "k < length (sl_pubs s) \<Longrightarrow> sl_pubs s' ! k = sl_pubs s ! k" for k by (simp add: bs nth_append)
  have fp: "from_pubs s g i v \<Longrightarrow> from_pubs s' g i v" for g i v
    using len old unfolding from_pubs_def by (metis order_less_le_trans)
  have fw: "from_pubs s' g i v \<or> from_writer s' i v" if f: "from_writer s i v" and g: "g \<le> length (sl_pubs s)" for g i v
  proof -
    obtain b T where b: "sl_writer s = Some (b, T)" "v = b ! i" using f unfolding from_writer_def by blast
    from w [OF b(1)] show ?thesis
    proof
      assume "\<exists>T'. sl_writer s' = Some (b, T')"
      with b show ?thesis by (auto simp: from_writer_def)
    next
      assume "sl_pubs s' = sl_pubs s @ [b]"
      then have "from_pubs s' g i v" unfolding from_pubs_def using b g by (intro exI [of _ "length (sl_pubs s)"]) auto
      then show ?thesis ..
    qed
  qed
  have moved: "g < length (sl_pubs s') \<or> sl_writer s' \<noteq> None"
    if "g \<le> length (sl_pubs s)" "g < length (sl_pubs s) \<or> sl_writer s \<noteq> None" for g
    using that len w by fastforce
  show ?thesis
  proof (cases "sl_reader s")
    case (R_copying g T m buf)
    then have c: "0 < g" "g \<le> length (sl_pubs s)" "length buf = BODY_LEN" "T \<subseteq> {..<BODY_LEN}"
      "\<And>i. i < BODY_LEN \<Longrightarrow> i \<notin> T \<Longrightarrow> from_pubs s g i (buf ! i) \<or> from_writer s i (buf ! i)"
      "\<And>v. m = Some v \<Longrightarrow> v = KG_NOTIFY_MAGIC \<or> g < length (sl_pubs s) \<or> sl_writer s \<noteq> None"
      using inv unfolding reader_inv_def by simp_all
    have "from_pubs s' g i (buf ! i) \<or> from_writer s' i (buf ! i)" if "i < BODY_LEN" "i \<notin> T" for i
      using c(5) [OF that] fp fw c(2) by blast
    moreover have "v = KG_NOTIFY_MAGIC \<or> g < length (sl_pubs s') \<or> sl_writer s' \<noteq> None" if "m = Some v" for v
      using c(6) [OF that] moved [OF c(2)] by blast
    ultimately show ?thesis using c(1-4) len R_copying r by (simp add: reader_inv_def)
  next
    case (R_taken g h m buf)
    then have c: "0 < g" "g \<le> h" "h \<le> length (sl_pubs s)" "length buf = BODY_LEN" "g = h \<longrightarrow> m = KG_NOTIFY_MAGIC"
      "\<And>i. i < BODY_LEN \<Longrightarrow> \<exists>k. g - 1 \<le> k \<and> k < h \<and> buf ! i = sl_pubs s ! k ! i"
      using inv unfolding reader_inv_def by simp_all
    have "\<exists>k. g - 1 \<le> k \<and> k < h \<and> buf ! i = sl_pubs s' ! k ! i" if "i < BODY_LEN" for i
      using c(6) [OF that] c(3) old by (metis order_less_le_trans)
    then show ?thesis using c(1-5) len R_taken r by (simp add: reader_inv_def)
  qed (simp_all add: reader_inv_def r)
qed

lemma reader_inv_begin:
  assumes "writer_inv s" and "sl_magic s = KG_NOTIFY_MAGIC"
  shows "reader_inv (s\<lparr>sl_reader := R_copying (length (sl_pubs s)) {..<BODY_LEN} None (replicate BODY_LEN 0)\<rparr>)"
proof -
  have "sl_pubs s \<noteq> []" using magic_valid assms by blast
  then show ?thesis by (simp add: reader_inv_def)
qed

lemma copying_inv:
  "sl_reader s = R_copying g T m buf \<Longrightarrow> reader_inv s \<longleftrightarrow>
     0 < g \<and> g \<le> length (sl_pubs s) \<and> length buf = BODY_LEN \<and> T \<subseteq> {..<BODY_LEN} \<and>
     (\<forall>i < BODY_LEN. i \<notin> T \<longrightarrow> from_pubs s g i (buf ! i) \<or> from_writer s i (buf ! i)) \<and>
     (\<forall>v. m = Some v \<longrightarrow> v = KG_NOTIFY_MAGIC \<or> g < length (sl_pubs s) \<or> sl_writer s \<noteq> None)"
  by (simp add: reader_inv_def)

lemma from_reader [simp]:
  "from_pubs (s\<lparr>sl_reader := r\<rparr>) = from_pubs s" "from_writer (s\<lparr>sl_reader := r\<rparr>) = from_writer s"
  by (simp_all add: from_pubs_def from_writer_def fun_eq_iff)

lemma reader_inv_magic:
  assumes "sl_reader s = R_copying g T None buf" and "writer_inv s" and "reader_inv s"
  shows "reader_inv (s\<lparr>sl_reader := R_copying g T (Some (sl_magic s)) buf\<rparr>)"
proof -
  have "0 < length (sl_pubs s)" using assms(1,3) by (auto simp: copying_inv)
  then have "sl_magic s = KG_NOTIFY_MAGIC \<or> sl_writer s \<noteq> None"
    using assms(2) by (cases "sl_writer s") (simp_all add: writer_inv_def)
  then show ?thesis using assms(1,3) by (auto simp: copying_inv)
qed

lemma reader_inv_load:
  assumes r: "sl_reader s = R_copying g T m buf" and i: "i \<in> T" and w: "writer_inv s" and inv: "reader_inv s"
  shows "reader_inv (s\<lparr>sl_reader := R_copying g (T - {i}) m (buf[i := sl_body s ! i])\<rparr>)"
proof -
  have c: "0 < g" "g \<le> length (sl_pubs s)" "length buf = BODY_LEN" "T \<subseteq> {..<BODY_LEN}"
    "\<forall>v. m = Some v \<longrightarrow> v = KG_NOTIFY_MAGIC \<or> g < length (sl_pubs s) \<or> sl_writer s \<noteq> None"
    and copied: "\<And>j. j < BODY_LEN \<Longrightarrow> j \<notin> T \<Longrightarrow> from_pubs s g j (buf ! j) \<or> from_writer s j (buf ! j)"
    using inv unfolding copying_inv [OF r] by blast+
  have "from_pubs s g j (buf[i := sl_body s ! i] ! j) \<or> from_writer s j (buf[i := sl_body s ! i] ! j)"
    if "j < BODY_LEN" "j \<notin> T - {i}" for j
    using that c(3) copied load_source [OF w c(1,2), of j] by (cases "j = i") auto
  moreover have "T - {i} \<subseteq> {..<BODY_LEN}" using c(4) by blast
  ultimately show ?thesis using c(1-3,5) by (subst copying_inv) auto
qed

lemma reader_inv_end:
  assumes r: "sl_reader s = R_copying g {} (Some m) buf" and w: "writer_inv s" and inv: "reader_inv s"
    and magic: "sl_magic s = KG_NOTIFY_MAGIC"
  shows "reader_inv (s\<lparr>sl_reader := R_taken g (length (sl_pubs s)) m buf\<rparr>)"
proof -
  have none: "sl_writer s = None" using magic_valid w magic by blast
  have c: "0 < g" "g \<le> length (sl_pubs s)" "length buf = BODY_LEN"
    "\<And>j. j < BODY_LEN \<Longrightarrow> from_pubs s g j (buf ! j) \<or> from_writer s j (buf ! j)"
    "m = KG_NOTIFY_MAGIC \<or> g < length (sl_pubs s)"
    using inv none unfolding copying_inv [OF r] by blast+
  have "from_pubs s g j (buf ! j)" if "j < BODY_LEN" for j
    using c(4) [OF that] none by (simp add: from_writer_def)
  then show ?thesis using c(1-3,5) by (auto simp: reader_inv_def from_pubs_def)
qed

lemma slot_step_reader_inv: "slot_step s s' \<Longrightarrow> writer_inv s \<Longrightarrow> reader_inv s \<Longrightarrow> reader_inv s'"
proof (induction rule: slot_step.induct)
  case (w_begin s b)
  then show ?case by - (rule reader_inv_mono [of s], simp_all)
next
  case (w_store s b T i)
  then show ?case by - (rule reader_inv_mono [of s], simp_all)
next
  case (w_end s b)
  then show ?case by - (rule reader_inv_mono [of s], simp_all)
next
  case (r_begin s)
  then show ?case by (simp add: reader_inv_begin) (simp add: reader_inv_def)
next
  case (r_magic s g T buf)
  then show ?case by (rule reader_inv_magic)
next
  case (r_load s g T m buf i)
  then show ?case by (rule reader_inv_load)
next
  case (r_end s g m buf)
  then show ?case using reader_inv_end [of s g m buf] by (simp add: reader_inv_def)
qed

lemma slot_reachable_inv: "slot_reachable s \<Longrightarrow> writer_inv s \<and> reader_inv s"
proof (induction rule: rtranclp_induct)
  case base
  show ?case by (simp add: slot_init_def writer_inv_def reader_inv_def)
next
  case (step s s')
  then show ?case using slot_step_writer_inv slot_step_reader_inv by blast
qed

text \<open>
  C33.  Under every interleaving of a publisher and a reader of the same slot, a copy the reader accepts
  (both loads of the magic saw it valid) is made of bytes of the publications that were current
  between the two loads, never of an older one or of one still in progress; when no publication
  completed in between, the copy is exactly the published body, with the valid magic.
\<close>

theorem seqlock_consistent:
  assumes "slot_reachable s" and "sl_reader s = R_taken g h m buf"
  shows "(\<forall>i < BODY_LEN. \<exists>k. g - 1 \<le> k \<and> k < h \<and> buf ! i = sl_pubs s ! k ! i) \<and>
    (g = h \<longrightarrow> m = KG_NOTIFY_MAGIC \<and> buf = sl_pubs s ! (h - 1))"
proof -
  note inv = slot_reachable_inv [OF assms(1)]
  have c: "0 < g" "g \<le> h" "h \<le> length (sl_pubs s)" "length buf = BODY_LEN" "g = h \<longrightarrow> m = KG_NOTIFY_MAGIC"
    and src: "\<forall>i < BODY_LEN. \<exists>k. g - 1 \<le> k \<and> k < h \<and> buf ! i = sl_pubs s ! k ! i"
    using inv assms(2) unfolding reader_inv_def by simp_all
  have "m = KG_NOTIFY_MAGIC \<and> buf = sl_pubs s ! (h - 1)" if gh: "g = h"
  proof
    have "h - 1 < length (sl_pubs s)" using c by simp
    then have "length (sl_pubs s ! (h - 1)) = BODY_LEN" using inv by (simp add: writer_inv_def)
    moreover have "buf ! i = sl_pubs s ! (h - 1) ! i" if i: "i < BODY_LEN" for i
    proof -
      obtain k where k: "g - 1 \<le> k" "k < h" "buf ! i = sl_pubs s ! k ! i" using src i by blast
      then have "k = h - 1" using gh by simp
      with k show ?thesis by simp
    qed
    ultimately show "buf = sl_pubs s ! (h - 1)" using c(4) by (intro nth_equalityI) simp_all
  qed (use c(5) gh in simp)
  with src show ?thesis by blast
qed

section \<open>Runs\<close>

text \<open>A whole publication, and the loads of a set of positions, as runs of the step relation.\<close>

lemma store_run:
  assumes "sl_writer s = Some (b, T)" and "finite S" and "S \<subseteq> T"
  shows "\<exists>B. slot_step\<^sup>*\<^sup>* s (s\<lparr>sl_body := B, sl_writer := Some (b, T - S)\<rparr>)"
  using assms(2,3)
proof (induction S rule: finite_induct)
  case empty
  have "s = s\<lparr>sl_body := sl_body s, sl_writer := Some (b, T - {})\<rparr>" using assms(1) by simp
  then show ?case by (metis rtranclp.rtrancl_refl)
next
  case (insert i S)
  then obtain B where B: "slot_step\<^sup>*\<^sup>* s (s\<lparr>sl_body := B, sl_writer := Some (b, T - S)\<rparr>)" by auto
  have "slot_step (s\<lparr>sl_body := B, sl_writer := Some (b, T - S)\<rparr>)
      (s\<lparr>sl_body := B[i := b ! i], sl_writer := Some (b, T - S - {i})\<rparr>)"
    using w_store [of "s\<lparr>sl_body := B, sl_writer := Some (b, T - S)\<rparr>" b "T - S" i] insert by auto
  moreover have "T - S - {i} = T - insert i S" by auto
  ultimately show ?case using B by (metis rtranclp.rtrancl_into_rtrancl)
qed

lemma publish_run:
  assumes "sl_writer s = None" and "length b = BODY_LEN"
  shows "\<exists>B. slot_step\<^sup>*\<^sup>* s (s\<lparr>sl_magic := KG_NOTIFY_MAGIC, sl_body := B, sl_pubs := sl_pubs s @ [b]\<rparr>)"
proof -
  let ?a = "s\<lparr>sl_magic := 0, sl_writer := Some (b, {..<BODY_LEN})\<rparr>"
  have 1: "slot_step s ?a" using assms by (rule w_begin)
  have "sl_writer ?a = Some (b, {..<BODY_LEN})" by simp
  from store_run [OF this finite_lessThan subset_refl]
  obtain B where 2: "slot_step\<^sup>*\<^sup>* ?a (?a\<lparr>sl_body := B, sl_writer := Some (b, {})\<rparr>)" by auto
  let ?c = "?a\<lparr>sl_body := B, sl_writer := Some (b, {})\<rparr>"
  have "sl_writer ?c = Some (b, {})" by simp
  from w_end [OF this]
  have 3: "slot_step ?c (?c\<lparr>sl_magic := KG_NOTIFY_MAGIC, sl_writer := None, sl_pubs := sl_pubs ?c @ [b]\<rparr>)" .
  have 4: "?c\<lparr>sl_magic := KG_NOTIFY_MAGIC, sl_writer := None, sl_pubs := sl_pubs ?c @ [b]\<rparr>
      = s\<lparr>sl_magic := KG_NOTIFY_MAGIC, sl_body := B, sl_pubs := sl_pubs s @ [b]\<rparr>"
    by (rule slot_state.equality) (simp_all add: assms(1))
  have "slot_step\<^sup>*\<^sup>* s ?c" using 1 2 by (rule converse_rtranclp_into_rtranclp)
  with 3 have "slot_step\<^sup>*\<^sup>* s (s\<lparr>sl_magic := KG_NOTIFY_MAGIC, sl_body := B, sl_pubs := sl_pubs s @ [b]\<rparr>)"
    unfolding 4 by (rule rtranclp.rtrancl_into_rtrancl [rotated])
  then show ?thesis ..
qed

lemma load_run:
  assumes "sl_reader s = R_copying g T m buf" and "finite S" and "S \<subseteq> T" and "T \<subseteq> {..<length buf}"
  shows "\<exists>buf'. slot_step\<^sup>*\<^sup>* s (s\<lparr>sl_reader := R_copying g (T - S) m buf'\<rparr>) \<and> length buf' = length buf \<and>
    (\<forall>i < length buf. buf' ! i = (if i \<in> S then sl_body s ! i else buf ! i))"
  using assms(2,3)
proof (induction S rule: finite_induct)
  case empty
  have "s\<lparr>sl_reader := R_copying g (T - {}) m buf\<rparr> = s" using assms(1) by simp
  then show ?case by (intro exI [of _ buf]) (metis empty_iff rtranclp.rtrancl_refl)
next
  case (insert i S)
  then obtain buf' where B: "slot_step\<^sup>*\<^sup>* s (s\<lparr>sl_reader := R_copying g (T - S) m buf'\<rparr>)" "length buf' = length buf"
    "\<forall>i < length buf. buf' ! i = (if i \<in> S then sl_body s ! i else buf ! i)" by auto
  have "slot_step (s\<lparr>sl_reader := R_copying g (T - S) m buf'\<rparr>)
      (s\<lparr>sl_reader := R_copying g (T - S - {i}) m (buf'[i := sl_body s ! i])\<rparr>)"
    using r_load [of "s\<lparr>sl_reader := R_copying g (T - S) m buf'\<rparr>" g "T - S" m buf' i] insert by auto
  moreover have "T - S - {i} = T - insert i S" by auto
  ultimately have "slot_step\<^sup>*\<^sup>* s (s\<lparr>sl_reader := R_copying g (T - insert i S) m (buf'[i := sl_body s ! i])\<rparr>)"
    using B(1) by (metis rtranclp.rtrancl_into_rtrancl)
  moreover have "i < length buf" using insert assms(4) by auto
  ultimately show ?case using B(2,3)
    by (intro exI [of _ "buf'[i := sl_body s ! i]"]) (simp add: nth_list_update)
qed

lemma slot_body_simps:
  assumes "length (n_hmac n) = KG_HMAC_SIZE"
  shows "length (slot_body n) = BODY_LEN" and "take 4 (slot_body n) = le32 (n_sequence n)"
    and "drop 36 (slot_body n) = n_hmac n"
  using assms by (simp_all add: slot_body_def auth_bytes_def kg_const)

lemma reachable_body:
  "slot_reachable s \<Longrightarrow> sl_writer s = None \<Longrightarrow> sl_pubs s \<noteq> [] \<Longrightarrow>
   sl_magic s = KG_NOTIFY_MAGIC \<and> sl_body s = last (sl_pubs s)"
  using slot_reachable_inv [of s] by (simp add: writer_inv_def)

lemma publish_reachable:
  assumes s: "slot_reachable s" and w: "sl_writer s = None" and b: "length b = BODY_LEN"
  obtains s' where "slot_reachable s'" "sl_writer s' = None" "sl_pubs s' = sl_pubs s @ [b]" "sl_reader s' = sl_reader s"
    "sl_magic s' = KG_NOTIFY_MAGIC" "sl_body s' = b"
proof -
  obtain B where r: "slot_step\<^sup>*\<^sup>* s (s\<lparr>sl_magic := KG_NOTIFY_MAGIC, sl_body := B, sl_pubs := sl_pubs s @ [b]\<rparr>)"
    using publish_run [OF w b] by blast
  let ?s = "s\<lparr>sl_magic := KG_NOTIFY_MAGIC, sl_body := B, sl_pubs := sl_pubs s @ [b]\<rparr>"
  have "slot_reachable ?s" using s r by (rule rtranclp_trans)
  then show thesis using that [of ?s] reachable_body [of ?s] w by simp
qed

lemma load_reachable:
  assumes s: "slot_reachable s" and r: "sl_reader s = R_copying g T m buf"
    and S: "S \<subseteq> T" "T \<subseteq> {..<BODY_LEN}" and l: "length buf = BODY_LEN"
  obtains s' buf' where "slot_reachable s'" "s' = s\<lparr>sl_reader := R_copying g (T - S) m buf'\<rparr>" "length buf' = BODY_LEN"
    "\<And>i. i < BODY_LEN \<Longrightarrow> buf' ! i = (if i \<in> S then sl_body s ! i else buf ! i)"
proof -
  have fin: "finite S" using S by (meson finite_lessThan finite_subset)
  obtain buf' where b: "slot_step\<^sup>*\<^sup>* s (s\<lparr>sl_reader := R_copying g (T - S) m buf'\<rparr>)" "length buf' = length buf"
    "\<forall>i < length buf. buf' ! i = (if i \<in> S then sl_body s ! i else buf ! i)"
    using load_run [OF r fin S(1)] S(2) l by auto
  have "slot_reachable (s\<lparr>sl_reader := R_copying g (T - S) m buf'\<rparr>)" using s b(1) by (rule rtranclp_trans)
  then show thesis using that b(2,3) l by metis
qed

abbreviation (input) whole :: "nat set" where
  "whole \<equiv> {..<BODY_LEN}"

lemma begin_reachable:
  assumes b: "length b = BODY_LEN"
  obtains s where "slot_reachable s" "sl_writer s = None" "sl_pubs s = [b]" "sl_body s = b" "sl_magic s = KG_NOTIFY_MAGIC"
    "sl_reader s = R_copying 1 whole (Some KG_NOTIFY_MAGIC) (replicate BODY_LEN 0)"
proof -
  have i: "slot_reachable slot_init" "sl_writer slot_init = None" by (simp_all add: slot_init_def)
  obtain s1 where s1: "slot_reachable s1" "sl_writer s1 = None" "sl_pubs s1 = [b]" "sl_reader s1 = R_idle"
    "sl_magic s1 = KG_NOTIFY_MAGIC" "sl_body s1 = b"
    using publish_reachable [OF i b] by (auto simp: slot_init_def)
  let ?z = "replicate BODY_LEN 0 :: bytes"
  let ?s2 = "s1\<lparr>sl_reader := R_copying 1 whole None ?z\<rparr>"
  let ?s3 = "?s2\<lparr>sl_reader := R_copying 1 whole (Some KG_NOTIFY_MAGIC) ?z\<rparr>"
  have "slot_step s1 ?s2" using r_begin [of s1] s1 by simp
  then have r2: "slot_reachable ?s2" using s1(1) by (rule rtranclp.rtrancl_into_rtrancl [rotated])
  have "slot_step ?s2 ?s3" using r_magic [of ?s2 1 whole ?z] s1(5) by simp
  then have "slot_reachable ?s3" using r2 by (rule rtranclp.rtrancl_into_rtrancl [rotated])
  then show thesis using that [of ?s3] s1 by simp
qed

lemma end_reachable:
  assumes s: "slot_reachable s" and r: "sl_reader s = R_copying g T (Some m) buf" "length buf = BODY_LEN" "T \<subseteq> whole"
    and m: "sl_magic s = KG_NOTIFY_MAGIC"
  obtains s' buf' where "slot_reachable s'" "sl_pubs s' = sl_pubs s" "sl_reader s' = R_taken g (length (sl_pubs s)) m buf'"
    "length buf' = BODY_LEN" "\<And>i. i < BODY_LEN \<Longrightarrow> buf' ! i = (if i \<in> T then sl_body s ! i else buf ! i)"
proof -
  obtain s1 buf' where s1: "slot_reachable s1" "s1 = s\<lparr>sl_reader := R_copying g (T - T) (Some m) buf'\<rparr>"
      "length buf' = BODY_LEN"
    and buf': "\<And>i. i < BODY_LEN \<Longrightarrow> buf' ! i = (if i \<in> T then sl_body s ! i else buf ! i)"
    using load_reachable [OF s r(1) subset_refl r(3) r(2)] by metis
  let ?s2 = "s1\<lparr>sl_reader := R_taken g (length (sl_pubs s)) m buf'\<rparr>"
  have "slot_step s1 ?s2" using r_end [of s1 g m buf'] s1(2) m by simp
  then have "slot_reachable ?s2" using s1(1) by (rule rtranclp.rtrancl_into_rtrancl [rotated])
  then show thesis using that [of ?s2 buf'] s1(2,3) buf' by simp
qed

text \<open>A copy no publication disturbs.\<close>

lemma clean_run:
  assumes b: "length b = BODY_LEN"
  obtains s buf where "slot_reachable s" "sl_pubs s = [b]" "sl_reader s = R_taken 1 1 KG_NOTIFY_MAGIC buf"
proof -
  obtain s where s: "slot_reachable s" "sl_pubs s = [b]" "sl_magic s = KG_NOTIFY_MAGIC"
    "sl_reader s = R_copying 1 whole (Some KG_NOTIFY_MAGIC) (replicate BODY_LEN 0)"
    by (rule begin_reachable [OF b])
  obtain s' buf' where "slot_reachable s'" "sl_pubs s' = sl_pubs s"
      "sl_reader s' = R_taken 1 (length (sl_pubs s)) KG_NOTIFY_MAGIC buf'"
    by (rule end_reachable [OF s(1,4) length_replicate subset_refl s(3)])
  then show thesis using that [of s' buf'] s(2) by simp
qed

text \<open>A copy that loads the sequence number before, and the rest after, a complete rewrite of the slot.\<close>

lemma torn_run:
  assumes b: "length b1 = BODY_LEN" "length b2 = BODY_LEN"
  obtains s where "slot_reachable s" "sl_pubs s = [b1, b2]" "sl_reader s = R_taken 1 2 KG_NOTIFY_MAGIC (take 4 b1 @ drop 4 b2)"
proof -
  let ?z = "replicate BODY_LEN 0 :: bytes"
  obtain s1 where s1: "slot_reachable s1" "sl_writer s1 = None" "sl_pubs s1 = [b1]" "sl_body s1 = b1"
    "sl_reader s1 = R_copying 1 whole (Some KG_NOTIFY_MAGIC) ?z"
    by (rule begin_reachable [OF b(1)])
  have sub: "{..<4} \<subseteq> whole" by (auto simp: kg_const)
  obtain s2 buf where s2: "slot_reachable s2"
      "s2 = s1\<lparr>sl_reader := R_copying 1 (whole - {..<4}) (Some KG_NOTIFY_MAGIC) buf\<rparr>" "length buf = BODY_LEN"
    and buf: "\<And>i. i < BODY_LEN \<Longrightarrow> buf ! i = (if i \<in> {..<4} then sl_body s1 ! i else ?z ! i)"
    using load_reachable [OF s1(1,5) sub subset_refl length_replicate] by metis
  have "sl_writer s2 = None" using s1(2) s2(2) by simp
  from publish_reachable [OF s2(1) this b(2)]
  obtain s3 where s3: "slot_reachable s3" "sl_pubs s3 = [b1, b2]" "sl_body s3 = b2" "sl_magic s3 = KG_NOTIFY_MAGIC"
      "sl_reader s3 = R_copying 1 (whole - {..<4}) (Some KG_NOTIFY_MAGIC) buf"
    using s1(3) s2(2) by auto
  obtain s4 buf' where s4: "slot_reachable s4" "sl_pubs s4 = sl_pubs s3"
      "sl_reader s4 = R_taken 1 (length (sl_pubs s3)) KG_NOTIFY_MAGIC buf'" "length buf' = BODY_LEN"
    and buf': "\<And>i. i < BODY_LEN \<Longrightarrow> buf' ! i = (if i \<in> whole - {..<4} then sl_body s3 ! i else buf ! i)"
    using end_reachable [OF s3(1,5) s2(3) Diff_subset s3(4)] by metis
  have "buf' = take 4 b1 @ drop 4 b2"
    using b s4(4) buf' buf s1(4) s3(3) by (intro nth_equalityI) (auto simp: nth_append kg_const)
  with s3(2) s4 show thesis using that [of s4] by (simp add: numeral_2_eq_2)
qed

text \<open>
  C34.  The second load of the magic does not see a rewrite that began and ended during the copy: for any
  two notifications published one after the other in the same slot there is an interleaving in which the
  reader, asked for the first, accepts a mix of the two, the old sequence number with the new fields
  and HMAC, although it was never published.
\<close>

theorem torn_copy_accepted:
  assumes "length (n_hmac n1) = KG_HMAC_SIZE" and "length (n_hmac n2) = KG_HMAC_SIZE"
    and "n_sequence n1 \<noteq> n_sequence n2" and "n_hmac n1 \<noteq> n_hmac n2"
  shows "\<exists>s buf. slot_reachable s \<and> sl_pubs s = [slot_body n1, slot_body n2] \<and>
    sl_reader s = R_taken 1 2 KG_NOTIFY_MAGIC buf \<and> taken_ok (n_sequence n1) buf \<and>
    buf \<notin> set (sl_pubs s) \<and> drop 4 buf = drop 4 (slot_body n2)"
proof -
  note b1 = slot_body_simps [OF assms(1)] and b2 = slot_body_simps [OF assms(2)]
  obtain s where s: "slot_reachable s" "sl_pubs s = [slot_body n1, slot_body n2]"
    "sl_reader s = R_taken 1 2 KG_NOTIFY_MAGIC (take 4 (slot_body n1) @ drop 4 (slot_body n2))"
    by (rule torn_run [OF b1(1) b2(1)])
  let ?buf = "take 4 (slot_body n1) @ drop 4 (slot_body n2)"
  have len4: "length (take 4 (slot_body n1)) = 4" using b1 by (simp add: kg_const)
  have t: "take 4 ?buf = le32 (n_sequence n1)" using len4 b1(2) by simp
  have d: "drop 4 ?buf = drop 4 (slot_body n2)" using len4 by simp
  have "drop 36 ?buf = drop 32 (drop 4 ?buf)" by (simp only: drop_drop) simp
  also have "\<dots> = drop 36 (slot_body n2)" unfolding d by simp
  finally have d36: "drop 36 ?buf = n_hmac n2" using b2(3) by simp
  have "?buf \<noteq> slot_body n1" using d36 b1(3) assms(4) by metis
  moreover have "?buf \<noteq> slot_body n2" using t b2(2) assms(3) le32_inj by metis
  ultimately show ?thesis using s t d by (intro exI [of _ s] exI [of _ ?buf]) (simp add: taken_ok_def)
qed

definition sample_notification :: "u32 \<Rightarrow> u8 \<Rightarrow> kg_notification" where
  "sample_notification seq h = (new_notification 5 KG_ALERT_IDT_HOOK KG_LEVEL_CRITICAL 1 2 seq)\<lparr>n_hmac := replicate 32 h\<rparr>"

lemma sample_hmac: "length (n_hmac (sample_notification seq h)) = KG_HMAC_SIZE"
  by (simp add: sample_notification_def kg_const)

theorem torn_copy_accepted_witness:
  "\<exists>s buf. slot_reachable s \<and> sl_pubs s = [slot_body (sample_notification 0 1), slot_body (sample_notification 16 2)] \<and>
    sl_reader s = R_taken 1 2 KG_NOTIFY_MAGIC buf \<and> taken_ok (n_sequence (sample_notification 0 1)) buf \<and>
    buf \<notin> set (sl_pubs s) \<and> drop 4 buf = drop 4 (slot_body (sample_notification 16 2))"
proof (rule torn_copy_accepted [OF sample_hmac sample_hmac])
  show "n_sequence (sample_notification 0 1) \<noteq> n_sequence (sample_notification 16 2)"
    by (simp add: sample_notification_def new_notification_def)
  have "n_hmac (sample_notification 0 1) ! 0 \<noteq> n_hmac (sample_notification 16 2) ! 0"
    by (simp add: sample_notification_def)
  then show "n_hmac (sample_notification 0 1) \<noteq> n_hmac (sample_notification 16 2)" by metis
qed

theorem seqlock_consistent_witness:
  "\<exists>s buf. slot_reachable s \<and> sl_reader s = R_taken 1 1 KG_NOTIFY_MAGIC buf \<and> buf = slot_body (sample_notification 0 1)"
proof -
  have l: "length (slot_body (sample_notification 0 1)) = BODY_LEN" by (rule slot_body_simps(1) [OF sample_hmac])
  obtain s buf where s: "slot_reachable s" "sl_pubs s = [slot_body (sample_notification 0 1)]"
    "sl_reader s = R_taken 1 1 KG_NOTIFY_MAGIC buf"
    by (rule clean_run [OF l])
  from seqlock_consistent [OF s(1,3)] have "buf = slot_body (sample_notification 0 1)" using s(2) by simp
  with s show ?thesis by blast
qed

end
