(* ===== verification/KG_Text.thy ===== *)
theory KG_Text
  imports KG_Modid KG_Engine KG_Ring
begin

text \<open>
  What the monitor prints (\<^verbatim>\<open>src/linux/monitor/kgmon.c\<close>): the texts of levels, alerts and
  postures, the details of a notification, the line and the CSV row of an alert, the environment of
  an action.  Results of the time and host-name functions of the C library are arguments.
\<close>

unbundle bit_operations_syntax

section \<open>Texts\<close>

definition KGP_DETAILS_LEN :: nat where [kg_const]: "KGP_DETAILS_LEN = 192"

definition level_text :: "u32 \<Rightarrow> string" where
  "level_text l =
     (if l = KG_LEVEL_INFO then ''Info'' else if l = KG_LEVEL_WATCH then ''Warning'' else ''CRITICAL'')"

definition posture_names :: "string list" where
  "posture_names = [''NORMAL'', ''ELEVATED'', ''HIGH'', ''FAIL-SAFE'']"

definition posture_text :: "u32 \<Rightarrow> string" where
  "posture_text p = (if p < KG_POSTURE_COUNT then posture_names ! unat p else ''?'')"

definition strategy_text :: "u32 \<Rightarrow> string" where
  "strategy_text s =
     (if s < 5 then [''none'', ''verw'', ''l1d-flush'', ''verw+l1d'', ''full-spectrum''] ! unat s else ''?'')"

definition posture_args :: "(string \<times> int) list" where
  "posture_args =
     [(''normal'', uint KG_POSTURE_NORMAL), (''elevated'', uint KG_POSTURE_ELEVATED),
      (''high'', uint KG_POSTURE_HIGH), (''failsafe'', uint KG_POSTURE_FAILSAFE),
      (''fail-safe'', uint KG_POSTURE_FAILSAFE)]"

definition parse_posture :: "string \<Rightarrow> int" where
  "parse_posture s =
     (case List.find (\<lambda>(n, v). strcaseeq s n) posture_args of
        Some (n, v) \<Rightarrow> v
      | None \<Rightarrow>
          (case s of
             [c] \<Rightarrow> if 48 \<le> cval c \<and> cval c < 48 + unat KG_POSTURE_COUNT then int (cval c) - 48 else - 1
           | _ \<Rightarrow> - 1))"

text \<open>A byte that is neither a terminator nor printable is shown as a question mark.\<close>

definition sane_char :: "u8 \<Rightarrow> char" where
  "sane_char b = (if b \<noteq> 0 \<and> (b < 0x20 \<or> 0x7e < b) then CHR ''?'' else char_of (unat b))"

definition unpack_name :: "u64 \<Rightarrow> u64 \<Rightarrow> string" where
  "unpack_name p1 p2 = takeWhile (\<lambda>c. c \<noteq> CHR 0x00) (map sane_char (le64 p1 @ le64 p2))"

definition alert_texts :: "(u32 \<times> string) list" where
  "alert_texts =
    [(KG_ALERT_PMU_L1D_ANOMALY, ''L1D Cache Attack Pattern''),
     (KG_ALERT_PMU_L2_ANOMALY, ''LLC Cache Attack Pattern''),
     (KG_ALERT_PMU_RDTSC_RATE, ''Timing Reconnaissance (RDTSC)''),
     (KG_ALERT_UNAUTHORIZED_KBD_FILTER, ''Unauthorized Keyboard Filter''),
     (KG_ALERT_UNAUTHORIZED_DMA, ''Unauthorized DMA Access''),
     (KG_ALERT_PCI_DISCREPANCY, ''PCIe Device Discrepancy''),
     (KG_ALERT_KBD_FILTER_NEUTRALIZED, ''Keyboard Filter Neutralized''),
     (KG_ALERT_DMA_BLOCKED_IOMMU, ''DMA Blocked (IOMMU)''),
     (KG_ALERT_DEVICE_BME_DISABLED, ''PCIe Bus Master Disabled''),
     (KG_ALERT_IDT_HOOK, ''IDT Hook Detected''),
     (KG_ALERT_DISPATCH_HOOK, ''Input Callback Hook''),
     (KG_ALERT_TEXT_PATCH, ''Kernel .text Patched''),
     (KG_ALERT_CTRL_REG_TAMPER, ''CPU Control State Tampered''),
     (KG_ALERT_MODULE_LOADED, ''Kernel Module Loaded''),
     (KG_ALERT_VULN_DRIVER, ''Vulnerable Driver Loaded''),
     (KG_ALERT_DRIVER_BLOCKED, ''Driver Load Blocked''),
     (KG_ALERT_LOAD_POLICY, ''Driver Load Policy''),
     (KG_ALERT_SHARED_STATE_CORRUPT, ''Driver State Corrupted''),
     (KG_ALERT_FAIL_SAFE_ENTERED, ''CRITICAL: Fail-Safe Mode''),
     (KG_ALERT_POSTURE_CHANGED, ''Response Posture Changed''),
     (KGP_ALERT_FORGED, ''Forged Notification''),
     (KGP_ALERT_OVERRUN, ''Notifications Lost''),
     (KGP_ALERT_TAMPER, ''Ring Tamper Suspected'')]"

definition alert_text :: "u32 \<Rightarrow> string" where
  "alert_text t =
     (case List.find (\<lambda>(c, x). c = t) alert_texts of Some (c, x) \<Rightarrow> x | None \<Rightarrow> ''Unknown Alert'')"

definition yes_no :: "bool \<Rightarrow> string" where
  "yes_no b = (if b then ''yes'' else ''no'')"

definition load_policy_text :: "u64 \<Rightarrow> u64 \<Rightarrow> nat \<Rightarrow> string" where
  "load_policy_text weak raw len =
     snprintf len (''sig_enforce='' @ yes_no (raw AND ucast KG_LP_RAW_SIG_ENFORCE \<noteq> 0) @
       '' lockdown='' @ yes_no (raw AND ucast KG_LP_RAW_LOCKDOWN \<noteq> 0) @
       '' secure_boot='' @ yes_no (raw AND ucast KG_LP_RAW_SECUREBOOT \<noteq> 0) @ ''  '' @
       (if weak AND 0xff \<noteq> 0 then ''weak:'' else ''all on'') @
       (if weak AND ucast KG_LP_NO_SIG_ENFORCE \<noteq> 0 then '' sig_enforce'' else []) @
       (if weak AND ucast KG_LP_NO_LOCKDOWN \<noteq> 0 then '' lockdown'' else []) @
       (if weak AND ucast KG_LP_NO_SECUREBOOT \<noteq> 0 then '' secure_boot'' else []))"

section \<open>Details of a notification\<close>

definition hi32 :: "u64 \<Rightarrow> u32" where "hi32 w = ucast (drop_bit 32 w)"
definition lo32 :: "u64 \<Rightarrow> u32" where "lo32 w = ucast (w AND 0xffffffff)"

text \<open>The PCI address and identity fields of the two parameters.\<close>

definition pci_address :: "u64 \<Rightarrow> string" where
  "pci_address p1 =
     fmt_x 4 (unat ((ucast (drop_bit 24 p1) :: u32) AND 0xffff)) @ '':'' @
     fmt_x 2 (unat ((ucast (drop_bit 16 p1) :: u32) AND 0xff)) @ '':'' @
     fmt_x 2 (unat ((ucast (drop_bit 8 p1) :: u32) AND 0xff)) @ ''.'' @
     fmt_x 1 (unat ((ucast p1 :: u32) AND 0xf))"

definition pci_ident :: "u64 \<Rightarrow> string" where
  "pci_ident p2 =
     fmt_x 4 (unat ((ucast (drop_bit 16 p2) :: u32) AND 0xffff)) @ '':'' @
     fmt_x 4 (unat ((ucast p2 :: u32) AND 0xffff))"

definition pci_kind_text :: "u32 \<Rightarrow> string" where
  "pci_kind_text kind =
     (if kind < 4 then [''?'', ''hidden from OS'', ''missing in hardware'', ''identity mismatch''] ! unat kind else ''?'')"

definition details_text :: "u32 \<Rightarrow> u64 \<Rightarrow> u64 \<Rightarrow> nat \<Rightarrow> string" where
  "details_text t p1 p2 len =
     (if t = KG_ALERT_PMU_L1D_ANOMALY \<or> t = KG_ALERT_PMU_L2_ANOMALY then
        snprintf len (''offender tgid: '' @ fmt_u (unat p1) @ ''  cpu: '' @ fmt_u (unat (hi32 p2)) @
          ''  overflows/s: '' @ fmt_u (unat (lo32 p2)))
      else if t = KG_ALERT_UNAUTHORIZED_KBD_FILTER \<or> t = KG_ALERT_KBD_FILTER_NEUTRALIZED \<or>
              t = KG_ALERT_MODULE_LOADED \<or> t = KG_ALERT_VULN_DRIVER \<or> t = KG_ALERT_DRIVER_BLOCKED then
        snprintf len (''name: '' @ [quote_char] @ unpack_name p1 p2 @ [quote_char])
      else if t = KG_ALERT_LOAD_POLICY then load_policy_text p1 p2 len
      else if t = KG_ALERT_UNAUTHORIZED_DMA \<or> t = KG_ALERT_DEVICE_BME_DISABLED then
        snprintf len (pci_address p1 @ ''  id '' @ pci_ident p2)
      else if t = KG_ALERT_PCI_DISCREPANCY then
        snprintf len (pci_address p1 @ ''  '' @ pci_kind_text (hi32 p2) @ ''  id '' @ pci_ident p2)
      else if t = KG_ALERT_IDT_HOOK then
        snprintf len (''Handler: 0x'' @ fmt_x 16 (unat p1) @ ''  vector: '' @ fmt_u (unat p2))
      else if t = KG_ALERT_DISPATCH_HOOK then
        snprintf len (''Callback: 0x'' @ fmt_x 16 (unat p1) @ ''  kind: '' @ fmt_u (unat (drop_bit 32 p2)))
      else if t = KG_ALERT_TEXT_PATCH then
        snprintf len (''Addr: 0x'' @ fmt_x 16 (unat p1) @ ''  Len: '' @ fmt_u (unat (lo32 p2)) @
          (if drop_bit 32 p2 AND ucast KG_TEXTF_KERNEL \<noteq> 0 then ''  [kernel]'' else ''  [module]'') @
          (if drop_bit 32 p2 AND ucast KG_TEXTF_UNKNOWN_TARGET \<noteq> 0 then '' [unknown branch target]'' else []) @
          (if drop_bit 32 p2 AND ucast KG_TEXTF_BREAKPOINT \<noteq> 0 then '' [int3]'' else []))
      else if t = KG_ALERT_CTRL_REG_TAMPER then
        snprintf len (''cpu '' @ fmt_u (unat (hi32 p1)) @ ''  reg 0x'' @ fmt_x 0 (unat (lo32 p1)) @
          ''  new 0x'' @ fmt_x 0 (unat p2))
      else if t = KG_ALERT_POSTURE_CHANGED then
        snprintf len (posture_text (hi32 p1) @ '' -> '' @ posture_text (lo32 p1) @ ''  ('' @
          (if drop_bit 32 p2 = ucast KG_POSTURE_WHY_DECAY then ''quiet period elapsed'' else ''operator request'') @ '')'')
      else snprintf len (''Param1: 0x'' @ fmt_x 0 (unat p1) @ ''  Param2: 0x'' @ fmt_x 0 (unat p2)))"

definition format_details :: "kg_notification \<Rightarrow> nat \<Rightarrow> string" where
  "format_details n len = details_text (n_alert_type n) (n_param1 n) (n_param2 n) len"

section \<open>The line and the CSV row of an alert\<close>

definition ok_fail :: "bool \<Rightarrow> string" where
  "ok_fail ok = (if ok then ''OK'' else ''FAIL'')"

text \<open>\<open>ts\<close> is the result of \<open>ts_string\<close>.\<close>

definition alert_line :: "string \<Rightarrow> kg_notification \<Rightarrow> bool \<Rightarrow> string \<Rightarrow> string" where
  "alert_line ts n ok details =
     snprintf 512 (ts @ '' ['' @ rpad 8 (level_text (n_alert_level n)) @ ''] '' @ rpad 32 (alert_text (n_alert_type n)) @
       '' HMAC='' @ ok_fail ok @ '' seq='' @ fmt_u (unat (n_sequence n)) @ ''  '' @ details)"

fun csv_escape :: "string \<Rightarrow> string" where
  "csv_escape [] = []"
| "csv_escape (c # s) = (if c = quote_char then [quote_char, c] else [c]) @ csv_escape s"

definition csv_field :: "string \<Rightarrow> string" where
  "csv_field s = [quote_char] @ csv_escape s @ [quote_char]"

definition csv_row :: "string \<Rightarrow> kg_notification \<Rightarrow> bool \<Rightarrow> string \<Rightarrow> string" where
  "csv_row ts n ok details =
     ts @ '','' @ level_text (n_alert_level n) @ '','' @ csv_field (alert_text (n_alert_type n)) @
     '','' @ ok_fail ok @ '','' @ fmt_u (unat (n_sequence n)) @ '',0x'' @ fmt_x 16 (unat (n_param1 n)) @
     '',0x'' @ fmt_x 16 (unat (n_param2 n)) @ '','' @ csv_field details @ [newline]"

text \<open>The environment \<open>exec_action\<close> passes: \<open>age\<close> is the age of the incident, \<open>whn\<close> the time of the alert.\<close>

definition ENV_LEN :: nat where "ENV_LEN = KGP_DETAILS_LEN + 32"

definition action_env :: "string \<Rightarrow> string \<Rightarrow> string \<Rightarrow> string \<Rightarrow> kgp_alert \<Rightarrow> nat \<Rightarrow> u32 \<Rightarrow> int \<Rightarrow> string list" where
  "action_env host whn rule act al tier count age =
     map (snprintf ENV_LEN)
       [''PATH=/usr/sbin:/usr/bin:/sbin:/bin'',
        ''KG_HOST='' @ host,
        ''KG_RULE='' @ rule,
        ''KG_ACTION='' @ act,
        ''KG_TIER='' @ fmt_u tier,
        ''KG_COUNT='' @ fmt_u (unat count),
        ''KG_AGE_S='' @ fmt_d age,
        ''KG_ALERT='' @ (case kgp_code_name (al_code al) of Some x \<Rightarrow> x | None \<Rightarrow> ''UNKNOWN''),
        ''KG_ALERT_CODE=0x'' @ fmt_x 4 (unat (al_code al)),
        ''KG_TITLE='' @ alert_text (al_code al),
        ''KG_LEVEL='' @ kgp_level_name (al_level al),
        ''KG_LEVEL_NUM='' @ fmt_d (al_level al),
        ''KG_SEQ='' @ fmt_u (unat (al_seq al)),
        ''KG_TIME='' @ whn,
        ''KG_PARAM1=0x'' @ fmt_x 16 (unat (al_param1 al)),
        ''KG_PARAM2=0x'' @ fmt_x 16 (unat (al_param2 al)),
        ''KG_DETAILS='' @ al_details al]"

section \<open>Printable text\<close>

definition printable :: "string \<Rightarrow> bool" where
  "printable s \<longleftrightarrow> list_all (c_between 32 126) s"

lemma printable_append [simp]: "printable (a @ b) \<longleftrightarrow> printable a \<and> printable b"
  by (simp add: printable_def)

lemma printable_Nil [simp]: "printable []"
  by (simp add: printable_def)

lemma printable_Cons [simp]: "printable (c # s) \<longleftrightarrow> c_between 32 126 c \<and> printable s"
  by (simp add: printable_def)

lemma printable_take [simp]: "printable s \<Longrightarrow> printable (take k s)"
  by (metis append_take_drop_id printable_append)

lemma printable_snprintf [simp]: "printable s \<Longrightarrow> printable (snprintf len s)"
  by (simp add: snprintf_def)

lemma printable_replicate [simp]: "c_between 32 126 c \<Longrightarrow> printable (replicate k c)"
  by (induction k) simp_all

lemma digit_char_printable: "d < 16 \<Longrightarrow> c_between 32 126 (digit_char d)"
  by (auto simp: digit_char_def c_between_def cval_char_of)

lemma printable_digits: "2 \<le> base \<Longrightarrow> base \<le> 16 \<Longrightarrow> printable (map digit_char (udigits base n))"
  by (auto simp: printable_def list_all_iff dest: udigits_bound intro!: digit_char_printable)

lemma c_between_char [simp]: "c_between lo hi (CHR ''0'') \<longleftrightarrow> lo \<le> 48 \<and> 48 \<le> hi"
  "c_between lo hi (CHR '' '') \<longleftrightarrow> lo \<le> 32 \<and> 32 \<le> hi"
  by (simp_all add: c_between_def cval_def)

lemma printable_fmt_u [simp]: "printable (fmt_u n)"
  by (simp add: fmt_u_def printable_digits)

lemma printable_fmt_x [simp]: "printable (fmt_x w n)"
  by (simp add: fmt_x_def zpad_def printable_digits)

lemmas lit_eval = c_between_def cval_def

lemma printable_sane: "b \<noteq> 0 \<Longrightarrow> c_between 32 126 (sane_char b)"
proof -
  assume b: "b \<noteq> 0"
  show ?thesis
  proof (cases "b < 0x20 \<or> 0x7e < b")
    case True
    then show ?thesis using b by (auto simp: sane_char_def lit_eval)
  next
    case False
    then have "32 \<le> unat b" "unat b \<le> 126" by (simp_all add: word_less_nat_alt not_less)
    then show ?thesis using b False by (simp add: sane_char_def c_between_def cval_char_of)
  qed
qed

lemma sane_zero: "sane_char 0 = CHR 0x00"
  by (simp add: sane_char_def char_of_def)

lemma printable_unpack_name [simp]: "printable (unpack_name p1 p2)"
proof -
  have "c_between 32 126 c" if "c \<in> set (unpack_name p1 p2)" for c
  proof -
    from that obtain b where "c = sane_char b" "c \<noteq> CHR 0x00"
      unfolding unpack_name_def by (auto dest!: set_takeWhileD)
    then show ?thesis using printable_sane sane_zero by metis
  qed
  then show ?thesis by (simp add: printable_def list_all_iff)
qed

lemma printable_if: "(b \<Longrightarrow> printable x) \<Longrightarrow> (\<not> b \<Longrightarrow> printable y) \<Longrightarrow> printable (if b then x else y)"
  by simp

lemma printable_nth: "list_all printable xs \<Longrightarrow> i < length xs \<Longrightarrow> printable (xs ! i)"
  by (simp add: list_all_length)

lemma printable_posture_text [simp]: "printable (posture_text p)"
proof (cases "p < KG_POSTURE_COUNT")
  case True
  then have "unat p < length posture_names" by (simp add: kg_const posture_names_def word_less_nat_alt)
  moreover have "list_all printable posture_names" by (simp add: posture_names_def lit_eval)
  ultimately show ?thesis using True by (simp add: posture_text_def printable_nth)
qed (simp add: posture_text_def lit_eval)

lemma printable_pci_kind_text [simp]: "printable (pci_kind_text k)"
proof (cases "k < 4")
  case True
  let ?l = "[''?'', ''hidden from OS'', ''missing in hardware'', ''identity mismatch'']"
  have "unat k < length ?l" using True by (simp add: word_less_nat_alt)
  moreover have "list_all printable ?l" by (simp add: lit_eval)
  ultimately have "printable (?l ! unat k)" using printable_nth by blast
  then show ?thesis using True by (simp add: pci_kind_text_def)
qed (simp add: pci_kind_text_def lit_eval)

lemma printable_pci [simp]: "printable (pci_address p1)" "printable (pci_ident p2)"
  by (simp_all add: pci_address_def pci_ident_def lit_eval)

lemma printable_load_policy_text [simp]: "printable (load_policy_text weak raw len)"
  unfolding load_policy_text_def
  by (rule printable_snprintf) (simp add: yes_no_def lit_eval)

lemma printable_details_text [simp]: "printable (details_text t p1 p2 len)"
  unfolding details_text_def
  by (intro printable_if printable_snprintf; simp (no_asm) add: lit_eval quote_char_def)

text \<open>
   Whatever a notification carries, forged or not, the details the monitor prints, logs and hands
  to actions are printable ASCII: no parameter can put a control character or a line break into a log.
\<close>

theorem details_printable: "printable (format_details n len)"
  by (simp add: format_details_def)

section \<open>Names\<close>

lemma sane_printable: "c_between 32 126 c \<Longrightarrow> sane_char (of_nat (cval c)) = c"
proof -
  assume c: "c_between 32 126 c"
  then have u: "unat (of_nat (cval c) :: u8) = cval c" using cval_less [of c] by (simp add: unsigned_of_nat take_bit_eq_mod)
  from c u show ?thesis
    by (simp add: sane_char_def c_between_def word_less_nat_alt word_unat_eq_iff) (simp add: cval_def)
qed

lemma printable_no_nul: "printable s \<Longrightarrow> c \<in> set s \<Longrightarrow> c \<noteq> CHR 0x00"
  by (auto simp: printable_def list_all_iff lit_eval)

text \<open>
   The name of a module, as the kernel packs it into the two parameters of an alert, is shown by the
  monitor unchanged, cut to the fifteen characters that fit.
\<close>

theorem name_roundtrip:
  assumes "printable s"
  shows "unpack_name (fst (kg_pack_name s)) (snd (kg_pack_name s)) = take 15 s"
proof -
  let ?t = "take 15 s"
  define b where "b = map (\<lambda>c. of_nat (cval c)) ?t @ replicate (16 - length ?t) (0 :: u8)"
  have l: "length (take 8 b) = 8" "length (drop 8 b) = 8" by (auto simp: b_def)
  have "map sane_char b = ?t @ replicate (16 - length ?t) (CHR 0x00)"
    using printable_take [OF assms, of 15] by (simp add: b_def printable_def list_all_iff sane_printable sane_zero cong: map_cong)
  moreover have "16 - length ?t = Suc (15 - length ?t)" by simp
  ultimately have m: "map sane_char b = ?t @ CHR 0x00 # replicate (15 - length ?t) (CHR 0x00)" by simp
  have "le64 (fst (kg_pack_name s)) @ le64 (snd (kg_pack_name s)) = b"
    by (simp only: kg_pack_name_def Let_def b_def [symmetric] fst_conv snd_conv le64_le_val [OF l(1)] le64_le_val [OF l(2)]
        append_take_drop_id)
  then show ?thesis
    using printable_no_nul [OF printable_take [OF assms]]
    unfolding unpack_name_def by (simp only: m) (simp add: takeWhile_append2 takeWhile_tail)
qed

theorem name_roundtrip_witness:
  "unpack_name (fst (kg_pack_name ''rtcore64'')) (snd (kg_pack_name ''rtcore64'')) = ''rtcore64''"
  using name_roundtrip [of "''rtcore64''"] by (simp add: lit_eval)

section \<open>Numbers\<close>

lemma digit_char_of: "d < 16 \<Longrightarrow> d < base \<Longrightarrow> digit_of base (digit_char d) = Some d"
  by (auto simp: digit_of_def digit_char_def c_between_def cval_char_of Let_def)

lemma digits_acc_udigits:
  assumes "2 \<le> base" "base \<le> 16"
  shows "\<exists>m. digits_acc base acc (map digit_char (udigits base n) @ rest) = digits_acc base (acc * base ^ m + n) rest"
  using assms
proof (induction base n arbitrary: acc rest rule: udigits.induct)
  case (1 base n)
  show ?case
  proof (cases "n < base")
    case True
    then show ?thesis
      using 1(2,3) by (intro exI [of _ 1]) (simp add: udigits.simps [of base n] digit_char_of)
  next
    case False
    have d: "n mod base < base" using 1(2) by simp
    have "\<not> (base < 2 \<or> n < base)" using 1(2) False by simp
    from 1(1) [OF this 1(2,3)] obtain m where
      m: "digits_acc base acc (map digit_char (udigits base (n div base)) @ digit_char (n mod base) # rest)
        = digits_acc base (acc * base ^ m + n div base) (digit_char (n mod base) # rest)" by blast
    have "(acc * base ^ m + n div base) * base + n mod base = acc * base ^ Suc m + n"
      by (simp add: algebra_simps)
    then show ?thesis
      using m False 1(2,3) d by (intro exI [of _ "Suc m"]) (simp add: udigits.simps [of base n] digit_char_of)
  qed
qed

lemma udigits_Cons: "\<exists>d ds. udigits base n = d # ds"
proof (induction base n rule: udigits.induct)
  case (1 base n)
  then show ?case by (subst udigits.simps) (auto split: if_splits)
qed

text \<open>A printed number is read back by \<open>strtoul\<close>, whatever follows that is not a digit.\<close>

lemma strtoul_fmt_u:
  assumes n: "n < 2 ^ 64" and rest: "\<forall>c cs. rest = c # cs \<longrightarrow> digit_of 10 c = None"
  shows "strtoul 10 (fmt_u n @ rest) = (n, rest, False)"
proof -
  obtain d ds where u: "udigits 10 n = d # ds" using udigits_Cons by blast
  have d: "d < 10" using udigits_bound [of 10 d n] u by simp
  have e: "fmt_u n @ rest = digit_char d # map digit_char ds @ rest" by (simp add: fmt_u_def u)
  have v: "cval (digit_char d) = 48 + d" using d by (simp add: digit_char_def cval_char_of)
  have c: "\<not> c_space (digit_char d)" "digit_char d \<noteq> CHR ''-''" "digit_char d \<noteq> CHR ''+''"
    using v by (auto simp: c_space_def c_between_def) (auto simp: cval_def)
  obtain m where "digits_acc 10 0 (map digit_char (udigits 10 n) @ rest) = digits_acc 10 (0 * 10 ^ m + n) rest"
    using digits_acc_udigits [of 10 0 n rest] by auto
  moreover have "digits_acc 10 n rest = (n, rest)" using rest by (cases rest) simp_all
  ultimately have a: "digits_acc 10 0 (digit_char d # map digit_char ds @ rest) = (n, rest)" by (simp add: u)
  have s: "skip_0x 10 x = x" for x by (simp add: skip_0x_def split: list.splits)
  show ?thesis
    unfolding e strtoul_def Let_def using c d n a
    by (simp add: s digit_char_of)
qed

section \<open>Reading the CSV log back\<close>

text \<open>One record of comma-separated values (RFC 4180): plain or quoted fields, ended by a line break.\<close>

fun csv_plain :: "string \<Rightarrow> string \<times> string" where
  "csv_plain [] = ([], [])"
| "csv_plain (c # s) = (if c = CHR '','' \<or> c = newline then ([], c # s) else (let (f, r) = csv_plain s in (c # f, r)))"

fun csv_quoted :: "string \<Rightarrow> (string \<times> string) option" where
  "csv_quoted [] = None"
| "csv_quoted (c # s) =
     (if c = quote_char
      then (case s of
              c' # s' \<Rightarrow> if c' = quote_char then map_option (\<lambda>(f, r). (c # f, r)) (csv_quoted s') else Some ([], s)
            | [] \<Rightarrow> Some ([], s))
      else map_option (\<lambda>(f, r). (c # f, r)) (csv_quoted s))"

definition csv_one :: "string \<Rightarrow> (string \<times> string) option" where
  "csv_one s = (case s of c # s' \<Rightarrow> if c = quote_char then csv_quoted s' else Some (csv_plain s) | [] \<Rightarrow> Some ([], []))"

fun csv_parse :: "nat \<Rightarrow> string \<Rightarrow> string list option" where
  "csv_parse 0 s = None"
| "csv_parse (Suc k) s =
     (case csv_one s of
        None \<Rightarrow> None
      | Some (f, r) \<Rightarrow>
          (case r of
             [] \<Rightarrow> None
           | c # r' \<Rightarrow>
               if c = CHR '','' then map_option ((#) f) (csv_parse k r')
               else if c = newline \<and> r' = [] then Some [f] else None))"

definition csv_safe :: "string \<Rightarrow> bool" where
  "csv_safe s \<longleftrightarrow> list_all (\<lambda>c. c \<noteq> CHR '','' \<and> c \<noteq> newline \<and> c \<noteq> quote_char) s"

lemma csv_plain_safe: "csv_safe f \<Longrightarrow> csv_plain (f @ CHR '','' # s) = (f, CHR '','' # s)"
  by (induction f) (simp_all add: csv_safe_def)

lemma csv_one_plain: "csv_safe f \<Longrightarrow> csv_one (f @ CHR '','' # s) = Some (f, CHR '','' # s)"
  using csv_plain_safe [of f s] by (cases f) (simp_all add: csv_one_def csv_safe_def quote_char_def)

lemma csv_quoted_escape: "\<forall>c cs. s = c # cs \<longrightarrow> c \<noteq> quote_char \<Longrightarrow> csv_quoted (csv_escape f @ quote_char # s) = Some (f, s)"
  by (induction f) (auto split: list.splits)

lemma csv_one_field:
  "\<forall>c cs. s = c # cs \<longrightarrow> c \<noteq> quote_char \<Longrightarrow> csv_one (csv_field f @ s) = Some (f, s)"
  by (simp add: csv_one_def csv_field_def csv_quoted_escape)

lemma csv_safe_append [simp]: "csv_safe (a @ b) \<longleftrightarrow> csv_safe a \<and> csv_safe b"
  by (simp add: csv_safe_def)

lemma csv_safe_digit: "d < 16 \<Longrightarrow> csv_safe [digit_char d]"
  by (auto simp: csv_safe_def digit_char_def newline_def quote_char_def
      dest!: arg_cong [where f = cval and x = "char_of _"]) (auto simp: cval_def)

lemma csv_safe_digits: "list_all (\<lambda>d. d < 16) ds \<Longrightarrow> csv_safe (map digit_char ds)"
  using csv_safe_digit by (induction ds) (auto simp: csv_safe_def)

lemma csv_safe_fmt [simp]: "csv_safe (fmt_u n)" "csv_safe (fmt_x w n)"
proof -
  have 10: "d \<in> set (udigits 10 n) \<Longrightarrow> d < 16" and 16: "d \<in> set (udigits 16 n) \<Longrightarrow> d < 16" for d
    using udigits_bound [of 10 d n] udigits_bound [of 16 d n] by simp_all
  have "csv_safe (replicate k (CHR ''0''))" for k
    by (simp add: csv_safe_def list_all_iff newline_def quote_char_def)
  then show "csv_safe (fmt_u n)" "csv_safe (fmt_x w n)"
    using 10 16 by (auto simp: fmt_u_def fmt_x_def zpad_def list_all_iff intro!: csv_safe_digits)
qed

lemma csv_safe_text [simp]: "csv_safe (level_text l)" "csv_safe (ok_fail ok)"
  by (simp_all add: level_text_def ok_fail_def csv_safe_def newline_def quote_char_def)

lemma csv_safe_0x: "csv_safe (''0x'' @ fmt_x w k)"
  unfolding csv_safe_append by (simp add: csv_safe_def [of "[_, _]"] newline_def quote_char_def)

lemma csv_parse_plain:
  "csv_safe f \<Longrightarrow> csv_parse (Suc k) (f @ CHR '','' # s) = map_option ((#) f) (csv_parse k s)"
  by (simp add: csv_one_plain)

lemma csv_parse_field: "csv_parse (Suc k) (csv_field f @ CHR '','' # s) = map_option ((#) f) (csv_parse k s)"
  by (simp add: csv_one_field quote_char_def)

lemma csv_parse_last: "csv_parse (Suc k) (csv_field f @ [newline]) = Some [f]"
  by (simp add: csv_one_field quote_char_def newline_def)

lemma printable_level_text [simp]: "printable (level_text l)" "printable (ok_fail ok)"
  by (simp_all add: level_text_def ok_fail_def lit_eval)

lemma printable_alert_text [simp]: "printable (alert_text t)"
proof -
  have all: "list_all (\<lambda>(c, x). printable x) alert_texts" by (simp add: alert_texts_def lit_eval)
  show ?thesis
  proof (cases "List.find (\<lambda>(c, x). c = t) alert_texts")
    case None
    then show ?thesis by (simp add: alert_text_def lit_eval)
  next
    case (Some p)
    have "p \<in> set alert_texts" using find_in [OF Some] by simp
    with all Some show ?thesis by (auto simp: alert_text_def list_all_iff)
  qed
qed

lemma printable_csv_escape: "printable s \<Longrightarrow> printable (csv_escape s)"
  by (induction s) auto

lemma printable_csv_field [simp]: "printable s \<Longrightarrow> printable (csv_field s)"
  by (simp add: csv_field_def printable_csv_escape) (simp add: quote_char_def lit_eval)

text \<open>
   A row of the CSV log, whatever notification it records, is a single line, and reading it back by the
  rules for comma-separated values gives the eight fields that were logged; quotes in the details do not
  end a field.
\<close>

theorem csv_row_roundtrip:
  assumes "csv_safe ts" and "printable ts"
  shows "csv_parse 8 (csv_row ts n ok (format_details n len)) =
      Some [ts, level_text (n_alert_level n), alert_text (n_alert_type n), ok_fail ok, fmt_u (unat (n_sequence n)),
            ''0x'' @ fmt_x 16 (unat (n_param1 n)), ''0x'' @ fmt_x 16 (unat (n_param2 n)), format_details n len] \<and>
    printable (butlast (csv_row ts n ok (format_details n len)))"
proof -
  let ?d = "format_details n len"
  let ?body = "ts @ '','' @ level_text (n_alert_level n) @ '','' @ csv_field (alert_text (n_alert_type n)) @
     '','' @ ok_fail ok @ '','' @ fmt_u (unat (n_sequence n)) @ '',0x'' @ fmt_x 16 (unat (n_param1 n)) @
     '',0x'' @ fmt_x 16 (unat (n_param2 n)) @ '','' @ csv_field ?d"
  have p: "printable ?d" by (simp add: format_details_def)
  have row: "csv_row ts n ok ?d = ?body @ [newline]" by (simp add: csv_row_def)
  have "printable ?body" using assms(2) p by simp (simp add: lit_eval)
  then have "printable (butlast (csv_row ts n ok ?d))" unfolding row by (simp only: butlast_snoc)
  moreover have hx: "csv_parse (Suc i) (CHR ''0'' # CHR ''x'' # fmt_x 16 k @ CHR '','' # r) =
      map_option ((#) (''0x'' @ fmt_x 16 k)) (csv_parse i r)" for i k r
    using csv_parse_plain [OF csv_safe_0x [of 16 k], of i r] by simp
  have 8: "8 = Suc (Suc (Suc (Suc (Suc (Suc (Suc (Suc 0)))))))" by simp
  have "csv_parse 8 (csv_row ts n ok ?d) =
      Some [ts, level_text (n_alert_level n), alert_text (n_alert_type n), ok_fail ok, fmt_u (unat (n_sequence n)),
            ''0x'' @ fmt_x 16 (unat (n_param1 n)), ''0x'' @ fmt_x 16 (unat (n_param2 n)), ?d]"
    unfolding csv_row_def using assms(1)
    by (simp only: 8) (simp add: hx csv_parse_plain csv_parse_field csv_parse_last del: csv_parse.simps)
  ultimately show ?thesis by blast
qed

theorem csv_row_roundtrip_witness:
  "csv_parse 8 (csv_row ''2024-01-01 00:00:00.000'' (sample_notification 7 1) True (format_details (sample_notification 7 1) 192)) =
    Some [''2024-01-01 00:00:00.000'', level_text (n_alert_level (sample_notification 7 1)),
      alert_text (n_alert_type (sample_notification 7 1)), ok_fail True, fmt_u (unat (n_sequence (sample_notification 7 1))),
      ''0x'' @ fmt_x 16 (unat (n_param1 (sample_notification 7 1))),
      ''0x'' @ fmt_x 16 (unat (n_param2 (sample_notification 7 1))), format_details (sample_notification 7 1) 192] \<and>
    printable (butlast (csv_row ''2024-01-01 00:00:00.000'' (sample_notification 7 1) True (format_details (sample_notification 7 1) 192)))"
  by (rule csv_row_roundtrip) (simp_all add: csv_safe_def newline_def quote_char_def lit_eval)

end
