(* ===== verification/KG_Monitor.thy ===== *)
theory KG_Monitor
  imports KG_Text "HOL-Library.Multiset"
begin

text \<open>
  The monitor daemon (\<^verbatim>\<open>src/linux/monitor/kgmon.c\<close>): helper processes, the escalation policy's
  callbacks, acknowledgement, the reader of the ring, and the main loop.  What the kernel answers is
  the record \<open>mon_world\<close>: every clock reading, fork, load of the write index, attempt to read a slot and
  test of the stop flag is numbered, so consecutive calls may see different values.  What the process
  prints, logs and starts is collected in \<open>sk_out\<close>, oldest first.
\<close>

unbundle bit_operations_syntax

section \<open>State\<close>

definition MAX_CHILDREN :: nat where [kg_const]: "MAX_CHILDREN = 32"
definition NOTIFY_TIMEOUT_S :: int where [kg_const]: "NOTIFY_TIMEOUT_S = 10"

record child =
  ch_pid :: int
  ch_deadline :: int
  ch_name :: string

record mon_opts =
  o_syslog :: bool
  o_notify :: bool
  o_once :: bool
  o_new_only :: bool
  o_quiet :: bool
  o_log :: bool
  o_ack_path :: string
  o_max_alerts :: int

datatype log_prio = LOG_CRIT | LOG_ERR | LOG_WARNING | LOG_NOTICE | LOG_INFO

datatype job = Job_notify string string | Job_action kgp_run

datatype mon_ev =
    Ev_stdout string | Ev_stderr string | Ev_csv string | Ev_syslog log_prio string | Ev_sd string
  | Ev_spawn int job | Ev_kill int | Ev_reaped int

text \<open>
  \<open>sk_stop\<close> is \<open>g_stop\<close>, \<open>sk_children\<close> is \<open>g_children\<close>; the \<open>k_\<close> fields count the calls answered by the
  world.  Two fields are history, never read: \<open>sk_emitted\<close>, the notifications handed to \<open>emit\<close> with the
  verdict on their HMAC, and \<open>sk_calls\<close>, the calls of the policy engine.
\<close>

record sinks =
  sk_opts :: mon_opts
  sk_shown :: int
  sk_have_policy :: bool
  sk_pol :: kgp_policy
  sk_eng :: incidents
  sk_ack_seen :: "nat \<times> int \<times> int"
  sk_children :: "child list"
  sk_stop :: bool
  sk_wd_next :: int
  sk_out :: "mon_ev list"
  sk_emitted :: "(kg_notification \<times> bool) list"
  sk_calls :: "eng_call list"
  k_mono :: nat
  k_real :: nat
  k_fork :: nat
  k_index :: nat
  k_slot :: nat
  k_signal :: nat

record mon_world =
  w_mono :: "nat \<Rightarrow> int"
  w_real :: "nat \<Rightarrow> u64"
  w_fork :: "nat \<Rightarrow> int"
  w_ts :: "u64 \<Rightarrow> string"
  w_index :: "nat \<Rightarrow> u32"
  w_slot :: "nat \<Rightarrow> nat \<Rightarrow> u32 \<times> kg_notification \<times> u32"
  w_signal :: "nat \<Rightarrow> bool"

definition say :: "mon_ev list \<Rightarrow> sinks \<Rightarrow> sinks" where
  "say es s = s\<lparr>sk_out := sk_out s @ es\<rparr>"

definition syslog_if :: "sinks \<Rightarrow> log_prio \<Rightarrow> string \<Rightarrow> mon_ev list" where
  "syslog_if s p msg = (if o_syslog (sk_opts s) then [Ev_syslog p msg] else [])"

section \<open>Helper processes\<close>

definition mono_s :: "mon_world \<Rightarrow> sinks \<Rightarrow> int \<times> sinks" where
  "mono_s w s = (w_mono w (k_mono s), s\<lparr>k_mono := k_mono s + 1\<rparr>)"

definition do_fork :: "mon_world \<Rightarrow> sinks \<Rightarrow> int \<times> sinks" where
  "do_fork w s = (w_fork w (k_fork s), s\<lparr>k_fork := k_fork s + 1\<rparr>)"

definition child_free_slot :: "child list \<Rightarrow> nat option" where
  "child_free_slot cs = List.find (\<lambda>i. ch_pid (cs ! i) = 0) [0 ..< length cs]"

definition child_track :: "mon_world \<Rightarrow> nat \<Rightarrow> int \<Rightarrow> int \<Rightarrow> string \<Rightarrow> sinks \<Rightarrow> sinks" where
  "child_track w i pid timeout_s name s =
     (let (now, s1) = mono_s w s
      in s1\<lparr>sk_children := (sk_children s1)[i := \<lparr>ch_pid = pid, ch_deadline = now + timeout_s,
              ch_name = snprintf KGP_NAME_LEN name\<rparr>]\<rparr>)"

text \<open>The answer of \<open>waitpid\<close> with \<open>WNOHANG\<close>.\<close>

datatype wait_res = Wait_exited nat | Wait_signaled nat | Wait_echild | Wait_none

definition SIGKILL :: nat where "SIGKILL = 9"

definition reap_one :: "mon_world \<Rightarrow> (int \<Rightarrow> wait_res) \<Rightarrow> nat \<Rightarrow> sinks \<Rightarrow> sinks" where
  "reap_one w wait i s =
     (let c = sk_children s ! i;
          free = (\<lambda>s. s\<lparr>sk_children := (sk_children s)[i := c\<lparr>ch_pid := 0\<rparr>]\<rparr>)
      in if ch_pid c = 0 then s
         else case wait (ch_pid c) of
                Wait_exited st \<Rightarrow>
                  free (say ((if st \<noteq> 0
                              then Ev_stderr (''kgmon: '' @ ch_name c @ '' exited with status '' @ fmt_u st) #
                                   syslog_if s LOG_WARNING (ch_name c @ '' exited with status '' @ fmt_u st)
                              else []) @ [Ev_reaped (ch_pid c)]) s)
              | Wait_signaled sig \<Rightarrow>
                  free (say ((if sig \<noteq> SIGKILL
                              then [Ev_stderr (''kgmon: '' @ ch_name c @ '' killed by signal '' @ fmt_u sig)]
                              else []) @ [Ev_reaped (ch_pid c)]) s)
              | Wait_echild \<Rightarrow> free (say [Ev_reaped (ch_pid c)] s)
              | Wait_none \<Rightarrow>
                  (let (now, s1) = mono_s w s
                   in if ch_deadline c \<le> now
                      then (let s2 = say ([Ev_stderr (''kgmon: '' @ ch_name c @ '' timed out, killing it'')] @
                                          syslog_if s LOG_WARNING (ch_name c @ '' timed out and was killed'') @
                                          [Ev_kill (- ch_pid c), Ev_kill (ch_pid c)]) s1;
                                (now2, s3) = mono_s w s2
                            in s3\<lparr>sk_children := (sk_children s3)[i := c\<lparr>ch_deadline := now2 + 5\<rparr>]\<rparr>)
                      else s1))"

definition children_reap :: "mon_world \<Rightarrow> (int \<Rightarrow> wait_res) \<Rightarrow> sinks \<Rightarrow> sinks" where
  "children_reap w wait s = fold (reap_one w wait) [0 ..< MAX_CHILDREN] s"

definition notify_desktop :: "mon_world \<Rightarrow> string \<Rightarrow> string \<Rightarrow> sinks \<Rightarrow> sinks" where
  "notify_desktop w title body s =
     (case child_free_slot (sk_children s) of
        None \<Rightarrow> say [Ev_stderr ''kgmon: too many helper processes running, dropped a desktop notification''] s
      | Some i \<Rightarrow>
          (let (pid, s1) = do_fork w s
           in if pid < 0 then s1
              else child_track w i pid NOTIFY_TIMEOUT_S ''notify-send'' (say [Ev_spawn pid (Job_notify title body)] s1)))"

section \<open>Escalation policy\<close>

definition run_action_cb :: "mon_world \<Rightarrow> kgp_run \<Rightarrow> sinks \<Rightarrow> sinks" where
  "run_action_cb w r s =
     (let act = pol_actions (sk_pol s) ! run_action r;
          rule = r_name (pol_rules (sk_pol s) ! run_rule r);
          dropped = ''too many actions running, dropped '' @ a_name act @ '' for rule '' @ rule
      in case child_free_slot (sk_children s) of
           None \<Rightarrow> say (Ev_stderr (''kgmon: '' @ dropped) # syslog_if s LOG_ERR dropped) s
         | Some i \<Rightarrow>
             (let s1 = say (syslog_if s LOG_NOTICE (rule @ '': running action '' @ a_name act @ '' for '' @
                         (case kgp_code_name (al_code (run_alert r)) of Some x \<Rightarrow> x | None \<Rightarrow> ''alert'') @
                         '' (tier '' @ fmt_u (run_tier r) @ '', '' @ fmt_u (unat (run_count r)) @ '' occurrence(s))'')) s;
                  (pid, s2) = do_fork w s1
              in if pid < 0 then say [Ev_stderr ''kgmon: fork''] s2
                 else child_track w i pid (uint (a_timeout_s act)) (a_name act) (say [Ev_spawn pid (Job_action r)] s2)))"

definition level_to_policy :: "u32 \<Rightarrow> int" where
  "level_to_policy l =
     (if KG_LEVEL_CRITICAL \<le> l then KGP_CRITICAL else if l = KG_LEVEL_WATCH then KGP_WARNING else KGP_INFO)"

text \<open>Handing an alert to the engine, which calls back \<open>run_action\<close> for every action that is due.\<close>

definition feed_alert :: "mon_world \<Rightarrow> kgp_alert \<Rightarrow> sinks \<Rightarrow> sinks" where
  "feed_alert w a s =
     (let (now, s1) = mono_s w s;
          (incs, runs) = kgp_alert_op (sk_pol s1) (of_int now) a (sk_eng s1)
      in fold (run_action_cb w) runs (s1\<lparr>sk_eng := incs, sk_calls := sk_calls s1 @ [Call_alert (of_int now) a]\<rparr>))"

definition pseudo_alert :: "u64 \<Rightarrow> u32 \<Rightarrow> int \<Rightarrow> u32 \<Rightarrow> string \<Rightarrow> kgp_alert" where
  "pseudo_alert now code level seq details =
     \<lparr>al_code = code, al_level = level, al_seq = seq, al_param1 = 0, al_param2 = 0, al_time_ns = now,
      al_details = snprintf KGP_DETAILS_LEN details\<rparr>"

definition policy_pseudo :: "mon_world \<Rightarrow> u32 \<Rightarrow> int \<Rightarrow> u32 \<Rightarrow> string \<Rightarrow> sinks \<Rightarrow> sinks" where
  "policy_pseudo w code level seq details s =
     (if \<not> sk_have_policy s then s
      else feed_alert w (pseudo_alert (w_real w (k_real s)) code level seq details) (s\<lparr>k_real := k_real s + 1\<rparr>))"

definition notification_alert :: "kg_notification \<Rightarrow> string \<Rightarrow> kgp_alert" where
  "notification_alert n details =
     \<lparr>al_code = n_alert_type n, al_level = level_to_policy (n_alert_level n), al_seq = n_sequence n,
      al_param1 = n_param1 n, al_param2 = n_param2 n, al_time_ns = n_timestamp n,
      al_details = snprintf KGP_DETAILS_LEN details\<rparr>"

definition policy_feed :: "mon_world \<Rightarrow> kg_notification \<Rightarrow> bool \<Rightarrow> string \<Rightarrow> sinks \<Rightarrow> sinks" where
  "policy_feed w n hmac_ok details s =
     (if \<not> sk_have_policy s then s
      else if \<not> hmac_ok
      then policy_pseudo w KGP_ALERT_FORGED KGP_FORGED (n_sequence n)
             (''notification '' @ fmt_u (unat (n_sequence n)) @ '' failed HMAC verification'') s
      else feed_alert w (notification_alert n details) s)"

text \<open>What \<open>policy_check_ack\<close> sees of the acknowledgement file: its status and, if it opens, its text.\<close>

record ack_stat =
  as_ino :: nat
  as_sec :: int
  as_nsec :: int
  as_isreg :: bool
  as_uid :: nat
  as_writable :: bool

definition scan_lu :: "string \<Rightarrow> nat option" where
  "scan_lu txt = (case strtoul 10 txt of (v, rest, _) \<Rightarrow> if rest = txt then None else Some v)"

definition policy_check_ack :: "nat \<Rightarrow> (ack_stat \<times> string option) option \<Rightarrow> sinks \<Rightarrow> sinks" where
  "policy_check_ack euid file s =
     (case file of
        None \<Rightarrow> s
      | Some (st, contents) \<Rightarrow>
          if (as_ino st, as_sec st, as_nsec st) = sk_ack_seen s then s
          else let s1 = s\<lparr>sk_ack_seen := (as_ino st, as_sec st, as_nsec st)\<rparr>
               in if \<not> as_isreg st \<or> (as_uid st \<noteq> 0 \<and> as_uid st \<noteq> euid) \<or> as_writable st
                  then say [Ev_stderr (''kgmon: ignoring '' @ o_ack_path (sk_opts s1) @
                         '' (must be a regular file owned by root, not writable by others)'')] s1
                  else case contents of
                         None \<Rightarrow> s1
                       | Some txt \<Rightarrow>
                           (case scan_lu txt of
                              None \<Rightarrow> s1
                            | Some seq \<Rightarrow>
                                (let msg = ''alerts up to sequence '' @ fmt_u seq @ '' acknowledged''
                                 in say (Ev_stderr (''kgmon: '' @ msg) # syslog_if s1 LOG_NOTICE msg)
                                      (s1\<lparr>sk_eng := kgp_ack (of_nat seq) (sk_eng s1), sk_calls := sk_calls s1 @ [Call_ack (of_nat seq)]\<rparr>))))"

section \<open>Showing an alert\<close>

definition alert_prio :: "u32 \<Rightarrow> log_prio" where
  "alert_prio l =
     (if KG_LEVEL_CRITICAL \<le> l then LOG_CRIT else if l = KG_LEVEL_WATCH then LOG_WARNING else LOG_INFO)"

definition emit_alert :: "mon_world \<Rightarrow> kg_notification \<Rightarrow> bool \<Rightarrow> sinks \<Rightarrow> sinks" where
  "emit_alert w n ok s =
     (let ts = w_ts w (n_timestamp n);
          details = format_details n KGP_DETAILS_LEN;
          opts = sk_opts s;
          s1 = say ((if o_quiet opts then [] else [Ev_stdout (alert_line ts n ok details)]) @
                    (if o_log opts then [Ev_csv (csv_row ts n ok details)] else []) @
                    (if o_syslog opts
                     then [Ev_syslog (alert_prio (n_alert_level n)) (alert_text (n_alert_type n) @ '': '' @ details @ '' (hmac '' @
                             (if ok then ''ok'' else ''FAILED'') @ '', seq '' @ fmt_u (unat (n_sequence n)) @ '')'')]
                     else [])) s;
          s2 = (if o_notify opts \<and> KG_LEVEL_WATCH \<le> n_alert_level n
                then notify_desktop w
                       (if KG_LEVEL_CRITICAL \<le> n_alert_level n then ''Critical Security Alert'' else ''Security Warning'')
                       (snprintf 256 (alert_text (n_alert_type n) @ [newline] @ details)) s1
                else s1);
          s3 = (if o_notify opts \<and> \<not> ok
                then notify_desktop w ''Notification Integrity Warning''
                       ''Alert HMAC validation failed - notification may be forged.'' s2
                else s2);
          s4 = policy_feed w n ok details s3
      in s4\<lparr>sk_shown := sk_shown s4 + 1, sk_emitted := sk_emitted s4 @ [(n, ok)]\<rparr>)"

section \<open>Ring reader\<close>

datatype slot_result = SLOT_OK kg_notification | SLOT_RETRY | SLOT_BAD

text \<open>The two loads of the magic and the copy between them, which a publisher may disturb.\<close>

definition read_slot :: "u32 \<times> kg_notification \<times> u32 \<Rightarrow> u32 \<Rightarrow> slot_result" where
  "read_slot ld seq =
     (case ld of (m1, out, m2) \<Rightarrow>
        if m1 \<noteq> KG_NOTIFY_MAGIC then SLOT_RETRY
        else if m2 \<noteq> KG_NOTIFY_MAGIC then SLOT_RETRY
        else if n_sequence out = seq then SLOT_OK out else SLOT_BAD)"

fun try_slot :: "mon_world \<Rightarrow> nat \<Rightarrow> u32 \<Rightarrow> sinks \<Rightarrow> slot_result \<times> sinks" where
  "try_slot w 0 cursor s = (SLOT_RETRY, s)"
| "try_slot w (Suc tries) cursor s =
     (let res = read_slot (w_slot w (k_slot s) (slot_of cursor)) cursor; s1 = s\<lparr>k_slot := k_slot s + 1\<rparr>
      in if res = SLOT_RETRY then try_slot w tries cursor s1 else (res, s1))"

definition load_index :: "mon_world \<Rightarrow> sinks \<Rightarrow> u32 \<times> sinks" where
  "load_index w s = (w_index w (k_index s), s\<lparr>k_index := k_index s + 1\<rparr>)"

definition verdict :: "bytes \<Rightarrow> kg_notification \<Rightarrow> bool" where
  "verdict key n = kg_ct_equal (kg_hmac_sha256 key (auth_bytes n)) (n_hmac n) KG_HMAC_SIZE"

text \<open>A slot that stayed unreadable or has the wrong sequence number: overwritten meanwhile, or tampered with.\<close>

definition drain_unread :: "mon_world \<Rightarrow> u32 \<Rightarrow> sinks \<Rightarrow> sinks" where
  "drain_unread w cursor s =
     (let (w2, s2) = load_index w s; num = fmt_u (unat cursor)
      in if of_nat (KG_NOTIFY_SLOTS - 1) < w2 - cursor
         then policy_pseudo w KGP_ALERT_OVERRUN KGP_CRITICAL cursor
                (''notification '' @ num @ '' was overwritten before it could be read'')
                (say [Ev_stderr (''kgmon: notification '' @ num @ '' overwritten before it could be read'')] s2)
         else policy_pseudo w KGP_ALERT_TAMPER KGP_FORGED cursor
                (''slot for notification '' @ num @ '' is unreadable or has a wrong sequence number'')
                (say [Ev_stderr (''kgmon: TAMPER? slot for notification '' @ num @
                   '' is unreadable or has a wrong sequence number'')] s2))"

text \<open>One turn of the loop in \<open>drain\<close>, without the increment of the cursor.\<close>

definition drain_one :: "mon_world \<Rightarrow> bytes \<Rightarrow> u32 \<Rightarrow> sinks \<Rightarrow> sinks" where
  "drain_one w key cursor s =
     (let (res, s1) = try_slot w 50 cursor s;
          s2 = (case res of SLOT_OK n \<Rightarrow> emit_alert w n (verdict key n) s1 | _ \<Rightarrow> drain_unread w cursor s1)
      in if o_max_alerts (sk_opts s2) \<noteq> 0 \<and> o_max_alerts (sk_opts s2) \<le> sk_shown s2
         then s2\<lparr>sk_stop := True\<rparr> else s2)"

text \<open>A test of \<open>g_stop\<close>; a signal may have set it.\<close>

definition test_stop :: "mon_world \<Rightarrow> sinks \<Rightarrow> bool \<times> sinks" where
  "test_stop w s =
     (let stop = (sk_stop s \<or> w_signal w (k_signal s)) in (stop, s\<lparr>sk_stop := stop, k_signal := k_signal s + 1\<rparr>))"

function drain_loop :: "mon_world \<Rightarrow> bytes \<Rightarrow> u32 \<Rightarrow> u32 \<Rightarrow> sinks \<Rightarrow> u32 \<times> sinks" where
  "drain_loop w key wi cursor s =
     (if cursor = wi then (cursor, s)
      else let (stop, s1) = test_stop w s
           in if stop then (cursor, s1) else drain_loop w key wi (cursor + 1) (drain_one w key cursor s1))"
  by pat_completeness auto
termination
proof (relation "measure (\<lambda>(w, key, wi, cursor, s). unat (wi - cursor))", goal_cases)
  case (2 w key wi cursor s)
  then have "wi - cursor \<noteq> 0" by simp
  then have "unat (wi - cursor - 1) < unat (wi - cursor)" by (simp add: unat_minus_one unat_gt_0)
  then show ?case by (simp add: diff_diff_eq)
qed simp

declare drain_loop.simps [simp del]

definition drain :: "mon_world \<Rightarrow> bytes \<Rightarrow> u32 \<Rightarrow> sinks \<Rightarrow> u32 \<times> sinks" where
  "drain w key cursor s =
     (let (wi, s1) = load_index w s
      in if of_nat KG_NOTIFY_SLOTS < wi - cursor
         then (let lost = fmt_u (unat (wi - cursor - of_nat KG_NOTIFY_SLOTS))
               in drain_loop w key wi (wi - of_nat KG_NOTIFY_SLOTS)
                    (policy_pseudo w KGP_ALERT_OVERRUN KGP_CRITICAL cursor
                       (lost @ '' notification(s) lost: the ring was lapped'')
                       (say [Ev_stderr (''kgmon: ring overrun - '' @ lost @ '' notification(s) lost'')] s1)))
         else drain_loop w key wi cursor s1)"

section \<open>Main loop\<close>

text \<open>The policy to run under: a policy that does not load ends the process.\<close>

definition monitor_policy ::
  "mon_opts \<Rightarrow> bool \<Rightarrow> string option \<Rightarrow> bool \<Rightarrow> (string \<Rightarrow> load_err + kgp_policy) \<Rightarrow> load_err + kgp_policy option"
where
  "monitor_policy opts no_policy policy_file def_exists load =
     (if o_once opts \<or> no_policy then Inr None
      else case (case policy_file of Some f \<Rightarrow> Some f | None \<Rightarrow> if def_exists then Some ''/etc/kernelguard/policy.conf'' else None) of
             None \<Rightarrow> Inr None
           | Some pf \<Rightarrow> (case load pf of Inl e \<Rightarrow> Inl e | Inr pol \<Rightarrow> Inr (Some pol)))"

definition sinks_init :: "mon_opts \<Rightarrow> kgp_policy option \<Rightarrow> sinks" where
  "sinks_init opts pol =
     \<lparr>sk_opts = opts, sk_shown = 0, sk_have_policy = (pol \<noteq> None),
      sk_pol = (case pol of Some p \<Rightarrow> p | None \<Rightarrow> empty_policy), sk_eng = kgp_init, sk_ack_seen = (0, 0, 0),
      sk_children = replicate MAX_CHILDREN \<lparr>ch_pid = 0, ch_deadline = 0, ch_name = []\<rparr>, sk_stop = False,
      sk_wd_next = 0, sk_out = [], sk_emitted = [], sk_calls = [],
      k_mono = 0, k_real = 0, k_fork = 0, k_index = 0, k_slot = 0, k_signal = 0\<rparr>"

definition start_cursor :: "mon_opts \<Rightarrow> u32 \<Rightarrow> u32" where
  "start_cursor opts wi =
     (if o_new_only opts then wi
      else if of_nat KG_NOTIFY_SLOTS < wi then wi - of_nat KG_NOTIFY_SLOTS else 0)"

text \<open>\<open>usec\<close> is the watchdog interval of the service manager, if there is one.\<close>

definition watchdog_tick :: "mon_world \<Rightarrow> int option \<Rightarrow> sinks \<Rightarrow> sinks" where
  "watchdog_tick w usec s =
     (case usec of
        None \<Rightarrow> s
      | Some u \<Rightarrow>
          (let half_ms = u div 2000
           in if half_ms \<le> 0 then s
              else let (now, s1) = mono_s w s
                   in if sk_wd_next s1 \<le> now
                      then (let (now2, s2) = mono_s w (say [Ev_sd ''WATCHDOG=1''] s1)
                            in s2\<lparr>sk_wd_next := now2 + (half_ms + 999) div 1000\<rparr>)
                      else s1))"

definition policy_tick :: "mon_world \<Rightarrow> sinks \<Rightarrow> sinks" where
  "policy_tick w s =
     (let (now, s1) = mono_s w s; (incs, runs) = kgp_tick (sk_pol s1) (of_int now) (sk_eng s1)
      in fold (run_action_cb w) runs (s1\<lparr>sk_eng := incs, sk_calls := sk_calls s1 @ [Call_tick (of_int now)]\<rparr>))"

text \<open>What one turn of the main loop sees: the result of \<open>poll\<close>, exited children, the acknowledgement file.\<close>

datatype poll_answer = Poll_failed bool | Poll_idle | Poll_readable | Poll_device_error

record turn =
  t_poll :: poll_answer
  t_wait :: "int \<Rightarrow> wait_res"
  t_ack :: "(ack_stat \<times> string option) option"

datatype mon_end = Die_poll | Die_device

definition poll_error :: "poll_answer \<Rightarrow> mon_end option" where
  "poll_error p =
     (case p of
        Poll_failed eintr \<Rightarrow> if eintr then None else Some Die_poll
      | Poll_device_error \<Rightarrow> Some Die_device
      | _ \<Rightarrow> None)"

definition monitor_turn ::
  "mon_world \<Rightarrow> nat \<Rightarrow> int option \<Rightarrow> bytes \<Rightarrow> turn \<Rightarrow> u32 \<Rightarrow> sinks \<Rightarrow> mon_end + u32 \<times> sinks"
where
  "monitor_turn w euid usec key t cursor s =
     (case poll_error (t_poll t) of
        Some e \<Rightarrow> Inl e
      | None \<Rightarrow>
          (let (cursor1, s1) = drain w key cursor s;
               s2 = children_reap w (t_wait t) s1;
               s3 = (if sk_have_policy s2 then policy_tick w (policy_check_ack euid (t_ack t) s2) else s2)
           in Inr (cursor1, watchdog_tick w usec s3)))"

text \<open>The loop over the turns taken so far; it is left when the stop flag is set.\<close>

fun monitor_loop ::
  "mon_world \<Rightarrow> nat \<Rightarrow> int option \<Rightarrow> bytes \<Rightarrow> turn list \<Rightarrow> u32 \<Rightarrow> sinks \<Rightarrow> mon_end + u32 \<times> sinks"
where
  "monitor_loop w euid usec key [] cursor s = Inr (cursor, s)"
| "monitor_loop w euid usec key (t # ts) cursor s =
     (let (stop, s1) = test_stop w s
      in if stop \<or> o_once (sk_opts s1)
         then Inr (cursor, if o_once (sk_opts s1) then s1 else say [Ev_sd ''STOPPING=1''] s1)
         else case monitor_turn w euid usec key t cursor s1 of
                Inl e \<Rightarrow> Inl e
              | Inr (cursor1, s2) \<Rightarrow> monitor_loop w euid usec key ts cursor1 s2)"

definition cmd_monitor ::
  "mon_world \<Rightarrow> nat \<Rightarrow> int option \<Rightarrow> bytes \<Rightarrow> mon_opts \<Rightarrow> kgp_policy option \<Rightarrow> turn list \<Rightarrow> mon_end + u32 \<times> sinks"
where
  "cmd_monitor w euid usec key opts pol turns =
     (let (wi, s) = load_index w (sinks_init opts pol);
          (cursor, s1) = drain w key (start_cursor opts wi) s;
          s2 = (if o_once opts then s1 else say [Ev_sd (''READY=1'' @ [newline] @ ''STATUS=watching for alerts'')] s1)
      in monitor_loop w euid usec key turns cursor s2)"

text \<open>\<open>kgmon ack\<close>: the text it leaves in the acknowledgement file, if there is anything to acknowledge.\<close>

definition cmd_ack :: "u32 \<Rightarrow> string option" where
  "cmd_ack wi = (if wi = 0 then None else Some (fmt_u (unat (wi - 1)) @ [newline]))"

section \<open>Helper processes are bounded and accounted for\<close>

text \<open>
  The specification of the process table: replaying the trace of events keeps the multiset of running
  helpers; a start needs a free place, and only a running helper is signalled or reaped.
\<close>

fun replay_ev :: "int multiset option \<Rightarrow> mon_ev \<Rightarrow> int multiset option" where
  "replay_ev None e = None"
| "replay_ev (Some M) e =
     (case e of
        Ev_spawn p j \<Rightarrow> if size M < MAX_CHILDREN then Some (add_mset p M) else None
      | Ev_reaped p \<Rightarrow> if p \<in># M then Some (M - {#p#}) else None
      | Ev_kill p \<Rightarrow> if \<bar>p\<bar> \<in># M then Some M else None
      | _ \<Rightarrow> Some M)"

definition replay :: "mon_ev list \<Rightarrow> int multiset option" where
  "replay es = foldl replay_ev (Some {#}) es"

abbreviation (input) pids :: "sinks \<Rightarrow> int list" where
  "pids s \<equiv> map ch_pid (sk_children s)"

definition live :: "int list \<Rightarrow> int multiset" where
  "live ps = mset (filter (\<lambda>p. p \<noteq> 0) ps)"

fun proc_ev :: "mon_ev \<Rightarrow> bool" where
  "proc_ev (Ev_spawn p j) = True"
| "proc_ev (Ev_kill p) = True"
| "proc_ev (Ev_reaped p) = True"
| "proc_ev e = False"

inductive proc_step :: "sinks \<Rightarrow> sinks \<Rightarrow> bool" where
  quiet: "pids s' = pids s \<Longrightarrow> sk_out s' = sk_out s @ es \<Longrightarrow> \<not> list_ex proc_ev es \<Longrightarrow> proc_step s s'"
| spawn: "i < length (pids s) \<Longrightarrow> pids s ! i = 0 \<Longrightarrow> 0 < pid \<Longrightarrow> pids s' = (pids s)[i := pid] \<Longrightarrow>
    sk_out s' = sk_out s @ [Ev_spawn pid j] \<Longrightarrow> proc_step s s'"
| reap: "i < length (pids s) \<Longrightarrow> pids s ! i = pid \<Longrightarrow> pid \<noteq> 0 \<Longrightarrow> pids s' = (pids s)[i := 0] \<Longrightarrow>
    sk_out s' = sk_out s @ [Ev_reaped pid] \<Longrightarrow> proc_step s s'"
| signal: "i < length (pids s) \<Longrightarrow> pids s ! i = pid \<Longrightarrow> pid \<noteq> 0 \<Longrightarrow> pids s' = pids s \<Longrightarrow>
    sk_out s' = sk_out s @ [Ev_kill (- pid), Ev_kill pid] \<Longrightarrow> proc_step s s'"

definition table_inv :: "sinks \<Rightarrow> bool" where
  "table_inv s \<longleftrightarrow> length (pids s) = MAX_CHILDREN \<and> (\<forall>p \<in> set (pids s). 0 \<le> p) \<and> replay (sk_out s) = Some (live (pids s))"

lemma replay_quiet: "\<not> list_ex proc_ev es \<Longrightarrow> foldl replay_ev (Some M) es = Some M"
proof (induction es)
  case (Cons e es)
  then show ?case by (cases e) simp_all
qed simp

lemma live_update:
  assumes "i < length ps"
  shows "ps ! i = 0 \<Longrightarrow> p \<noteq> 0 \<Longrightarrow> live (ps[i := p]) = add_mset p (live ps)"
    and "ps ! i = p \<Longrightarrow> p \<noteq> 0 \<Longrightarrow> live (ps[i := 0]) = live ps - {#p#} \<and> p \<in># live ps"
proof -
  have split: "ps = take i ps @ ps ! i # drop (Suc i) ps" using assms by (rule id_take_nth_drop)
  have upd: "ps[i := v] = take i ps @ v # drop (Suc i) ps" for v using assms by (rule upd_conv_take_nth_drop)
  show "ps ! i = 0 \<Longrightarrow> p \<noteq> 0 \<Longrightarrow> live (ps[i := p]) = add_mset p (live ps)"
    by (subst (2) split) (simp add: upd live_def)
  show "ps ! i = p \<Longrightarrow> p \<noteq> 0 \<Longrightarrow> live (ps[i := 0]) = live ps - {#p#} \<and> p \<in># live ps"
    by (subst (2 3) split) (simp add: upd live_def)
qed

lemma live_room: "i < length ps \<Longrightarrow> ps ! i = 0 \<Longrightarrow> size (live ps) < length ps"
proof -
  assume i: "i < length ps" "ps ! i = 0"
  then have "length (filter (\<lambda>p. p \<noteq> 0) ps) < length ps"
    by (intro length_filter_less [of 0]) (metis nth_mem, simp)
  then show ?thesis by (simp only: live_def size_mset)
qed

lemma proc_step_inv: "proc_step s s' \<Longrightarrow> table_inv s \<Longrightarrow> table_inv s'"
proof (induction rule: proc_step.induct)
  case (quiet s' s es)
  then show ?case by (simp add: table_inv_def replay_def replay_quiet)
next
  case (spawn i s pid s' j)
  then show ?case
    using live_update(1) [of i "pids s" pid] live_room [of i "pids s"]
    by (auto simp: table_inv_def replay_def dest!: set_update_subset_insert [THEN subsetD])
next
  case (reap i s pid s')
  then show ?case
    using live_update(2) [of i "pids s" pid]
    by (auto simp: table_inv_def replay_def dest!: set_update_subset_insert [THEN subsetD])
next
  case (signal i s pid s')
  then have "pid \<in># live (pids s)" "0 \<le> pid"
    using live_update(2) [of i "pids s" pid] by (auto simp: table_inv_def)
  with signal show ?case by (simp add: table_inv_def replay_def)
qed

abbreviation proc_steps :: "sinks \<Rightarrow> sinks \<Rightarrow> bool" where
  "proc_steps \<equiv> proc_step\<^sup>*\<^sup>*"

lemma proc_steps_inv: "proc_steps s s' \<Longrightarrow> table_inv s \<Longrightarrow> table_inv s'"
  by (induction rule: rtranclp_induct) (simp_all add: proc_step_inv)

lemma proc_quiet: "pids s' = pids s \<Longrightarrow> sk_out s' = sk_out s \<Longrightarrow> proc_steps s s'"
  using proc_step.quiet [of s' s "[]"] by (simp add: r_into_rtranclp)

lemma proc_say: "\<not> list_ex proc_ev es \<Longrightarrow> proc_steps s (say es s)"
  using proc_step.quiet [of "say es s" s es] by (simp add: say_def r_into_rtranclp)

lemma free_slotD:
  "child_free_slot (sk_children s) = Some i \<Longrightarrow> i < length (pids s) \<and> pids s ! i = 0"
  unfolding child_free_slot_def by (drule find_in) simp

text \<open>A start: the spawn event, then the entry in the free slot.\<close>

lemma proc_start:
  assumes "child_free_slot (sk_children s) = Some i" and "0 < pid"
  shows "proc_steps s (child_track w i pid t name (say [Ev_spawn pid j] s))"
proof -
  let ?s = "child_track w i pid t name (say [Ev_spawn pid j] s)"
  have "i < length (pids s)" "pids s ! i = 0" using free_slotD [OF assms(1)] by simp_all
  moreover have "pids ?s = (pids s)[i := pid]" "sk_out ?s = sk_out s @ [Ev_spawn pid j]"
    by (simp_all add: child_track_def mono_s_def say_def map_update)
  ultimately have "proc_step s ?s" using assms(2) by (intro proc_step.spawn)
  then show ?thesis ..
qed

lemma child_free_cong [simp]: "sk_children (say es s) = sk_children s" "sk_children (s\<lparr>k_fork := k\<rparr>) = sk_children s"
  by (simp_all add: say_def)

lemma proc_notify_desktop: "\<forall>k. w_fork w k \<noteq> 0 \<Longrightarrow> proc_steps s (notify_desktop w title body s)"
proof (cases "child_free_slot (sk_children s)")
  case None
  then show ?thesis by (simp add: notify_desktop_def proc_say)
next
  case (Some i)
  assume f: "\<forall>k. w_fork w k \<noteq> 0"
  let ?p = "w_fork w (k_fork s)"
  let ?s = "s\<lparr>k_fork := k_fork s + 1\<rparr>"
  have q: "proc_steps s ?s" by (rule proc_quiet) simp_all
  show ?thesis
  proof (cases "?p < 0")
    case True
    with Some q show ?thesis by (simp add: notify_desktop_def do_fork_def)
  next
    case False
    then have "0 < ?p" using f by (simp add: less_le not_less)
    then have "proc_steps ?s (child_track w i ?p NOTIFY_TIMEOUT_S ''notify-send'' (say [Ev_spawn ?p (Job_notify title body)] ?s))"
      using Some by (intro proc_start) simp_all
    with q False Some show ?thesis by (simp add: notify_desktop_def do_fork_def)
  qed
qed

lemma proc_run_action: "\<forall>k. w_fork w k \<noteq> 0 \<Longrightarrow> proc_steps s (run_action_cb w r s)"
proof (cases "child_free_slot (sk_children s)")
  case None
  then show ?thesis by (simp add: run_action_cb_def Let_def proc_say syslog_if_def)
next
  case (Some i)
  assume f: "\<forall>k. w_fork w k \<noteq> 0"
  let ?act = "pol_actions (sk_pol s) ! run_action r"
  define msgs where "msgs = syslog_if s LOG_NOTICE (r_name (pol_rules (sk_pol s) ! run_rule r) @ '': running action '' @
     a_name ?act @ '' for '' @ (case kgp_code_name (al_code (run_alert r)) of Some x \<Rightarrow> x | None \<Rightarrow> ''alert'') @
     '' (tier '' @ fmt_u (run_tier r) @ '', '' @ fmt_u (unat (run_count r)) @ '' occurrence(s))'')"
  define s1 where "s1 = (say msgs s)\<lparr>k_fork := k_fork s + 1\<rparr>"
  let ?p = "w_fork w (k_fork s)"
  have "proc_steps s (say msgs s)" by (rule proc_say) (simp add: msgs_def syslog_if_def)
  also have "proc_steps (say msgs s) s1" by (rule proc_quiet) (simp_all add: s1_def)
  finally have q: "proc_steps s s1" .
  have c: "child_free_slot (sk_children s1) = Some i" using Some by (simp add: s1_def)
  have e: "run_action_cb w r s = (if ?p < 0 then say [Ev_stderr ''kgmon: fork''] s1
      else child_track w i ?p (uint (a_timeout_s ?act)) (a_name ?act) (say [Ev_spawn ?p (Job_action r)] s1))"
    unfolding run_action_cb_def msgs_def [symmetric] s1_def Let_def Some do_fork_def by (simp add: say_def)
  show ?thesis
  proof (cases "?p < 0")
    case True
    have "proc_steps s1 (say [Ev_stderr ''kgmon: fork''] s1)" by (rule proc_say) simp
    with q True show ?thesis by (simp add: e)
  next
    case False
    then have "0 < ?p" using f by (simp add: less_le not_less)
    with q False proc_start [OF c this] show ?thesis by (simp add: e) (meson rtranclp_trans)
  qed
qed

lemma proc_fold_actions: "\<forall>k. w_fork w k \<noteq> 0 \<Longrightarrow> proc_steps s (fold (run_action_cb w) runs s)"
  by (induction runs arbitrary: s) (simp_all, meson proc_run_action rtranclp_trans)

text \<open>Every operation of the monitor, as a run of these steps.\<close>

lemma proc_feed_alert: "\<forall>k. w_fork w k \<noteq> 0 \<Longrightarrow> proc_steps s (feed_alert w a s)"
proof -
  assume f: "\<forall>k. w_fork w k \<noteq> 0"
  obtain incs runs where k: "kgp_alert_op (sk_pol s) (of_int (w_mono w (k_mono s))) a (sk_eng s) = (incs, runs)"
    by fastforce
  let ?s = "s\<lparr>k_mono := k_mono s + 1, sk_eng := incs, sk_calls := sk_calls s @ [Call_alert (of_int (w_mono w (k_mono s))) a]\<rparr>"
  have "proc_steps s ?s" by (rule proc_quiet) simp_all
  also have "proc_steps ?s (fold (run_action_cb w) runs ?s)" by (rule proc_fold_actions [OF f])
  also have "fold (run_action_cb w) runs ?s = feed_alert w a s"
    by (simp add: feed_alert_def mono_s_def k)
  finally show ?thesis .
qed

lemma proc_policy_pseudo: "\<forall>k. w_fork w k \<noteq> 0 \<Longrightarrow> proc_steps s (policy_pseudo w code level seq details s)"
proof -
  assume f: "\<forall>k. w_fork w k \<noteq> 0"
  have "proc_steps s (s\<lparr>k_real := k_real s + 1\<rparr>)" by (rule proc_quiet) simp_all
  from rtranclp_trans [OF this proc_feed_alert [OF f]] show ?thesis by (simp add: policy_pseudo_def)
qed

lemma proc_policy_feed: "\<forall>k. w_fork w k \<noteq> 0 \<Longrightarrow> proc_steps s (policy_feed w n ok details s)"
  by (simp add: policy_feed_def proc_feed_alert proc_policy_pseudo)

lemma proc_emit_alert: "\<forall>k. w_fork w k \<noteq> 0 \<Longrightarrow> proc_steps s (emit_alert w n ok s)"
proof -
  assume f: "\<forall>k. w_fork w k \<noteq> 0"
  note nd = proc_notify_desktop [OF f] and pf = proc_policy_feed [OF f]
  have q: "proc_steps x (x\<lparr>sk_shown := a, sk_emitted := b\<rparr>)" for x a b by (rule proc_quiet) simp_all
  have cond: "proc_steps x (if c then notify_desktop w t d x else x)" for x c t d using nd by simp
  show ?thesis
    unfolding emit_alert_def Let_def
    by (rule rtranclp_trans [OF _ q], rule rtranclp_trans [OF _ pf], rule rtranclp_trans [OF _ cond],
        rule rtranclp_trans [OF _ cond], rule proc_say) simp
qed

lemma proc_try_slot: "proc_steps s (snd (try_slot w k cursor s))"
proof (induction k arbitrary: s)
  case (Suc k)
  have "proc_steps s (s\<lparr>k_slot := k_slot s + 1\<rparr>)" by (rule proc_quiet) simp_all
  with Suc [of "s\<lparr>k_slot := k_slot s + 1\<rparr>"] show ?case
    by (simp add: Let_def) (meson rtranclp_trans)
qed simp

lemma proc_load_index: "proc_steps s (snd (load_index w s))"
  by (rule proc_quiet) (simp_all add: load_index_def)

lemma proc_test_stop: "proc_steps s (snd (test_stop w s))"
  by (rule proc_quiet) (simp_all add: test_stop_def Let_def)

lemma proc_complain:
  "\<forall>k. w_fork w k \<noteq> 0 \<Longrightarrow> proc_steps s (policy_pseudo w code level seq details (say [Ev_stderr msg] s))"
  by (rule rtranclp_trans [OF proc_say proc_policy_pseudo]) simp_all

lemma proc_drain_unread: "\<forall>k. w_fork w k \<noteq> 0 \<Longrightarrow> proc_steps s (drain_unread w cursor s)"
proof -
  assume f: "\<forall>k. w_fork w k \<noteq> 0"
  obtain w2 s2 where l: "load_index w s = (w2, s2)" by fastforce
  have "proc_steps s s2" using proc_load_index [of s w] by (simp add: l)
  from rtranclp_trans [OF this proc_complain [OF f]] show ?thesis
    unfolding drain_unread_def l Let_def prod.case by simp
qed

lemma proc_drain_one: "\<forall>k. w_fork w k \<noteq> 0 \<Longrightarrow> proc_steps s (drain_one w key cursor s)"
proof -
  assume f: "\<forall>k. w_fork w k \<noteq> 0"
  obtain res s1 where r: "try_slot w 50 cursor s = (res, s1)" by fastforce
  have 1: "proc_steps s s1" using proc_try_slot [of s w 50 cursor] by (simp add: r)
  have q: "proc_steps x (if b then x\<lparr>sk_stop := True\<rparr> else x)" for x b by (rule proc_quiet) simp_all
  note un = rtranclp_trans [OF 1 proc_drain_unread [OF f]] and em = rtranclp_trans [OF 1 proc_emit_alert [OF f]]
  show ?thesis
    unfolding drain_one_def r Let_def prod.case
    by (rule rtranclp_trans [OF _ q], cases res) (simp_all add: un em)
qed

lemma proc_drain_loop: "\<forall>k. w_fork w k \<noteq> 0 \<Longrightarrow> proc_steps s (snd (drain_loop w key wi cursor s))"
proof (induction w key wi cursor s rule: drain_loop.induct)
  case (1 w key wi cursor s)
  obtain stop s1 where t: "test_stop w s = (stop, s1)" by fastforce
  have a: "proc_steps s s1" using proc_test_stop [of s w] by (simp add: t)
  show ?case
  proof (cases "cursor = wi \<or> stop")
    case True
    then show ?thesis using a by (subst drain_loop.simps) (auto simp: t)
  next
    case False
    then have "proc_steps (drain_one w key cursor s1) (snd (drain_loop w key wi (cursor + 1) (drain_one w key cursor s1)))"
      using 1(1) [OF _ t [symmetric] refl] 1(2) t by auto
    from rtranclp_trans [OF rtranclp_trans [OF a proc_drain_one [OF 1(2)]] this] show ?thesis
      using False by (simp add: drain_loop.simps [of w key wi cursor s] t)
  qed
qed

lemma proc_drain: "\<forall>k. w_fork w k \<noteq> 0 \<Longrightarrow> proc_steps s (snd (drain w key cursor s))"
proof -
  assume f: "\<forall>k. w_fork w k \<noteq> 0"
  obtain wi s1 where l: "load_index w s = (wi, s1)" by fastforce
  have 1: "proc_steps s s1" using proc_load_index [of s w] by (simp add: l)
  note 2 = rtranclp_trans [OF 1 proc_drain_loop [OF f]]
    and 3 = rtranclp_trans [OF 1 rtranclp_trans [OF proc_complain [OF f] proc_drain_loop [OF f]]]
  show ?thesis unfolding drain_def l Let_def prod.case by (simp add: 2 3)
qed

lemma proc_free:
  assumes "i < length (pids s)" and "\<not> list_ex proc_ev es" and "pids s ! i = pid" and "pid \<noteq> 0" and "ch_pid c = 0"
  shows "proc_steps s ((say (es @ [Ev_reaped pid]) s)\<lparr>sk_children := (sk_children s)[i := c]\<rparr>)"
proof -
  let ?s = "(say (es @ [Ev_reaped pid]) s)\<lparr>sk_children := (sk_children s)[i := c]\<rparr>"
  have "proc_steps s (say es s)" using assms(2) by (rule proc_say)
  moreover have "proc_step (say es s) ?s"
    using assms by (intro proc_step.reap [of i _ pid]) (simp_all add: say_def map_update)
  ultimately show ?thesis ..
qed

lemma proc_reap_one:
  assumes i: "i < length (pids s)"
  shows "proc_steps s (reap_one w wait i s)"
proof (cases "ch_pid (sk_children s ! i) = 0")
  case True
  then show ?thesis by (simp add: reap_one_def Let_def)
next
  case False
  define c where "c = sk_children s ! i"
  have c: "pids s ! i = ch_pid c" "ch_pid c \<noteq> 0" using i False by (simp_all add: c_def)
  note free = proc_free [OF i _ c, of _ "c\<lparr>ch_pid := 0\<rparr>"]
  show ?thesis
  proof (cases "wait (ch_pid c)")
    case Wait_none
    define es where "es = [Ev_stderr (''kgmon: '' @ ch_name c @ '' timed out, killing it'')] @
      syslog_if s LOG_WARNING (ch_name c @ '' timed out and was killed'')"
    define s1 where "s1 = s\<lparr>k_mono := k_mono s + 1\<rparr>"
    define s3 where "s3 = (say (es @ [Ev_kill (- ch_pid c), Ev_kill (ch_pid c)]) s1)\<lparr>k_mono := k_mono s + 2\<rparr>"
    define s4 where "s4 = s3\<lparr>sk_children := (sk_children s3)[i := c\<lparr>ch_deadline := w_mono w (k_mono s + 1) + 5\<rparr>]\<rparr>"
    have e: "reap_one w wait i s = (if ch_deadline c \<le> w_mono w (k_mono s) then s4 else s1)"
      unfolding reap_one_def c_def [symmetric] Let_def mono_s_def
      using c(2) Wait_none by (simp add: es_def s1_def s3_def s4_def say_def)
    have 1: "proc_steps s s1" by (rule proc_quiet) (simp_all add: s1_def)
    have 2: "proc_steps s1 (say es s1)" by (rule proc_say) (simp add: es_def syslog_if_def)
    have "map ch_pid ((sk_children s)[i := c\<lparr>ch_deadline := d\<rparr>]) = pids s" for d
      using i c(1) by (simp add: map_update list_update_same_conv)
    then have "proc_step (say es s1) s4"
      using i c by (intro proc_step.signal [of i _ "ch_pid c"]) (simp_all add: s1_def s3_def s4_def say_def)
    with 1 2 have "proc_steps s s4" by (meson rtranclp.rtrancl_into_rtrancl rtranclp_trans)
    with 1 show ?thesis by (simp add: e)
  qed (use free free [of "[]"] c(2) in \<open>auto simp: reap_one_def c_def [symmetric] Let_def syslog_if_def\<close>)
qed

lemma proc_steps_length: "proc_steps s s' \<Longrightarrow> length (pids s') = length (pids s)"
proof (induction rule: rtranclp_induct)
  case (step s' s'')
  then show ?case by (auto elim!: proc_step.cases dest: arg_cong [where f = length])
qed simp

lemma proc_children_reap:
  assumes "length (pids s) = MAX_CHILDREN"
  shows "proc_steps s (children_reap w wait s)"
proof -
  have "set is \<subseteq> {..<length (pids s)} \<Longrightarrow> proc_steps s (fold (reap_one w wait) is s)" for "is"
  proof (induction "is" arbitrary: s)
    case (Cons i "is")
    then have 1: "proc_steps s (reap_one w wait i s)" by (intro proc_reap_one) simp
    from proc_steps_length [OF this] Cons have "proc_steps (reap_one w wait i s) (fold (reap_one w wait) is (reap_one w wait i s))"
      by (intro Cons.IH) auto
    with 1 show ?case by simp
  qed simp
  then show ?thesis using assms unfolding children_reap_def by (simp add: atLeast0LessThan)
qed

lemma proc_policy_check_ack: "proc_steps s (policy_check_ack euid file s)"
proof -
  have q: "proc_steps s (s\<lparr>sk_ack_seen := a\<rparr>)" for a by (rule proc_quiet) simp_all
  have q2: "proc_steps s (s\<lparr>sk_ack_seen := a, sk_eng := b, sk_calls := d\<rparr>)" for a b d by (rule proc_quiet) simp_all
  have say1: "proc_steps x (say [Ev_stderr m] x)" "proc_steps x (say (Ev_stderr m # syslog_if y p m') x)" for x y m p m'
    by (rule proc_say, simp add: syslog_if_def)+
  show ?thesis
    unfolding policy_check_ack_def Let_def
    by (simp add: q rtranclp_trans [OF q say1(1)] rtranclp_trans [OF q2 say1(2)] split: option.split prod.split)
qed

lemma proc_policy_tick: "\<forall>k. w_fork w k \<noteq> 0 \<Longrightarrow> proc_steps s (policy_tick w s)"
proof -
  assume f: "\<forall>k. w_fork w k \<noteq> 0"
  obtain incs runs where k: "kgp_tick (sk_pol s) (of_int (w_mono w (k_mono s))) (sk_eng s) = (incs, runs)" by fastforce
  let ?s = "s\<lparr>k_mono := k_mono s + 1, sk_eng := incs, sk_calls := sk_calls s @ [Call_tick (of_int (w_mono w (k_mono s)))]\<rparr>"
  have "proc_steps s ?s" by (rule proc_quiet) simp_all
  from rtranclp_trans [OF this proc_fold_actions [OF f]] show ?thesis by (simp add: policy_tick_def mono_s_def k)
qed

lemma proc_watchdog: "proc_steps s (watchdog_tick w usec s)"
proof -
  have q: "proc_steps x (x\<lparr>k_mono := a\<rparr>)" "proc_steps x (x\<lparr>k_mono := a, sk_wd_next := b\<rparr>)" for x a b
    by (rule proc_quiet, simp_all)+
  have say1: "proc_steps x (say [Ev_sd m] x)" for x m by (rule proc_say) simp
  show ?thesis
    unfolding watchdog_tick_def Let_def mono_s_def
    by (simp add: q rtranclp_trans [OF rtranclp_trans [OF q(1) say1] q(2)] split: option.split)
qed

lemma proc_monitor_turn:
  assumes f: "\<forall>k. w_fork w k \<noteq> 0" and l: "length (pids s) = MAX_CHILDREN"
    and t: "monitor_turn w euid usec key t cursor s = Inr (cursor', s')"
  shows "proc_steps s s'"
proof -
  obtain cursor1 s1 where d: "drain w key cursor s = (cursor1, s1)" by fastforce
  have 1: "proc_steps s s1" using proc_drain [OF f, of s key cursor] by (simp add: d)
  define s2 where "s2 = children_reap w (t_wait t) s1"
  have 2: "proc_steps s1 s2"
    unfolding s2_def using proc_steps_length [OF 1] l by (intro proc_children_reap) simp
  define s3 where "s3 = (if sk_have_policy s2 then policy_tick w (policy_check_ack euid (t_ack t) s2) else s2)"
  have 3: "proc_steps s2 s3"
    using rtranclp_trans [OF proc_policy_check_ack proc_policy_tick [OF f]] by (simp add: s3_def)
  have "s' = watchdog_tick w usec s3"
    using t unfolding monitor_turn_def d Let_def prod.case s2_def [symmetric] s3_def [symmetric] by (simp split: option.splits)
  then show ?thesis using rtranclp_trans [OF rtranclp_trans [OF rtranclp_trans [OF 1 2] 3] proc_watchdog] by simp
qed

lemma proc_monitor_loop:
  assumes f: "\<forall>k. w_fork w k \<noteq> 0"
  shows "length (pids s) = MAX_CHILDREN \<Longrightarrow> monitor_loop w euid usec key ts cursor s = Inr (cursor', s') \<Longrightarrow> proc_steps s s'"
proof (induction ts arbitrary: cursor s)
  case (Cons t ts)
  obtain stop s1 where b: "test_stop w s = (stop, s1)" by fastforce
  have 1: "proc_steps s s1" using proc_test_stop [of s w] by (simp add: b)
  show ?case
  proof (cases "stop \<or> o_once (sk_opts s1)")
    case True
    then show ?thesis using 1 Cons.prems rtranclp_trans [OF 1 proc_say [of "[Ev_sd ''STOPPING=1'']"]]
      by (auto simp: b split: if_splits)
  next
    case False
    then obtain cursor2 s2 where m: "monitor_turn w euid usec key t cursor s1 = Inr (cursor2, s2)"
      and rec: "monitor_loop w euid usec key ts cursor2 s2 = Inr (cursor', s')"
      using Cons.prems(2) by (auto simp: b split: sum.splits)
    have 2: "proc_steps s1 s2" using proc_steps_length [OF 1] Cons.prems(1) by (intro proc_monitor_turn [OF f _ m]) simp
    have "proc_steps s2 s'"
      using proc_steps_length [OF rtranclp_trans [OF 1 2]] Cons.prems(1) rec by (intro Cons.IH) simp_all
    then show ?thesis using rtranclp_trans [OF rtranclp_trans [OF 1 2]] by blast
  qed
qed simp

text \<open>
  C32.  However many alerts arrive, the monitor never has more than 32 helper processes (actions and
  desktop notifications) running at a time, signals only helpers it started and has not reaped, and
  reaps each of them at most once: its trace of starts, signals and reaped processes is one the
  process table allows, and the table is exactly the set of helpers still running.
\<close>

theorem helpers_bounded:
  assumes "\<forall>k. w_fork w k \<noteq> 0"
    and "cmd_monitor w euid usec key opts pol turns = Inr (cursor, s)"
  shows "replay (sk_out s) = Some (live (map ch_pid (sk_children s))) \<and> size (live (map ch_pid (sk_children s))) \<le> MAX_CHILDREN"
proof -
  obtain wi s0 where l: "load_index w (sinks_init opts pol) = (wi, s0)" by fastforce
  obtain cursor1 s1 where d: "drain w key (start_cursor opts wi) s0 = (cursor1, s1)" by fastforce
  define s2 where "s2 = (if o_once opts then s1 else say [Ev_sd (''READY=1'' @ [newline] @ ''STATUS=watching for alerts'')] s1)"
  have 0: "proc_steps (sinks_init opts pol) s0" using proc_load_index [of "sinks_init opts pol" w] by (simp add: l)
  have 1: "proc_steps s0 s1" using proc_drain [OF assms(1), of s0 key "start_cursor opts wi"] by (simp add: d)
  have 2: "proc_steps s1 s2" by (simp add: s2_def proc_say)
  note 3 = rtranclp_trans [OF rtranclp_trans [OF 0 1] 2]
  have init: "table_inv (sinks_init opts pol)"
    by (simp add: table_inv_def sinks_init_def replay_def live_def)
  then have "length (pids s2) = MAX_CHILDREN" using proc_steps_length [OF 3] by (simp add: table_inv_def)
  moreover have "monitor_loop w euid usec key turns cursor1 s2 = Inr (cursor, s)"
    using assms(2) by (simp add: cmd_monitor_def l d s2_def Let_def)
  ultimately have "proc_steps s2 s" by (rule proc_monitor_loop [OF assms(1)])
  with 3 init have "table_inv s" using proc_steps_inv rtranclp_trans by blast
  then show ?thesis
    using length_filter_le [of "\<lambda>p. p \<noteq> 0" "pids s"] unfolding table_inv_def live_def by (simp only: size_mset length_map)
qed

lemma monitor_loop_total:
  "\<forall>t \<in> set ts. poll_error (t_poll t) = None \<Longrightarrow> \<exists>cursor' s'. monitor_loop w euid usec key ts cursor s = Inr (cursor', s')"
proof (induction ts arbitrary: cursor s)
  case (Cons t ts)
  obtain stop s1 where b: "test_stop w s = (stop, s1)" by fastforce
  obtain cursor1 s2 where "monitor_turn w euid usec key t cursor s1 = Inr (cursor1, s2)"
    using Cons.prems by (cases "drain w key cursor s1") (simp add: monitor_turn_def Let_def)
  with Cons show ?case by (simp add: b)
qed simp

lemma cmd_monitor_total:
  "\<forall>t \<in> set ts. poll_error (t_poll t) = None \<Longrightarrow> \<exists>cursor s. cmd_monitor w euid usec key opts pol ts = Inr (cursor, s)"
  by (simp add: cmd_monitor_def Let_def monitor_loop_total split: prod.split)

definition example_opts :: mon_opts where
  "example_opts = \<lparr>o_syslog = True, o_notify = True, o_once = False, o_new_only = False, o_quiet = False, o_log = True,
     o_ack_path = ''/run/kernelguard/ack'', o_max_alerts = 0\<rparr>"

text \<open>A world in which nothing moves: the ring is still, time stands at one second, no signal arrives.\<close>

definition still_world :: "kg_shared_region \<Rightarrow> mon_world" where
  "still_world r =
     \<lparr>w_mono = (\<lambda>k. 1), w_real = (\<lambda>k. 1000000000), w_fork = (\<lambda>k. 100 + int k), w_ts = (\<lambda>t. ''2024-01-01 00:00:00.000''),
      w_index = (\<lambda>k. write_index r),
      w_slot = (\<lambda>k i. (n_magic (notifications r ! i), notifications r ! i, n_magic (notifications r ! i))),
      w_signal = (\<lambda>k. False)\<rparr>"

definition idle_turn :: turn where
  "idle_turn = \<lparr>t_poll = Poll_readable, t_wait = (\<lambda>p. Wait_none), t_ack = None\<rparr>"

theorem helpers_bounded_witness:
  "\<exists>cursor s. cmd_monitor (still_world (ring_publish (sample_notification 0 1) zero_ring)) 0 None (replicate 32 7) example_opts
      (Some example_policy) [idle_turn, idle_turn] = Inr (cursor, s) \<and>
    replay (sk_out s) = Some (live (map ch_pid (sk_children s))) \<and> size (live (map ch_pid (sk_children s))) \<le> MAX_CHILDREN"
proof -
  let ?w = "still_world (ring_publish (sample_notification 0 1) zero_ring)"
  obtain cursor s where c: "cmd_monitor ?w 0 None (replicate 32 7) example_opts (Some example_policy) [idle_turn, idle_turn] = Inr (cursor, s)"
    using cmd_monitor_total [of "[idle_turn, idle_turn]" ?w 0 None "replicate 32 7" example_opts "Some example_policy"]
    by (auto simp: idle_turn_def poll_error_def)
  have "\<forall>k. w_fork ?w k \<noteq> 0" by (simp add: still_world_def)
  from helpers_bounded [OF this c] c show ?thesis by blast
qed

section \<open>The engine of the monitor\<close>

fun action_of_ev :: "mon_ev \<Rightarrow> kgp_run list" where
  "action_of_ev (Ev_spawn p (Job_action r)) = [r]"
| "action_of_ev e = []"

definition actions_of :: "mon_ev list \<Rightarrow> kgp_run list" where
  "actions_of es = concat (map action_of_ev es)"

text \<open>The alerts the monitor draws up itself, for a given sequence number.\<close>

definition pseudo_text :: "u32 \<Rightarrow> u32 \<Rightarrow> int \<Rightarrow> string \<Rightarrow> bool" where
  "pseudo_text seq code level d \<longleftrightarrow>
     (code, level, d) = (KGP_ALERT_FORGED, KGP_FORGED, ''notification '' @ fmt_u (unat seq) @ '' failed HMAC verification'') \<or>
     (code, level, d) = (KGP_ALERT_TAMPER, KGP_FORGED,
        ''slot for notification '' @ fmt_u (unat seq) @ '' is unreadable or has a wrong sequence number'') \<or>
     (code, level, d) = (KGP_ALERT_OVERRUN, KGP_CRITICAL,
        ''notification '' @ fmt_u (unat seq) @ '' was overwritten before it could be read'') \<or>
     (\<exists>lost. (code, level, d) = (KGP_ALERT_OVERRUN, KGP_CRITICAL, fmt_u lost @ '' notification(s) lost: the ring was lapped''))"

definition from_ring :: "mon_world \<Rightarrow> kg_notification \<Rightarrow> bool" where
  "from_ring w n \<longleftrightarrow> (\<exists>k i. fst (snd (w_slot w k i)) = n)"

definition alert_ok :: "mon_world \<Rightarrow> bytes \<Rightarrow> kgp_alert \<Rightarrow> bool" where
  "alert_ok w key a \<longleftrightarrow>
     (\<exists>n. from_ring w n \<and> verdict key n \<and> a = notification_alert n (format_details n KGP_DETAILS_LEN)) \<or>
     (\<exists>now seq code level d. pseudo_text seq code level d \<and> a = pseudo_alert now code level seq d)"

fun call_ok :: "mon_world \<Rightarrow> bytes \<Rightarrow> eng_call \<Rightarrow> bool" where
  "call_ok w key (Call_alert now a) = alert_ok w key a"
| "call_ok w key c = True"

inductive eng_step :: "mon_world \<Rightarrow> bytes \<Rightarrow> sinks \<Rightarrow> sinks \<Rightarrow> bool" for w key where
  same: "sk_pol s' = sk_pol s \<Longrightarrow> sk_eng s' = sk_eng s \<Longrightarrow> sk_calls s' = sk_calls s \<Longrightarrow>
    actions_of (sk_out s') = actions_of (sk_out s) \<Longrightarrow> sk_emitted s' = sk_emitted s \<Longrightarrow> eng_step w key s s'"
| shown: "sk_pol s' = sk_pol s \<Longrightarrow> sk_eng s' = sk_eng s \<Longrightarrow> sk_calls s' = sk_calls s \<Longrightarrow>
    actions_of (sk_out s') = actions_of (sk_out s) \<Longrightarrow> from_ring w n \<Longrightarrow>
    sk_emitted s' = sk_emitted s @ [(n, verdict key n)] \<Longrightarrow> eng_step w key s s'"
| call: "sk_pol s' = sk_pol s \<Longrightarrow> eng_do (sk_pol s) c (sk_eng s) = (sk_eng s', runs) \<Longrightarrow> call_ok w key c \<Longrightarrow>
    sk_calls s' = sk_calls s @ [c] \<Longrightarrow> actions_of (sk_out s') = actions_of (sk_out s) @ rs \<Longrightarrow> subseq rs runs \<Longrightarrow>
    sk_emitted s' = sk_emitted s \<Longrightarrow> eng_step w key s s'"

definition engine_inv :: "mon_world \<Rightarrow> bytes \<Rightarrow> sinks \<Rightarrow> bool" where
  "engine_inv w key s \<longleftrightarrow>
     (\<exists>runs. eng_run (sk_pol s) (sk_calls s) kgp_init = (sk_eng s, runs) \<and> subseq (actions_of (sk_out s)) runs) \<and>
     (\<forall>c \<in> set (sk_calls s). call_ok w key c) \<and>
     (\<forall>(n, ok) \<in> set (sk_emitted s). from_ring w n \<and> ok = verdict key n)"

lemma eng_run_snoc:
  "eng_run pol cs incs = (incs1, runs1) \<Longrightarrow> eng_do pol c incs1 = (incs2, runs2) \<Longrightarrow>
   eng_run pol (cs @ [c]) incs = (incs2, runs1 @ runs2)"
proof (induction cs arbitrary: incs incs1 runs1)
  case (Cons d cs)
  obtain i1 r1 where d: "eng_do pol d incs = (i1, r1)" by fastforce
  obtain i2 r2 where e: "eng_run pol cs i1 = (i2, r2)" by fastforce
  from Cons.prems d e have "i2 = incs1" "runs1 = r1 @ r2" by auto
  with Cons.IH [OF e] Cons.prems(2) d show ?case by simp
qed simp

lemma eng_step_inv: "eng_step w key s s' \<Longrightarrow> engine_inv w key s \<Longrightarrow> engine_inv w key s'"
proof (induction rule: eng_step.induct)
  case (same s' s)
  then show ?case by (simp add: engine_inv_def)
next
  case (shown s' s n)
  then show ?case by (auto simp: engine_inv_def)
next
  case (call s' s c runs rs)
  then obtain runs0 where "eng_run (sk_pol s) (sk_calls s) kgp_init = (sk_eng s, runs0)" "subseq (actions_of (sk_out s)) runs0"
    by (auto simp: engine_inv_def)
  with eng_run_snoc [OF this(1) call(2)] call show ?case
    by (auto simp: engine_inv_def list_emb_append_mono)
qed

abbreviation eng_steps :: "mon_world \<Rightarrow> bytes \<Rightarrow> sinks \<Rightarrow> sinks \<Rightarrow> bool" where
  "eng_steps w key \<equiv> (eng_step w key)\<^sup>*\<^sup>*"

lemma eng_steps_inv: "eng_steps w key s s' \<Longrightarrow> engine_inv w key s \<Longrightarrow> engine_inv w key s'"
  by (induction rule: rtranclp_induct) (simp_all add: eng_step_inv)

text \<open>What the helper operations leave alone.\<close>

definition eview :: "sinks \<Rightarrow> kgp_policy \<times> incidents \<times> eng_call list \<times> (kg_notification \<times> bool) list \<times> bool \<times> mon_opts" where
  "eview s = (sk_pol s, sk_eng s, sk_calls s, sk_emitted s, sk_have_policy s, sk_opts s)"

lemma eng_same: "eview s' = eview s \<Longrightarrow> actions_of (sk_out s') = actions_of (sk_out s) \<Longrightarrow> eng_steps w key s s'"
  by (intro r_into_rtranclp eng_step.same) (simp_all add: eview_def)

lemma actions_of_append [simp]: "actions_of (a @ b) = actions_of a @ actions_of b"
  by (simp add: actions_of_def)

lemma actions_of_quiet: "\<not> list_ex proc_ev es \<Longrightarrow> actions_of es = []"
proof (induction es)
  case (Cons e es)
  then show ?case by (cases e) (simp_all add: actions_of_def)
qed (simp add: actions_of_def)

lemma actions_of_Nil [simp]: "actions_of [] = []"
  by (simp add: actions_of_def)

lemma actions_of_Cons [simp]: "actions_of (e # es) = action_of_ev e @ actions_of es"
  by (simp add: actions_of_def)

lemma eview_say [simp]: "eview (say es s) = eview s"
  by (simp add: eview_def say_def)

lemma out_say [simp]: "sk_out (say es s) = sk_out s @ es"
  by (simp add: say_def)

lemma eview_child_track [simp]: "eview (child_track w i pid t name s) = eview s"
  and out_child_track [simp]: "sk_out (child_track w i pid t name s) = sk_out s"
  by (simp_all add: child_track_def mono_s_def eview_def)

lemma actions_of_syslog [simp]: "actions_of (syslog_if s p m) = []"
  by (simp add: syslog_if_def)

lemma eview_upd [simp]:
  "eview (s\<lparr>k_mono := k\<rparr>) = eview s" "eview (s\<lparr>k_real := k\<rparr>) = eview s" "eview (s\<lparr>k_fork := k\<rparr>) = eview s"
  "eview (s\<lparr>k_index := k\<rparr>) = eview s" "eview (s\<lparr>k_slot := k\<rparr>) = eview s" "eview (s\<lparr>k_signal := k\<rparr>) = eview s"
  "eview (s\<lparr>sk_stop := b\<rparr>) = eview s" "eview (s\<lparr>sk_shown := v\<rparr>) = eview s" "eview (s\<lparr>sk_children := cs\<rparr>) = eview s"
  "eview (s\<lparr>sk_ack_seen := a\<rparr>) = eview s" "eview (s\<lparr>sk_wd_next := v\<rparr>) = eview s"
  by (simp_all add: eview_def)

lemma notify_desktop_frame [simp]:
  "eview (notify_desktop w title body s) = eview s"
  "actions_of (sk_out (notify_desktop w title body s)) = actions_of (sk_out s)"
  by (simp_all add: notify_desktop_def do_fork_def split: option.split)

lemma reap_one_frame [simp]:
  "eview (reap_one w wait i s) = eview s" "actions_of (sk_out (reap_one w wait i s)) = actions_of (sk_out s)"
  by (simp_all add: reap_one_def Let_def mono_s_def split: wait_res.split)

lemma children_reap_frame [simp]:
  "eview (children_reap w wait s) = eview s" "actions_of (sk_out (children_reap w wait s)) = actions_of (sk_out s)"
proof -
  have "eview (fold (reap_one w wait) is s) = eview s \<and>
      actions_of (sk_out (fold (reap_one w wait) is s)) = actions_of (sk_out s)" for "is"
    by (induction "is" arbitrary: s) simp_all
  then show "eview (children_reap w wait s) = eview s" "actions_of (sk_out (children_reap w wait s)) = actions_of (sk_out s)"
    by (simp_all add: children_reap_def)
qed

lemma watchdog_frame [simp]:
  "eview (watchdog_tick w usec s) = eview s" "actions_of (sk_out (watchdog_tick w usec s)) = actions_of (sk_out s)"
  by (simp_all add: watchdog_tick_def Let_def mono_s_def split: option.split)

text \<open>A callback starts the action it is asked for, or nothing.\<close>

lemma run_action_frame:
  "eview (run_action_cb w r s) = eview s \<and>
   (\<exists>rs. actions_of (sk_out (run_action_cb w r s)) = actions_of (sk_out s) @ rs \<and> subseq rs [r])"
  by (simp add: run_action_cb_def Let_def do_fork_def split: option.split)

lemma fold_actions_frame:
  "eview (fold (run_action_cb w) runs s) = eview s \<and>
   (\<exists>rs. actions_of (sk_out (fold (run_action_cb w) runs s)) = actions_of (sk_out s) @ rs \<and> subseq rs runs)"
proof (induction runs arbitrary: s)
  case (Cons r runs)
  obtain rs1 where 1: "actions_of (sk_out (run_action_cb w r s)) = actions_of (sk_out s) @ rs1" "subseq rs1 [r]"
    using run_action_frame by blast
  obtain rs2 where 2: "actions_of (sk_out (fold (run_action_cb w) runs (run_action_cb w r s))) =
      actions_of (sk_out (run_action_cb w r s)) @ rs2" "subseq rs2 runs"
    using Cons.IH by blast
  have "subseq (rs1 @ rs2) ([r] @ runs)" using 1(2) 2(2) by (rule list_emb_append_mono)
  with 1 2 Cons.IH [of "run_action_cb w r s"] run_action_frame [of w r s] show ?case by auto
qed simp

lemma eng_feed:
  assumes ok: "call_ok w key c" and d: "eng_do (sk_pol s) c (sk_eng s) = (incs, runs)"
    and s1: "eview s1 = (sk_pol s, incs, sk_calls s @ [c], sk_emitted s, sk_have_policy s, sk_opts s)" "sk_out s1 = sk_out s"
  shows "eng_steps w key s (fold (run_action_cb w) runs s1)"
proof -
  let ?s = "fold (run_action_cb w) runs s1"
  obtain rs where rs: "actions_of (sk_out ?s) = actions_of (sk_out s1) @ rs" "subseq rs runs" using fold_actions_frame by blast
  have "eview ?s = eview s1" using fold_actions_frame by blast
  with s1 have "sk_pol ?s = sk_pol s" "sk_eng ?s = incs" "sk_calls ?s = sk_calls s @ [c]" "sk_emitted ?s = sk_emitted s"
    by (simp_all add: eview_def)
  then have "eng_step w key s ?s" using ok d rs s1(2) by (intro eng_step.call [where c = c and runs = runs and rs = rs]) simp_all
  then show ?thesis ..
qed

lemma eng_feed_alert: "alert_ok w key a \<Longrightarrow> eng_steps w key s (feed_alert w a s)"
proof -
  assume ok: "alert_ok w key a"
  let ?now = "of_int (w_mono w (k_mono s)) :: u64"
  obtain incs runs where d: "kgp_alert_op (sk_pol s) ?now a (sk_eng s) = (incs, runs)" by fastforce
  have "eng_steps w key s (fold (run_action_cb w) runs
      (s\<lparr>k_mono := k_mono s + 1, sk_eng := incs, sk_calls := sk_calls s @ [Call_alert ?now a]\<rparr>))"
    using ok d by (intro eng_feed [where c = "Call_alert ?now a"]) (simp_all add: eview_def)
  then show ?thesis by (simp add: feed_alert_def mono_s_def d)
qed

lemma eng_policy_pseudo: "pseudo_text seq code level d \<Longrightarrow> eng_steps w key s (policy_pseudo w code level seq d s)"
proof -
  assume "pseudo_text seq code level d"
  then have "alert_ok w key (pseudo_alert now code level seq d)" for now unfolding alert_ok_def by blast
  moreover have "eng_steps w key s (s\<lparr>k_real := k_real s + 1\<rparr>)" by (rule eng_same) simp_all
  ultimately show ?thesis unfolding policy_pseudo_def
    by (auto intro: rtranclp_trans eng_feed_alert)
qed

lemma eng_emit_alert:
  assumes "from_ring w n" and "ok = verdict key n"
  shows "eng_steps w key s (emit_alert w n ok s)"
proof -
  have pf: "eng_steps w key x (policy_feed w n ok (format_details n KGP_DETAILS_LEN) x)" for x
  proof (cases ok)
    case True
    then have "alert_ok w key (notification_alert n (format_details n KGP_DETAILS_LEN))"
      using assms unfolding alert_ok_def by blast
    with True show ?thesis by (simp add: policy_feed_def eng_feed_alert)
  next
    case False
    then show ?thesis by (simp add: policy_feed_def eng_policy_pseudo pseudo_text_def)
  qed
  have q: "eng_steps w key x (x\<lparr>sk_shown := v, sk_emitted := sk_emitted x @ [(n, ok)]\<rparr>)" for x v
    using assms by (intro r_into_rtranclp eng_step.shown) simp_all
  have cond: "eng_steps w key x (if c then notify_desktop w t d x else x)" for x c t d
    by (rule eng_same) simp_all
  show ?thesis
    unfolding emit_alert_def Let_def
    by (rule rtranclp_trans [OF _ q], rule rtranclp_trans [OF _ pf], rule rtranclp_trans [OF _ cond],
        rule rtranclp_trans [OF _ cond], rule eng_same) simp_all
qed

lemma try_slot_frame: "try_slot w k cursor s = (res, s') \<Longrightarrow>
   eview s' = eview s \<and> sk_out s' = sk_out s \<and> (\<forall>n. res = SLOT_OK n \<longrightarrow> from_ring w n)"
proof (induction k arbitrary: s)
  case (Suc k)
  show ?case
  proof (cases "read_slot (w_slot w (k_slot s) (slot_of cursor)) cursor")
    case SLOT_RETRY
    with Suc show ?thesis by fastforce
  next
    case (SLOT_OK n)
    then have "from_ring w n"
      by (auto simp: read_slot_def from_ring_def split: prod.splits if_splits) (metis fst_conv snd_conv)
    with Suc.prems SLOT_OK show ?thesis by (auto simp: Let_def)
  next
    case SLOT_BAD
    with Suc.prems show ?thesis by (auto simp: Let_def)
  qed
qed simp

lemma eng_complain:
  "pseudo_text seq code level d \<Longrightarrow> eng_steps w key s (policy_pseudo w code level seq d (say [Ev_stderr msg] s))"
  by (rule rtranclp_trans [OF eng_same eng_policy_pseudo]) simp_all

lemma eng_drain_unread: "eng_steps w key s (drain_unread w cursor s)"
proof -
  obtain w2 s2 where l: "load_index w s = (w2, s2)" by fastforce
  have 1: "eng_steps w key s s2" using l by (intro eng_same) (auto simp: load_index_def)
  show ?thesis
    unfolding drain_unread_def l Let_def prod.case
    by (rule rtranclp_trans [OF 1]) (simp add: eng_complain pseudo_text_def)
qed

lemma eng_drain_one: "eng_steps w key s (drain_one w key cursor s)"
proof -
  obtain res s1 where r: "try_slot w 50 cursor s = (res, s1)" by fastforce
  note f = try_slot_frame [OF r]
  have 1: "eng_steps w key s s1" using f by (intro eng_same) simp_all
  have q: "eng_steps w key x (if b then x\<lparr>sk_stop := True\<rparr> else x)" for x b by (rule eng_same) simp_all
  have em: "eng_steps w key s (emit_alert w n (verdict key n) s1)" if "res = SLOT_OK n" for n
    using f that rtranclp_trans [OF 1 eng_emit_alert] by blast
  show ?thesis
    unfolding drain_one_def r Let_def prod.case
    by (rule rtranclp_trans [OF _ q], cases res) (simp_all add: em rtranclp_trans [OF 1 eng_drain_unread])
qed

lemma eng_drain_loop: "eng_steps w key s (snd (drain_loop w key wi cursor s))"
proof (induction w key wi cursor s rule: drain_loop.induct)
  case (1 w key wi cursor s)
  obtain stop s1 where t: "test_stop w s = (stop, s1)" by fastforce
  have a: "eng_steps w key s s1" using t by (intro eng_same) (auto simp: test_stop_def Let_def)
  show ?case
  proof (cases "cursor = wi \<or> stop")
    case True
    then show ?thesis using a by (subst drain_loop.simps) (auto simp: t)
  next
    case False
    then have "eng_steps w key (drain_one w key cursor s1) (snd (drain_loop w key wi (cursor + 1) (drain_one w key cursor s1)))"
      using 1 [OF _ t [symmetric] refl] t by auto
    from rtranclp_trans [OF rtranclp_trans [OF a eng_drain_one] this] show ?thesis
      using False by (simp add: drain_loop.simps [of w key wi cursor s] t)
  qed
qed

lemma eng_drain: "eng_steps w key s (snd (drain w key cursor s))"
proof -
  obtain wi s1 where l: "load_index w s = (wi, s1)" by fastforce
  have 1: "eng_steps w key s s1" using l by (intro eng_same) (auto simp: load_index_def)
  have p: "pseudo_text cursor KGP_ALERT_OVERRUN KGP_CRITICAL (fmt_u lost @ '' notification(s) lost: the ring was lapped'')" for lost
    by (auto simp: pseudo_text_def)
  note 2 = rtranclp_trans [OF 1 eng_drain_loop]
    and 3 = rtranclp_trans [OF 1 rtranclp_trans [OF eng_complain [OF p] eng_drain_loop]]
  show ?thesis unfolding drain_def l Let_def prod.case by (simp add: 2 3)
qed

lemma eng_policy_check_ack: "eng_steps w key s (policy_check_ack euid file s)"
proof -
  have q: "eng_steps w key s (s\<lparr>sk_ack_seen := a\<rparr>)" for a by (rule eng_same) simp_all
  have st: "eng_steps w key s (say (Ev_stderr m # syslog_if y p m')
      (s\<lparr>sk_ack_seen := a, sk_eng := kgp_ack seq (sk_eng s), sk_calls := sk_calls s @ [Call_ack seq]\<rparr>))" for a seq m y p m'
    by (intro r_into_rtranclp eng_step.call [where c = "Call_ack seq" and runs = "[]" and rs = "[]"]) (simp_all add: say_def)
  have say1: "eng_steps w key s (say [Ev_stderr m] (s\<lparr>sk_ack_seen := a\<rparr>))" for a m by (rule eng_same) simp_all
  show ?thesis
    unfolding policy_check_ack_def Let_def
    by (simp add: q st say1 split: option.split prod.split)
qed

lemma eng_policy_tick: "eng_steps w key s (policy_tick w s)"
proof -
  let ?now = "of_int (w_mono w (k_mono s)) :: u64"
  obtain incs runs where d: "kgp_tick (sk_pol s) ?now (sk_eng s) = (incs, runs)" by fastforce
  have "eng_steps w key s (fold (run_action_cb w) runs
      (s\<lparr>k_mono := k_mono s + 1, sk_eng := incs, sk_calls := sk_calls s @ [Call_tick ?now]\<rparr>))"
    using d by (intro eng_feed [where c = "Call_tick ?now"]) (simp_all add: eview_def)
  then show ?thesis by (simp add: policy_tick_def mono_s_def d)
qed

lemma eng_monitor_turn:
  assumes "monitor_turn w euid usec key t cursor s = Inr (cursor', s')"
  shows "eng_steps w key s s'"
proof -
  obtain cursor1 s1 where d: "drain w key cursor s = (cursor1, s1)" by fastforce
  have 1: "eng_steps w key s s1" using eng_drain [of w key s cursor] by (simp add: d)
  define s2 where "s2 = children_reap w (t_wait t) s1"
  have 2: "eng_steps w key s1 s2" unfolding s2_def by (rule eng_same) simp_all
  define s3 where "s3 = (if sk_have_policy s2 then policy_tick w (policy_check_ack euid (t_ack t) s2) else s2)"
  have 3: "eng_steps w key s2 s3" using rtranclp_trans [OF eng_policy_check_ack eng_policy_tick] by (simp add: s3_def)
  have 4: "eng_steps w key s3 (watchdog_tick w usec s3)" by (rule eng_same) simp_all
  have "s' = watchdog_tick w usec s3"
    using assms unfolding monitor_turn_def d Let_def prod.case s2_def [symmetric] s3_def [symmetric] by (simp split: option.splits)
  then show ?thesis using rtranclp_trans [OF rtranclp_trans [OF rtranclp_trans [OF 1 2] 3] 4] by simp
qed

lemma eng_monitor_loop: "monitor_loop w euid usec key ts cursor s = Inr (cursor', s') \<Longrightarrow> eng_steps w key s s'"
proof (induction ts arbitrary: cursor s)
  case (Cons t ts)
  obtain stop s1 where b: "test_stop w s = (stop, s1)" by fastforce
  have 1: "eng_steps w key s s1" using b by (intro eng_same) (auto simp: test_stop_def Let_def)
  show ?case
  proof (cases "stop \<or> o_once (sk_opts s1)")
    case True
    have "eng_steps w key s1 (say [Ev_sd ''STOPPING=1''] s1)" by (rule eng_same) simp_all
    then show ?thesis using True 1 Cons.prems by (auto simp: b split: if_splits)
  next
    case False
    then obtain cursor2 s2 where m: "monitor_turn w euid usec key t cursor s1 = Inr (cursor2, s2)"
      and rec: "monitor_loop w euid usec key ts cursor2 s2 = Inr (cursor', s')"
      using Cons.prems by (auto simp: b split: sum.splits)
    show ?thesis using rtranclp_trans [OF rtranclp_trans [OF 1 eng_monitor_turn [OF m]] Cons.IH [OF rec]] .
  qed
qed simp

lemma eng_steps_pol: "eng_steps w key s s' \<Longrightarrow> sk_pol s' = sk_pol s"
proof (induction rule: rtranclp_induct)
  case (step s' s'')
  then show ?case by (auto elim: eng_step.cases)
qed simp

lemma cmd_monitor_engine:
  assumes "cmd_monitor w euid usec key opts pol turns = Inr (cursor, s)"
  shows "engine_inv w key s \<and> sk_pol s = sk_pol (sinks_init opts pol)"
proof -
  obtain wi s0 where l: "load_index w (sinks_init opts pol) = (wi, s0)" by fastforce
  obtain cursor1 s1 where d: "drain w key (start_cursor opts wi) s0 = (cursor1, s1)" by fastforce
  define s2 where "s2 = (if o_once opts then s1 else say [Ev_sd (''READY=1'' @ [newline] @ ''STATUS=watching for alerts'')] s1)"
  have 0: "eng_steps w key (sinks_init opts pol) s0" using l by (intro eng_same) (auto simp: load_index_def)
  have 1: "eng_steps w key s0 s1" using eng_drain [of w key s0 "start_cursor opts wi"] by (simp add: d)
  have 2: "eng_steps w key s1 s2" unfolding s2_def by (rule eng_same) simp_all
  have "monitor_loop w euid usec key turns cursor1 s2 = Inr (cursor, s)"
    using assms by (simp add: cmd_monitor_def l d s2_def Let_def)
  from rtranclp_trans [OF rtranclp_trans [OF rtranclp_trans [OF 0 1] 2] eng_monitor_loop [OF this]]
  have all: "eng_steps w key (sinks_init opts pol) s" .
  moreover have "engine_inv w key (sinks_init opts pol)" by (simp add: engine_inv_def sinks_init_def)
  ultimately show ?thesis using eng_steps_inv eng_steps_pol by blast
qed

text \<open>
  C5.  Nothing in a notification that failed authentication steers an action.  Whatever the ring holds
  and however it changes, every alert the monitor hands to its policy engine either restates a
  notification read from the ring whose HMAC verifies under the key of the driver, or is one of the three
  alerts the monitor draws up itself, with zero parameters and a fixed text that carries no more than
  a sequence number or a count.
\<close>

theorem forged_never_steers:
  assumes "cmd_monitor w euid usec key opts pol turns = Inr (cursor, s)"
    and "Call_alert now a \<in> set (sk_calls s)"
  shows "(\<exists>n. from_ring w n \<and> (\<forall>i < KG_HMAC_SIZE. kg_hmac_sha256 key (auth_bytes n) ! i = n_hmac n ! i) \<and>
              a = notification_alert n (format_details n KGP_DETAILS_LEN)) \<or>
         (\<exists>t seq code level d. pseudo_text seq code level d \<and> a = pseudo_alert t code level seq d)"
proof -
  have "call_ok w key (Call_alert now a)"
    using cmd_monitor_engine [OF assms(1)] assms(2) by (simp only: engine_inv_def)
  then show ?thesis by (simp only: call_ok.simps alert_ok_def verdict_def kg_ct_equal_nth)
qed

text \<open>
   The monitor runs the policy engine and nothing else starts actions: the engine state is that of the
  calls made (alerts, ticks, acknowledgements, in order) from the initial state under the loaded
  policy, and the actions started are, in order and without repetition, among those the engine
  decided in these calls.
\<close>

theorem monitor_runs_engine:
  assumes "cmd_monitor w euid usec key opts (Some p) turns = Inr (cursor, s)"
  shows "\<exists>runs. eng_run p (sk_calls s) kgp_init = (sk_eng s, runs) \<and> subseq (actions_of (sk_out s)) runs"
  using cmd_monitor_engine [OF assms] by (auto simp: engine_inv_def sinks_init_def)

section \<open>Draining a still ring\<close>

text \<open>
  The specification of \<open>drain\<close> while no notification is published: a report for every slot of the
  window between the cursor and the write index, whatever the ring holds.
\<close>

definition still :: "mon_world \<Rightarrow> kg_shared_region \<Rightarrow> u64 \<Rightarrow> bool" where
  "still w r now \<longleftrightarrow>
     (\<forall>k. w_index w k = write_index r) \<and> (\<forall>k. w_real w k = now) \<and> (\<forall>k. \<not> w_signal w k) \<and>
     (\<forall>k i. w_slot w k i = (n_magic (notifications r ! i), notifications r ! i, n_magic (notifications r ! i)))"

definition slot_valid :: "kg_shared_region \<Rightarrow> u32 \<Rightarrow> bool" where
  "slot_valid r cursor \<longleftrightarrow>
     n_magic (notifications r ! slot_of cursor) = KG_NOTIFY_MAGIC \<and> n_sequence (notifications r ! slot_of cursor) = cursor"

definition slot_shown :: "kg_shared_region \<Rightarrow> bytes \<Rightarrow> u32 \<Rightarrow> (kg_notification \<times> bool) list" where
  "slot_shown r key cursor =
     (let n = notifications r ! slot_of cursor in if slot_valid r cursor then [(n, verdict key n)] else [])"

definition slot_alert :: "kg_shared_region \<Rightarrow> bytes \<Rightarrow> u64 \<Rightarrow> u32 \<Rightarrow> kgp_alert" where
  "slot_alert r key now cursor =
     (let n = notifications r ! slot_of cursor; num = fmt_u (unat cursor)
      in if slot_valid r cursor
         then (if verdict key n then notification_alert n (format_details n KGP_DETAILS_LEN)
               else pseudo_alert now KGP_ALERT_FORGED KGP_FORGED cursor (''notification '' @ num @ '' failed HMAC verification''))
         else if of_nat (KG_NOTIFY_SLOTS - 1) < write_index r - cursor
         then pseudo_alert now KGP_ALERT_OVERRUN KGP_CRITICAL cursor
                (''notification '' @ num @ '' was overwritten before it could be read'')
         else pseudo_alert now KGP_ALERT_TAMPER KGP_FORGED cursor
                (''slot for notification '' @ num @ '' is unreadable or has a wrong sequence number''))"

definition cursors :: "u32 \<Rightarrow> u32 \<Rightarrow> u32 list" where
  "cursors start fin = map (\<lambda>j. start + of_nat j) [0 ..< unat (fin - start)]"

fun alert_of_call :: "eng_call \<Rightarrow> kgp_alert list" where
  "alert_of_call (Call_alert now a) = [a]"
| "alert_of_call c = []"

definition alerts_of :: "eng_call list \<Rightarrow> kgp_alert list" where
  "alerts_of cs = concat (map alert_of_call cs)"

lemma alerts_of_snoc [simp]: "alerts_of (cs @ [c]) = alerts_of cs @ alert_of_call c"
  by (simp add: alerts_of_def)

text \<open>The part of the state the reader depends on.\<close>

definition rview :: "sinks \<Rightarrow> mon_opts \<times> bool \<times> bool \<times> (kg_notification \<times> bool) list \<times> kgp_alert list" where
  "rview s = (sk_opts s, sk_stop s, sk_have_policy s, sk_emitted s, alerts_of (sk_calls s))"

lemma rview_upd [simp]:
  "rview (say es s) = rview s"
  "rview (s\<lparr>k_mono := k\<rparr>) = rview s" "rview (s\<lparr>k_real := k\<rparr>) = rview s" "rview (s\<lparr>k_fork := k\<rparr>) = rview s"
  "rview (s\<lparr>k_index := k\<rparr>) = rview s" "rview (s\<lparr>k_slot := k\<rparr>) = rview s" "rview (s\<lparr>k_signal := k\<rparr>) = rview s"
  "rview (s\<lparr>sk_children := cs\<rparr>) = rview s"
  by (simp_all add: rview_def say_def)

lemma rview_child_track [simp]: "rview (child_track w i pid t name s) = rview s"
  by (simp add: child_track_def mono_s_def)

lemma rview_notify_desktop [simp]: "rview (notify_desktop w title body s) = rview s"
  by (simp add: notify_desktop_def do_fork_def split: option.split)

lemma rview_run_action [simp]: "rview (run_action_cb w r s) = rview s"
  by (simp add: run_action_cb_def Let_def do_fork_def split: option.split)

lemma rview_fold_actions [simp]: "rview (fold (run_action_cb w) runs s) = rview s"
  by (induction runs arbitrary: s) simp_all

lemma rview_feed_alert:
  "rview s = (opts, stop, pol, em, al) \<Longrightarrow> rview (feed_alert w a s) = (opts, stop, pol, em, al @ [a])"
  by (cases "kgp_alert_op (sk_pol s) (of_int (w_mono w (k_mono s))) a (sk_eng s)")
    (simp add: feed_alert_def mono_s_def, simp add: rview_def)

lemma rview_policy_pseudo:
  "still w r now \<Longrightarrow> rview s = (opts, stop, True, em, al) \<Longrightarrow>
   rview (policy_pseudo w code level seq d s) = (opts, stop, True, em, al @ [pseudo_alert now code level seq d])"
proof -
  assume w: "still w r now" and v: "rview s = (opts, stop, True, em, al)"
  have "sk_have_policy s" using v by (simp add: rview_def)
  moreover have "w_real w (k_real s) = now" using w by (simp add: still_def)
  ultimately show ?thesis
    using rview_feed_alert [of "s\<lparr>k_real := k_real s + 1\<rparr>" opts stop True em al w] v by (simp add: policy_pseudo_def)
qed

lemma rview_emit_alert:
  assumes w: "still w r now" and v: "rview s = (opts, stop, True, em, al)"
  shows "rview (emit_alert w n ok s) = (opts, stop, True, em @ [(n, ok)],
    al @ [if ok then notification_alert n (format_details n KGP_DETAILS_LEN)
          else pseudo_alert now KGP_ALERT_FORGED KGP_FORGED (n_sequence n)
            (''notification '' @ fmt_u (unat (n_sequence n)) @ '' failed HMAC verification'')])"
proof -
  have p: "rview (policy_feed w n ok d x) = (opts, stop, True, em, al @ [if ok then notification_alert n d
      else pseudo_alert now KGP_ALERT_FORGED KGP_FORGED (n_sequence n)
            (''notification '' @ fmt_u (unat (n_sequence n)) @ '' failed HMAC verification'')])"
    if "rview x = (opts, stop, True, em, al)" for x d
  proof -
    have "sk_have_policy x" using that by (simp add: rview_def)
    then show ?thesis
      using rview_feed_alert [OF that, of w] rview_policy_pseudo [OF w that] by (simp add: policy_feed_def)
  qed
  have q: "rview (x\<lparr>sk_shown := v, sk_emitted := sk_emitted x @ [(n, ok)]\<rparr>) = (opts, stop, True, em @ [(n, ok)], a)"
    if "rview x = (opts, stop, True, em, a)" for x v a
    using that by (simp add: rview_def)
  show ?thesis
    unfolding emit_alert_def Let_def
    by (rule q, rule p) (simp add: v)
qed

lemma try_slot_still:
  assumes "still w r now"
  shows "\<exists>s'. try_slot w (Suc k) cursor s =
      (if slot_valid r cursor then SLOT_OK (notifications r ! slot_of cursor)
       else if n_magic (notifications r ! slot_of cursor) = KG_NOTIFY_MAGIC then SLOT_BAD else SLOT_RETRY, s') \<and> rview s' = rview s"
proof (induction k arbitrary: s)
  case 0
  have "w_slot w j i = (n_magic (notifications r ! i), notifications r ! i, n_magic (notifications r ! i))" for j i
    using assms by (simp add: still_def)
  then show ?case by (auto simp: read_slot_def slot_valid_def Let_def)
next
  case (Suc k)
  have "w_slot w j i = (n_magic (notifications r ! i), notifications r ! i, n_magic (notifications r ! i))" for j i
    using assms by (simp add: still_def)
  then show ?case using Suc [of "s\<lparr>k_slot := k_slot s + 1\<rparr>"]
    by (subst try_slot.simps) (auto simp: read_slot_def slot_valid_def Let_def simp del: try_slot.simps)
qed

lemma rview_drain_unread:
  assumes w: "still w r now" and v: "rview s = (opts, stop, True, em, al)" and bad: "\<not> slot_valid r cursor"
  shows "rview (drain_unread w cursor s) = (opts, stop, True, em, al @ [slot_alert r key now cursor])"
proof -
  have l: "load_index w s = (write_index r, s\<lparr>k_index := k_index s + 1\<rparr>)" using w by (simp add: load_index_def still_def)
  have "rview (say es (s\<lparr>k_index := k_index s + 1\<rparr>)) = (opts, stop, True, em, al)" for es using v by simp
  from rview_policy_pseudo [OF w this] show ?thesis
    unfolding drain_unread_def l Let_def prod.case slot_alert_def using bad by (simp split: if_split)
qed

lemma rview_drain_one:
  assumes w: "still w r now" and v: "rview s = (opts, False, True, em, al)" and m: "o_max_alerts opts = 0"
  shows "rview (drain_one w key cursor s) =
    (opts, False, True, em @ slot_shown r key cursor, al @ [slot_alert r key now cursor])"
proof -
  let ?n = "notifications r ! slot_of cursor"
  obtain s1 where t: "try_slot w 50 cursor s =
      (if slot_valid r cursor then SLOT_OK ?n else if n_magic ?n = KG_NOTIFY_MAGIC then SLOT_BAD else SLOT_RETRY, s1)"
    and v1: "rview s1 = (opts, False, True, em, al)"
    using try_slot_still [OF w, of 49 cursor s] v by (auto simp del: try_slot.simps)
  define s2 where "s2 = (if slot_valid r cursor then emit_alert w ?n (verdict key ?n) s1 else drain_unread w cursor s1)"
  have s2: "rview s2 = (opts, False, True, em @ slot_shown r key cursor, al @ [slot_alert r key now cursor])"
  proof (cases "slot_valid r cursor")
    case True
    then have "n_sequence ?n = cursor" by (simp add: slot_valid_def)
    then show ?thesis
      using True rview_emit_alert [OF w v1, of ?n "verdict key ?n"] by (simp add: s2_def slot_shown_def slot_alert_def Let_def)
  next
    case False
    then show ?thesis using rview_drain_unread [OF w v1 False] by (simp add: s2_def slot_shown_def Let_def)
  qed
  then have "o_max_alerts (sk_opts s2) = 0" using m by (simp add: rview_def)
  then have "drain_one w key cursor s = s2"
    by (cases "slot_valid r cursor") (simp_all add: drain_one_def t s2_def Let_def del: try_slot.simps split: slot_result.split)
  with s2 show ?thesis by simp
qed

lemma cursors_step: "cursor \<noteq> fin \<Longrightarrow> cursors cursor fin = cursor # cursors (cursor + 1) fin"
proof -
  assume "cursor \<noteq> fin"
  then have "fin - cursor \<noteq> 0" by simp
  then have u: "unat (fin - cursor) = Suc (unat (fin - (cursor + 1)))"
    using unat_minus_one [of "fin - cursor"] by (simp add: diff_diff_eq unat_gt_0)
  have "map (\<lambda>j. cursor + of_nat j) [1 ..< Suc n] = map (\<lambda>j. cursor + 1 + of_nat j) [0 ..< n]" for n
    by (simp add: map_Suc_upt [symmetric] comp_def add.assoc del: upt_Suc)
  then show ?thesis unfolding cursors_def u by (simp add: upt_conv_Cons del: upt_Suc)
qed

lemma rview_drain_loop:
  assumes w: "still w r now" and m: "o_max_alerts opts = 0"
  shows "rview s = (opts, False, True, em, al) \<Longrightarrow>
    \<exists>s'. drain_loop w key wi cursor s = (wi, s') \<and>
      rview s' = (opts, False, True, em @ concat (map (slot_shown r key) (cursors cursor wi)),
                  al @ map (slot_alert r key now) (cursors cursor wi))"
proof (induction "unat (wi - cursor)" arbitrary: cursor s em al rule: less_induct)
  case less
  show ?case
  proof (cases "cursor = wi")
    case True
    then show ?thesis using less.prems by (simp add: drain_loop.simps cursors_def)
  next
    case False
    define s1 where "s1 = s\<lparr>sk_stop := False, k_signal := k_signal s + 1\<rparr>"
    have stop: "\<not> sk_stop s" using less.prems by (simp add: rview_def)
    then have t: "test_stop w s = (False, s1)" using w by (simp add: test_stop_def still_def s1_def)
    have v1: "rview s1 = (opts, False, True, em, al)" using less.prems by (simp add: s1_def rview_def)
    note v2 = rview_drain_one [OF w v1 m, of key cursor]
    have "wi - cursor \<noteq> 0" using False by simp
    then have "unat (wi - (cursor + 1)) < unat (wi - cursor)"
      using unat_minus_one [of "wi - cursor"] by (simp add: diff_diff_eq unat_gt_0)
    from less.hyps [OF this v2] show ?thesis
      using False by (simp add: drain_loop.simps [of w key wi cursor] t cursors_step [OF False])
  qed
qed

definition lapped_alert :: "kg_shared_region \<Rightarrow> u64 \<Rightarrow> u32 \<Rightarrow> kgp_alert list" where
  "lapped_alert r now cursor =
     (if of_nat KG_NOTIFY_SLOTS < write_index r - cursor
      then [pseudo_alert now KGP_ALERT_OVERRUN KGP_CRITICAL cursor
              (fmt_u (unat (write_index r - cursor - of_nat KG_NOTIFY_SLOTS)) @ '' notification(s) lost: the ring was lapped'')]
      else [])"

definition window :: "kg_shared_region \<Rightarrow> u32 \<Rightarrow> u32 list" where
  "window r cursor =
     cursors (if of_nat KG_NOTIFY_SLOTS < write_index r - cursor then write_index r - of_nat KG_NOTIFY_SLOTS else cursor)
       (write_index r)"

lemma drain_rview:
  assumes w: "still w r now" and v: "rview s = (opts, False, True, em, al)" and m: "o_max_alerts opts = 0"
  shows "\<exists>s'. drain w key cursor s = (write_index r, s') \<and>
    rview s' = (opts, False, True, em @ concat (map (slot_shown r key) (window r cursor)),
                al @ lapped_alert r now cursor @ map (slot_alert r key now) (window r cursor))"
proof -
  define s1 where "s1 = s\<lparr>k_index := k_index s + 1\<rparr>"
  have l: "load_index w s = (write_index r, s1)" using w by (simp add: load_index_def still_def s1_def)
  have v1: "rview s1 = (opts, False, True, em, al)" using v by (simp add: s1_def)
  have v2: "rview (policy_pseudo w KGP_ALERT_OVERRUN KGP_CRITICAL cursor d (say es s1)) =
      (opts, False, True, em, al @ [pseudo_alert now KGP_ALERT_OVERRUN KGP_CRITICAL cursor d])" for d es
    using v1 by (intro rview_policy_pseudo [OF w]) simp
  show ?thesis
    unfolding drain_def l Let_def prod.case lapped_alert_def window_def
    using rview_drain_loop [OF w m v2, of key] rview_drain_loop [OF w m v1, of key] by simp
qed

text \<open>
  C9.  What \<open>drain\<close> does with a ring that is not being written, whatever bytes it holds: the cursor ends at
  the write index; every slot of the window (the newest sixteen at most) is shown if it is valid and
  has the expected sequence number, with the verdict on its HMAC; and the policy engine is handed, in
  this order, one overrun alert if the ring was lapped and one alert per slot, the notification itself
  if it is authentic and a forged, overrun or tamper alert otherwise.
\<close>

theorem drain_still:
  assumes "still w r now" and "\<not> sk_stop s" and "o_max_alerts (sk_opts s) = 0" and "sk_have_policy s"
  shows "\<exists>s'. drain w key cursor s = (write_index r, s') \<and>
    sk_emitted s' = sk_emitted s @ concat (map (slot_shown r key) (window r cursor)) \<and>
    alerts_of (sk_calls s') = alerts_of (sk_calls s) @ lapped_alert r now cursor @ map (slot_alert r key now) (window r cursor)"
  using drain_rview [OF assms(1) _ assms(3), of s "sk_emitted s" "alerts_of (sk_calls s)" key cursor] assms(2,4)
  by (auto simp: rview_def)

lemma still_still_world: "still (still_world r) r 1000000000"
  by (simp add: still_def still_world_def)

lemma rview_init: "rview (sinks_init opts (Some p)) = (opts, False, True, [], [])"
  by (simp add: rview_def sinks_init_def alerts_of_def)

text \<open>A ring that claims one notification but holds none.\<close>

definition hollow_ring :: kg_shared_region where
  "hollow_ring = zero_ring\<lparr>write_index := 1\<rparr>"

lemma hollow_window: "window hollow_ring 0 = [0]"
  by (simp add: window_def cursors_def hollow_ring_def kg_const)

lemma hollow_alert:
  "slot_alert hollow_ring key now 0 = pseudo_alert now KGP_ALERT_TAMPER KGP_FORGED 0
     (''slot for notification '' @ fmt_u 0 @ '' is unreadable or has a wrong sequence number'')"
  "slot_shown hollow_ring key 0 = []" "lapped_alert hollow_ring now 0 = []" "write_index hollow_ring = 1"
proof -
  have bad: "\<not> slot_valid hollow_ring 0"
    by (simp add: slot_valid_def hollow_ring_def zero_ring_def zero_notification_def slot_of_def kg_const)
  show w: "write_index hollow_ring = 1" by (simp add: hollow_ring_def)
  show "slot_alert hollow_ring key now 0 = pseudo_alert now KGP_ALERT_TAMPER KGP_FORGED 0
     (''slot for notification '' @ fmt_u 0 @ '' is unreadable or has a wrong sequence number'')"
    by (simp only: slot_alert_def Let_def bad if_False w) (simp add: kg_const)
  show "slot_shown hollow_ring key 0 = []" using bad by (simp add: slot_shown_def)
  show "lapped_alert hollow_ring now 0 = []" by (simp add: lapped_alert_def w kg_const)
qed

theorem drain_still_witness:
  "\<exists>s'. drain (still_world hollow_ring) (replicate 32 7) 0 (sinks_init example_opts (Some example_policy)) = (1, s') \<and>
    sk_emitted s' = [] \<and> map al_code (alerts_of (sk_calls s')) = [KGP_ALERT_TAMPER]"
proof -
  have s: "\<not> sk_stop (sinks_init example_opts (Some example_policy))" "sk_have_policy (sinks_init example_opts (Some example_policy))"
    "o_max_alerts (sk_opts (sinks_init example_opts (Some example_policy))) = 0"
    "sk_emitted (sinks_init example_opts (Some example_policy)) = []"
    "alerts_of (sk_calls (sinks_init example_opts (Some example_policy))) = []"
    by (simp_all add: sinks_init_def example_opts_def alerts_of_def)
  have code: "al_code (pseudo_alert now code level seq d) = code" for now code level seq d by (simp add: pseudo_alert_def)
  from drain_still [OF still_still_world [of hollow_ring] s(1,3,2), of "replicate 32 7" 0]
  show ?thesis unfolding hollow_window s(4,5) by (simp only: list.map hollow_alert concat.simps append_Nil) (auto simp: code)
qed

lemma hollow_monitor:
  "\<exists>cursor s now a. cmd_monitor (still_world hollow_ring) 0 None key example_opts (Some example_policy) [] = Inr (cursor, s) \<and>
     Call_alert now a \<in> set (sk_calls s)"
proof -
  let ?w = "still_world hollow_ring" and ?s0 = "(sinks_init example_opts (Some example_policy))\<lparr>k_index := 1\<rparr>"
  have l: "load_index ?w (sinks_init example_opts (Some example_policy)) = (1, ?s0)"
    by (simp add: load_index_def still_world_def hollow_ring_def sinks_init_def)
  have c: "start_cursor example_opts 1 = 0" by (simp add: start_cursor_def example_opts_def kg_const)
  have v: "rview ?s0 = (example_opts, False, True, [], [])" by (simp add: rview_init)
  have m: "o_max_alerts example_opts = 0" by (simp add: example_opts_def)
  obtain s' where d: "drain ?w key 0 ?s0 = (write_index hollow_ring, s')"
    and r: "alerts_of (sk_calls s') = lapped_alert hollow_ring 1000000000 0 @ [slot_alert hollow_ring key 1000000000 0]"
    using drain_rview [OF still_still_world [of hollow_ring] v m, of key 0] by (auto simp: hollow_window rview_def)
  have "slot_alert hollow_ring key 1000000000 0 \<in> set (alerts_of (sk_calls s'))" by (simp add: r)
  then obtain x where x: "x \<in> set (sk_calls s')" "slot_alert hollow_ring key 1000000000 0 \<in> set (alert_of_call x)"
    unfolding alerts_of_def by auto
  then obtain now where "Call_alert now (slot_alert hollow_ring key 1000000000 0) \<in> set (sk_calls s')"
    by (cases x rule: eng_call.exhaust) auto
  then show ?thesis by (auto simp: cmd_monitor_def l c d [unfolded One_nat_def] Let_def say_def)
qed

theorem forged_never_steers_witness:
  "\<exists>cursor s now a. cmd_monitor (still_world hollow_ring) 0 None (replicate 32 7) example_opts (Some example_policy) [] = Inr (cursor, s) \<and>
     Call_alert now a \<in> set (sk_calls s) \<and>
     ((\<exists>n. from_ring (still_world hollow_ring) n \<and>
              (\<forall>i < KG_HMAC_SIZE. kg_hmac_sha256 (replicate 32 7) (auth_bytes n) ! i = n_hmac n ! i) \<and>
              a = notification_alert n (format_details n KGP_DETAILS_LEN)) \<or>
      (\<exists>t seq code level d. pseudo_text seq code level d \<and> a = pseudo_alert t code level seq d))"
proof -
  obtain cursor s now a where
    c: "cmd_monitor (still_world hollow_ring) 0 None (replicate 32 7) example_opts (Some example_policy) [] = Inr (cursor, s)"
    and a: "Call_alert now a \<in> set (sk_calls s)"
    using hollow_monitor by blast
  show ?thesis by (rule exI [of _ cursor], rule exI [of _ s], rule exI [of _ now], rule exI [of _ a], intro conjI)
      (rule c, rule a, rule forged_never_steers [OF c a])
qed

theorem monitor_runs_engine_witness:
  "\<exists>cursor s runs. cmd_monitor (still_world hollow_ring) 0 None (replicate 32 7) example_opts (Some example_policy) [idle_turn] = Inr (cursor, s) \<and>
     eng_run example_policy (sk_calls s) kgp_init = (sk_eng s, runs) \<and> subseq (actions_of (sk_out s)) runs"
proof -
  obtain cursor s where c: "cmd_monitor (still_world hollow_ring) 0 None (replicate 32 7) example_opts (Some example_policy) [idle_turn] = Inr (cursor, s)"
    using cmd_monitor_total [of "[idle_turn]" "still_world hollow_ring" 0 None "replicate 32 7" example_opts "Some example_policy"]
    by (auto simp: idle_turn_def poll_error_def)
  from monitor_runs_engine [OF c] c show ?thesis by blast
qed

section \<open>Draining a ring the kernel filled\<close>

lemma cursors_of_nat:
  assumes "k \<le> l" and "l - k < 2 ^ 32"
  shows "cursors (of_nat k) (of_nat l) = map of_nat [k ..< l]"
proof -
  have d: "of_nat l - of_nat k = (of_nat (l - k) :: u32)" using assms(1) by simp
  have u: "unat (of_nat l - of_nat k :: u32) = l - k"
    unfolding d by (rule unat_of_nat_small) (use assms(2) in simp)
  have "map (\<lambda>j. of_nat k + of_nat j) [0 ..< l - k] = map (of_nat :: nat \<Rightarrow> u32) [k ..< l]"
    using assms(1) by (intro nth_equalityI) simp_all
  then show ?thesis by (simp add: cursors_def u)
qed

lemma log_slot:
  assumes "ring_rep r log" and "k < length log" and "length log \<le> k + KG_NOTIFY_SLOTS"
  shows "notifications r ! slot_of (of_nat k) = log ! k" and "slot_valid r (of_nat k)"
  using assms by (simp_all add: ring_rep_def slot_of_nat slot_valid_def)

text \<open>The newest entries of the log from position \<open>c\<close> on, sixteen at most.\<close>

definition unread :: "nat \<Rightarrow> kg_notification list \<Rightarrow> kg_notification list" where
  "unread c log = drop (max c (length log - KG_NOTIFY_SLOTS)) log"

lemma window_log:
  assumes rep: "ring_rep r log" and c: "c \<le> length log" "length log - c < 2 ^ 32"
  shows "window r (of_nat c) = map of_nat [max c (length log - KG_NOTIFY_SLOTS) ..< length log]"
    and "of_nat KG_NOTIFY_SLOTS < write_index r - of_nat c \<longleftrightarrow> c + KG_NOTIFY_SLOTS < length log"
proof -
  let ?L = "length log"
  have w: "write_index r = of_nat ?L" using rep by (simp add: ring_rep_def)
  have d: "of_nat ?L - of_nat c = (of_nat (?L - c) :: u32)" using c by simp
  have u: "unat (of_nat ?L - of_nat c :: u32) = ?L - c"
    unfolding d by (rule unat_of_nat_small) (use c in simp)
  show lap: "of_nat KG_NOTIFY_SLOTS < write_index r - of_nat c \<longleftrightarrow> c + KG_NOTIFY_SLOTS < ?L"
    unfolding w word_less_nat_alt u by (simp add: kg_const) linarith
  show "window r (of_nat c) = map of_nat [max c (?L - KG_NOTIFY_SLOTS) ..< ?L]"
  proof (cases "c + KG_NOTIFY_SLOTS < ?L")
    case True
    then have "write_index r - of_nat KG_NOTIFY_SLOTS = (of_nat (?L - KG_NOTIFY_SLOTS) :: u32)" by (simp add: w)
    moreover have "max c (?L - KG_NOTIFY_SLOTS) = ?L - KG_NOTIFY_SLOTS" using True by simp
    moreover have "cursors (of_nat (?L - KG_NOTIFY_SLOTS)) (of_nat ?L) = map of_nat [?L - KG_NOTIFY_SLOTS ..< ?L]"
      by (rule cursors_of_nat) (simp_all add: kg_const)
    ultimately show ?thesis using True lap by (simp add: window_def w)
  next
    case False
    then have "max c (?L - KG_NOTIFY_SLOTS) = c" using c(1) by simp
    with False show ?thesis using lap c by (simp add: window_def w cursors_of_nat)
  qed
qed

lemma drain_log_view:
  assumes rep: "ring_rep r log" and c: "c \<le> length log" "length log - c < 2 ^ 32"
    and auth: "\<forall>n \<in> set log. verdict key n"
  shows "concat (map (slot_shown r key) (window r (of_nat c))) = map (\<lambda>n. (n, True)) (unread c log)"
    and "map (slot_alert r key now) (window r (of_nat c)) =
      map (\<lambda>n. notification_alert n (format_details n KGP_DETAILS_LEN)) (unread c log)"
proof -
  let ?m = "max c (length log - KG_NOTIFY_SLOTS)"
  have dr: "unread c log = map ((!) log) [?m ..< length log]"
    unfolding unread_def by (rule nth_equalityI) simp_all
  have each: "slot_shown r key (of_nat k) = [(log ! k, True)] \<and>
      slot_alert r key now (of_nat k) = notification_alert (log ! k) (format_details (log ! k) KGP_DETAILS_LEN)"
    if "?m \<le> k" "k < length log" for k
  proof -
    have "length log \<le> k + KG_NOTIFY_SLOTS" using that by linarith
    note s = log_slot [OF rep that(2) this]
    have "verdict key (log ! k)" using auth that(2) by simp
    with s show ?thesis by (simp add: slot_shown_def slot_alert_def Let_def)
  qed
  show "concat (map (slot_shown r key) (window r (of_nat c))) = map (\<lambda>n. (n, True)) (unread c log)"
  proof -
    have "map (slot_shown r key) (window r (of_nat c)) = map (\<lambda>k. [(log ! k, True)]) [?m ..< length log]"
      unfolding window_log(1) [OF rep c] using each by simp
    then show ?thesis by (simp add: dr concat_map_singleton)
  qed
  show "map (slot_alert r key now) (window r (of_nat c)) =
      map (\<lambda>n. notification_alert n (format_details n KGP_DETAILS_LEN)) (unread c log)"
    unfolding window_log(1) [OF rep c] dr using each by simp
qed

section \<open>Acknowledgement\<close>

lemma newline_not_digit: "digit_of 10 newline = None"
  by (simp add: digit_of_def newline_def c_between_def cval_def Let_def)

lemma scan_cmd_ack:
  assumes "wi \<noteq> 0"
  shows "scan_lu (fmt_u (unat (wi - 1 :: u32)) @ [newline]) = Some (unat (wi - 1))"
proof -
  have "unat (wi - 1) < 2 ^ 64" using unat_bound [of "wi - 1"] by simp
  moreover have "fmt_u n \<noteq> []" for n using udigits_Cons [of 10 n] by (auto simp: fmt_u_def)
  ultimately show ?thesis
    by (simp add: scan_lu_def strtoul_fmt_u newline_not_digit)
qed

text \<open>
   \<open>kgmon ack\<close> and the running monitor agree: the file the command writes, once it is seen to be new, a
  regular file of root or of the monitor's user and not writable by others, acknowledges exactly the
  alerts up to the last one published when the command ran; the same file is not read twice; and a
  file that fails these checks changes nothing in the engine.
\<close>

theorem ack_roundtrip:
  assumes "cmd_ack wi = Some body" and "(as_ino st, as_sec st, as_nsec st) \<noteq> sk_ack_seen s"
  shows "sk_eng (policy_check_ack euid (Some (st, Some body)) s) =
      (if as_isreg st \<and> (as_uid st = 0 \<or> as_uid st = euid) \<and> \<not> as_writable st then kgp_ack (wi - 1) (sk_eng s) else sk_eng s) \<and>
    policy_check_ack euid (Some (st, c)) (policy_check_ack euid (Some (st, Some body)) s) = policy_check_ack euid (Some (st, Some body)) s"
proof -
  have wi: "wi \<noteq> 0" and body: "body = fmt_u (unat (wi - 1)) @ [newline]"
    using assms(1) by (auto simp: cmd_ack_def split: if_splits)
  have num: "of_nat (unat (wi - 1)) = wi - 1" by simp
  let ?s = "policy_check_ack euid (Some (st, Some body)) s"
  have seen: "sk_ack_seen ?s = (as_ino st, as_sec st, as_nsec st)"
    using assms(2) by (simp add: policy_check_ack_def Let_def say_def split: option.split)
  have "sk_eng ?s = (if as_isreg st \<and> (as_uid st = 0 \<or> as_uid st = euid) \<and> \<not> as_writable st
      then kgp_ack (wi - 1) (sk_eng s) else sk_eng s)"
    using assms(2) unfolding body policy_check_ack_def by (simp add: scan_cmd_ack [OF wi] num Let_def say_def)
  moreover have "policy_check_ack euid (Some (st, c)) ?s = ?s"
    by (subst policy_check_ack_def) (simp add: seen)
  ultimately show ?thesis by blast
qed

definition ack_file_stat :: ack_stat where
  "ack_file_stat = \<lparr>as_ino = 12, as_sec = 100, as_nsec = 5, as_isreg = True, as_uid = 0, as_writable = False\<rparr>"

theorem ack_roundtrip_witness:
  "sk_eng (policy_check_ack 0 (Some (ack_file_stat, cmd_ack 18)) (sinks_init example_opts (Some example_policy))) =
     kgp_ack 17 (sk_eng (sinks_init example_opts (Some example_policy)))"
proof -
  obtain body where t: "cmd_ack 18 = Some body" by (simp add: cmd_ack_def)
  have n: "(as_ino ack_file_stat, as_sec ack_file_stat, as_nsec ack_file_stat) \<noteq>
      sk_ack_seen (sinks_init example_opts (Some example_policy))"
    by (simp add: ack_file_stat_def sinks_init_def)
  from ack_roundtrip [OF t n, of 0] show ?thesis by (simp add: t ack_file_stat_def)
qed

section \<open>A drain is bounded\<close>

definition kview :: "sinks \<Rightarrow> nat \<times> nat" where
  "kview s = (k_slot s, length (sk_emitted s))"

lemma kview_upd [simp]:
  "kview (say es s) = kview s"
  "kview (s\<lparr>k_mono := k\<rparr>) = kview s" "kview (s\<lparr>k_real := k\<rparr>) = kview s" "kview (s\<lparr>k_fork := k\<rparr>) = kview s"
  "kview (s\<lparr>k_index := k\<rparr>) = kview s" "kview (s\<lparr>k_signal := k\<rparr>) = kview s"
  "kview (s\<lparr>sk_children := cs\<rparr>) = kview s" "kview (s\<lparr>sk_stop := b\<rparr>) = kview s" "kview (s\<lparr>sk_eng := e\<rparr>) = kview s"
  "kview (s\<lparr>sk_calls := c\<rparr>) = kview s"
  by (simp_all add: kview_def say_def)

lemma kview_notify_desktop [simp]: "kview (notify_desktop w title body s) = kview s"
  by (simp add: notify_desktop_def do_fork_def child_track_def mono_s_def split: option.split)

lemma kview_run_action [simp]: "kview (run_action_cb w r s) = kview s"
  by (simp add: run_action_cb_def Let_def do_fork_def child_track_def mono_s_def split: option.split)

lemma kview_fold_actions [simp]: "kview (fold (run_action_cb w) runs s) = kview s"
  by (induction runs arbitrary: s) simp_all

lemma kview_feed_alert [simp]: "kview (feed_alert w a s) = kview s"
  by (simp add: feed_alert_def mono_s_def split: prod.split)

lemma kview_policy_pseudo [simp]: "kview (policy_pseudo w code level seq d s) = kview s"
  by (simp add: policy_pseudo_def)

lemma kview_emit_alert: "kview (emit_alert w n ok s) = (k_slot s, Suc (length (sk_emitted s)))"
proof -
  have pf: "kview (policy_feed w n ok d x) = kview x" for d x by (simp add: policy_feed_def)
  have sh: "kview (x\<lparr>sk_shown := v, sk_emitted := sk_emitted x @ [e]\<rparr>) = (fst (kview x), Suc (snd (kview x)))" for x v e
    by (simp add: kview_def)
  have cond: "kview (if c then notify_desktop w t d x else x) = kview x" for c t d x by simp
  show ?thesis unfolding emit_alert_def Let_def sh pf cond by (simp only: kview_upd(1)) (simp add: kview_def)
qed

lemma kview_try_slot: "kview (snd (try_slot w k cursor s)) = (k_slot (snd (try_slot w k cursor s)), length (sk_emitted s)) \<and>
   k_slot (snd (try_slot w k cursor s)) \<le> k_slot s + k"
proof (induction k arbitrary: s)
  case (Suc k)
  show ?case using Suc [of "s\<lparr>k_slot := k_slot s + 1\<rparr>"] by (simp add: Let_def kview_def)
qed (simp add: kview_def)

lemma kview_drain_unread [simp]: "kview (drain_unread w cursor s) = kview s"
  by (simp add: drain_unread_def Let_def load_index_def)

lemma kview_drain_one:
  "k_slot (drain_one w key cursor s) \<le> k_slot s + 50 \<and>
   length (sk_emitted (drain_one w key cursor s)) \<le> length (sk_emitted s) + 1"
proof -
  obtain res s1 where t: "try_slot w 50 cursor s = (res, s1)" by fastforce
  have s1: "k_slot s1 \<le> k_slot s + 50" "length (sk_emitted s1) = length (sk_emitted s)"
    using kview_try_slot [of w 50 cursor s] by (simp_all add: t kview_def)
  define s2 where "s2 = (case res of SLOT_OK n \<Rightarrow> emit_alert w n (verdict key n) s1 | _ \<Rightarrow> drain_unread w cursor s1)"
  have "k_slot s2 = k_slot s1 \<and> length (sk_emitted s2) \<le> Suc (length (sk_emitted s1))"
    using kview_emit_alert [of w _ _ s1] kview_drain_unread [of w cursor s1]
    by (cases res) (simp_all add: s2_def kview_def)
  moreover have "kview (drain_one w key cursor s) = kview s2"
    unfolding drain_one_def t Let_def prod.case s2_def [symmetric] by simp
  ultimately show ?thesis using s1 by (simp add: kview_def)
qed

lemma kview_drain_loop:
  "k_slot (snd (drain_loop w key wi cursor s)) \<le> k_slot s + 50 * unat (wi - cursor) \<and>
   length (sk_emitted (snd (drain_loop w key wi cursor s))) \<le> length (sk_emitted s) + unat (wi - cursor)"
proof (induction "unat (wi - cursor)" arbitrary: cursor s rule: less_induct)
  case less
  obtain stop s1 where t: "test_stop w s = (stop, s1)" by fastforce
  have s1: "k_slot s1 = k_slot s" "sk_emitted s1 = sk_emitted s" using t by (auto simp: test_stop_def Let_def)
  show ?case
  proof (cases "cursor = wi \<or> stop")
    case True
    then show ?thesis by (subst (1 2) drain_loop.simps) (auto simp: t s1)
  next
    case False
    let ?s2 = "drain_one w key cursor s1"
    have "wi - cursor \<noteq> 0" using False by auto
    then have u: "unat (wi - cursor) = Suc (unat (wi - (cursor + 1)))"
      using unat_minus_one [of "wi - cursor"] by (simp add: diff_diff_eq unat_gt_0)
    then have "unat (wi - (cursor + 1)) < unat (wi - cursor)" by simp
    from less.hyps [OF this, of ?s2] kview_drain_one [of w key cursor s1] show ?thesis
      using False by (simp add: drain_loop.simps [of w key wi cursor] t u s1)
  qed
qed

text \<open>
   One drain always ends, however fast the kernel (or an attacker) writes to the ring meanwhile: it shows
  at most sixteen notifications and makes at most fifty attempts to read each.
\<close>

theorem drain_bounded:
  "length (sk_emitted (snd (drain w key cursor s))) \<le> length (sk_emitted s) + KG_NOTIFY_SLOTS \<and>
   k_slot (snd (drain w key cursor s)) \<le> k_slot s + 50 * KG_NOTIFY_SLOTS"
proof -
  obtain wi s1 where l: "load_index w s = (wi, s1)" by fastforce
  have s1: "kview s1 = kview s" using l by (auto simp: load_index_def)
  show ?thesis
  proof (cases "of_nat KG_NOTIFY_SLOTS < wi - cursor")
    case True
    define s2 where "s2 = policy_pseudo w KGP_ALERT_OVERRUN KGP_CRITICAL cursor
       (fmt_u (unat (wi - cursor - of_nat KG_NOTIFY_SLOTS)) @ '' notification(s) lost: the ring was lapped'')
       (say [Ev_stderr (''kgmon: ring overrun - '' @ fmt_u (unat (wi - cursor - of_nat KG_NOTIFY_SLOTS)) @ '' notification(s) lost'')] s1)"
    have "kview s2 = kview s" by (simp add: s2_def s1)
    moreover have "drain w key cursor s = drain_loop w key wi (wi - of_nat KG_NOTIFY_SLOTS) s2"
      unfolding drain_def l Let_def prod.case s2_def using True by simp
    moreover have "unat (wi - (wi - of_nat KG_NOTIFY_SLOTS)) = KG_NOTIFY_SLOTS" by (simp add: kg_const)
    ultimately show ?thesis
      using kview_drain_loop [of w key wi "wi - of_nat KG_NOTIFY_SLOTS" s2] by (simp add: kview_def)
  next
    case False
    then have "unat (wi - cursor) \<le> KG_NOTIFY_SLOTS" by (simp add: word_less_nat_alt not_less kg_const)
    moreover have "drain w key cursor s = drain_loop w key wi cursor s1"
      unfolding drain_def l Let_def prod.case using False by simp
    ultimately show ?thesis
      using kview_drain_loop [of w key wi cursor s1] s1 by (simp add: kview_def)
  qed
qed

end
