(* ===== verification/Spec2Isabelle.thy ===== *)
theory Spec2Isabelle
  imports KG_State KG_Pmu KG_Integrity KG_Hw KG_Input KG_Monitor
begin

text \<open>
  \<^bold>\<open>KernelGuard: a verification development.\<close>

  KernelGuard watches a running Linux kernel for cache side-channel attacks, tampering and driver abuse.  It has two
  programs: a kernel module (\<^verbatim>\<open>src/linux/module\<close>) and the monitor \<^verbatim>\<open>kgmon\<close> (\<^verbatim>\<open>src/linux/monitor\<close>), which share the
  structures of \<^verbatim>\<open>src/linux/include/kernelguard_uapi.h\<close>.  The detectors of the module report alerts to one router; the router
  delivers each alert to an authenticated ring in shared memory, and answers it by flushing CPUs and by raising a graduated
  posture, which in turn governs the mitigation strategy of every CPU, the scan cadence and whether the driver enforces.  The
  monitor reads the ring, checks the MAC of every notification and runs the actions of an escalation policy.

  \<^bold>\<open>Theories\<close>, each of which opens with what it holds:

  \<^item> \<open>KG_Prelude\<close>, \<open>KG_Cstring\<close>: machine integers, error numbers, byte order and the C string functions the sources
    call; the fact collections \<open>kg_const\<close>, \<open>kg_inv\<close>, \<open>kg_frame\<close>.
  \<^item> \<open>KG_Uapi\<close>: the shared structures and constants.
  \<^item> \<open>KG_Hmac\<close> (\<^verbatim>\<open>kg_hmac.c\<close>): incremental SHA-256 and HMAC, equal to their specifications for every way of cutting the
    message, through the interface \<open>stream_hash\<close>; constant-time comparison.
  \<^item> \<open>KG_Guard\<close> (\<^verbatim>\<open>kg_state.c\<close>, \<^verbatim>\<open>kg.h\<close>): the integrity-protected policy state; a change that does not go through the driver is
    detected unless the hash collides.
  \<^item> \<open>KG_Mitigate\<close> (\<^verbatim>\<open>kg_mitigate.c\<close>): CPU probe, strategies, posture floor, flushes; the invariant that from HIGH
    upwards every CPU is at full-spectrum mitigation.
  \<^item> \<open>KG_Sens\<close> (\<^verbatim>\<open>kg_state.c\<close>): allow-list search and the registry of sensitive memory.
  \<^item> \<open>KG_Comms\<close> (\<^verbatim>\<open>kg_comms.c\<close>): rate limiter, ring, uevent worker, mmap and poll.  The ring refines an append-only log
    (interface \<open>alert_log\<close>); critical alerts are never rate-limited; the sustained rate of the others is bounded.
  \<^item> \<open>KG_State\<close> (\<^verbatim>\<open>kg_posture.c\<close>, router of \<^verbatim>\<open>kg_state.c\<close>): the state of the whole core as the record \<open>kg_sys\<close>; the
    mutually recursive report, dispatch, raise and follow-up with their termination; the posture ladder, its latch, its
    decay and its invariant over every sequence of operations.
  \<^item> \<open>KG_Modgate\<close> (\<^verbatim>\<open>kg_modgate.c\<close>, module walk of \<^verbatim>\<open>kg_integrity.c\<close>): deny list, lock mode, verdict, audit; the gate closes
    itself under \<open>auto_enforce\<close>.
  \<^item> \<open>KG_Modid\<close> (\<^verbatim>\<open>kg_modid.c\<close>): the ELF reader with explicit memory, which never reads outside the file, and whose printed
    entry denies exactly the module it was read from.
  \<^item> \<open>KG_Pmu\<close> (\<^verbatim>\<open>kg_pmu.c\<close>): overflow handler and sampler; the majority vote, the spacing of alerts, and the protection of a
    critical CPU together with its SMT siblings.
  \<^item> \<open>KG_Textscan\<close>, \<open>KG_Integrity\<close> (\<^verbatim>\<open>kg_integrity.c\<close>): the bounds of the kernel text, the monitored regions with their
    baseline copies and the classification of a modified run; CPU control state, interrupt table, module notifier and worker.
    Live memory is a snapshot per reading.  Every stable change of monitored text is answered in the pass that sees it, once;
    the CPU checks report exactly what changed.
  \<^item> \<open>KG_Hw\<close> (\<^verbatim>\<open>kg_hw.c\<close>): the MCFG table, the walk over the PCI configuration space as it is in hardware, its comparison
    with the operating system's list, and the audit of bus masters.  Configuration space is a memory of bytes; the calls of
    the kernel's PCI layer are arguments.  The walk ends and lists exactly the functions reachable through bridges; a
    difference is reported on the second scan that shows it, once; under enforcement an unauthorised bus master that is
    announced as disabled is off.
  \<^item> \<open>KG_Input\<close> (\<^verbatim>\<open>kg_input.c\<close>): the handlers attached to keyboards, their callbacks and the detours at their entry points,
    as a store of devices that other parts of the kernel change between two scans.  A pass reports exactly the new findings,
    and under enforcement leaves only authorised handlers attached.
  \<^item> \<open>KG_Policy\<close>, \<open>KG_Engine\<close> (\<^verbatim>\<open>kg_policy.c\<close>): parser and engine of the monitor's escalation policy.  A parsed policy is well
    formed; the incident table implements a keyed table (interface \<open>keyed_table\<close>) and treats each incident as its
    abstract episode says.
  \<^item> \<open>KG_Ring\<close> (\<^verbatim>\<open>kg_comms.c\<close>, \<^verbatim>\<open>kgmon.c\<close>): the publication of one slot interleaved with a reader that takes no lock, as a step
    relation; what a copy the reader accepts can consist of.
  \<^item> \<open>KG_Text\<close>, \<open>KG_Monitor\<close> (\<^verbatim>\<open>kgmon.c\<close>): what the monitor prints and logs; helper processes, acknowledgement, the ring
    reader and the main loop, in a world that answers each call differently.  Only authenticated notifications reach the
    policy, helpers are bounded, one drain is bounded, and a still ring is reported exactly.

  The last section of this theory composes both programs: alerts raised in the kernel reach the policy of the monitor.

  \<^bold>\<open>Conventions.\<close>  A section under a lock is one operation, and within one operation the clocks are read once.  C integers are
  words of their width, so wrap-around is part of the model.  Errors are values: \<open>errno\<close> in the module, sum types in the
  monitor.  What an operation does to the outside (notifications, flushes, kicks) is appended to a trace in order.  Code that
  is not in the repository (the kernel's SHA-256 and HMAC transforms, allocators, hot-plug, notifier chains, the file system) is
  an argument; a property that needs something of it says so as a hypothesis.  No recursion uses fuel: every loop of the
  modelled code ends, and its termination is proved where it is defined.

  \<^bold>\<open>Not modelled.\<close>  The entry points and the device node (\<^verbatim>\<open>kg_main.c\<close>), and the reporting commands of \<^verbatim>\<open>kgmon.c\<close> are next in the plan; the Windows driver is the older sibling
  of the same design.  Log lines, MSR and instruction encodings, self-tests, fuzzers and the test modules are left out.
\<close>

section \<open>From the kernel to the policy\<close>

lemma start_cursor_log:
  assumes "ring_rep r log" and "length log < 2 ^ 32" and "\<not> o_new_only opts"
  shows "start_cursor opts (write_index r) = of_nat (length log - KG_NOTIFY_SLOTS)"
proof -
  have w: "write_index r = of_nat (length log)" using assms(1) by (simp add: ring_rep_def)
  have u: "unat (of_nat (length log) :: u32) = length log" by (rule unat_of_nat_small) (use assms(2) in simp)
  have "of_nat KG_NOTIFY_SLOTS < (of_nat (length log) :: u32) \<longleftrightarrow> KG_NOTIFY_SLOTS < length log"
    unfolding word_less_nat_alt u by (simp add: kg_const)
  then show ?thesis using assms(3) by (simp add: start_cursor_def w)
qed

lemma monitor_start:
  assumes w: "still w r now" and rep: "ring_rep r log" and len: "length log < 2 ^ 32"
    and opts: "\<not> o_new_only opts" "o_max_alerts opts = 0"
    and auth: "\<forall>n \<in> set log. verdict key n"
  shows "\<exists>s. cmd_monitor w euid usec key opts (Some p) [] = Inr (of_nat (length log), s) \<and>
    sk_emitted s = map (\<lambda>n. (n, True)) (unread 0 log) \<and>
    alerts_of (sk_calls s) = map (\<lambda>n. notification_alert n (format_details n KGP_DETAILS_LEN)) (unread 0 log)"
proof -
  define c where "c = length log - KG_NOTIFY_SLOTS"
  define s0 where "s0 = (sinks_init opts (Some p))\<lparr>k_index := 1\<rparr>"
  have l: "load_index w (sinks_init opts (Some p)) = (write_index r, s0)"
    using w by (simp add: load_index_def still_def s0_def sinks_init_def)
  have st: "start_cursor opts (write_index r) = of_nat c" by (simp add: c_def start_cursor_log [OF rep len opts(1)])
  have cl: "c \<le> length log" "length log - c < 2 ^ 32" by (simp_all add: c_def kg_const)
  have u: "unread c log = unread 0 log" by (simp add: unread_def c_def)
  have lap: "lapped_alert r now (of_nat c) = []"
    using window_log(2) [OF rep cl] by (simp add: lapped_alert_def c_def)
  have v: "rview s0 = (opts, False, True, [], [])" by (simp add: s0_def rview_init)
  obtain s1 where d: "drain w key (of_nat c) s0 = (write_index r, s1)"
    and r1: "rview s1 = (opts, False, True, map (\<lambda>n. (n, True)) (unread 0 log),
                map (\<lambda>n. notification_alert n (format_details n KGP_DETAILS_LEN)) (unread 0 log))"
    using drain_rview [OF w v opts(2), of key "of_nat c"] drain_log_view [OF rep cl auth] by (auto simp: lap u)
  have wi: "write_index r = of_nat (length log)" using rep by (simp add: ring_rep_def)
  define s2 where "s2 = (if o_once opts then s1 else say [Ev_sd (''READY=1'' @ [newline] @ ''STATUS=watching for alerts'')] s1)"
  have m: "cmd_monitor w euid usec key opts (Some p) [] = Inr (write_index r, s2)"
    unfolding cmd_monitor_def l Let_def prod.case st d s2_def by simp
  have "rview s2 = rview s1" by (simp add: s2_def)
  with m r1 wi show ?thesis by (intro exI [of _ s2]) (simp add: rview_def)
qed

text \<open>
  C4.  End to end.  The kernel module starts its alert channel, any sequence of alerts is raised, and a monitor
  started afterwards reads the key through the driver and the ring through its mapping.  Provided the
  kernel's keyed digest is HMAC-SHA256, the monitor shows the newest sixteen published notifications
  in order, each with a valid HMAC, and hands exactly these to the policy engine; the published
  notifications are alerts that were raised, in order, and no critical one is missing from them.
\<close>

theorem alerts_end_to_end:
  assumes "kg_comms_init rec ptr tgid csize page tfm setkey bootkey now l st = (Some c0, l0, st0, None)"
    and "notify_run mac calls (Some c0) st0 = (Some c, st1)" and "length calls < 2 ^ 32"
    and "\<forall>m. mac bootkey m = Inr (hmac_spec bootkey m)"
    and "kg_comms_get_key True (Some c) = Inr key"
    and "still w (kc_ring c) t" and "\<not> o_new_only opts" and "o_max_alerts opts = 0"
  shows "\<exists>log s. cmd_monitor w euid usec key opts (Some p) [] = Inr (of_nat (length log), s) \<and>
    sk_emitted s = map (\<lambda>n. (n, True)) (unread 0 log) \<and>
    alerts_of (sk_calls s) = map (\<lambda>n. notification_alert n (format_details n KGP_DETAILS_LEN)) (unread 0 log) \<and>
    subseq (map payload_of log) (map snd calls) \<and>
    filter critical (map payload_of log) = filter critical (map snd calls)"
proof -
  have c0: "kc_key c0 = bootkey" "ring_rep (kc_ring c0) []"
    using assms(1) by (auto simp: kg_comms_init_def ring_rep_zero Let_def split: option.splits prod.splits if_splits)
  obtain c' log where c': "Some c = Some c'" "kc_key c' = kc_key c0" "ring_rep (kc_ring c') ([] @ log)"
    "\<forall>n \<in> set ([] @ log). authentic mac (kc_key c0) n" "subseq (map payload_of log) (map snd calls)"
    "(\<forall>m. \<exists>h. mac (kc_key c0) m = Inr h) \<Longrightarrow> filter critical (map payload_of log) = filter critical (map snd calls)"
    by (rule notify_run_log [OF assms(2) c0(2)]) auto
  have key: "key = bootkey" using assms(5) c' c0(1) by (simp add: kg_comms_get_key_def)
  have crit: "filter critical (map payload_of log) = filter critical (map snd calls)"
    using c'(6) assms(4) c0(1) by simp
  have "length log \<le> length calls" using list_emb_length [OF c'(5)] by simp
  then have len: "length log < 2 ^ 32" using assms(3) by simp
  have "verdict key n" if "n \<in> set log" for n
  proof -
    have "mac bootkey (auth_bytes n) = Inr (n_hmac n)" using c'(4) that c0(1) by (simp add: authentic_def)
    then show ?thesis using assms(4) by (simp add: verdict_def kg_hmac_eq key)
  qed
  then obtain s where "cmd_monitor w euid usec key opts (Some p) [] = Inr (of_nat (length log), s)"
    "sk_emitted s = map (\<lambda>n. (n, True)) (unread 0 log)"
    "alerts_of (sk_calls s) = map (\<lambda>n. notification_alert n (format_details n KGP_DETAILS_LEN)) (unread 0 log)"
    using monitor_start [OF assms(6) _ len assms(7,8), of key euid usec p] c'(1,3) by auto
  with c'(5) crit show ?thesis by blast
qed

theorem alerts_end_to_end_witness:
  "let k = replicate 32 (3::u8);
       (kc, l, st, _) = kg_comms_init True (Some 64) 1 200 True None None k 0 [] zero_stats;
       calls = [(1, 10, KG_ALERT_IDT_HOOK, 2, 0, 0), (2, 20, KG_ALERT_MODULE_LOADED, 0, 7, 8)];
       c = the (fst (notify_run hmac_mac calls kc st))
   in \<exists>log s. cmd_monitor (still_world (kc_ring c)) 0 None k example_opts (Some example_policy) [] = Inr (of_nat (length log), s) \<and>
        sk_emitted s = map (\<lambda>n. (n, True)) (unread 0 log) \<and>
        filter critical (map payload_of log) = [(10, KG_ALERT_IDT_HOOK, 2, 0, 0)]"
proof -
  let ?k = "replicate 32 (3::u8)"
  let ?calls = "[(1, 10, KG_ALERT_IDT_HOOK, 2, 0, 0), (2, 20, KG_ALERT_MODULE_LOADED, 0, 7, 8)]"
  obtain c0 l0 st0 where i: "kg_comms_init True (Some 64) 1 200 True None None ?k 0 [] zero_stats = (Some c0, l0, st0, None)"
    and k0: "kc_key c0 = ?k" and rep: "ring_rep (kc_ring c0) []"
    by (simp add: kg_comms_init_def kg_sens_alloc_def kg_sens_free_def ring_rep_zero)
  obtain kc st1 where r0: "notify_run hmac_mac ?calls (Some c0) st0 = (kc, st1)" by fastforce
  obtain c log where c: "kc = Some c" "kc_key c = kc_key c0"
    by (rule notify_run_log [OF r0 rep]) auto
  have r: "notify_run hmac_mac ?calls (Some c0) st0 = (Some c, st1)" using r0 c(1) by simp
  have mac: "\<forall>m. hmac_mac ?k m = Inr (hmac_spec ?k m)" by (simp add: hmac_mac_def kg_hmac_eq)
  have g: "kg_comms_get_key True (Some c) = Inr ?k" using c(2) k0 by (simp add: kg_comms_get_key_def)
  have o: "\<not> o_new_only example_opts" "o_max_alerts example_opts = 0" by (simp_all add: example_opts_def)
  have len: "length ?calls < 2 ^ 32" by simp
  have crit: "filter critical (map snd ?calls) = [(10, KG_ALERT_IDT_HOOK, 2, 0, 0)]"
    by (simp add: critical_def kg_const)
  from alerts_end_to_end [OF i r len mac g still_still_world o, where euid = 0 and usec = None and p = example_policy]
  show ?thesis
    unfolding Let_def i prod.case r fst_conv option.sel crit by blast
qed

end
